(* ===== verification/Prelude.thy ===== *)
theory Prelude
  imports Main "HOL-Library.Word" "HOL-Library.Signed_Division"
begin

unbundle bit_operations_syntax

text \<open>
  What every component shares: C integers (\<open>i32\<close>, truncating division), memory buffers
  as lists of bytes with the C operations on them (\<open>malloc\<close>, \<open>memset\<close>, the xor loops), the
  exclusive-or sum \<open>xsum\<close> over a list, and the collections of facts the component theories use.
\<close>

named_theorems buf_simps \<open>length and element of the buffer operations\<close>

section \<open>C integers\<close>

type_synonym byte = "8 word"

text \<open>
  A C \<open>int\<close> is a HOL \<open>int\<close>. The products that form byte addresses
  (\<open>block_no * block_size\<close>) are 32-bit multiplications in the code and wrap as
  two's complement: \<open>i32\<close> writes the wrap-around out. The code's \<open>/\<close> and \<open>%\<close>
  truncate towards zero: \<open>sdiv\<close> and \<open>smod\<close>.
\<close>

definition i32 :: "int \<Rightarrow> int" where
  "i32 x = (x + 2147483648) mod 4294967296 - 2147483648"

lemma i32_id: "- 2147483648 \<le> x \<Longrightarrow> x < 2147483648 \<Longrightarrow> i32 x = x"
  by (simp add: i32_def)

lemma i32_range: "- 2147483648 \<le> i32 x \<and> i32 x < 2147483648"
  by (simp add: i32_def)

lemma sdiv_nonneg [simp]: "0 \<le> (a::int) \<Longrightarrow> 0 \<le> b \<Longrightarrow> a sdiv b = a div b"
  by (auto simp: signed_divide_int_def sgn_if)

lemma smod_nonneg [simp]: "0 \<le> (a::int) \<Longrightarrow> 0 \<le> b \<Longrightarrow> a smod b = a mod b"
  by (cases "a = 0") (auto simp: signed_modulo_int_def)

lemma smod_neg: "(a::int) \<le> 0 \<Longrightarrow> 0 < b \<Longrightarrow> a smod b = - ((- a) mod b)"
  by (cases "a = 0") (auto simp: signed_modulo_int_def)

text \<open>The code's way to bring a remainder of a difference back into the range \<open>0..k-1\<close>.\<close>

lemma smod_wrap:
  assumes "0 < (k::int)" and "- k < a" and "a < k"
  shows "(if a smod k \<ge> 0 then a smod k else a smod k + k) = a mod k"
proof (cases "0 \<le> a")
  case True
  with assms show ?thesis by simp
next
  case False
  then have s: "a smod k = - ((- a) mod k)" using assms by (simp add: smod_neg)
  have n: "(- a) mod k = - a" using False assms by (intro mod_pos_pos_trivial) auto
  have "a mod k = (a + k) mod k" by simp
  also have "\<dots> = a + k" using False assms by (intro mod_pos_pos_trivial) auto
  finally show ?thesis using s n False by simp
qed

section \<open>Memory buffers\<close>

text \<open>
  A \<open>char *\<close> buffer is the list of the bytes it holds. Memory that \<open>malloc\<close> returns is not
  initialised: its contents, and the bytes behind the end of a caller's buffer, are given by a
  function \<open>junk\<close> that every theorem leaves arbitrary.
\<close>

definition malloc :: "(nat \<Rightarrow> byte) \<Rightarrow> nat \<Rightarrow> byte list" where
  "malloc junk n = map junk [0..<n]"

definition zeros :: "nat \<Rightarrow> byte list" where
  "zeros n = replicate n 0"

definition peek :: "(nat \<Rightarrow> byte) \<Rightarrow> byte list \<Rightarrow> nat \<Rightarrow> byte" where
  "peek junk b j = (if j < length b then b ! j else junk j)"

text \<open>\<open>memcpy(b + off, d, length d)\<close>.\<close>

definition overwrite :: "byte list \<Rightarrow> nat \<Rightarrow> byte list \<Rightarrow> byte list" where
  "overwrite b off d = take off b @ d @ drop (off + length d) b"

text \<open>\<open>for (j = 0; j < n; j++) dst[j] = dst[j] ^ src[j];\<close>\<close>

definition xor_into :: "(nat \<Rightarrow> byte) \<Rightarrow> nat \<Rightarrow> byte list \<Rightarrow> byte list \<Rightarrow> byte list" where
  "xor_into junk n dst src =
     map (\<lambda>j. if j < n then dst ! j XOR peek junk src j else dst ! j) [0..<length dst]"

text \<open>
  The same loop over \<open>int\<close> pointers runs \<open>n / sizeof(int)\<close> times and so covers the first
  \<open>4 * (n div 4)\<close> bytes.
\<close>

definition xor_ints :: "(nat \<Rightarrow> byte) \<Rightarrow> nat \<Rightarrow> byte list \<Rightarrow> byte list \<Rightarrow> byte list" where
  "xor_ints junk n dst src = xor_into junk (4 * (n div 4)) dst src"

lemma length_malloc [simp, buf_simps]: "length (malloc junk n) = n"
  by (simp add: malloc_def)

lemma nth_malloc [buf_simps]: "j < n \<Longrightarrow> malloc junk n ! j = junk j"
  by (simp add: malloc_def)

lemma length_zeros [simp, buf_simps]: "length (zeros n) = n"
  by (simp add: zeros_def)

lemma nth_zeros [simp, buf_simps]: "j < n \<Longrightarrow> zeros n ! j = 0"
  by (simp add: zeros_def)

lemma peek_in [simp]: "j < length b \<Longrightarrow> peek junk b j = b ! j"
  by (simp add: peek_def)

lemma length_overwrite [simp, buf_simps]:
  "off + length d \<le> length b \<Longrightarrow> length (overwrite b off d) = length b"
  by (simp add: overwrite_def)

lemma nth_overwrite [buf_simps]:
  assumes "off + length d \<le> length b" and "a < length b"
  shows "overwrite b off d ! a = (if off \<le> a \<and> a < off + length d then d ! (a - off) else b ! a)"
  using assms by (auto simp: overwrite_def nth_append)

lemma length_xor_into [simp, buf_simps]: "length (xor_into junk n dst src) = length dst"
  by (simp add: xor_into_def)

lemma nth_xor_into [buf_simps]:
  "j < length dst \<Longrightarrow>
   xor_into junk n dst src ! j = (if j < n then dst ! j XOR peek junk src j else dst ! j)"
  by (simp add: xor_into_def)

lemma length_xor_ints [simp, buf_simps]: "length (xor_ints junk n dst src) = length dst"
  by (simp add: xor_ints_def)

lemma xor_ints_eq [buf_simps]: "4 dvd n \<Longrightarrow> xor_ints junk n dst src = xor_into junk n dst src"
  by (simp add: xor_ints_def)

section \<open>The exclusive-or sum of a list\<close>

definition xsum :: "('a \<Rightarrow> 'b::len word) \<Rightarrow> 'a list \<Rightarrow> 'b word" where
  "xsum f xs = foldr (\<lambda>x acc. f x XOR acc) xs 0"

lemma xsum_Nil [simp]: "xsum f [] = 0"
  by (simp add: xsum_def)

lemma xsum_Cons [simp]: "xsum f (x # xs) = f x XOR xsum f xs"
  by (simp add: xsum_def)

lemma xor_left_cancel [simp]: "(a::'b::len word) XOR (a XOR b) = b"
  by (simp flip: xor.assoc)

lemma xor_eq_iff: "(a XOR b = c) \<longleftrightarrow> (a = b XOR (c::'b::len word))"
  by (metis xor.commute xor_left_cancel)

lemma xsum_append [simp]: "xsum f (xs @ ys) = xsum f xs XOR xsum f ys"
  by (induction xs) (simp_all add: xor.assoc)

lemma xsum_map [simp]: "xsum f (map g xs) = xsum (\<lambda>x. f (g x)) xs"
  by (induction xs) simp_all

lemma xsum_cong [fundef_cong]:
  "xs = ys \<Longrightarrow> (\<And>x. x \<in> set ys \<Longrightarrow> f x = g x) \<Longrightarrow> xsum f xs = xsum g ys"
  by (induction ys arbitrary: xs) auto

lemma xsum_zero [simp]: "xsum (\<lambda>_. 0) xs = 0"
  by (induction xs) simp_all

lemma xsum_xor: "xsum (\<lambda>x. f x XOR g x) xs = xsum f xs XOR xsum g xs"
  by (induction xs) (simp_all add: ac_simps)

lemma xsum_filter: "xsum f (filter P xs) = xsum (\<lambda>x. if P x then f x else 0) xs"
  by (induction xs) simp_all

lemma xsum_rev [simp]: "xsum f (rev xs) = xsum f xs"
  by (induction xs) (simp_all add: ac_simps)

lemma xsum_swap: "xsum (\<lambda>x. xsum (f x) ys) xs = xsum (\<lambda>y. xsum (\<lambda>x. f x y) xs) ys"
  by (induction xs) (simp_all add: xsum_xor)

lemma xsum_single:
  "distinct xs \<Longrightarrow> xsum (\<lambda>y. if y = x then v else 0) xs = (if x \<in> set xs then v else 0)"
  by (induction xs) auto

lemma xsum_indicator:
  "xsum (\<lambda>y. if y = x then v else 0) xs = (if odd (count_list xs x) then v else 0)"
  by (induction xs) auto

text \<open>One summand taken out of the sum.\<close>

lemma xsum_remove:
  assumes "distinct xs" and "x \<in> set xs"
  shows "xsum f xs = f x XOR xsum f (filter (\<lambda>y. y \<noteq> x) xs)"
proof -
  have "xsum f xs = xsum (\<lambda>y. (if y = x then f x else 0) XOR (if y \<noteq> x then f y else 0)) xs"
    by (rule xsum_cong) auto
  also have "\<dots> = f x XOR xsum f (filter (\<lambda>y. y \<noteq> x) xs)"
    using assms by (simp only: xsum_xor xsum_single xsum_filter) simp
  finally show ?thesis .
qed

text \<open>A sum whose value is known determines each summand from the others.\<close>

lemma xsum_solve:
  assumes "distinct xs" and "x \<in> set xs" and "xsum f xs = 0"
  shows "xsum f (filter (\<lambda>y. y \<noteq> x) xs) = f x"
  using xsum_remove [OF assms(1,2), of f] assms(3) by (simp add: xor_eq_iff)

text \<open>The sum after a change of the summands: each changed by its own difference.\<close>

lemma xsum_delta: "xsum g xs = xsum f xs XOR xsum (\<lambda>x. f x XOR g x) xs"
  by (simp add: xsum_xor)

lemma sdiv_2_neg: "(a::int) < 0 \<Longrightarrow> a sdiv 2 \<le> 0"
  by (simp add: signed_divide_int_def)

lemma dvd_4_nat: "4 dvd (k::int) \<Longrightarrow> 4 dvd nat k"
  by (cases "0 \<le> k") (auto simp: nat_mult_distrib zero_le_mult_iff elim!: dvdE)

lemma xor_eq_self: "(x :: 'a::len word) XOR y = x \<longleftrightarrow> y = 0" "x = x XOR y \<longleftrightarrow> y = 0"
  by (metis xor.assoc xor_self_eq xor.left_neutral xor.right_neutral)+

text \<open>\<open>1 << t\<close> on \<open>int\<close>, for the shifts that are defined.\<close>

definition shl1 :: "int \<Rightarrow> int" where
  "shl1 t = i32 (2 ^ nat t)"

lemma i32_pow: "n \<le> 30 \<Longrightarrow> i32 (2 ^ n) = 2 ^ n"
  using power_increasing [of n 30 "2::int"] order_trans [OF _ zero_le_power, of "- 2147483648" "2::int" n]
  by (intro i32_id) auto

lemma shl1_small:
  assumes "t \<le> 30"
  shows "shl1 t = 2 ^ nat t"
  using assms by (simp add: shl1_def i32_pow)

lemma count_distinct: "distinct xs \<Longrightarrow> count_list xs x = (if x \<in> set xs then 1 else 0)"
  by (induction xs) auto

end
