(* ===== verification/NcfsState.thy ===== *)
theory NcfsState
  imports Prelude
begin

text \<open>
  The data the whole program shares: \<open>struct ncfs_state\<close>, \<open>struct space_info\<close>,
  \<open>struct data_block_info\<close> and \<open>struct raid_metadata\<close> of
  \<open>filesystem_common.hh\<close>, and the machine around it (block devices, uninitialised memory).
  The C arrays \<open>int *\<close> and \<open>char **\<close> that hold one entry per disk are functions on the disk
  number. The linked list \<open>struct space_list\<close> is a list of its nodes. The timing counters and the
  fields of the network storage nodes are left out: no operation modelled here reads them.
\<close>

record data_block_info =
  bi_disk_id :: int
  bi_block_no :: int

type_synonym space_node = "int \<times> int"

record raid_metadata =
  md_disk_id :: int
  md_free_offset :: int
  md_free_size :: int

record ncfs_state =
  disk_total_num :: int
  data_disk_num :: int
  disk_block_size :: int
  disk_raid_type :: int
  space_list_num :: int
  operation_mode :: int
  disk_size :: "int \<Rightarrow> int"
  free_offset :: "int \<Rightarrow> int"
  free_size :: "int \<Rightarrow> int"
  disk_status :: "int \<Rightarrow> int"
  dev_name :: "int \<Rightarrow> string"
  space_list_head :: "space_node list"
  process_state :: int

text \<open>
  A block device has a fixed number of bytes; \<open>dv_fail\<close> says that its input and output calls
  return an error. A path that is not a device cannot be opened. \<open>heap_junk\<close> are the contents of
  memory nobody has written, \<open>stack_junk\<close> is the value of a local \<open>int\<close> that is read before
  it is written.
\<close>

record device =
  dv_bytes :: "byte list"
  dv_fail :: bool

record sys = ncfs_state +
  devices :: "string \<Rightarrow> device option"
  heap_junk :: "nat \<Rightarrow> byte"
  stack_junk :: int

text \<open>The disk numbers the loops \<open>for (i = 0; i < disk_total_num; i++)\<close> run through.\<close>

abbreviation disk_ids :: "sys \<Rightarrow> int list" where
  "disk_ids s \<equiv> [0..disk_total_num s - 1]"

section \<open>Operations on the tables of the state\<close>

definition put_free_offset :: "int \<Rightarrow> int \<Rightarrow> sys \<Rightarrow> sys" where
  "put_free_offset d v s = s\<lparr>free_offset := (free_offset s)(d := v)\<rparr>"

definition put_free_size :: "int \<Rightarrow> int \<Rightarrow> sys \<Rightarrow> sys" where
  "put_free_size d v s = s\<lparr>free_size := (free_size s)(d := v)\<rparr>"

definition put_device :: "string \<Rightarrow> device option \<Rightarrow> sys \<Rightarrow> sys" where
  "put_device p v s = s\<lparr>devices := (devices s)(p := v)\<rparr>"

text \<open>The state apart from what the devices hold.\<close>

definition frame :: "sys \<Rightarrow> sys" where
  "frame s = s\<lparr>devices := (\<lambda>_. None)\<rparr>"

lemma frame_put_device [simp]: "frame (put_device p v s) = frame s"
  by (simp add: frame_def put_device_def)

lemma frame_eqD:
  assumes "frame s = frame t"
  shows "disk_total_num s = disk_total_num t" and "data_disk_num s = data_disk_num t"
    and "disk_block_size s = disk_block_size t" and "disk_raid_type s = disk_raid_type t"
    and "space_list_num s = space_list_num t" and "operation_mode s = operation_mode t"
    and "disk_size s = disk_size t" and "free_offset s = free_offset t"
    and "free_size s = free_size t" and "disk_status s = disk_status t"
    and "dev_name s = dev_name t" and "space_list_head s = space_list_head t"
    and "process_state s = process_state t" and "heap_junk s = heap_junk t"
    and "stack_junk s = stack_junk t"
  using assms by (cases s; cases t; simp add: frame_def)+

section \<open>The state before anything is configured\<close>

text \<open>
  \<open>main\<close> allocates \<open>struct ncfs_state\<close> with \<open>calloc\<close>. \<open>fresh_array\<close> is that state
  configured with \<open>n\<close> disks of \<open>m\<close> blocks of \<open>b\<close> bytes, all zero, of which \<open>k\<close> hold data: the
  concrete states the witnesses use.
\<close>

definition zero_state :: sys where
  "zero_state = \<lparr>disk_total_num = 0, data_disk_num = 0, disk_block_size = 0, disk_raid_type = 0,
     space_list_num = 0, operation_mode = 0, disk_size = (\<lambda>_. 0), free_offset = (\<lambda>_. 0),
     free_size = (\<lambda>_. 0), disk_status = (\<lambda>_. 0), dev_name = (\<lambda>_. []), space_list_head = [],
     process_state = 0, devices = (\<lambda>_. None), heap_junk = (\<lambda>_. 0), stack_junk = 0\<rparr>"

definition path_no :: "int \<Rightarrow> string" where
  "path_no i = replicate (nat i) (CHR ''d'')"

definition fresh_array :: "int \<Rightarrow> int \<Rightarrow> int \<Rightarrow> int \<Rightarrow> int \<Rightarrow> sys" where
  "fresh_array t n k b m = zero_state\<lparr>disk_total_num := n, data_disk_num := k,
     disk_block_size := b, disk_raid_type := t, disk_size := (\<lambda>_. m), free_size := (\<lambda>_. m),
     dev_name := path_no,
     devices := (\<lambda>p. if int (length p) < n
                      then Some \<lparr>dv_bytes = zeros (nat (m * b)), dv_fail = False\<rparr> else None)\<rparr>"

end
