(* ===== verification/FsUtils.thy ===== *)
theory FsUtils
  imports NcfsState
begin

text \<open>
  The file-system utilities of \<open>filesystem_utils.cc\<close> that the coding layer and the
  storage layer call: rounding to blocks, the health table with the operation mode computed from it,
  and the list of deleted blocks.
\<close>

section \<open>Sizes\<close>

definition round_to_block_size :: "int \<Rightarrow> sys \<Rightarrow> int" where
  "round_to_block_size sz s =
     (if sz smod disk_block_size s \<noteq> 0
      then sz + disk_block_size s - sz smod disk_block_size s else sz)"

lemma round_block_size:
  assumes "0 < disk_block_size s" and "0 \<le> sz"
  shows "disk_block_size s dvd round_to_block_size sz s"
    and "sz \<le> round_to_block_size sz s"
    and "round_to_block_size sz s < sz + disk_block_size s"
proof -
  let ?b = "disk_block_size s"
  have m: "sz smod ?b = sz mod ?b" using assms by simp
  have e: "sz + ?b - sz mod ?b = ?b * (sz div ?b + 1)"
    using div_mult_mod_eq [of sz ?b] by (simp add: algebra_simps)
  have r: "round_to_block_size sz s =
      (if sz mod ?b \<noteq> 0 then sz + ?b - sz mod ?b else sz)"
    by (simp add: round_to_block_size_def m)
  have b: "0 \<le> sz mod ?b" "sz mod ?b < ?b" using assms by simp_all
  show "?b dvd round_to_block_size sz s"
  proof (cases "sz mod ?b = 0")
    case True
    then show ?thesis by (simp add: r mod_eq_0_iff_dvd)
  next
    case False
    then show ?thesis unfolding r e by simp
  qed
  show "sz \<le> round_to_block_size sz s" "round_to_block_size sz s < sz + ?b"
    using b assms unfolding r by (auto simp: order_less_le)
qed

section \<open>The health of the disks\<close>

definition count_failed :: "sys \<Rightarrow> int" where
  "count_failed s = int (length (filter (\<lambda>i. disk_status s i \<noteq> 0) (disk_ids s)))"

text \<open>
  In the branches for the types 13 and 130 the identifier \<open>data_disk_num\<close> is not a field: in
  \<open>filesystem_utils.cc\<close> it is the enumerator of \<open>enum param_type\<close>, whose value is 2. The
  test \<open>i \<noteq> disk_total_num - 1 - i\<close> for type 1 comes after the loop, where \<open>i\<close> is
  \<open>disk_total_num\<close>. With two failed disks and a type other than 6 the variable \<open>mode\<close> is
  never assigned.
\<close>

definition param_data_disk_num :: int where
  "param_data_disk_num = 2"

definition mode_of :: "sys \<Rightarrow> int" where
  "mode_of s = (let n = disk_total_num s; t = disk_raid_type s; f = count_failed s in
     if f = 0 then 0
     else if t = 1000 then (if f \<le> n - data_disk_num s then 1 else 2)
     else if t = 13 then (if f \<le> n - param_data_disk_num then 1 else 2)
     else if t = 130 then (if f \<le> n - param_data_disk_num then 1 else 2)
     else if f = 1 then
       (if t = 4 then 1 else if t = 5 then 1 else if t = 6 then 1
        else if t = 1 \<and> n \<noteq> n - 1 - n then 1 else 2)
     else if f = 2 then (if t = 6 then 1 else stack_junk s)
     else 2)"

definition get_operation_mode :: "sys \<Rightarrow> sys" where
  "get_operation_mode s = s\<lparr>operation_mode := mode_of s\<rparr>"

definition get_fail_num :: "sys \<Rightarrow> int" where
  "get_fail_num s = foldl (\<lambda>c i. if disk_status s i = 1 then c + 1 else c) 0 (disk_ids s)"

definition set_device_status :: "int \<Rightarrow> int \<Rightarrow> sys \<Rightarrow> sys" where
  "set_device_status diskid status s =
     (if diskid < 0 \<or> diskid > disk_total_num s - 1 then s
      else if status \<noteq> 0 \<and> status \<noteq> 1 then s
      else if disk_status s diskid = status then s
      else get_operation_mode (s\<lparr>disk_status := (disk_status s)(diskid := status)\<rparr>))"

text \<open>
  \<open>get_disk_status\<close> opens every device for reading and writing; whether that
  succeeds is what \<open>devices\<close> says. The file \<open>raid_health\<close> it writes is not read by the program.
\<close>

definition get_disk_status :: "sys \<Rightarrow> sys" where
  "get_disk_status s = foldl (\<lambda>s i. s\<lparr>disk_status := (disk_status s)
       (i := if devices s (dev_name s i) \<noteq> None then 0 else 1)\<rparr>) s (disk_ids s)"

text \<open>The mode is in step with the table of the disks, and the table holds 0 and 1 only.\<close>

definition status_ok :: "sys \<Rightarrow> bool" where
  "status_ok s \<longleftrightarrow> list_all (\<lambda>i. disk_status s i = 0 \<or> disk_status s i = 1) (disk_ids s)"

definition mode_ok :: "sys \<Rightarrow> bool" where
  "mode_ok s \<longleftrightarrow> status_ok s \<and> operation_mode s = mode_of s"

lemma mode_of_update [simp]: "mode_of (s\<lparr>operation_mode := m\<rparr>) = mode_of s"
  by (simp add: mode_of_def count_failed_def Let_def cong: if_cong)

lemma status_ok_update [simp]: "status_ok (s\<lparr>operation_mode := m\<rparr>) = status_ok s"
  by (simp add: status_ok_def)

text \<open>
  The operation mode the file system decides by always matches the table of failed disks:
  marking a disk as failed or as good again keeps both the table well formed and the mode equal to
  what the table gives; a call with a disk number or a status out of range changes nothing.
\<close>

theorem set_device_status_mode_ok:
  "(mode_ok s \<longrightarrow> mode_ok (set_device_status d st s)) \<and>
   (0 \<le> d \<and> d < disk_total_num s \<and> (st = 0 \<or> st = 1) \<longrightarrow>
      disk_status (set_device_status d st s) = (disk_status s)(d := st)) \<and>
   (\<not> (0 \<le> d \<and> d < disk_total_num s \<and> (st = 0 \<or> st = 1)) \<longrightarrow> set_device_status d st s = s)"
  by (auto simp: set_device_status_def mode_ok_def get_operation_mode_def status_ok_def
      list_all_iff fun_upd_idem)

theorem set_device_status_mode_ok_witness:
  "mode_ok (set_device_status 2 1 (fresh_array 5 3 2 4 8)) \<and>
   disk_status (set_device_status 2 1 (fresh_array 5 3 2 4 8)) 2 = 1"
proof -
  have "mode_ok (fresh_array 5 3 2 4 8)"
    by (simp add: fresh_array_def zero_state_def mode_ok_def status_ok_def mode_of_def
        count_failed_def upto.simps)
  then show ?thesis
    using set_device_status_mode_ok [of "fresh_array 5 3 2 4 8" 2 1]
    by (simp add: fresh_array_def zero_state_def)
qed

lemma get_fail_num_count:
  "status_ok s \<Longrightarrow> get_fail_num s = count_failed s"
proof -
  have "foldl (\<lambda>c i. if disk_status s i = 1 then c + 1 else c) c xs
     = c + int (length (filter (\<lambda>i. disk_status s i \<noteq> 0) xs))"
    if "list_all (\<lambda>i. disk_status s i = 0 \<or> disk_status s i = 1) xs" for c xs
    using that by (induction xs arbitrary: c) auto
  then show "status_ok s \<Longrightarrow> ?thesis"
    by (simp add: status_ok_def get_fail_num_def count_failed_def)
qed

section \<open>The list of deleted blocks\<close>

text \<open>
  A new node goes in front of the first node that has both a disk number not below and a block
  number above its own, and to the end of the list when there is none.
\<close>

fun space_insert :: "int \<Rightarrow> int \<Rightarrow> space_node list \<Rightarrow> space_node list" where
  "space_insert d b [] = [(d, b)]"
| "space_insert d b ((d', b') # xs) =
     (if d \<le> d' \<and> b < b' then (d, b) # (d', b') # xs else (d', b') # space_insert d b xs)"

definition space_list_add :: "int \<Rightarrow> int \<Rightarrow> sys \<Rightarrow> int \<times> sys" where
  "space_list_add d b s =
     (let num = (if space_list_head s = [] then 1 else space_list_num s + 1) in
      (num, s\<lparr>space_list_head := space_insert d b (space_list_head s), space_list_num := num\<rparr>))"

definition space_list_remove :: "int \<Rightarrow> int \<Rightarrow> sys \<Rightarrow> int \<times> sys" where
  "space_list_remove d b s =
     (if (d, b) \<in> set (space_list_head s)
      then (0, s\<lparr>space_list_head := remove1 (d, b) (space_list_head s),
                  space_list_num := space_list_num s - 1\<rparr>)
      else (-1, s))"

definition space_num_ok :: "sys \<Rightarrow> bool" where
  "space_num_ok s \<longleftrightarrow> space_list_num s = int (length (space_list_head s))"

lemma length_space_insert [simp]: "length (space_insert d b xs) = Suc (length xs)"
  by (induction d b xs rule: space_insert.induct) auto

lemma set_space_insert [simp]: "set (space_insert d b xs) = insert (d, b) (set xs)"
  by (induction d b xs rule: space_insert.induct) auto

lemma remove1_space_insert [simp]:
  "(d, b) \<notin> set xs \<Longrightarrow> remove1 (d, b) (space_insert d b xs) = xs"
  by (induction d b xs rule: space_insert.induct) auto

lemma space_num_ok_add: "space_num_ok s \<Longrightarrow> space_num_ok (snd (space_list_add d b s))"
  by (auto simp: space_num_ok_def space_list_add_def Let_def)

lemma space_num_ok_remove: "space_num_ok s \<Longrightarrow> space_num_ok (snd (space_list_remove d b s))"
  using length_pos_if_in_set [of "(d, b)" "space_list_head s"]
  by (auto simp: space_num_ok_def space_list_remove_def length_remove1 of_nat_diff Suc_leI)

text \<open>
  The list of deleted blocks and its counter agree after every operation on them. A block
  added is in the list; removing it again gives back the state from before when the block was not
  listed already; removing a block that is not there reports an error and changes nothing.
\<close>

theorem space_list_roundtrip:
  assumes "space_num_ok s"
  shows "space_num_ok (snd (space_list_add d b s)) \<and>
    space_num_ok (snd (space_list_remove d b s)) \<and>
    fst (space_list_add d b s) = space_list_num s + 1 \<and>
    set (space_list_head (snd (space_list_add d b s))) = insert (d, b) (set (space_list_head s)) \<and>
    ((d, b) \<notin> set (space_list_head s) \<longrightarrow>
       space_list_remove d b (snd (space_list_add d b s)) = (0, s) \<and>
       space_list_remove d b s = (-1, s))"
  using assms space_num_ok_add [OF assms] space_num_ok_remove [OF assms]
  by (auto simp: space_list_add_def space_list_remove_def Let_def space_num_ok_def)

theorem space_list_roundtrip_witness:
  "space_list_remove 1 7 (snd (space_list_add 1 7 (zero_state\<lparr>space_list_head := [(0, 9), (2, 3)],
     space_list_num := 2\<rparr>))) =
   (0, zero_state\<lparr>space_list_head := [(0, 9), (2, 3)], space_list_num := 2\<rparr>)"
  using space_list_roundtrip [of "zero_state\<lparr>space_list_head := [(0, 9), (2, 3)],
     space_list_num := 2\<rparr>" 1 7]
  by (simp add: space_num_ok_def)

end
