(* ===== verification/Storage.thy ===== *)
theory Storage
  imports FsUtils
begin

text \<open>
  The storage layer, \<open>BlockStorage\<close> of \<open>blockstorage.cc\<close>: reading and writing a device given
  by its path, and the way a failed call is turned into a failed disk. The calls \<open>pread\<close> and
  \<open>pwrite\<close> on a block device are those of the operating system: an error, the end of the device,
  or the bytes that are there. A call with a negative size or offset is an error.
\<close>

section \<open>Input and output on a device\<close>

definition pread :: "device \<Rightarrow> int \<Rightarrow> int \<Rightarrow> int \<times> byte list" where
  "pread dv sz off =
     (if dv_fail dv \<or> sz < 0 \<or> off < 0 then (-1, [])
      else let d = take (nat sz) (drop (nat off) (dv_bytes dv)) in (int (length d), d))"

definition pwrite :: "(nat \<Rightarrow> byte) \<Rightarrow> device \<Rightarrow> byte list \<Rightarrow> int \<Rightarrow> int \<Rightarrow> int \<times> device" where
  "pwrite junk dv buf sz off =
     (if dv_fail dv \<or> sz < 0 \<or> off < 0 then (-1, dv)
      else if sz = 0 then (0, dv)
      else if int (length (dv_bytes dv)) \<le> off then (-1, dv)
      else let n = min (nat sz) (length (dv_bytes dv) - nat off);
               d = map (peek junk buf) [0..<n]
           in (int n, dv\<lparr>dv_bytes := overwrite (dv_bytes dv) (nat off) d\<rparr>))"

section \<open>BlockStorage\<close>

definition search_disk_id :: "string \<Rightarrow> sys \<Rightarrow> int" where
  "search_disk_id path s =
     (case filter (\<lambda>i. dev_name s i = path) (disk_ids s) of [] \<Rightarrow> -1 | i # js \<Rightarrow> i)"

definition DiskRead :: "string \<Rightarrow> byte list \<Rightarrow> int \<Rightarrow> int \<Rightarrow> sys \<Rightarrow> int \<times> byte list \<times> sys" where
  "DiskRead path buf sz offset s =
     (case devices s path of
        None \<Rightarrow> (-1, buf, set_device_status (search_disk_id path s) 1 s)
      | Some dv \<Rightarrow>
          let (retstat, d) = pread dv sz offset in
          if retstat \<le> 0
          then (retstat, overwrite buf 0 d, set_device_status (search_disk_id path s) 1 s)
          else (retstat, overwrite buf 0 d, s))"

definition DiskWrite :: "string \<Rightarrow> byte list \<Rightarrow> int \<Rightarrow> int \<Rightarrow> sys \<Rightarrow> int \<times> sys" where
  "DiskWrite path buf sz offset s =
     (case devices s path of
        None \<Rightarrow> (-1, set_device_status (search_disk_id path s) 1 s)
      | Some dv \<Rightarrow>
          let (retstat, dv') = pwrite (heap_junk s) dv buf sz offset;
              s = put_device path (Some dv') s in
          if retstat \<le> 0
          then (retstat, set_device_status (search_disk_id path s) 1 s)
          else (retstat, s))"

lemma search_disk_id_range:
  "search_disk_id p s = -1 \<or> (0 \<le> search_disk_id p s \<and> search_disk_id p s < disk_total_num s \<and>
     dev_name s (search_disk_id p s) = p)"
proof (cases "filter (\<lambda>i. dev_name s i = p) (disk_ids s)")
  case (Cons i js)
  have "i \<in> set (i # js)" by simp
  then have "i \<in> set (filter (\<lambda>i. dev_name s i = p) (disk_ids s))" unfolding Cons .
  then have "0 \<le> i \<and> i < disk_total_num s \<and> dev_name s i = p" by simp
  then show ?thesis using Cons by (simp add: search_disk_id_def)
qed (simp add: search_disk_id_def)

lemma search_disk_id_dev:
  assumes "distinct (map (dev_name s) (disk_ids s))" and "0 \<le> d" and "d < disk_total_num s"
  shows "search_disk_id (dev_name s d) s = d"
proof -
  have d: "d \<in> set (filter (\<lambda>i. dev_name s i = dev_name s d) (disk_ids s))" using assms by simp
  then obtain i js where f: "filter (\<lambda>i. dev_name s i = dev_name s d) (disk_ids s) = i # js"
    by (cases "filter (\<lambda>i. dev_name s i = dev_name s d) (disk_ids s)") auto
  then have "i \<in> set (filter (\<lambda>i. dev_name s i = dev_name s d) (disk_ids s))" by simp
  then have "i \<in> set (disk_ids s)" "dev_name s i = dev_name s d" by auto
  then have "i = d" using assms by (auto simp: distinct_map inj_on_def)
  then show ?thesis using f by (simp add: search_disk_id_def)
qed

text \<open>What a call leaves of the state: only the table of disks, the mode and the device change.\<close>

lemma put_device_mode_of [simp]: "mode_of (put_device p v s) = mode_of s"
  by (simp add: put_device_def mode_of_def count_failed_def Let_def cong: if_cong)

lemma put_device_mode_ok [simp]: "mode_ok (put_device p v s) = mode_ok s"
  by (simp add: mode_ok_def status_ok_def) (simp add: put_device_def)

lemma set_device_status_fields [simp]:
  "disk_total_num (set_device_status d v s) = disk_total_num s"
  "dev_name (set_device_status d v s) = dev_name s"
  "devices (set_device_status d v s) = devices s"
  "disk_block_size (set_device_status d v s) = disk_block_size s"
  "free_offset (set_device_status d v s) = free_offset s"
  "free_size (set_device_status d v s) = free_size s"
  "space_list_head (set_device_status d v s) = space_list_head s"
  "space_list_num (set_device_status d v s) = space_list_num s"
  by (auto simp: set_device_status_def get_operation_mode_def)

lemma put_device_fields [simp]:
  "disk_total_num (put_device p v s) = disk_total_num s"
  "data_disk_num (put_device p v s) = data_disk_num s"
  "disk_block_size (put_device p v s) = disk_block_size s"
  "disk_size (put_device p v s) = disk_size s"
  "dev_name (put_device p v s) = dev_name s"
  "disk_status (put_device p v s) = disk_status s"
  "free_offset (put_device p v s) = free_offset s"
  "free_size (put_device p v s) = free_size s"
  "heap_junk (put_device p v s) = heap_junk s"
  "devices (put_device p v s) = (devices s)(p := v)"
  by (simp_all add: put_device_def)

end
