(* ===== verification/NoCache.thy ===== *)
theory NoCache
  imports Storage
begin

text \<open>
  The cache layer when caching is switched off, \<open>NoCache\<close> of \<open>no_cache.cc\<close>: the disk
  operations the coding layer calls. \<open>content\<close> is what a client can know of a disk through them,
  and the locale \<open>disk_store\<close> is the contract between the coding layer and any such store.
\<close>

definition nc_readDisk :: "int \<Rightarrow> byte list \<Rightarrow> int \<Rightarrow> int \<Rightarrow> sys \<Rightarrow> int \<times> byte list \<times> sys" where
  "nc_readDisk disk_id buf sz offset s = DiskRead (dev_name s disk_id) buf sz offset s"

definition nc_writeDisk :: "int \<Rightarrow> byte list \<Rightarrow> int \<Rightarrow> int \<Rightarrow> sys \<Rightarrow> int \<times> sys" where
  "nc_writeDisk disk_id buf sz offset s = DiskWrite (dev_name s disk_id) buf sz offset s"

section \<open>What a disk holds\<close>

text \<open>
  The bytes of disk \<open>d\<close>, none when the disk cannot be used: its number is out of range, its device is
  missing or failing, or two disks share a device.
\<close>

definition content :: "sys \<Rightarrow> int \<Rightarrow> byte list" where
  "content s d =
     (if 0 \<le> d \<and> d < disk_total_num s \<and> distinct (map (dev_name s) (disk_ids s)) then
        (case devices s (dev_name s d) of
           None \<Rightarrow> [] | Some dv \<Rightarrow> if dv_fail dv then [] else dv_bytes dv)
      else [])"

lemma content_nonempty:
  assumes "content s d \<noteq> []"
  obtains dv where "0 \<le> d" "d < disk_total_num s" "distinct (map (dev_name s) (disk_ids s))"
    "devices s (dev_name s d) = Some dv" "\<not> dv_fail dv" "content s d = dv_bytes dv"
  using assms by (auto simp: content_def split: if_splits option.splits)

lemma content_put_device:
  assumes "content s d \<noteq> []"
  shows "content (put_device (dev_name s d) (Some \<lparr>dv_bytes = b, dv_fail = False\<rparr>) s)
    = (content s)(d := b)"
proof
  fix i
  from assms obtain dv where d: "0 \<le> d" "d < disk_total_num s"
    "distinct (map (dev_name s) (disk_ids s))"
    by (rule content_nonempty)
  show "content (put_device (dev_name s d) (Some \<lparr>dv_bytes = b, dv_fail = False\<rparr>) s) i
    = ((content s)(d := b)) i"
    using d by (auto simp: content_def distinct_map inj_on_def)
qed

section \<open>The contract of a store of disks\<close>

locale disk_store =
  fixes rd :: "int \<Rightarrow> byte list \<Rightarrow> int \<Rightarrow> int \<Rightarrow> 's \<Rightarrow> int \<times> byte list \<times> 's"
    and wr :: "int \<Rightarrow> byte list \<Rightarrow> int \<Rightarrow> int \<Rightarrow> 's \<Rightarrow> int \<times> 's"
    and cnt :: "'s \<Rightarrow> int \<Rightarrow> byte list"
    and rest :: "'s \<Rightarrow> 's"
  assumes rd_law: "\<lbrakk>0 < n; 0 \<le> off; off + n \<le> int (length (cnt s d))\<rbrakk> \<Longrightarrow>
      rd d buf n off s = (n, overwrite buf 0 (take (nat n) (drop (nat off) (cnt s d))), s)"
    and wr_ret: "\<lbrakk>0 < n; 0 \<le> off; off + n \<le> int (length (cnt s d)); nat n \<le> length buf\<rbrakk> \<Longrightarrow>
      fst (wr d buf n off s) = n"
    and wr_cnt: "\<lbrakk>0 < n; 0 \<le> off; off + n \<le> int (length (cnt s d)); nat n \<le> length buf\<rbrakk> \<Longrightarrow>
      cnt (snd (wr d buf n off s)) = (cnt s)(d := overwrite (cnt s d) (nat off) (take (nat n) buf))"
    and wr_rest: "\<lbrakk>0 < n; 0 \<le> off; off + n \<le> int (length (cnt s d)); nat n \<le> length buf\<rbrakk> \<Longrightarrow>
      rest (snd (wr d buf n off s)) = rest s"
begin

text \<open>The bytes a read leaves in the buffer.\<close>

lemma rd_buf:
  assumes "0 < n" "0 \<le> off" "off + n \<le> int (length (cnt s d))" "length buf = nat n"
  shows "rd d buf n off s = (n, take (nat n) (drop (nat off) (cnt s d)), s)"
  using rd_law [OF assms(1-3), of buf] assms by (simp add: overwrite_def)

lemma length_rd_buf:
  assumes "0 < n" "0 \<le> off" "off + n \<le> int (length (cnt s d))"
  shows "length (take (nat n) (drop (nat off) (cnt s d))) = nat n"
  using assms by (simp add: min_def) linarith

text \<open>The sizes of the disks do not change, and a byte changes only where the write says.\<close>

lemma wr_len:
  assumes "0 < n" "0 \<le> off" "off + n \<le> int (length (cnt s d))" "nat n \<le> length buf"
  shows "length (cnt (snd (wr d buf n off s)) i) = length (cnt s i)"
  using assms by (simp add: wr_cnt)

lemma wr_at:
  assumes "0 < n" "0 \<le> off" "off + n \<le> int (length (cnt s d))" "nat n \<le> length buf"
    and "a < length (cnt s i)"
  shows "cnt (snd (wr d buf n off s)) i ! a =
    (if i = d \<and> nat off \<le> a \<and> a < nat off + nat n then buf ! (a - nat off) else cnt s i ! a)"
  using assms by (auto simp: wr_cnt nth_overwrite)

text \<open>What was written is what is read.\<close>

lemma rd_wr:
  assumes "0 < n" "0 \<le> off" "off + n \<le> int (length (cnt s d))" "length buf = nat n"
    and "length b = nat n"
  shows "rd d b n off (snd (wr d buf n off s)) = (n, buf, snd (wr d buf n off s))"
  using assms by (subst rd_buf) (auto simp: wr_cnt overwrite_def min_def drop_append)

end

text \<open>\<open>NoCache\<close> over \<open>BlockStorage\<close> keeps the contract.\<close>

lemma nc_readDisk_ok:
  assumes "0 < n" "0 \<le> off" "off + n \<le> int (length (content s d))"
  shows "nc_readDisk d buf n off s =
    (n, overwrite buf 0 (take (nat n) (drop (nat off) (content s d))), s)"
proof -
  have "content s d \<noteq> []" using assms by auto
  then obtain dv where "devices s (dev_name s d) = Some dv" "\<not> dv_fail dv"
    "content s d = dv_bytes dv" by (rule content_nonempty)
  then show ?thesis using assms
    by (auto simp: nc_readDisk_def DiskRead_def pread_def Let_def min_def)
qed

lemma nc_writeDisk_ok:
  assumes "0 < n" "0 \<le> off" "off + n \<le> int (length (content s d))" "nat n \<le> length buf"
  shows "nc_writeDisk d buf n off s = (n, put_device (dev_name s d)
    (Some \<lparr>dv_bytes = overwrite (content s d) (nat off) (take (nat n) buf), dv_fail = False\<rparr>) s)"
proof -
  have ne: "content s d \<noteq> []" using assms by auto
  then obtain dv where dv: "devices s (dev_name s d) = Some dv" "\<not> dv_fail dv"
    "content s d = dv_bytes dv" by (rule content_nonempty)
  have m: "min (nat n) (length (dv_bytes dv) - nat off) = nat n" using assms dv by auto
  have b: "map (peek (heap_junk s) buf) [0..<nat n] = take (nat n) buf"
    using assms by (intro nth_equalityI) auto
  have dv': "dv\<lparr>dv_bytes := b\<rparr> = \<lparr>dv_bytes = b, dv_fail = False\<rparr>" for b
    using dv(2) by (cases dv) auto
  show ?thesis using assms dv
    by (simp add: nc_writeDisk_def DiskWrite_def pwrite_def Let_def m b dv')
qed

interpretation nc: disk_store nc_readDisk nc_writeDisk content frame
proof
  fix n off s d and buf :: "byte list"
  assume a: "0 < n" "0 \<le> off" "off + n \<le> int (length (content s d))"
  show "nc_readDisk d buf n off s = (n, overwrite buf 0 (take (nat n) (drop (nat off) (content s d))), s)"
    by (rule nc_readDisk_ok [OF a])
  assume b: "nat n \<le> length buf"
  have ne: "content s d \<noteq> []" using a by auto
  show "fst (nc_writeDisk d buf n off s) = n"
    and "content (snd (nc_writeDisk d buf n off s)) =
      (content s)(d := overwrite (content s d) (nat off) (take (nat n) buf))"
    and "frame (snd (nc_writeDisk d buf n off s)) = frame s"
    by (simp_all add: nc_writeDisk_ok [OF a b] content_put_device [OF ne])
qed

end
