(* ===== verification/Alloc.thy ===== *)
theory Alloc
  imports NoCache
begin

text \<open>
  How the coding layer chooses the block a piece of data goes to. The loops are the same text in
  every class of \<open>coding_*.cc\<close>: the striped choice of the RAID classes, the first fit of JBOD and
  RAID 1, the fall back to the list of deleted blocks, and the update of the free areas.
\<close>

section \<open>The loops\<close>

text \<open>
  \<open>for (i = hi; i >= 0; i--)\<close>: the disk with room for the request and the least offset, when that is
  not above the offset of disk 0.
\<close>

definition pick_step :: "int \<Rightarrow> sys \<Rightarrow> int \<times> int \<times> int \<Rightarrow> int \<Rightarrow> int \<times> int \<times> int" where
  "pick_step req s acc i = (let (d, b, fo) = acc in
     if req \<le> free_size s i \<and> free_offset s i \<le> fo
     then (i, free_offset s i, free_offset s i) else (d, b, fo))"

definition pick_striped :: "int \<Rightarrow> int \<Rightarrow> sys \<Rightarrow> int \<times> int \<times> int" where
  "pick_striped req hi s = foldl (pick_step req s) (-1, 0, free_offset s 0) (rev [0..hi])"

text \<open>\<open>while (i < n && disk_id == -1)\<close>: the first disk with room for the request.\<close>

fun pick_first :: "int \<Rightarrow> int list \<Rightarrow> sys \<Rightarrow> int \<times> int" where
  "pick_first req [] s = (-1, 0)"
| "pick_first req (i # xs) s =
     (if req \<le> free_size s i then (i, free_offset s i) else pick_first req xs s)"

text \<open>The head of the list of deleted blocks, taken when no disk was found.\<close>

definition or_space_list :: "int \<times> int \<Rightarrow> sys \<Rightarrow> int \<times> int \<times> sys" where
  "or_space_list db s =
     (if fst db \<noteq> -1 then (fst db, snd db, s)
      else case space_list_head s of
        [] \<Rightarrow> (fst db, snd db, s)
      | (d, b) # _ \<Rightarrow> (d, b, snd (space_list_remove d b s)))"

definition claim :: "int \<Rightarrow> int \<Rightarrow> int \<Rightarrow> sys \<Rightarrow> sys" where
  "claim d b req s = put_free_size d (free_size s d - req) (put_free_offset d (b + req) s)"

definition pick_striped_block :: "int \<Rightarrow> int \<Rightarrow> sys \<Rightarrow> int \<times> int \<times> sys" where
  "pick_striped_block req hi s =
     (let (d, b, fo) = pick_striped req hi s in or_space_list (d, b) s)"

definition pick_first_block :: "int \<Rightarrow> int \<Rightarrow> sys \<Rightarrow> int \<times> int \<times> sys" where
  "pick_first_block req hi s = or_space_list (pick_first req [0..hi] s) s"

section \<open>What the loops choose\<close>

lemma pick_striped_inv:
  fixes s :: sys and xs :: "int list"
  assumes "\<forall>i \<in> set xs. 0 \<le> i"
    and "foldl (pick_step req s) (-1, 0, free_offset s 0) xs = (d, b, fo)"
  shows "(d = -1 \<and> b = 0 \<and> fo = free_offset s 0 \<or>
      d \<in> set xs \<and> req \<le> free_size s d \<and> b = free_offset s d \<and> fo = b) \<and>
    fo \<le> free_offset s 0 \<and> (\<forall>i \<in> set xs. req \<le> free_size s i \<longrightarrow>
      fo \<le> free_offset s i \<and> (d = -1 \<longrightarrow> free_offset s 0 < free_offset s i))"
  using assms
proof (induction xs arbitrary: d b fo rule: rev_induct)
  case (snoc x xs)
  obtain d' b' fo' where e: "foldl (pick_step req s) (-1, 0, free_offset s 0) xs = (d', b', fo')"
    by (cases "foldl (pick_step req s) (-1, 0, free_offset s 0) xs") auto
  have st: "pick_step req s (d', b', fo') x = (d, b, fo)" using snoc.prems e by simp
  show ?case
  proof (cases "req \<le> free_size s x \<and> free_offset s x \<le> fo'")
    case True
    then show ?thesis using snoc.IH [OF _ e] snoc.prems(1) st
      by (auto simp: pick_step_def)
  next
    case False
    then show ?thesis using snoc.IH [OF _ e] snoc.prems(1) st
      by (auto simp: pick_step_def)
  qed
qed simp

lemma pick_striped_spec:
  assumes "pick_striped req hi s = (d, b, fo)"
  shows "d \<noteq> -1 \<Longrightarrow> 0 \<le> d \<and> d \<le> hi \<and> req \<le> free_size s d \<and> b = free_offset s d"
    and "d \<noteq> -1 \<Longrightarrow> 0 \<le> i \<Longrightarrow> i \<le> hi \<Longrightarrow> req \<le> free_size s i \<Longrightarrow> b \<le> free_offset s i"
    and "d = -1 \<Longrightarrow> b = 0"
    and "d = -1 \<Longrightarrow> 0 \<le> i \<Longrightarrow> i \<le> hi \<Longrightarrow> req \<le> free_size s i \<Longrightarrow>
      free_offset s 0 < free_offset s i"
  using pick_striped_inv [OF _ assms [unfolded pick_striped_def]] by auto

lemma pick_first_spec:
  assumes "pick_first req xs s = (d, b)"
  shows "(d = -1 \<and> b = 0 \<and> (\<forall>i \<in> set xs. i \<noteq> -1 \<longrightarrow> free_size s i < req)) \<or>
    (d \<in> set xs \<and> req \<le> free_size s d \<and> b = free_offset s d)"
  using assms by (induction req xs s rule: pick_first.induct) (auto split: if_splits)

section \<open>Well-formed free areas\<close>

text \<open>
  \<open>alloc_ok data m s\<close>: with \<open>m\<close> blocks on every disk, each free area lies on its disk, and each
  deleted block is a block \<open>data\<close> admits, which lies below the part of the disk that was never used.
  Taking a deleted block again sets the offset of its disk back, and so the free area is not the
  interval behind the offset any more; what stays true is the sum of offset and size.
\<close>

definition alloc_ok :: "(int \<Rightarrow> int \<Rightarrow> bool) \<Rightarrow> int \<Rightarrow> sys \<Rightarrow> bool" where
  "alloc_ok data m s \<longleftrightarrow>
     list_all (\<lambda>i. 0 \<le> free_offset s i \<and> free_offset s i + free_size s i \<le> m) (disk_ids s) \<and>
     list_all (\<lambda>x. 0 \<le> fst x \<and> fst x < disk_total_num s \<and> 0 \<le> snd x \<and> snd x < m \<and>
       snd x + free_size s (fst x) < m \<and> data (fst x) (snd x)) (space_list_head s)"

lemma claim_fields [simp]:
  "disk_total_num (claim d b r s) = disk_total_num s"
  "data_disk_num (claim d b r s) = data_disk_num s"
  "disk_block_size (claim d b r s) = disk_block_size s"
  "disk_size (claim d b r s) = disk_size s"
  "disk_status (claim d b r s) = disk_status s"
  "dev_name (claim d b r s) = dev_name s"
  "devices (claim d b r s) = devices s"
  "space_list_head (claim d b r s) = space_list_head s"
  "heap_junk (claim d b r s) = heap_junk s"
  "free_offset (claim d b r s) = (free_offset s)(d := b + r)"
  "free_size (claim d b r s) = (free_size s)(d := free_size s d - r)"
  by (simp_all add: claim_def put_free_offset_def put_free_size_def)

lemma content_cong:
  assumes "disk_total_num s = disk_total_num t" "dev_name s = dev_name t" "devices s = devices t"
  shows "content s = content t"
  by (rule ext) (simp add: content_def assms)

lemma content_claim [simp]: "content (claim d b r s) = content s"
  by (rule content_cong) simp_all

text \<open>What \<open>or_space_list\<close> can have done to the state: taken one node out of the list.\<close>

lemma or_space_list_cases:
  assumes "or_space_list (d0, b0) s = (d, b, s')"
  obtains "d0 \<noteq> -1" "d = d0" "b = b0" "s' = s"
  | "d0 = -1" "d = -1" "b = b0" "s' = s" "space_list_head s = []"
  | rest where "d0 = -1" "space_list_head s = (d, b) # rest"
      "s' = s\<lparr>space_list_head := rest, space_list_num := space_list_num s - 1\<rparr>"
  using assms by (auto simp: or_space_list_def space_list_remove_def split: if_splits list.splits)

lemma or_space_list_fields:
  assumes "or_space_list db s = (d, b, s')"
  shows "disk_total_num s' = disk_total_num s" "data_disk_num s' = data_disk_num s"
    "disk_block_size s' = disk_block_size s"
    "disk_size s' = disk_size s" "disk_status s' = disk_status s" "dev_name s' = dev_name s"
    "devices s' = devices s" "heap_junk s' = heap_junk s" "free_offset s' = free_offset s"
    "free_size s' = free_size s" "content s' = content s"
proof -
  obtain d0 b0 where "db = (d0, b0)" by fastforce
  with assms have a: "or_space_list (d0, b0) s = (d, b, s')" by simp
  then show "disk_total_num s' = disk_total_num s" "data_disk_num s' = data_disk_num s"
    "disk_block_size s' = disk_block_size s"
    "disk_size s' = disk_size s" "disk_status s' = disk_status s" "dev_name s' = dev_name s"
    "devices s' = devices s" "heap_junk s' = heap_junk s" "free_offset s' = free_offset s"
    "free_size s' = free_size s"
    by (cases rule: or_space_list_cases; simp)+
  then show "content s' = content s" by (intro content_cong) simp_all
qed

text \<open>
  The choice is a block of the array and a block \<open>data\<close> admits, and the free areas stay well formed
  when it is claimed.
\<close>

lemma alloc_ok_claim:
  assumes "alloc_ok data m s" and "or_space_list (d0, b0) s = (d, b, s')" and "d \<noteq> -1"
    and "d0 \<noteq> -1 \<Longrightarrow> 0 \<le> d0 \<and> d0 < disk_total_num s \<and> 1 \<le> free_size s d0 \<and>
      b0 = free_offset s d0 \<and> data d0 b0"
  shows "0 \<le> d" "d < disk_total_num s" "0 \<le> b" "b < m" "data d b"
    "alloc_ok data m (claim d b 1 s')"
proof -
  have "0 \<le> d \<and> d < disk_total_num s \<and> 0 \<le> b \<and> b < m \<and> data d b \<and>
    alloc_ok data m (claim d b 1 s')"
    using assms(2)
  proof (cases rule: or_space_list_cases)
    case 1
    note d0 = assms(4) [OF 1(1)]
    have f: "0 \<le> free_offset s d0 \<and> free_offset s d0 + free_size s d0 \<le> m"
      using assms(1) d0 by (simp add: alloc_ok_def list_all_iff)
    have "alloc_ok data m (claim d b 1 s')"
      using assms(1) d0 f 1 by (fastforce simp: alloc_ok_def list_all_iff)
    then show ?thesis using d0 f 1 by auto
  next
    case 2
    then show ?thesis using assms(3) by simp
  next
    case (3 rest)
    then show ?thesis using assms(1) by (auto simp: alloc_ok_def list_all_iff)
  qed
  then show "0 \<le> d" "d < disk_total_num s" "0 \<le> b" "b < m" "data d b"
    "alloc_ok data m (claim d b 1 s')" by simp_all
qed

end
