(* ===== verification/XorParity.thy ===== *)
theory XorParity
  imports Alloc
begin

text \<open>
  What the array codes share: the well-formed array, an array that has lost one disk, the relation
  "the bytes at each address of all disks sum to zero", the loop that reads the surviving disks, and
  the loop that writes a lost disk block by block onto its replacement.
\<close>

section \<open>The array\<close>

definition array_ok :: "int \<Rightarrow> sys \<Rightarrow> bool" where
  "array_ok m s \<longleftrightarrow> 0 < disk_block_size s \<and> 4 dvd disk_block_size s \<and> 0 \<le> m \<and>
     m * disk_block_size s < 2147483648 \<and> distinct (map (dev_name s) (disk_ids s)) \<and>
     list_all (\<lambda>i. disk_size s i = m \<and> disk_status s i = 0 \<and>
       int (length (content s i)) = m * disk_block_size s) (disk_ids s)"

text \<open>\<open>lost_disk m d v s\<close>: disk \<open>d\<close> is marked as failed, the others are good, and \<open>v\<close> is what the disks
  hold or, in the case of \<open>d\<close>, held.\<close>

definition lost_disk :: "int \<Rightarrow> int \<Rightarrow> (int \<Rightarrow> byte list) \<Rightarrow> sys \<Rightarrow> bool" where
  "lost_disk m d v s \<longleftrightarrow> 0 < disk_block_size s \<and> 4 dvd disk_block_size s \<and> 0 \<le> m \<and>
     m * disk_block_size s < 2147483648 \<and>
     0 \<le> d \<and> d < disk_total_num s \<and> disk_status s d \<noteq> 0 \<and> disk_size s d = m \<and>
     list_all (\<lambda>i. int (length (v i)) = m * disk_block_size s \<and>
       (i \<noteq> d \<longrightarrow> disk_status s i = 0 \<and> content s i = v i)) (disk_ids s)"

text \<open>A disk breaks: its device is gone and the failure is noted.\<close>

definition fail_disk :: "int \<Rightarrow> sys \<Rightarrow> sys" where
  "fail_disk d s = set_device_status d 1 (put_device (dev_name s d) None s)"

lemma content_fail_disk:
  assumes "distinct (map (dev_name s) (disk_ids s))" and "0 \<le> d" "d < disk_total_num s" "i \<noteq> d"
  shows "content (fail_disk d s) i = content s i"
  using assms by (auto simp: fail_disk_def content_def distinct_map inj_on_def)

lemma set_device_status_1:
  "0 \<le> d \<Longrightarrow> d < disk_total_num s \<Longrightarrow>
   disk_status (set_device_status d 1 s) = (disk_status s)(d := 1) \<and>
   disk_size (set_device_status d 1 s) = disk_size s \<and>
   data_disk_num (set_device_status d 1 s) = data_disk_num s"
  by (auto simp: set_device_status_def get_operation_mode_def fun_upd_idem)

lemma lost_fail_disk:
  assumes "array_ok m s" and "0 \<le> d" "d < disk_total_num s"
  shows "lost_disk m d (content s) (fail_disk d s)"
proof -
  have f: "disk_total_num (fail_disk d s) = disk_total_num s"
    "disk_block_size (fail_disk d s) = disk_block_size s"
    "disk_status (fail_disk d s) = (disk_status s)(d := 1)"
    "disk_size (fail_disk d s) = disk_size s"
    using assms set_device_status_1 [of d "put_device (dev_name s d) None s"]
    by (simp_all add: fail_disk_def)
  have c: "\<And>i. i \<noteq> d \<Longrightarrow> content (fail_disk d s) i = content s i"
    using assms by (intro content_fail_disk) (auto simp: array_ok_def)
  show ?thesis using assms by (auto simp: lost_disk_def f c array_ok_def list_all_iff)
qed

text \<open>Addresses of blocks do not overflow on such an array.\<close>

lemma block_addr:
  assumes "0 < bs" and "m * bs < 2147483648" and "0 \<le> b" and "b < (m::int)"
  shows "i32 (b * bs) = b * bs" and "0 \<le> b * bs" and "b * bs + bs \<le> m * bs"
proof -
  have "(b + 1) * bs \<le> m * bs" using assms by (intro mult_right_mono) auto
  then show u: "b * bs + bs \<le> m * bs" by (simp add: distrib_right)
  show l: "0 \<le> b * bs" using assms by simp
  show "i32 (b * bs) = b * bs" using u l assms by (intro i32_id) linarith+
qed

lemma round_one_block:
  assumes "0 < disk_block_size s" "0 < sz" "sz \<le> disk_block_size s"
  shows "round_to_block_size sz s = disk_block_size s"
  using assms by (auto simp: round_to_block_size_def order_le_less)

section \<open>The sum over all disks\<close>

definition xor_parity :: "int \<Rightarrow> nat \<Rightarrow> (int \<Rightarrow> byte list) \<Rightarrow> bool" where
  "xor_parity n len v \<longleftrightarrow> list_all (\<lambda>a. xsum (\<lambda>i. v i ! a) [0..n - 1] = 0) [0..<len]"

lemma xor_parityD: "xor_parity n len v \<Longrightarrow> a < len \<Longrightarrow> xsum (\<lambda>i. v i ! a) [0..n - 1] = 0"
  by (simp add: xor_parity_def list_all_iff)

lemma xor_parity_cong:
  assumes "\<And>i. 0 \<le> i \<Longrightarrow> i < n \<Longrightarrow> v i = w i"
  shows "xor_parity n len v = xor_parity n len w"
proof -
  have "xsum (\<lambda>i. v i ! a) [0..n - 1] = xsum (\<lambda>i. w i ! a) [0..n - 1]" for a
    using assms by (intro xsum_cong) auto
  then show ?thesis by (simp add: xor_parity_def)
qed

text \<open>A byte of a lost disk is the sum of the bytes of the others.\<close>

lemma xor_parity_solve:
  assumes "xor_parity n len v" "a < len" "0 \<le> d" "d < n"
  shows "xsum (\<lambda>i. v i ! a) (filter (\<lambda>i. i \<noteq> d) [0..n - 1]) = v d ! a"
  using xsum_solve [OF _ _ xor_parityD [OF assms(1,2)], of d] assms(3,4) by simp

text \<open>Changing two bytes by the same difference keeps the sum.\<close>

lemma xsum_two_changes:
  fixes f g :: "int \<Rightarrow> 'b::len word"
  assumes "distinct xs" "d \<in> set xs" "p \<in> set xs" "d \<noteq> p"
    and "f d XOR g d = f p XOR g p" and "\<And>i. i \<in> set xs \<Longrightarrow> i \<noteq> d \<Longrightarrow> i \<noteq> p \<Longrightarrow> f i = g i"
  shows "xsum g xs = xsum f xs"
proof -
  let ?\<delta> = "f d XOR g d"
  have "xsum (\<lambda>i. f i XOR g i) xs
      = xsum (\<lambda>i. (if i = d then ?\<delta> else 0) XOR (if i = p then ?\<delta> else 0)) xs"
    using assms(4-6) by (intro xsum_cong) auto
  also have "\<dots> = 0" using assms(1-3) by (simp add: xsum_xor xsum_single)
  finally show ?thesis using xsum_delta [of g xs f] by simp
qed

text \<open>
  Read, modify, write: the data disk gets new bytes, and the parity disk its old bytes changed by the
  difference of the old and the new data.
\<close>

lemma xor_parity_rmw:
  assumes "xor_parity n len v" and "0 \<le> d" "d < n" "0 \<le> p" "p < n" "d \<noteq> p"
    and len: "length (v d) = len" "length (v p) = len" and "off + length x \<le> len"
    and "length y = length x"
    and y: "\<And>j. j < length x \<Longrightarrow> y ! j = v d ! (off + j) XOR x ! j XOR v p ! (off + j)"
  shows "xor_parity n len (v(d := overwrite (v d) off x, p := overwrite (v p) off y))"
  unfolding xor_parity_def list_all_iff
proof
  fix a assume "a \<in> set [0..<len]"
  then have a: "a < len" by simp
  let ?w = "v(d := overwrite (v d) off x, p := overwrite (v p) off y)"
  have "xsum (\<lambda>i. ?w i ! a) [0..n - 1] = xsum (\<lambda>i. v i ! a) [0..n - 1]"
  proof (rule xsum_two_changes)
    show "v d ! a XOR ?w d ! a = v p ! a XOR ?w p ! a"
    proof (cases "off \<le> a \<and> a < off + length x")
      case True
      then have j: "a - off < length x" "off + (a - off) = a" by auto
      then show ?thesis using y [OF j(1)] assms(6-10) a True
        by (simp add: nth_overwrite ac_simps)
    next
      case False
      then have "?w d ! a = v d ! a" "?w p ! a = v p ! a"
        using assms(6-10) a by (auto simp: nth_overwrite)
      then show ?thesis by simp
    qed
  qed (use assms(2-6) in auto)
  then show "xsum (\<lambda>i. ?w i ! a) [0..n - 1] = 0"
    using xor_parityD [OF assms(1) a] by simp
qed

section \<open>Reading the surviving disks\<close>

text \<open>
  \<open>for (i = 0; i < disk_total_num; ++i) if (i != disk_id) ...\<close>: the loop of the degraded read of
  RAID 4 and RAID 5, with \<open>temp\<close> the buffer every disk is read into and \<open>buf\<close> the sum.
\<close>

fun xor_surviving :: "int \<Rightarrow> int \<Rightarrow> int \<Rightarrow> int list \<Rightarrow> byte list \<Rightarrow> byte list \<Rightarrow> sys \<Rightarrow>
    int \<times> byte list \<times> sys" where
  "xor_surviving fd sz off [] temp buf s = (sz, buf, s)"
| "xor_surviving fd sz off (i # xs) temp buf s =
     (if i \<noteq> fd then
        if disk_status s i \<noteq> 0 then (-1, buf, s)
        else let (retstat, temp, s) = nc_readDisk i temp sz off s in
             xor_surviving fd sz off xs temp (xor_ints (heap_junk s) (nat sz) buf temp) s
      else xor_surviving fd sz off xs temp buf s)"

lemma xor_surviving_ok:
  assumes "\<And>i. i \<in> set xs \<Longrightarrow> i \<noteq> fd \<Longrightarrow>
      disk_status s i = 0 \<and> content s i = v i \<and> off + sz \<le> int (length (v i))"
    and "0 < sz" "0 \<le> off" "length temp = nat sz" "length buf = nat sz"
  shows "xor_surviving fd sz off xs temp buf s =
    (sz, map (\<lambda>j. if j < 4 * (nat sz div 4)
                  then buf ! j XOR xsum (\<lambda>i. v i ! (nat off + j)) (filter (\<lambda>i. i \<noteq> fd) xs)
                  else buf ! j) [0..<nat sz], s)"
  using assms
proof (induction xs arbitrary: temp buf)
  case Nil
  then show ?case by (auto intro: nth_equalityI)
next
  case (Cons x xs)
  show ?case
  proof (cases "x = fd")
    case True
    then show ?thesis using Cons by simp
  next
    case False
    let ?t = "take (nat sz) (drop (nat off) (content s x))"
    let ?b = "xor_ints (heap_junk s) (nat sz) buf ?t"
    have x: "disk_status s x = 0" "content s x = v x" "off + sz \<le> int (length (content s x))"
      using Cons.prems(1) [of x] False by auto
    have r: "nc_readDisk x temp sz off s = (sz, ?t, s)"
      by (rule nc.rd_buf) (use x Cons.prems in auto)
    have t: "length ?t = nat sz" by (rule nc.length_rd_buf) (use x Cons.prems in auto)
    have lo: "nat off \<le> length (content s x)" using x(3) Cons.prems(2,3) by linarith
    have tb: "?t ! j = v x ! (nat off + j)" if "j < nat sz" for j
      using that x lo by simp
    have "xor_surviving fd sz off (x # xs) temp buf s = xor_surviving fd sz off xs ?t ?b s"
      using False x r by simp
    also have "\<dots> = (sz, map (\<lambda>j. if j < 4 * (nat sz div 4)
        then ?b ! j XOR xsum (\<lambda>i. v i ! (nat off + j)) (filter (\<lambda>i. i \<noteq> fd) xs)
        else ?b ! j) [0..<nat sz], s)"
      using Cons.prems t by (intro Cons.IH) auto
    also have "\<dots> = (sz, map (\<lambda>j. if j < 4 * (nat sz div 4)
        then buf ! j XOR xsum (\<lambda>i. v i ! (nat off + j)) (filter (\<lambda>i. i \<noteq> fd) (x # xs))
        else buf ! j) [0..<nat sz], s)"
      using Cons.prems(5) t tb False lo by (auto simp: xor_ints_def nth_xor_into xor.assoc)
    finally show ?thesis .
  qed
qed

text \<open>
  With parity over all disks the sum of the survivors is what the lost disk held; of a size that is
  not a multiple of four the last bytes stay zero.
\<close>

definition int_bytes :: "int \<Rightarrow> byte list \<Rightarrow> byte list" where
  "int_bytes sz b = map (\<lambda>j. if j < 4 * (nat sz div 4) then b ! j else 0) [0..<nat sz]"

lemma int_bytes_id: "4 dvd sz \<Longrightarrow> length b = nat sz \<Longrightarrow> int_bytes sz b = b"
proof -
  assume a: "4 dvd sz" "length b = nat sz"
  have "4 dvd nat sz" using a(1) by (rule dvd_4_nat)
  then have "4 * (nat sz div 4) = nat sz" by simp
  then show ?thesis using a(2) by (auto simp: int_bytes_def intro!: nth_equalityI)
qed

lemma xor_surviving_lost:
  assumes "lost_disk m d v s" and "xor_parity (disk_total_num s) (nat (m * disk_block_size s)) v"
    and "0 < sz" "0 \<le> off" "off + sz \<le> m * disk_block_size s" "length temp = nat sz"
  shows "xor_surviving d sz off (disk_ids s) temp (zeros (nat sz)) s =
    (sz, int_bytes sz (take (nat sz) (drop (nat off) (v d))), s)"
proof -
  have l: "0 \<le> d" "d < disk_total_num s" "int (length (v d)) = m * disk_block_size s"
    using assms(1) by (auto simp: lost_disk_def list_all_iff)
  have o: "\<And>i. i \<in> set (disk_ids s) \<Longrightarrow> i \<noteq> d \<Longrightarrow>
      disk_status s i = 0 \<and> content s i = v i \<and> off + sz \<le> int (length (v i))"
    using assms(1,5) by (auto simp: lost_disk_def list_all_iff)
  have x: "xsum (\<lambda>i. v i ! (nat off + j)) (filter (\<lambda>i. i \<noteq> d) (disk_ids s)) = v d ! (nat off + j)"
    if "j < nat sz" for j
    using that assms l by (intro xor_parity_solve [OF assms(2)]) linarith+
  show ?thesis
    using assms(3-6) l x by (subst xor_surviving_ok [OF o])
      (auto simp: int_bytes_def intro!: map_cong)
qed

section \<open>Blocks of a well-formed array\<close>

text \<open>The bytes of block \<open>b\<close> on disk \<open>d\<close>, the first \<open>sz\<close> of them.\<close>

definition block_of :: "sys \<Rightarrow> int \<Rightarrow> int \<Rightarrow> int \<Rightarrow> byte list" where
  "block_of s d b sz = take (nat sz) (drop (nat (b * disk_block_size s)) (content s d))"

lemma frame_claim: "frame s = frame t \<Longrightarrow> frame (claim d b r s) = frame (claim d b r t)"
  by (cases s; cases t; simp add: frame_def claim_def put_free_offset_def put_free_size_def)

lemma array_ok_cong:
  assumes "frame s = frame t" and "\<And>i. length (content s i) = length (content t i)"
  shows "array_ok m s = array_ok m t"
  by (simp add: array_ok_def assms frame_eqD [OF assms(1)])

lemma array_ok_claim [simp]: "array_ok m (claim d b r s) = array_ok m s"
  by (simp add: array_ok_def)

lemma array_ok_space:
  assumes "or_space_list db s = (d, b, s')"
  shows "array_ok m s' = array_ok m s"
  by (simp add: array_ok_def or_space_list_fields [OF assms])

lemma alloc_ok_frame: "frame s = frame t \<Longrightarrow> alloc_ok data m s = alloc_ok data m t"
  using frame_eqD [of s t] by (simp add: alloc_ok_def)

text \<open>A transfer of \<open>sz\<close> bytes at the start of a block of the array.\<close>

definition in_array :: "int \<Rightarrow> sys \<Rightarrow> int \<Rightarrow> int \<Rightarrow> int \<Rightarrow> bool" where
  "in_array m s d b sz \<longleftrightarrow> array_ok m s \<and> 0 \<le> d \<and> d < disk_total_num s \<and> 0 \<le> b \<and> b < m \<and>
     0 < sz \<and> sz \<le> disk_block_size s"

lemma array_addr:
  assumes "in_array m s d b sz"
  shows "i32 (b * disk_block_size s) = b * disk_block_size s" "0 \<le> b * disk_block_size s"
    "b * disk_block_size s + sz \<le> int (length (content s d))" "0 < sz"
proof -
  have g: "0 < disk_block_size s" "m * disk_block_size s < 2147483648" "0 \<le> b" "b < m"
    "int (length (content s d)) = m * disk_block_size s" "0 < sz" "sz \<le> disk_block_size s"
    using assms by (auto simp: in_array_def array_ok_def list_all_iff)
  show "i32 (b * disk_block_size s) = b * disk_block_size s" "0 \<le> b * disk_block_size s"
    "b * disk_block_size s + sz \<le> int (length (content s d))" "0 < sz"
    using block_addr [OF g(1-4)] g(5-7) by linarith+
qed

lemma length_block_of:
  assumes "in_array m s d b sz"
  shows "length (block_of s d b sz) = nat sz"
  unfolding block_of_def by (rule nc.length_rd_buf [OF array_addr(4,2,3) [OF assms]])

lemma array_read:
  assumes "in_array m s d b sz" and "length buf = nat sz"
  shows "nc_readDisk d buf sz (i32 (b * disk_block_size s)) s = (sz, block_of s d b sz, s)"
  unfolding array_addr(1) [OF assms(1)] block_of_def
  by (rule nc.rd_buf [OF array_addr(4,2,3) [OF assms(1)] assms(2)])

lemma array_write:
  assumes "in_array m s d b sz" and "nat sz \<le> length buf"
  defines "w \<equiv> nc_writeDisk d buf sz (i32 (b * disk_block_size s)) s"
  shows "fst w = sz" and "frame (snd w) = frame s"
    and "content (snd w) =
      (content s)(d := overwrite (content s d) (nat (b * disk_block_size s)) (take (nat sz) buf))"
    and "array_ok m (snd w)"
proof -
  note a = array_addr(4,2,3) [OF assms(1)] assms(2)
  note i = array_addr(1) [OF assms(1)]
  show "fst w = sz" unfolding w_def i by (rule nc.wr_ret [OF a])
  show f: "frame (snd w) = frame s" unfolding w_def i by (rule nc.wr_rest [OF a])
  show "content (snd w) =
      (content s)(d := overwrite (content s d) (nat (b * disk_block_size s)) (take (nat sz) buf))"
    unfolding w_def i by (rule nc.wr_cnt [OF a])
  show "array_ok m (snd w)"
    using assms(1) array_ok_cong [OF f] nc.wr_len [OF a] by (simp add: w_def i in_array_def)
qed

lemma block_of_write:
  assumes "in_array m s d b sz" and "length buf = nat sz"
    and "disk_block_size s' = disk_block_size s"
    and "content s' d = overwrite (content s d) (nat (b * disk_block_size s)) buf"
  shows "block_of s' d b sz = buf"
  using array_addr [OF assms(1)] assms(2-4)
  by (simp add: block_of_def overwrite_def min_def) linarith


text \<open>\<open>only_block s s' d b\<close>: at most block \<open>b\<close> of disk \<open>d\<close> is different in \<open>s'\<close>.\<close>

definition only_block :: "(int \<Rightarrow> byte list) \<Rightarrow> (int \<Rightarrow> byte list) \<Rightarrow> int \<Rightarrow> int \<Rightarrow> int \<Rightarrow> bool" where
  "only_block v w d b bs \<longleftrightarrow> length (w d) = length (v d) \<and>
     list_all (\<lambda>a. \<not> (nat (b * bs) \<le> a \<and> a < nat (b * bs) + nat bs) \<longrightarrow> w d ! a = v d ! a)
       [0..<length (v d)]"

lemma only_block_overwrite:
  assumes "nat (b * bs) + length x \<le> length (v d)" "length x \<le> nat bs"
    and "w d = overwrite (v d) (nat (b * bs)) x"
  shows "only_block v w d b bs"
  using assms by (auto simp: only_block_def list_all_iff nth_overwrite)

section \<open>A fresh array is well formed\<close>

lemma fresh_array_fields [simp]:
  "disk_total_num (fresh_array t n k b m) = n"
  "data_disk_num (fresh_array t n k b m) = k"
  "disk_block_size (fresh_array t n k b m) = b"
  "disk_raid_type (fresh_array t n k b m) = t"
  "disk_size (fresh_array t n k b m) = (\<lambda>_. m)"
  "free_size (fresh_array t n k b m) = (\<lambda>_. m)"
  "free_offset (fresh_array t n k b m) = (\<lambda>_. 0)"
  "disk_status (fresh_array t n k b m) = (\<lambda>_. 0)"
  "space_list_head (fresh_array t n k b m) = []"
  "heap_junk (fresh_array t n k b m) = (\<lambda>_. 0)"
  "dev_name (fresh_array t n k b m) = path_no"
  by (simp_all add: fresh_array_def zero_state_def)

lemma distinct_path_no: "distinct (map path_no [0..n - 1])"
  by (auto simp: distinct_map inj_on_def path_no_def replicate_eq_replicate)

lemma content_fresh:
  "0 \<le> i \<Longrightarrow> i < n \<Longrightarrow> content (fresh_array t n k b m) i = zeros (nat (m * b))"
  using distinct_path_no [of n]
  by (simp add: content_def) (simp add: fresh_array_def path_no_def)

lemma array_ok_fresh:
  "0 < b \<Longrightarrow> 4 dvd b \<Longrightarrow> 0 \<le> m \<Longrightarrow> m * b < 2147483648 \<Longrightarrow> array_ok m (fresh_array t n k b m)"
  using distinct_path_no [of n] by (simp add: array_ok_def list_all_iff content_fresh)

lemma alloc_ok_fresh: "alloc_ok data m (fresh_array t n k b m)"
  by (simp add: alloc_ok_def list_all_iff)

lemma xor_parity_fresh: "xor_parity n (nat (m * b)) (content (fresh_array t n k b m))"
proof -
  have "xsum (\<lambda>i. content (fresh_array t n k b m) i ! a) [0..n - 1] = xsum (\<lambda>_. 0) [0..n - 1]"
    if "a < nat (m * b)" for a
    using that by (intro xsum_cong) (auto simp: content_fresh)
  then show ?thesis by (simp add: xor_parity_def list_all_iff)
qed

end
