(* ===== verification/Rebuild.thy ===== *)
theory Rebuild
  imports XorParity
begin

text \<open>
  The loop by which the coding classes write a lost disk onto its replacement, one block after the
  other: decode the block in degraded mode, write it to the failed disk. The loop is the same in RAID
  1, 4 and 5 (\<open>recover\<close> in \<open>coding_raid1.cc\<close>, \<open>coding_raid4.cc\<close>, \<open>coding_raid5.cc\<close>) and is
  proved once for every decoder that keeps the contract \<open>block_rebuild\<close>.
\<close>

fun rebuild_blocks ::
    "(int \<Rightarrow> byte list \<Rightarrow> int \<Rightarrow> int \<Rightarrow> 's \<Rightarrow> int \<times> byte list \<times> 's) \<Rightarrow>
     (int \<Rightarrow> byte list \<Rightarrow> int \<Rightarrow> int \<Rightarrow> 's \<Rightarrow> int \<times> 's) \<Rightarrow>
     (byte list \<Rightarrow> byte list) \<Rightarrow> int \<Rightarrow> int \<Rightarrow> int list \<Rightarrow> byte list \<Rightarrow> 's \<Rightarrow> 's" where
  "rebuild_blocks dec wr reset fd bs [] buf s = s"
| "rebuild_blocks dec wr reset fd bs (i # xs) buf s =
     (let offset = i32 (i * bs);
          (retstat, buf, s) = dec fd (reset buf) bs offset s;
          (retstat, s) = wr fd buf bs offset s
      in rebuild_blocks dec wr reset fd bs xs buf s)"

locale block_rebuild = disk_store rd wr cnt rest
  for rd :: "int \<Rightarrow> byte list \<Rightarrow> int \<Rightarrow> int \<Rightarrow> 's \<Rightarrow> int \<times> byte list \<times> 's"
    and wr :: "int \<Rightarrow> byte list \<Rightarrow> int \<Rightarrow> int \<Rightarrow> 's \<Rightarrow> int \<times> 's"
    and cnt :: "'s \<Rightarrow> int \<Rightarrow> byte list"
    and rest :: "'s \<Rightarrow> 's" +
  fixes dec :: "int \<Rightarrow> byte list \<Rightarrow> int \<Rightarrow> int \<Rightarrow> 's \<Rightarrow> int \<times> byte list \<times> 's"
    and lost :: "int \<Rightarrow> int \<Rightarrow> int \<Rightarrow> byte list \<Rightarrow> 's \<Rightarrow> bool"
  assumes lost_geom: "lost m bs d v s \<Longrightarrow> 0 < bs \<and> m * bs < 2147483648 \<and>
      int (length v) = m * bs \<and> int (length (cnt s d)) = m * bs"
    and dec_law: "\<lbrakk>lost m bs d v s; 0 \<le> i; i < m; length buf = nat bs\<rbrakk> \<Longrightarrow>
      \<exists>t. dec d buf bs (i * bs) s = (bs, take (nat bs) (drop (nat (i * bs)) v), t) \<and>
        cnt t = cnt s \<and> rest t = rest s \<and> lost m bs d v t"
    and lost_wr: "\<lbrakk>lost m bs d v s; 0 \<le> i; i < m; length buf = nat bs\<rbrakk> \<Longrightarrow>
      lost m bs d v (snd (wr d buf bs (i * bs) s))"
begin

text \<open>
  One round of the loop puts one block of the lost disk in its place. The decoder may change parts of
  the state that are neither the contents of the disks nor in \<open>rest\<close>.
\<close>

lemma rebuild_one:
  assumes "lost m bs d v s" "0 \<le> i" "i < m" "length (reset buf) = nat bs"
  defines "b \<equiv> take (nat bs) (drop (nat (i * bs)) v)"
  obtains s' where
    "rebuild_blocks dec wr reset d bs (i # xs) buf s = rebuild_blocks dec wr reset d bs xs b s'"
    and "lost m bs d v s'" and "length b = nat bs" and "rest s' = rest s"
    and "cnt s' = (cnt s)(d := overwrite (cnt s d) (nat (i * bs)) b)"
proof -
  note g = lost_geom [OF assms(1)]
  have o: "i32 (i * bs) = i * bs" "0 \<le> i * bs" "i * bs + bs \<le> m * bs"
    using g assms(2,3) by (auto intro: block_addr)
  have lb: "length b = nat bs"
  proof -
    have "nat (i * bs) + nat bs \<le> length v" using o g by linarith
    then show ?thesis by (simp add: b_def)
  qed
  obtain t where t: "dec d (reset buf) bs (i * bs) s = (bs, b, t)" "cnt t = cnt s" "rest t = rest s"
    "lost m bs d v t" using dec_law [OF assms(1-4)] by (auto simp: b_def)
  show thesis
  proof
    show "rebuild_blocks dec wr reset d bs (i # xs) buf s =
        rebuild_blocks dec wr reset d bs xs b (snd (wr d b bs (i * bs) t))"
      using t o by (simp add: Let_def split: prod.splits)
    show "lost m bs d v (snd (wr d b bs (i * bs) t))" by (rule lost_wr [OF t(4) assms(2,3) lb])
    show "length b = nat bs" by (rule lb)
    show "rest (snd (wr d b bs (i * bs) t)) = rest s" unfolding t(3) [symmetric]
      by (rule wr_rest) (use g o lb t(2) in auto)
    show "cnt (snd (wr d b bs (i * bs) t)) = (cnt s)(d := overwrite (cnt s d) (nat (i * bs)) b)"
      unfolding t(2) [symmetric] by (subst wr_cnt) (use g o lb t(2) in auto)
  qed
qed

text \<open>After the blocks \<open>k..m-1\<close> the disk holds what was lost, when it did so up to block \<open>k\<close>.\<close>

lemma rebuild_from:
  assumes "lost m bs d v s" "0 \<le> k" "k \<le> m"
    and "\<And>b. length b = nat bs \<Longrightarrow> length (reset b) = nat bs"
    and "length buf = nat bs" and "take (nat (k * bs)) (cnt s d) = take (nat (k * bs)) v"
  shows "cnt (rebuild_blocks dec wr reset d bs [k..m - 1] buf s) = (cnt s)(d := v) \<and>
    rest (rebuild_blocks dec wr reset d bs [k..m - 1] buf s) = rest s \<and>
    lost m bs d v (rebuild_blocks dec wr reset d bs [k..m - 1] buf s)"
  using assms
proof (induction "nat (m - k)" arbitrary: k buf s)
  case 0
  then have k: "k = m" by simp
  have "take (length v) (cnt s d) = v" "length (cnt s d) = length v"
    using lost_geom [OF 0(2)] 0(7) k by (auto simp: nat_eq_iff)
  then have "cnt s d = v" by simp
  then show ?case using k 0 by (auto simp: fun_eq_iff)
next
  case (Suc x)
  note g = lost_geom [OF Suc.prems(1)]
  have k: "k < m" "[k..m - 1] = k # [k + 1..m - 1]"
    using Suc.hyps(2) by (auto simp: upto_rec1)
  have o: "0 \<le> k * bs" "k * bs + bs \<le> m * bs"
    using g k Suc.prems(2) by (auto intro: block_addr)
  let ?b = "take (nat bs) (drop (nat (k * bs)) v)"
  obtain s' where one:
    "rebuild_blocks dec wr reset d bs (k # [k + 1..m - 1]) buf s =
      rebuild_blocks dec wr reset d bs [k + 1..m - 1] ?b s'"
    "lost m bs d v s'" "length ?b = nat bs" "rest s' = rest s"
    "cnt s' = (cnt s)(d := overwrite (cnt s d) (nat (k * bs)) ?b)"
    by (rule rebuild_one [where reset = reset and buf = buf,
        OF Suc.prems(1,2) k(1) Suc.prems(4) [OF Suc.prems(5)]])
  have a: "nat ((k + 1) * bs) = nat (k * bs) + nat bs"
    using o g by (simp add: distrib_right nat_add_distrib)
  have l: "nat (k * bs) + nat bs \<le> length v" "nat (k * bs) + nat bs \<le> length (cnt s d)"
    using o g by linarith+
  have t: "take (nat ((k + 1) * bs)) (cnt s' d) = take (nat ((k + 1) * bs)) v"
    unfolding one(5) a using l Suc.prems(6) by (simp add: overwrite_def take_add)
  show ?case
    unfolding k(2) one(1)
    using Suc.hyps(1) [OF _ one(2) _ _ Suc.prems(4) one(3) t] Suc.hyps(2) Suc.prems(2) k
      one(4,5) by simp
qed

theorem rebuild_all:
  assumes "lost m bs d v s" "0 \<le> m" "\<And>b. length b = nat bs \<Longrightarrow> length (reset b) = nat bs"
    and "length buf = nat bs"
  shows "cnt (rebuild_blocks dec wr reset d bs [0..m - 1] buf s) = (cnt s)(d := v)"
    and "rest (rebuild_blocks dec wr reset d bs [0..m - 1] buf s) = rest s"
  using rebuild_from [OF assms(1) order_refl assms(2,3,4)] by simp_all

end

end
