(* ===== verification/CodingBasic.thy ===== *)
theory CodingBasic
  imports Rebuild
begin

text \<open>
  The coding classes without parity: JBOD (\<open>coding_jbod.cc\<close>), RAID 0 (\<open>coding_raid0.cc\<close>) and RAID 1
  (\<open>coding_raid1.cc\<close>). Each has \<open>encode\<close>, which chooses a block and writes the data there,
  \<open>decode\<close>, which reads data back, and \<open>recover\<close>, which fills a replaced disk.
\<close>

definition jbod_encode :: "byte list \<Rightarrow> int \<Rightarrow> sys \<Rightarrow> data_block_info \<times> sys" where
  "jbod_encode buf sz s =
     (let n = disk_total_num s;
          block_size = disk_block_size s;
          size_request = round_to_block_size sz s;
          block_request = size_request sdiv block_size;
          (disk_id, block_no, s) = pick_first_block block_request (n - 1) s
      in if disk_id = -1 then (\<lparr>bi_disk_id = disk_id, bi_block_no = block_no\<rparr>, s)
         else let (retstat, s) = nc_writeDisk disk_id buf sz (i32 (block_no * block_size)) s;
                  s = claim disk_id block_no block_request s
              in (\<lparr>bi_disk_id = disk_id, bi_block_no = block_no\<rparr>, s))"

definition jbod_decode :: "int \<Rightarrow> byte list \<Rightarrow> int \<Rightarrow> int \<Rightarrow> sys \<Rightarrow> int \<times> byte list \<times> sys" where
  "jbod_decode disk_id buf sz offset s =
     (if disk_status s disk_id = 0 then nc_readDisk disk_id buf sz offset s else (-1, buf, s))"

definition jbod_recover :: "int \<Rightarrow> sys \<Rightarrow> int \<times> sys" where
  "jbod_recover failed_disk_id s = (-1, s)"

definition raid0_encode :: "byte list \<Rightarrow> int \<Rightarrow> sys \<Rightarrow> data_block_info \<times> sys" where
  "raid0_encode buf sz s =
     (let n = disk_total_num s;
          block_size = disk_block_size s;
          size_request = round_to_block_size sz s;
          block_request = size_request sdiv block_size;
          (disk_id, block_no, s) = pick_striped_block block_request (n - 1) s
      in if disk_id = -1 then (\<lparr>bi_disk_id = disk_id, bi_block_no = block_no\<rparr>, s)
         else let (retstat, s) = nc_writeDisk disk_id buf sz (i32 (block_no * block_size)) s;
                  s = claim disk_id block_no block_request s
              in (\<lparr>bi_disk_id = disk_id, bi_block_no = block_no\<rparr>, s))"

definition raid0_decode :: "int \<Rightarrow> byte list \<Rightarrow> int \<Rightarrow> int \<Rightarrow> sys \<Rightarrow> int \<times> byte list \<times> sys" where
  "raid0_decode disk_id buf sz offset s =
     (if disk_status s disk_id = 0 then nc_readDisk disk_id buf sz offset s else (-1, buf, s))"

definition raid0_recover :: "int \<Rightarrow> sys \<Rightarrow> int \<times> sys" where
  "raid0_recover failed_disk_id s = (-1, s)"

definition raid1_encode :: "byte list \<Rightarrow> int \<Rightarrow> sys \<Rightarrow> data_block_info \<times> sys" where
  "raid1_encode buf sz s =
     (let n = disk_total_num s;
          block_size = disk_block_size s;
          size_request = round_to_block_size sz s;
          block_request = size_request sdiv block_size;
          (disk_id, block_no, s) = pick_first_block block_request (n sdiv 2 - 1) s
      in if disk_id = -1 then (\<lparr>bi_disk_id = disk_id, bi_block_no = block_no\<rparr>, s)
         else let (retstat, s) = nc_writeDisk disk_id buf sz (i32 (block_no * block_size)) s;
                  s = claim disk_id block_no block_request s;
                  mirror_disk_id = n - disk_id - 1;
                  (retstat, s) = nc_writeDisk mirror_disk_id buf sz (i32 (block_no * block_size)) s
              in (\<lparr>bi_disk_id = disk_id, bi_block_no = block_no\<rparr>, s))"

definition raid1_decode :: "int \<Rightarrow> byte list \<Rightarrow> int \<Rightarrow> int \<Rightarrow> sys \<Rightarrow> int \<times> byte list \<times> sys" where
  "raid1_decode disk_id buf sz offset s =
     (if disk_status s disk_id = 0 then nc_readDisk disk_id buf sz offset s
      else let mirror_disk_id = disk_total_num s - disk_id - 1
           in if disk_status s mirror_disk_id = 0
              then nc_readDisk mirror_disk_id buf sz offset s
              else (-1, buf, s))"

text \<open>
  The buffer of \<open>recover\<close> is \<open>char buf[block_size]\<close>, cleared before each block; its
  contents before the first \<open>memset\<close> do not matter.
\<close>

definition raid1_recover :: "int \<Rightarrow> sys \<Rightarrow> int \<times> sys" where
  "raid1_recover failed_disk_id s =
     (let recoversize = disk_size s failed_disk_id;
          block_size = disk_block_size s
      in (0, rebuild_blocks raid1_decode nc_writeDisk (\<lambda>b. overwrite b 0 (zeros (nat block_size)))
               failed_disk_id block_size [0..recoversize - 1]
               (malloc (heap_junk s) (nat block_size)) s))"

section \<open>Storing and reading back\<close>

text \<open>What both unmirrored classes do once the block is chosen.\<close>

lemma store_chosen:
  assumes ok: "array_ok m s" and al: "alloc_ok (\<lambda>_ _. True) m s"
    and sz: "0 < sz" "sz \<le> disk_block_size s" "length buf = nat sz"
    and pick: "or_space_list (d0, b0) s = (d, b, s1)" "d \<noteq> -1"
      "d0 \<noteq> -1 \<Longrightarrow> 0 \<le> d0 \<and> d0 < disk_total_num s \<and> 1 \<le> free_size s d0 \<and> b0 = free_offset s d0"
  defines "s2 \<equiv> claim d b 1 (snd (nc_writeDisk d buf sz (i32 (b * disk_block_size s)) s1))"
  shows "array_ok m s2" "alloc_ok (\<lambda>_ _. True) m s2" "in_array m s2 d b sz"
    "block_of s2 d b sz = buf" "\<And>i. i \<noteq> d \<Longrightarrow> content s2 i = content s i"
    "only_block (content s) (content s2) d b (disk_block_size s)"
    "disk_block_size s2 = disk_block_size s"
proof -
  note c = alloc_ok_claim [OF al pick(1,2)]
  note f = or_space_list_fields [OF pick(1)]
  have i1: "in_array m s1 d b sz"
    using c(1-4) pick(3) ok sz by (auto simp: in_array_def array_ok_space [OF pick(1)] f)
  let ?w = "nc_writeDisk d buf sz (i32 (b * disk_block_size s)) s1"
  note w = array_write [OF i1, of buf, unfolded f(3)]
  have w3: "content (snd ?w) = (content s)(d := overwrite (content s d) (nat (b * disk_block_size s)) buf)"
    using w(3) sz(3) f(11) by simp
  have fr: "frame s2 = frame (claim d b 1 s1)"
    unfolding s2_def by (rule frame_claim) (use w sz in simp)
  show b2: "disk_block_size s2 = disk_block_size s" using frame_eqD(3) [OF fr] f by simp
  show a2: "array_ok m s2" using w sz by (simp add: s2_def)
  show "alloc_ok (\<lambda>_ _. True) m s2" using c(6) pick(3) by (simp add: alloc_ok_frame [OF fr])
  show i2: "in_array m s2 d b sz"
    using i1 a2 frame_eqD(1) [OF fr] b2 f by (simp add: in_array_def)
  have c2: "content s2 = (content s)(d := overwrite (content s d) (nat (b * disk_block_size s)) buf)"
    using w3 by (simp add: s2_def)
  show "block_of s2 d b sz = buf"
    using block_of_write [OF i1 sz(3), of s2] b2 c2 f by simp
  show "\<And>i. i \<noteq> d \<Longrightarrow> content s2 i = content s i" using c2 by simp
  show "only_block (content s) (content s2) d b (disk_block_size s)"
    using array_addr [OF i1] sz f c2 by (intro only_block_overwrite [where x = buf]) auto
qed

text \<open>
  JBOD stores and reads back: on a well-formed array, data of up to one block that \<open>encode\<close>
  accepts is returned by \<open>decode\<close> at the place \<open>encode\<close> reported; the array and its free areas stay
  well formed, other disks keep their contents and on the disk used only the reported block changes.
\<close>

theorem jbod_encode_decode:
  assumes "array_ok m s" "alloc_ok (\<lambda>_ _. True) m s" "0 < sz" "sz \<le> disk_block_size s"
    "length buf = nat sz" "length rbuf = nat sz"
    and "jbod_encode buf sz s = (r, s')" "bi_disk_id r \<noteq> -1"
  shows "jbod_decode (bi_disk_id r) rbuf sz (i32 (bi_block_no r * disk_block_size s')) s'
      = (sz, buf, s') \<and> array_ok m s' \<and> alloc_ok (\<lambda>_ _. True) m s' \<and>
    (\<forall>i. i \<noteq> bi_disk_id r \<longrightarrow> content s' i = content s i) \<and>
    only_block (content s) (content s') (bi_disk_id r) (bi_block_no r) (disk_block_size s)"
proof -
  have req: "round_to_block_size sz s sdiv disk_block_size s = 1"
    using assms round_one_block [of s sz] by (simp add: array_ok_def)
  obtain d0 b0 where p: "pick_first 1 [0..disk_total_num s - 1] s = (d0, b0)" by fastforce
  obtain d b s1 where o: "or_space_list (d0, b0) s = (d, b, s1)" by (metis prod_cases3)
  have d: "d \<noteq> -1" "r = \<lparr>bi_disk_id = d, bi_block_no = b\<rparr>"
    "s' = claim d b 1 (snd (nc_writeDisk d buf sz (i32 (b * disk_block_size s)) s1))"
    using assms(7,8) req p o
    by (auto simp: jbod_encode_def pick_first_block_def Let_def split: if_splits prod.splits)
  note st = store_chosen [OF assms(1-5) o d(1)]
  have d0: "d0 \<noteq> -1 \<Longrightarrow> 0 \<le> d0 \<and> d0 < disk_total_num s \<and> 1 \<le> free_size s d0 \<and>
      b0 = free_offset s d0"
    using pick_first_spec [OF p] by auto
  note st = st [OF d0, folded d(3)]
  have "disk_status s' d = 0" using st(3) by (simp add: in_array_def array_ok_def list_all_iff)
  then show ?thesis
    using st array_read [OF st(3) assms(6)] d(2) by (auto simp: jbod_decode_def)
qed

theorem jbod_encode_decode_witness:
  "jbod_decode 0 [0, 0, 0] 3 0 (snd (jbod_encode [7, 8, 9] 3 (fresh_array 100 2 2 4 2))) =
   (3, [7, 8, 9], snd (jbod_encode [7, 8, 9] 3 (fresh_array 100 2 2 4 2)))"
proof -
  let ?s = "fresh_array 100 2 2 4 2"
  have e: "jbod_encode [7, 8, 9] 3 ?s =
      (\<lparr>bi_disk_id = 0, bi_block_no = 0\<rparr>, snd (jbod_encode [7, 8, 9] 3 ?s))"
    by (simp add: jbod_encode_def round_to_block_size_def pick_first_block_def or_space_list_def
        upto.simps split: prod.splits)
  show ?thesis
    using jbod_encode_decode [OF array_ok_fresh alloc_ok_fresh _ _ _ _ e, of "[0, 0, 0]"]
    by (simp add: i32_id)
qed

text \<open>
  C26: RAID 0 stores and reads back like JBOD, and spreads the load: a block taken from the free
  area is taken from the disk with the least offset among all disks that have room.
\<close>

theorem raid0_encode_decode:
  assumes "array_ok m s" "alloc_ok (\<lambda>_ _. True) m s" "0 < sz" "sz \<le> disk_block_size s"
    "length buf = nat sz" "length rbuf = nat sz"
    and "raid0_encode buf sz s = (r, s')" "bi_disk_id r \<noteq> -1"
  shows "raid0_decode (bi_disk_id r) rbuf sz (i32 (bi_block_no r * disk_block_size s')) s'
      = (sz, buf, s') \<and> array_ok m s' \<and> alloc_ok (\<lambda>_ _. True) m s' \<and>
    (\<forall>i. i \<noteq> bi_disk_id r \<longrightarrow> content s' i = content s i) \<and>
    only_block (content s) (content s') (bi_disk_id r) (bi_block_no r) (disk_block_size s) \<and>
    (space_list_head s' = space_list_head s \<longrightarrow> 1 \<le> free_size s (bi_disk_id r) \<and>
       bi_block_no r = free_offset s (bi_disk_id r) \<and>
       list_all (\<lambda>i. 1 \<le> free_size s i \<longrightarrow> bi_block_no r \<le> free_offset s i) (disk_ids s))"
proof -
  have req: "round_to_block_size sz s sdiv disk_block_size s = 1"
    using assms round_one_block [of s sz] by (simp add: array_ok_def)
  obtain d0 b0 fo where p: "pick_striped 1 (disk_total_num s - 1) s = (d0, b0, fo)"
    by (metis prod_cases3)
  obtain d b s1 where o: "or_space_list (d0, b0) s = (d, b, s1)" by (metis prod_cases3)
  have d: "d \<noteq> -1" "r = \<lparr>bi_disk_id = d, bi_block_no = b\<rparr>"
    "s' = claim d b 1 (snd (nc_writeDisk d buf sz (i32 (b * disk_block_size s)) s1))"
    using assms(7,8) req p o
    by (auto simp: raid0_encode_def pick_striped_block_def Let_def split: if_splits prod.splits)
  note sp = pick_striped_spec [OF p]
  have d0: "d0 \<noteq> -1 \<Longrightarrow> 0 \<le> d0 \<and> d0 < disk_total_num s \<and> 1 \<le> free_size s d0 \<and>
      b0 = free_offset s d0"
    using sp by auto
  note st = store_chosen [OF assms(1-5) o d(1) d0, folded d(3)]
  have i1: "in_array m s1 d b sz"
    using st(1,3) alloc_ok_claim(1-4) [OF assms(2) o d(1)] d0 assms(1,3,4)
    by (auto simp: in_array_def array_ok_space [OF o] or_space_list_fields [OF o])
  have bal: "space_list_head s' = space_list_head s \<longrightarrow> 1 \<le> free_size s d \<and> b = free_offset s d \<and>
       list_all (\<lambda>i. 1 \<le> free_size s i \<longrightarrow> b \<le> free_offset s i) (disk_ids s)"
  proof
    assume h: "space_list_head s' = space_list_head s"
    have h1: "space_list_head s' = space_list_head s1"
      using frame_eqD(12) [OF array_write(2) [OF i1, of buf]] assms(5)
      by (simp add: d(3) or_space_list_fields [OF o])
    show "1 \<le> free_size s d \<and> b = free_offset s d \<and>
       list_all (\<lambda>i. 1 \<le> free_size s i \<longrightarrow> b \<le> free_offset s i) (disk_ids s)"
      using o
    proof (cases rule: or_space_list_cases)
      case 1
      then show ?thesis using d0 sp(2) by (auto simp: list_all_iff)
    qed (use d(1) h h1 in auto)
  qed
  have "disk_status s' d = 0" using st(3) by (simp add: in_array_def array_ok_def list_all_iff)
  then show ?thesis
    using st array_read [OF st(3) assms(6)] d(2) bal by (auto simp: raid0_decode_def)
qed

theorem raid0_encode_decode_witness:
  "raid0_decode 0 [0, 0, 0] 3 0 (snd (raid0_encode [7, 8, 9] 3 (fresh_array 0 2 2 4 2))) =
   (3, [7, 8, 9], snd (raid0_encode [7, 8, 9] 3 (fresh_array 0 2 2 4 2)))"
proof -
  let ?s = "fresh_array 0 2 2 4 2"
  have e: "raid0_encode [7, 8, 9] 3 ?s =
      (\<lparr>bi_disk_id = 0, bi_block_no = 0\<rparr>, snd (raid0_encode [7, 8, 9] 3 ?s))"
    by (simp add: raid0_encode_def round_to_block_size_def pick_striped_block_def
        pick_striped_def pick_step_def or_space_list_def upto.simps split: prod.splits)
  show ?thesis
    using raid0_encode_decode [OF array_ok_fresh alloc_ok_fresh _ _ _ _ e, of "[0, 0, 0]"]
    by (simp add: i32_id)
qed

section \<open>RAID 1\<close>

definition mirrored :: "int \<Rightarrow> (int \<Rightarrow> byte list) \<Rightarrow> bool" where
  "mirrored n v \<longleftrightarrow> list_all (\<lambda>d. v d = v (n - 1 - d)) [0..n - 1]"

lemma mirroredD:
  assumes "mirrored n v" "0 \<le> d" "d < n"
  shows "v (n - 1 - d) = v d"
proof -
  have "\<forall>i \<in> set [0..n - 1]. v i = v (n - 1 - i)"
    using assms(1) unfolding mirrored_def list_all_iff .
  then have "v d = v (n - 1 - d)" by (rule bspec) (use assms in simp)
  then show ?thesis by (rule sym)
qed

lemma mirrored_write:
  assumes "mirrored n v" "0 \<le> d" "d < n"
  shows "mirrored n (v(d := x, n - 1 - d := x))"
  unfolding mirrored_def list_all_iff
proof
  fix i assume "i \<in> set [0..n - 1]"
  then have "v (n - 1 - i) = v i" using mirroredD [OF assms(1), of i] by simp
  then show "(v(d := x, n - 1 - d := x)) i = (v(d := x, n - 1 - d := x)) (n - 1 - i)"
    by auto
qed

text \<open>
  C25: RAID 1 keeps the two halves of the array mirror images: \<open>encode\<close> writes the data to the block
  it reports and to the same block of the mirror disk, and nothing else changes.
\<close>

theorem raid1_encode_mirrored:
  assumes "array_ok m s" "alloc_ok (\<lambda>d _. d < disk_total_num s sdiv 2) m s"
    "mirrored (disk_total_num s) (content s)"
    and "0 < sz" "sz \<le> disk_block_size s" "length buf = nat sz"
    and "raid1_encode buf sz s = (r, s')" "bi_disk_id r \<noteq> -1"
  shows "array_ok m s' \<and> mirrored (disk_total_num s) (content s') \<and>
    block_of s' (bi_disk_id r) (bi_block_no r) sz = buf \<and>
    bi_disk_id r < disk_total_num s sdiv 2 \<and>
    (\<forall>i. i \<noteq> bi_disk_id r \<longrightarrow> i \<noteq> disk_total_num s - 1 - bi_disk_id r \<longrightarrow> content s' i = content s i) \<and>
    only_block (content s) (content s') (bi_disk_id r) (bi_block_no r) (disk_block_size s) \<and>
    alloc_ok (\<lambda>d _. d < disk_total_num s sdiv 2) m s'"
proof -
  let ?n = "disk_total_num s"
  have req: "round_to_block_size sz s sdiv disk_block_size s = 1"
    using assms round_one_block [of s sz] by (simp add: array_ok_def)
  obtain d0 b0 where p: "pick_first 1 [0..?n sdiv 2 - 1] s = (d0, b0)" by fastforce
  obtain d b s1 where o: "or_space_list (d0, b0) s = (d, b, s1)" by (metis prod_cases3)
  let ?w1 = "nc_writeDisk d buf sz (i32 (b * disk_block_size s)) s1"
  let ?s2 = "claim d b 1 (snd ?w1)"
  let ?w2 = "nc_writeDisk (?n - d - 1) buf sz (i32 (b * disk_block_size s)) ?s2"
  have d: "d \<noteq> -1" "r = \<lparr>bi_disk_id = d, bi_block_no = b\<rparr>" "s' = snd ?w2"
    using assms(7,8) req p o
    by (auto simp: raid1_encode_def pick_first_block_def Let_def split: if_splits prod.splits)
  have d0: "d0 \<noteq> -1 \<Longrightarrow> 0 \<le> d0 \<and> d0 < ?n \<and> 1 \<le> free_size s d0 \<and> b0 = free_offset s d0 \<and>
      d0 < ?n sdiv 2"
    using pick_first_spec [OF p] sdiv_2_neg [of ?n] by (cases "0 \<le> ?n") auto
  note c = alloc_ok_claim [OF assms(2) o d(1) d0]
  note f = or_space_list_fields [OF o]
  have i1: "in_array m s1 d b sz"
    using c assms by (simp add: in_array_def array_ok_space [OF o] f)
  note w1 = array_write [OF i1, of buf, unfolded f(3)]
  have l: "nat sz \<le> length buf" using assms(6) by simp
  have fr2: "frame ?s2 = frame (claim d b 1 s1)"
    by (rule frame_claim) (rule w1(2) [OF l])
  have n2: "disk_total_num ?s2 = ?n" "disk_block_size ?s2 = disk_block_size s"
    using frame_eqD(1,3) [OF fr2] f by simp_all
  have i2: "in_array m ?s2 (?n - d - 1) b sz"
    using i1 w1(4) [OF l] n2 f by (simp add: in_array_def)
  note w2 = array_write [OF i2, of buf, unfolded n2(2), OF l]
  let ?x = "overwrite (content s d) (nat (b * disk_block_size s)) buf"
  have c1: "content (snd ?w1) = (content s)(d := ?x)"
    using w1(3) [OF l] assms(6) f(11) by simp
  have e: "content s (?n - 1 - d) = content s d"
    using mirroredD [OF assms(3)] c by simp
  have c2: "content s' = (content s)(d := ?x, ?n - 1 - d := ?x)"
  proof -
    have nd: "?n - d - 1 = ?n - 1 - d" "d < ?n sdiv 2" "0 \<le> d" "d < ?n" using c(1,2,5) by auto
    then have ne: "d \<noteq> ?n - 1 - d" by (cases "0 \<le> ?n") auto
    define p where "p = ?n - 1 - d"
    have "content s p = content s d" "p \<noteq> d" using e ne by (simp_all add: p_def)
    then show ?thesis unfolding d(3) w2(3) unfolding nd(1) p_def [symmetric] using c1 assms(6)
      by simp
  qed
  have fr3: "frame s' = frame ?s2" unfolding d(3) by (rule w2(2))
  have "alloc_ok (\<lambda>d _. d < ?n sdiv 2) m s'"
    using c(6) alloc_ok_frame [OF fr3] alloc_ok_frame [OF fr2] by simp
  moreover have "mirrored ?n (content s')"
    unfolding c2 using assms(3) c by (intro mirrored_write) auto
  moreover have "block_of s' d b sz = buf"
    using c2 frame_eqD(3) [OF fr3] n2 f by (intro block_of_write [OF i1 assms(6)]) auto
  moreover have "only_block (content s) (content s') d b (disk_block_size s)"
    using array_addr [OF i1] assms(4-6) f c2
    by (intro only_block_overwrite [where x = buf]) auto
  ultimately show ?thesis using d(2) c(5) c2 w2(4) d(3) by simp
qed

theorem raid1_encode_mirrored_witness:
  "mirrored 3 (content (snd (raid1_encode [7, 8, 9] 3 (fresh_array 1 3 1 4 2)))) \<and>
   block_of (snd (raid1_encode [7, 8, 9] 3 (fresh_array 1 3 1 4 2))) 0 0 3 = [7, 8, 9]"
proof -
  let ?s = "fresh_array 1 3 1 4 2"
  have e: "raid1_encode [7, 8, 9] 3 ?s =
      (\<lparr>bi_disk_id = 0, bi_block_no = 0\<rparr>, snd (raid1_encode [7, 8, 9] 3 ?s))"
    by (simp add: raid1_encode_def round_to_block_size_def pick_first_block_def
        or_space_list_def upto.simps split: prod.splits)
  have m: "mirrored (disk_total_num ?s) (content ?s)"
    by (simp add: mirrored_def list_all_iff content_fresh)
  show ?thesis
    using raid1_encode_mirrored [OF array_ok_fresh alloc_ok_fresh m _ _ _ e] by simp
qed

text \<open>
  RAID 1 survives the loss of any one disk that has a mirror: reading from the lost disk, any
  range of bytes, gives what it held, and reading from any other disk is unaffected.
\<close>

theorem raid1_degraded_read:
  assumes "array_ok m s" "mirrored (disk_total_num s) (content s)"
    and "0 \<le> f" "f < disk_total_num s" "2 * f \<noteq> disk_total_num s - 1"
    and "0 \<le> d" "d < disk_total_num s"
    and "0 < sz" "0 \<le> off" "off + sz \<le> m * disk_block_size s" "length buf = nat sz"
  shows "raid1_decode d buf sz off (fail_disk f s) =
    (sz, take (nat sz) (drop (nat off) (content s d)), fail_disk f s)"
proof -
  let ?s = "fail_disk f s"
  have st: "disk_status ?s = (disk_status s)(f := 1)" "disk_total_num ?s = disk_total_num s"
    using assms set_device_status_1 [of f "put_device (dev_name s f) None s"]
    by (simp_all add: fail_disk_def)
  have good: "disk_status s i = 0" "int (length (content s i)) = m * disk_block_size s"
    "i \<noteq> f \<Longrightarrow> content ?s i = content s i" if "0 \<le> i" "i < disk_total_num s" for i
    using assms that by (auto simp: array_ok_def list_all_iff intro: content_fail_disk)
  have r: "nc_readDisk i buf sz off ?s = (sz, take (nat sz) (drop (nat off) (content s i)), ?s)"
    if "0 \<le> i" "i < disk_total_num s" "i \<noteq> f" for i
    using good [OF that(1,2)] assms that nc.rd_buf [of sz off ?s i buf] by simp
  show ?thesis
  proof (cases "d = f")
    case False
    then show ?thesis using r [of d] good(1) [of d] assms by (simp add: raid1_decode_def st)
  next
    case True
    let ?p = "disk_total_num s - f - 1"
    have p: "0 \<le> ?p" "?p < disk_total_num s" "?p \<noteq> f" using assms by auto
    have "content s ?p = content s f"
      using mirroredD [OF assms(2-4)] by (simp add: algebra_simps)
    then show ?thesis
      using True r [OF p] good(1) [OF p(1,2)] p(3) by (simp add: raid1_decode_def st)
  qed
qed

theorem raid1_degraded_read_witness:
  "fst (raid1_decode 2 [1, 1] 2 3 (fail_disk 2 (fresh_array 1 3 1 4 2))) = 2"
proof -
  have m: "mirrored 3 (content (fresh_array 1 3 1 4 2))"
    by (simp add: mirrored_def list_all_iff content_fresh)
  show ?thesis
    using raid1_degraded_read [of 2 "fresh_array 1 3 1 4 2" 2 2 2 3 "[1, 1]"] m
    by (simp add: array_ok_fresh)
qed

text \<open>The replacement of a lost disk whose mirror is good.\<close>

definition raid1_lost :: "int \<Rightarrow> int \<Rightarrow> int \<Rightarrow> byte list \<Rightarrow> sys \<Rightarrow> bool" where
  "raid1_lost m bs d v s \<longleftrightarrow> 0 < bs \<and> m * bs < 2147483648 \<and> int (length v) = m * bs \<and>
     int (length (content s d)) = m * bs \<and> disk_status s d \<noteq> 0 \<and>
     disk_status s (disk_total_num s - d - 1) = 0 \<and> content s (disk_total_num s - d - 1) = v"

interpretation r1: block_rebuild nc_readDisk nc_writeDisk content frame raid1_decode raid1_lost
proof
  fix m bs d i v s and buf :: "byte list"
  assume l: "raid1_lost m bs d v s"
  show g: "0 < bs \<and> m * bs < 2147483648 \<and> int (length v) = m * bs \<and>
      int (length (content s d)) = m * bs"
    using l by (simp add: raid1_lost_def)
  assume i: "0 \<le> i" "i < m" and b: "length buf = nat bs"
  have a: "0 \<le> i * bs" "i * bs + bs \<le> m * bs" using block_addr [of bs m i] g i by auto
  have dec: "raid1_decode d buf bs (i * bs) s = (bs, take (nat bs) (drop (nat (i * bs)) v), s)"
    using l a g b nc.rd_buf [of bs "i * bs" s "disk_total_num s - d - 1" buf]
    by (simp add: raid1_decode_def raid1_lost_def)
  then show "\<exists>t. raid1_decode d buf bs (i * bs) s = (bs, take (nat bs) (drop (nat (i * bs)) v), t) \<and>
      content t = content s \<and> frame t = frame s \<and> raid1_lost m bs d v t"
    using l by blast
  let ?w = "nc_writeDisk d buf bs (i * bs) s"
  have f: "frame (snd ?w) = frame s" and c: "content (snd ?w) =
      (content s)(d := overwrite (content s d) (nat (i * bs)) (take (nat bs) buf))"
    using nc.wr_rest [of bs "i * bs" s d buf] nc.wr_cnt [of bs "i * bs" s d buf] a g b by auto
  have "disk_total_num s - d - 1 \<noteq> d" using l unfolding raid1_lost_def by metis
  then show "raid1_lost m bs d v (snd ?w)"
    using l a g b nc.wr_len [of bs "i * bs" s d buf d]
    by (simp add: raid1_lost_def frame_eqD(1,10) [OF f] c)
qed

text \<open>
  RAID 1 recovery fills a replaced disk with what its mirror holds, touches no other disk, and
  reports success.
\<close>

theorem raid1_recover_ok:
  assumes "raid1_lost (disk_size s d) (disk_block_size s) d v s" "0 \<le> disk_size s d"
  shows "fst (raid1_recover d s) = 0 \<and> content (snd (raid1_recover d s)) = (content s)(d := v)"
proof -
  have "0 < disk_block_size s" using assms by (simp add: raid1_lost_def)
  then show ?thesis
    using r1.rebuild_all(1) [OF assms, of "\<lambda>b. overwrite b 0 (zeros (nat (disk_block_size s)))"
        "malloc (heap_junk s) (nat (disk_block_size s))"]
    by (simp add: raid1_recover_def Let_def)
qed

theorem raid1_recover_ok_witness:
  "content (snd (raid1_recover 0 ((fresh_array 1 2 1 4 2)\<lparr>disk_status := (\<lambda>i. if i = 0 then 1 else 0)\<rparr>))) 0
   = zeros 8"
proof -
  let ?s = "(fresh_array 1 2 1 4 2)\<lparr>disk_status := (\<lambda>i. if i = 0 then 1 else 0)\<rparr>"
  have c: "content ?s = content (fresh_array 1 2 1 4 2)" by (rule content_cong) simp_all
  have "raid1_lost (disk_size ?s 0) (disk_block_size ?s) 0 (zeros 8) ?s"
    by (simp add: raid1_lost_def c content_fresh)
  then show ?thesis using raid1_recover_ok [of ?s 0 "zeros 8"] by simp
qed

end
