(* ===== verification/CodingRaid45.thy ===== *)
theory CodingRaid45
  imports Rebuild
begin

text \<open>
  RAID 4 (\<open>coding_raid4.cc\<close>) and RAID 5 (\<open>coding_raid5.cc\<close>): one parity block per row of
  blocks, on the last disk in RAID 4 and on disk \<open>n - 1 - b mod n\<close> for row \<open>b\<close> in RAID 5. Both update
  the parity by reading the old data and the old parity.
\<close>

section \<open>The operations\<close>

definition raid4_encode :: "byte list \<Rightarrow> int \<Rightarrow> sys \<Rightarrow> data_block_info \<times> sys" where
  "raid4_encode buf sz s =
     (let n = disk_total_num s;
          block_size = disk_block_size s;
          size_request = round_to_block_size sz s;
          block_request = size_request sdiv block_size;
          (disk_id, block_no, s) = pick_striped_block block_request (n - 2) s
      in if disk_id = -1 then (\<lparr>bi_disk_id = disk_id, bi_block_no = block_no\<rparr>, s)
         else
           let junk = heap_junk s;
               buf_read = malloc junk (nat size_request);
               buf2 = malloc junk (nat size_request);
               (retstat, buf2, s) = nc_readDisk disk_id buf2 size_request (i32 (block_no * block_size)) s;
               buf2 = xor_into junk (nat size_request) buf2 buf;
               (retstat, s) = nc_writeDisk disk_id buf sz (i32 (block_no * block_size)) s;
               s = claim disk_id block_no block_request s;
               parity_disk_id = n - 1;
               (retstat, buf_read, s) =
                 nc_readDisk parity_disk_id buf_read size_request (i32 (block_no * block_size)) s;
               buf2 = xor_into junk (nat size_request) buf2 buf_read;
               (retstat, s) = nc_writeDisk parity_disk_id buf2 sz (i32 (block_no * block_size)) s
           in (\<lparr>bi_disk_id = disk_id, bi_block_no = block_no\<rparr>, s))"

definition raid4_decode :: "int \<Rightarrow> byte list \<Rightarrow> int \<Rightarrow> int \<Rightarrow> sys \<Rightarrow> int \<times> byte list \<times> sys" where
  "raid4_decode disk_id buf sz offset s =
     (if disk_status s disk_id = 0 then nc_readDisk disk_id buf sz offset s
      else let temp_buf = zeros (nat sz);
               buf = overwrite buf 0 (zeros (nat sz))
           in xor_surviving disk_id sz offset (disk_ids s) temp_buf buf s)"

definition raid4_recover :: "int \<Rightarrow> sys \<Rightarrow> int \<times> sys" where
  "raid4_recover failed_disk_id s =
     (let recoversize = disk_size s failed_disk_id;
          block_size = disk_block_size s
      in (0, rebuild_blocks raid4_decode nc_writeDisk (\<lambda>b. overwrite b 0 (zeros (nat block_size)))
               failed_disk_id block_size [0..recoversize - 1]
               (malloc (heap_junk s) (nat block_size)) s))"

text \<open>RAID 5 steps over the blocks that hold parity before it looks for a data block.\<close>

definition raid5_mark_step :: "sys \<Rightarrow> int \<Rightarrow> sys" where
  "raid5_mark_step s i =
     (if i = disk_total_num s - 1 - (free_offset s i smod disk_total_num s)
      then put_free_size i (free_size s i - 1) (put_free_offset i (free_offset s i + 1) s)
      else s)"

definition raid5_mark :: "sys \<Rightarrow> sys" where
  "raid5_mark s = foldl raid5_mark_step s (disk_ids s)"

definition raid5_encode :: "byte list \<Rightarrow> int \<Rightarrow> sys \<Rightarrow> data_block_info \<times> sys" where
  "raid5_encode buf sz s =
     (let n = disk_total_num s;
          block_size = disk_block_size s;
          size_request = round_to_block_size sz s;
          block_request = size_request sdiv block_size;
          s = raid5_mark s;
          (disk_id, block_no, s) = pick_striped_block block_request (n - 1) s
      in if disk_id = -1 then (\<lparr>bi_disk_id = disk_id, bi_block_no = block_no\<rparr>, s)
         else
           let junk = heap_junk s;
               buf_read = malloc junk (nat size_request);
               buf2 = malloc junk (nat size_request);
               (retstat, buf2, s) = nc_readDisk disk_id buf2 size_request (i32 (block_no * block_size)) s;
               buf2 = xor_ints junk (nat size_request) buf2 buf;
               s = claim disk_id block_no block_request s;
               parity_disk_id = n - 1 - (block_no smod n);
               (retstat, buf_read, s) =
                 nc_readDisk parity_disk_id buf_read size_request (i32 (block_no * block_size)) s;
               buf2 = xor_ints junk (nat size_request) buf2 buf_read;
               (retstat, s) = nc_writeDisk disk_id buf sz (i32 (block_no * block_size)) s;
               (retstat, s) = nc_writeDisk parity_disk_id buf2 sz (i32 (block_no * block_size)) s
           in (\<lparr>bi_disk_id = disk_id, bi_block_no = block_no\<rparr>, s))"

definition raid5_decode :: "int \<Rightarrow> byte list \<Rightarrow> int \<Rightarrow> int \<Rightarrow> sys \<Rightarrow> int \<times> byte list \<times> sys" where
  "raid5_decode disk_id buf sz offset s =
     (if disk_status s disk_id = 0 then nc_readDisk disk_id buf sz offset s
      else let temp_buf = zeros (nat sz);
               buf = overwrite buf 0 (zeros (nat sz))
           in xor_surviving disk_id sz offset (disk_ids s) temp_buf buf s)"

definition raid5_recover :: "int \<Rightarrow> sys \<Rightarrow> int \<times> sys" where
  "raid5_recover failed_disk_id s =
     (let recoversize = disk_size s failed_disk_id;
          block_size = disk_block_size s
      in (0, rebuild_blocks raid5_decode nc_writeDisk (\<lambda>b. b)
               failed_disk_id block_size [0..recoversize - 1]
               (malloc (heap_junk s) (nat block_size)) s))"

section \<open>Read, modify, write on the array\<close>

text \<open>
  The state both classes end in when data goes to block \<open>b\<close> of disk \<open>d\<close> and parity to block \<open>b\<close> of disk
  \<open>p\<close>, whatever the order of the reads and writes.
\<close>

lemma rmw_parity:
  assumes "in_array m s d b (disk_block_size s)" "0 \<le> p" "p < disk_total_num s" "d \<noteq> p"
    and x: "length x \<le> nat (disk_block_size s)" and "length y = length x"
    and y: "\<And>j. j < length x \<Longrightarrow> y ! j = block_of s d b (disk_block_size s) ! j XOR x ! j XOR
        block_of s p b (disk_block_size s) ! j"
    and par: "xor_parity (disk_total_num s) (nat (m * disk_block_size s)) (content s)"
    and c: "content s' = (content s)
        (d := overwrite (content s d) (nat (b * disk_block_size s)) x,
         p := overwrite (content s p) (nat (b * disk_block_size s)) y)"
  shows "xor_parity (disk_total_num s) (nat (m * disk_block_size s)) (content s')"
  unfolding c
proof (rule xor_parity_rmw [OF par])
  have i: "in_array m s i b (disk_block_size s)" if "0 \<le> i" "i < disk_total_num s" for i
    using assms(1) that by (simp add: in_array_def)
  have len: "int (length (content s i)) = m * disk_block_size s"
    if "0 \<le> i" "i < disk_total_num s" for i
    using assms(1) that by (auto simp: in_array_def array_ok_def list_all_iff)
  show d: "0 \<le> d" "d < disk_total_num s" using assms(1) by (auto simp: in_array_def)
  show "length (content s d) = nat (m * disk_block_size s)"
    "length (content s p) = nat (m * disk_block_size s)"
    using len [OF d] len [OF assms(2,3)] by auto
  note a = array_addr [OF assms(1)]
  show "nat (b * disk_block_size s) + length x \<le> nat (m * disk_block_size s)"
    using a x len [OF d] by linarith
  fix j assume j: "j < length x"
  have "block_of s i b (disk_block_size s) ! j = content s i ! (nat (b * disk_block_size s) + j)"
    if "0 \<le> i" "i < disk_total_num s" for i
    using j x array_addr [OF i [OF that]] by (simp add: block_of_def)
  then show "y ! j = content s d ! (nat (b * disk_block_size s) + j) XOR x ! j XOR
      content s p ! (nat (b * disk_block_size s) + j)"
    using y [OF j] d assms(2,3) by simp
qed (use assms in auto)

lemma in_array_step:
  assumes "in_array m s d b sz" "array_ok m s'" "disk_total_num s' = disk_total_num s"
    "disk_block_size s' = disk_block_size s"
  shows "in_array m s' d b sz"
  using assms by (simp add: in_array_def)

lemma in_array_full: "in_array m s d b sz \<Longrightarrow> in_array m s d b (disk_block_size s)"
  by (auto simp: in_array_def array_ok_def)

text \<open>Data, then parity, with the claim of the block between the writes (RAID 4) or before (RAID 5).\<close>

lemma two_writes:
  assumes i: "in_array m s d b sz" and p: "0 \<le> p" "p < disk_total_num s"
    and x: "length x = nat sz" and y: "nat sz \<le> length y"
    and s': "s' = snd (nc_writeDisk p y sz (i32 (b * disk_block_size s)) t)"
    and t: "t = claim d b 1 (snd (nc_writeDisk d x sz (i32 (b * disk_block_size s)) s)) \<or>
            t = snd (nc_writeDisk d x sz (i32 (b * disk_block_size s)) (claim d b 1 s))"
  shows "content t = (content s)(d := overwrite (content s d) (nat (b * disk_block_size s)) x)"
    and "content s' = (content t)(p := overwrite (content t p) (nat (b * disk_block_size s))
           (take (nat sz) y))"
    and "array_ok m t" "array_ok m s'" "frame t = frame (claim d b 1 s)"
      "frame s' = frame (claim d b 1 s)"
proof -
  have ic: "in_array m (claim d b 1 s) d b sz"
    using i by (intro in_array_step [OF i]) (auto simp: in_array_def)
  note w1 = array_write [OF i, of x] array_write [OF ic, of x, simplified]
  have l: "nat sz \<le> length x" using x by simp
  show ft: "frame t = frame (claim d b 1 s)"
    using t w1(2,6) [OF l] by (auto intro: frame_claim)
  show at: "array_ok m t" using t w1(4,8) [OF l] by auto
  show "content t = (content s)(d := overwrite (content s d) (nat (b * disk_block_size s)) x)"
    using t w1(3,7) [OF l] x by auto
  have n: "disk_total_num t = disk_total_num s" "disk_block_size t = disk_block_size s"
    using frame_eqD(1,3) [OF ft] by simp_all
  have it: "in_array m t p b sz" using i at n p by (simp add: in_array_def)
  note w2 = array_write [OF it y, unfolded n(2), folded s']
  show "content s' = (content t)(p := overwrite (content t p) (nat (b * disk_block_size s))
           (take (nat sz) y))" "array_ok m s'" by (rule w2)+
  show "frame s' = frame (claim d b 1 s)" using w2(2) ft by simp
qed

text \<open>What a data block with its parity leaves, for both classes.\<close>

lemma parity_stored:
  assumes i: "in_array m s d b sz" and p: "0 \<le> p" "p < disk_total_num s" "d \<noteq> p"
    and x: "length x = nat sz" and len: "length y = nat (disk_block_size s)"
    and y: "\<And>j. j < nat sz \<Longrightarrow> y ! j = block_of s d b (disk_block_size s) ! j XOR x ! j XOR
        block_of s p b (disk_block_size s) ! j"
    and par: "xor_parity (disk_total_num s) (nat (m * disk_block_size s)) (content s)"
    and s': "s' = snd (nc_writeDisk p y sz (i32 (b * disk_block_size s)) t)"
    and t: "t = claim d b 1 (snd (nc_writeDisk d x sz (i32 (b * disk_block_size s)) s)) \<or>
            t = snd (nc_writeDisk d x sz (i32 (b * disk_block_size s)) (claim d b 1 s))"
  shows "array_ok m s'" "frame s' = frame (claim d b 1 s)"
    "xor_parity (disk_total_num s) (nat (m * disk_block_size s)) (content s')"
    "block_of s' d b sz = x" "only_block (content s) (content s') d b (disk_block_size s)"
    "\<And>i. i \<noteq> d \<Longrightarrow> i \<noteq> p \<Longrightarrow> content s' i = content s i"
    "only_block (content s) (content s') p b (disk_block_size s)"
proof -
  have sz: "sz \<le> disk_block_size s" "0 < sz" using i by (auto simp: in_array_def)
  have ly: "nat sz \<le> length y" using len sz by simp
  note w = two_writes [OF i p(1,2) x ly s' t]
  show "array_ok m s'" by (rule w)
  show f: "frame s' = frame (claim d b 1 s)" by (rule w)
  have c: "content s' = (content s)
        (d := overwrite (content s d) (nat (b * disk_block_size s)) x,
         p := overwrite (content s p) (nat (b * disk_block_size s)) (take (nat sz) y))"
    unfolding w(2) using w(1) p(3) by simp
  have lt: "length (take (nat sz) y) = nat sz" using ly by simp
  show "xor_parity (disk_total_num s) (nat (m * disk_block_size s)) (content s')"
    by (rule rmw_parity [OF in_array_full [OF i] p _ _ _ par c])
      (use x lt sz y in \<open>auto\<close>)
  show "block_of s' d b sz = x"
    by (rule block_of_write [OF i x]) (use frame_eqD(3) [OF f] c p(3) in auto)
  have ip: "in_array m s p b sz" using i p by (simp add: in_array_def)
  note a = array_addr [OF i] array_addr [OF ip]
  show "only_block (content s) (content s') d b (disk_block_size s)"
    by (rule only_block_overwrite [where x = x]) (use a x sz c p(3) in auto)
  show "only_block (content s) (content s') p b (disk_block_size s)"
    by (rule only_block_overwrite [where x = "take (nat sz) y"]) (use a lt sz c in auto)
  show "\<And>i. i \<noteq> d \<Longrightarrow> i \<noteq> p \<Longrightarrow> content s' i = content s i" using c by simp
qed

lemma block_of_cong:
  "disk_block_size s = disk_block_size t \<Longrightarrow> content s d = content t d \<Longrightarrow>
   block_of s d b sz = block_of t d b sz"
  by (simp add: block_of_def)

section \<open>RAID 4\<close>

text \<open>
  C24: RAID 4 keeps parity: on a well-formed array whose disks sum to zero at every byte, \<open>encode\<close>
  stores the data in the block it reports, on a data disk, changes only that block and the same block
  of the last disk, and leaves an array whose disks again sum to zero.
\<close>

theorem raid4_encode_parity:
  assumes ok: "array_ok m s" "alloc_ok (\<lambda>d _. d < disk_total_num s - 1) m s"
    and par: "xor_parity (disk_total_num s) (nat (m * disk_block_size s)) (content s)"
    and sz: "0 < sz" "sz \<le> disk_block_size s" "length buf = nat sz"
    and enc: "raid4_encode buf sz s = (r, s')" "bi_disk_id r \<noteq> -1"
  shows "array_ok m s' \<and> alloc_ok (\<lambda>d _. d < disk_total_num s - 1) m s' \<and>
    xor_parity (disk_total_num s) (nat (m * disk_block_size s)) (content s') \<and>
    block_of s' (bi_disk_id r) (bi_block_no r) sz = buf \<and>
    0 \<le> bi_disk_id r \<and> bi_disk_id r < disk_total_num s - 1 \<and>
    only_block (content s) (content s') (bi_disk_id r) (bi_block_no r) (disk_block_size s) \<and>
    (\<forall>i. i \<noteq> bi_disk_id r \<longrightarrow> i \<noteq> disk_total_num s - 1 \<longrightarrow> content s' i = content s i)"
proof -
  let ?n = "disk_total_num s" and ?bs = "disk_block_size s" and ?junk = "heap_junk s"
  have req: "round_to_block_size sz s = ?bs" "?bs sdiv ?bs = 1" "0 < ?bs"
    using ok sz round_one_block [of s sz] by (auto simp: array_ok_def)
  obtain d0 b0 fo where p: "pick_striped 1 (?n - 2) s = (d0, b0, fo)" by (metis prod_cases3)
  obtain d b s1 where o: "or_space_list (d0, b0) s = (d, b, s1)" by (metis prod_cases3)
  note f = or_space_list_fields [OF o]
  have dne: "d \<noteq> -1" using enc req p o
    by (auto simp: raid4_encode_def pick_striped_block_def Let_def split: if_splits prod.splits)
  have d0: "d0 \<noteq> -1 \<Longrightarrow> 0 \<le> d0 \<and> d0 < ?n \<and> 1 \<le> free_size s d0 \<and> b0 = free_offset s d0 \<and>
      d0 < ?n - 1"
    using pick_striped_spec(1) [OF p] by auto
  note c = alloc_ok_claim [OF ok(2) o dne d0]
  have i: "in_array m s1 d b sz"
    using c ok sz by (simp add: in_array_def array_ok_space [OF o] f)
  note ib = in_array_full [OF i, unfolded f(3)]
  let ?a = "i32 (b * ?bs)"
  let ?t = "claim d b 1 (snd (nc_writeDisk d buf sz ?a s1))"
  let ?old = "block_of s1 d b ?bs" and ?oldp = "block_of s1 (?n - 1) b ?bs"
  let ?y = "xor_into ?junk (nat ?bs) (xor_into ?junk (nat ?bs) ?old buf) ?oldp"
  note w = array_write [OF i, of buf, unfolded f(3)]
  have l: "nat sz \<le> length buf" using sz by simp
  have ft: "frame ?t = frame (claim d b 1 s1)" by (rule frame_claim) (rule w(2) [OF l])
  have nt: "disk_total_num ?t = ?n" "disk_block_size ?t = ?bs"
    using frame_eqD(1,3) [OF ft] f by simp_all
  have it: "in_array m ?t (?n - 1) b ?bs"
    using ib w(4) [OF l] nt f c by (auto simp: in_array_def)
  have ct: "content ?t (?n - 1) = content s1 (?n - 1)" using w(3) [OF l] c(5) by simp
  have rp: "nc_readDisk (?n - 1) (malloc ?junk (nat ?bs)) ?bs ?a ?t = (?bs, ?oldp, ?t)"
    using array_read [OF it, of "malloc ?junk (nat ?bs)"] nt f
      block_of_cong [of ?t s1 "?n - 1" b ?bs, OF _ ct] by simp
  have rd: "nc_readDisk d (malloc ?junk (nat ?bs)) ?bs ?a s1 = (?bs, ?old, s1)"
    using array_read [OF ib, of "malloc ?junk (nat ?bs)"] f by simp
  have r: "r = \<lparr>bi_disk_id = d, bi_block_no = b\<rparr>"
    "s' = snd (nc_writeDisk (?n - 1) ?y sz ?a ?t)"
    using enc(1) req p o dne rd rp f
    by (auto simp: raid4_encode_def pick_striped_block_def Let_def split: prod.splits)
  have len: "length ?old = nat ?bs" "length ?oldp = nat ?bs"
    using length_block_of [OF ib] length_block_of [OF it]
      block_of_cong [of ?t s1 "?n - 1" b ?bs, OF _ ct] nt f by auto
  have y: "?y ! j = ?old ! j XOR buf ! j XOR ?oldp ! j" if "j < nat sz" for j
  proof -
    have "j < nat ?bs" using that sz by linarith
    then show ?thesis using that sz len by (simp add: nth_xor_into xor.assoc)
  qed
  note st = parity_stored [OF i, of "?n - 1" buf ?y s' ?t, unfolded f]
  have st': "array_ok m s'" "frame s' = frame (claim d b 1 s1)"
    "xor_parity ?n (nat (m * ?bs)) (content s')" "block_of s' d b sz = buf"
    "only_block (content s) (content s') d b ?bs"
    "\<And>i. i \<noteq> d \<Longrightarrow> i \<noteq> ?n - 1 \<Longrightarrow> content s' i = content s i"
    using c(1,2,5) len y par r(2) sz by (intro st; auto)+
  then show ?thesis using c r(1) alloc_ok_frame [OF st'(2)] by simp
qed

theorem raid4_encode_parity_witness:
  "xor_parity 3 8 (content (snd (raid4_encode [7, 8, 9] 3 (fresh_array 4 3 2 4 2)))) \<and>
   block_of (snd (raid4_encode [7, 8, 9] 3 (fresh_array 4 3 2 4 2))) 0 0 3 = [7, 8, 9]"
proof -
  let ?s = "fresh_array 4 3 2 4 2"
  have e: "raid4_encode [7, 8, 9] 3 ?s =
      (\<lparr>bi_disk_id = 0, bi_block_no = 0\<rparr>, snd (raid4_encode [7, 8, 9] 3 ?s))"
    by (simp add: raid4_encode_def round_to_block_size_def pick_striped_block_def
        pick_striped_def pick_step_def or_space_list_def upto.simps Let_def split: prod.splits)
  show ?thesis
    using raid4_encode_parity [OF array_ok_fresh alloc_ok_fresh _ _ _ _ e]
      xor_parity_fresh [of 3 2 4 4 2] by simp
qed

section \<open>RAID 5\<close>

definition raid5_parity_disk :: "int \<Rightarrow> int \<Rightarrow> int" where
  "raid5_parity_disk n b = n - 1 - b mod n"

text \<open>Whether the next free block of disk \<open>i\<close> holds parity.\<close>

definition raid5_at_parity :: "sys \<Rightarrow> int \<Rightarrow> bool" where
  "raid5_at_parity s i \<longleftrightarrow> i = disk_total_num s - 1 - (free_offset s i smod disk_total_num s)"

lemma raid5_mark_fold:
  "distinct xs \<Longrightarrow> foldl raid5_mark_step s xs = s
     \<lparr>free_offset := (\<lambda>i. if i \<in> set xs \<and> raid5_at_parity s i then free_offset s i + 1
                          else free_offset s i),
      free_size := (\<lambda>i. if i \<in> set xs \<and> raid5_at_parity s i then free_size s i - 1
                        else free_size s i)\<rparr>"
proof (induction xs rule: rev_induct)
  case Nil
  then show ?case by simp
next
  case (snoc x xs)
  then show ?case
    by (auto simp: raid5_mark_step_def raid5_at_parity_def put_free_offset_def put_free_size_def
        fun_eq_iff intro!: sys.equality)
qed

lemma raid5_mark_eq: "raid5_mark s = s
     \<lparr>free_offset := (\<lambda>i. if i \<in> set (disk_ids s) \<and> raid5_at_parity s i then free_offset s i + 1
                          else free_offset s i),
      free_size := (\<lambda>i. if i \<in> set (disk_ids s) \<and> raid5_at_parity s i then free_size s i - 1
                        else free_size s i)\<rparr>"
  unfolding raid5_mark_def by (rule raid5_mark_fold) simp

lemma raid5_mark_fields [simp]:
  "disk_total_num (raid5_mark s) = disk_total_num s"
  "disk_block_size (raid5_mark s) = disk_block_size s"
  "heap_junk (raid5_mark s) = heap_junk s"
  "disk_size (raid5_mark s) = disk_size s" "disk_status (raid5_mark s) = disk_status s"
  "dev_name (raid5_mark s) = dev_name s" "devices (raid5_mark s) = devices s"
  "space_list_head (raid5_mark s) = space_list_head s"
  "content (raid5_mark s) = content s"
  unfolding raid5_mark_eq by (simp_all add: content_def fun_eq_iff)

lemma array_ok_mark [simp]: "array_ok m (raid5_mark s) = array_ok m s"
  by (simp add: array_ok_def)

lemma alloc_ok_mark: "alloc_ok data m s \<Longrightarrow> alloc_ok data m (raid5_mark s)"
  unfolding alloc_ok_def raid5_mark_eq by (fastforce simp: list_all_iff)

text \<open>After the step no free area starts at a parity block.\<close>

lemma mod_Suc_int: "2 \<le> (n::int) \<Longrightarrow> (a + 1) mod n \<noteq> a mod n"
  by (smt (verit) add_diff_cancel_left' mod_eq_dvd_iff zdvd_not_zless)

lemma raid5_mark_data:
  assumes "alloc_ok data m s" "2 \<le> disk_total_num s" "0 \<le> i" "i < disk_total_num s"
  shows "i \<noteq> raid5_parity_disk (disk_total_num s) (free_offset (raid5_mark s) i)"
proof -
  have "0 \<le> free_offset s i" using assms by (auto simp: alloc_ok_def list_all_iff)
  then show ?thesis using assms mod_Suc_int [of "disk_total_num s" "free_offset s i"]
    by (auto simp: raid5_mark_eq raid5_at_parity_def raid5_parity_disk_def)
qed

text \<open>What \<open>encode\<close> does, with the state it leaves of the tables when no deleted block is reused.\<close>

lemma raid5_encode_ok:
  fixes s :: sys
  defines "n \<equiv> disk_total_num s" and "bs \<equiv> disk_block_size s"
  assumes ok: "array_ok m s" "alloc_ok (\<lambda>d b. d \<noteq> raid5_parity_disk n b) m s" "2 \<le> n"
    and par: "xor_parity n (nat (m * bs)) (content s)"
    and sz: "0 < sz" "sz \<le> bs" "length buf = nat sz"
    and enc: "raid5_encode buf sz s = (r, s')" "bi_disk_id r \<noteq> -1"
  shows "array_ok m s' \<and> alloc_ok (\<lambda>d b. d \<noteq> raid5_parity_disk n b) m s' \<and>
    xor_parity n (nat (m * bs)) (content s') \<and>
    block_of s' (bi_disk_id r) (bi_block_no r) sz = buf \<and>
    0 \<le> bi_disk_id r \<and> bi_disk_id r < n \<and>
    bi_disk_id r \<noteq> raid5_parity_disk n (bi_block_no r) \<and>
    only_block (content s) (content s') (bi_disk_id r) (bi_block_no r) bs \<and>
    only_block (content s) (content s') (raid5_parity_disk n (bi_block_no r)) (bi_block_no r) bs \<and>
    (\<forall>i. i \<noteq> bi_disk_id r \<longrightarrow> i \<noteq> raid5_parity_disk n (bi_block_no r) \<longrightarrow>
       content s' i = content s i) \<and>
    0 \<le> bi_block_no r \<and> bi_block_no r < m \<and>
    (space_list_head s = [] \<longrightarrow> bi_block_no r = free_offset (raid5_mark s) (bi_disk_id r) \<and>
       frame s' = frame (claim (bi_disk_id r) (bi_block_no r) 1 (raid5_mark s)))"
proof -
  let ?junk = "heap_junk s" and ?m = "raid5_mark s"
  let ?D = "\<lambda>d b. d \<noteq> raid5_parity_disk n b"
  have req: "round_to_block_size sz s = bs" "bs sdiv bs = 1" "0 < bs" "4 dvd bs"
    using ok sz round_one_block [of s sz] by (auto simp: array_ok_def bs_def)
  obtain d0 b0 fo where p: "pick_striped 1 (n - 1) ?m = (d0, b0, fo)" by (metis prod_cases3)
  obtain d b s1 where o: "or_space_list (d0, b0) ?m = (d, b, s1)" by (metis prod_cases3)
  note f = or_space_list_fields [OF o, simplified, folded n_def bs_def]
  have dne: "d \<noteq> -1" using enc req p o
    by (auto simp: raid5_encode_def pick_striped_block_def Let_def n_def bs_def
        split: if_splits prod.splits)
  have d0: "d0 \<noteq> -1 \<Longrightarrow> 0 \<le> d0 \<and> d0 < disk_total_num ?m \<and> 1 \<le> free_size ?m d0 \<and>
      b0 = free_offset ?m d0 \<and> ?D d0 b0"
    using pick_striped_spec(1) [OF p] raid5_mark_data [OF ok(2)] ok(3) by (auto simp: n_def)
  note c = alloc_ok_claim [OF alloc_ok_mark [OF ok(2)] o dne d0, simplified, folded n_def]
  have i: "in_array m s1 d b sz"
    using c ok sz by (simp add: in_array_def array_ok_space [OF o] f)
  note ib = in_array_full [OF i, unfolded f(3)]
  let ?p = "raid5_parity_disk n b"
  have pr: "0 \<le> ?p" "?p < n"
    using ok(3) pos_mod_bound [of n b] pos_mod_sign [of n b]
    unfolding raid5_parity_disk_def by linarith+
  have pe: "n - 1 - (b smod n) = ?p" using c(3) ok(3) by (simp add: raid5_parity_disk_def)
  let ?a = "i32 (b * bs)"
  let ?c = "claim d b 1 s1"
  let ?t = "snd (nc_writeDisk d buf sz ?a ?c)"
  let ?old = "block_of s1 d b bs" and ?oldp = "block_of s1 ?p b bs"
  let ?y = "xor_into ?junk (nat bs) (xor_into ?junk (nat bs) ?old buf) ?oldp"
  have ic: "in_array m ?c ?p b bs"
    using ib pr f(1,3) by (simp add: in_array_def)
  have rp: "nc_readDisk ?p (malloc ?junk (nat bs)) bs ?a ?c = (bs, ?oldp, ?c)"
    using array_read [OF ic, of "malloc ?junk (nat bs)"] f block_of_cong [of ?c s1 ?p b bs]
    by simp
  have rd: "nc_readDisk d (malloc ?junk (nat bs)) bs ?a s1 = (bs, ?old, s1)"
    using array_read [OF ib, of "malloc ?junk (nat bs)"] f by simp
  have xi: "xor_ints ?junk (nat bs) u w = xor_into ?junk (nat bs) u w" for u w
    using req(4) by (intro xor_ints_eq dvd_4_nat)
  have r: "r = \<lparr>bi_disk_id = d, bi_block_no = b\<rparr>" "s' = snd (nc_writeDisk ?p ?y sz ?a ?t)"
    using enc(1) unfolding raid5_encode_def Let_def pick_striped_block_def
      n_def [symmetric] bs_def [symmetric]
    by (simp_all add: req(1,2) p o dne rd rp f xi pe split: prod.splits)
  have len: "length ?old = nat bs" "length ?oldp = nat bs"
    using length_block_of [OF ib] length_block_of [OF ic] block_of_cong [of ?c s1 ?p b bs] by auto
  have y: "?y ! j = ?old ! j XOR buf ! j XOR ?oldp ! j" if "j < nat sz" for j
  proof -
    have "j < nat bs" using that sz by linarith
    then show ?thesis using that sz len by (simp add: nth_xor_into xor.assoc)
  qed
  note st = parity_stored [OF i, of ?p buf ?y s' ?t, unfolded f]
  have st': "array_ok m s'" "frame s' = frame ?c"
    "xor_parity n (nat (m * bs)) (content s')" "block_of s' d b sz = buf"
    "only_block (content s) (content s') d b bs" "only_block (content s) (content s') ?p b bs"
    "\<And>i. i \<noteq> d \<Longrightarrow> i \<noteq> ?p \<Longrightarrow> content s' i = content s i"
    using c(1,2,5) len y par r(2) sz pr by (intro st; auto)+
  moreover have "b = free_offset ?m d \<and> s1 = ?m" if "space_list_head s = []"
    using o
  proof (cases rule: or_space_list_cases)
    case 1
    then show ?thesis using d0 by simp
  qed (use that dne in auto)
  ultimately show ?thesis using c r(1) alloc_ok_frame [OF st'(2)] by simp
qed

text \<open>
  C21: RAID 5 keeps parity: on a well-formed array whose disks sum to zero at every byte, \<open>encode\<close>
  stores the data in a block that is not the parity block of its row, changes only that block and the
  parity block of the row, and leaves an array whose disks again sum to zero. The deleted blocks
  that may be used again stay data blocks.
\<close>

theorem raid5_encode_parity:
  fixes s :: sys
  defines "n \<equiv> disk_total_num s" and "bs \<equiv> disk_block_size s"
  assumes ok: "array_ok m s" "alloc_ok (\<lambda>d b. d \<noteq> raid5_parity_disk n b) m s" "2 \<le> n"
    and par: "xor_parity n (nat (m * bs)) (content s)"
    and sz: "0 < sz" "sz \<le> bs" "length buf = nat sz"
    and enc: "raid5_encode buf sz s = (r, s')" "bi_disk_id r \<noteq> -1"
  shows "array_ok m s' \<and> alloc_ok (\<lambda>d b. d \<noteq> raid5_parity_disk n b) m s' \<and>
    xor_parity n (nat (m * bs)) (content s') \<and>
    block_of s' (bi_disk_id r) (bi_block_no r) sz = buf \<and>
    0 \<le> bi_disk_id r \<and> bi_disk_id r < n \<and>
    bi_disk_id r \<noteq> raid5_parity_disk n (bi_block_no r) \<and>
    only_block (content s) (content s') (bi_disk_id r) (bi_block_no r) bs \<and>
    only_block (content s) (content s') (raid5_parity_disk n (bi_block_no r)) (bi_block_no r) bs \<and>
    (\<forall>i. i \<noteq> bi_disk_id r \<longrightarrow> i \<noteq> raid5_parity_disk n (bi_block_no r) \<longrightarrow>
       content s' i = content s i)"
  using raid5_encode_ok [OF ok [unfolded n_def] par [unfolded n_def bs_def] sz [unfolded bs_def] enc]
  unfolding n_def bs_def by blast

theorem raid5_encode_parity_witness:
  "xor_parity 3 8 (content (snd (raid5_encode [7, 8, 9] 3 (fresh_array 5 3 2 4 2)))) \<and>
   block_of (snd (raid5_encode [7, 8, 9] 3 (fresh_array 5 3 2 4 2))) 0 0 3 = [7, 8, 9]"
proof -
  let ?s = "fresh_array 5 3 2 4 2"
  have e: "raid5_encode [7, 8, 9] 3 ?s =
      (\<lparr>bi_disk_id = 0, bi_block_no = 0\<rparr>, snd (raid5_encode [7, 8, 9] 3 ?s))"
    by (simp add: raid5_encode_def round_to_block_size_def pick_striped_block_def
        pick_striped_def pick_step_def or_space_list_def upto.simps Let_def raid5_mark_eq
        raid5_at_parity_def split: prod.splits)
  show ?thesis
    using raid5_encode_parity [OF array_ok_fresh alloc_ok_fresh _ _ _ _ _ e]
      xor_parity_fresh [of 3 2 4 5 2] by simp
qed

section \<open>Reading and recovering with a lost disk\<close>

lemma raid5_decode_failed:
  assumes "array_ok m s"
    and "xor_parity (disk_total_num s) (nat (m * disk_block_size s)) (content s)"
    and "0 \<le> f" "f < disk_total_num s" "0 \<le> d" "d < disk_total_num s"
    and "0 < sz" "0 \<le> off" "off + sz \<le> m * disk_block_size s" "length buf = nat sz"
  defines "held \<equiv> take (nat sz) (drop (nat off) (content s d))"
  shows "raid5_decode d buf sz off (fail_disk f s) =
      (sz, if d = f then int_bytes sz held else held, fail_disk f s) \<and>
    (4 dvd sz \<longrightarrow> int_bytes sz held = held)"
proof -
  let ?s = "fail_disk f s"
  note lost = lost_fail_disk [OF assms(1,3,4)]
  have st: "disk_status ?s = (disk_status s)(f := 1)" "disk_total_num ?s = disk_total_num s"
    "disk_block_size ?s = disk_block_size s"
    using assms set_device_status_1 [of f "put_device (dev_name s f) None s"]
    by (simp_all add: fail_disk_def)
  have good: "disk_status s d = 0" "int (length (content s d)) = m * disk_block_size s"
    "d \<noteq> f \<Longrightarrow> content ?s d = content s d"
    using assms by (auto simp: array_ok_def list_all_iff intro: content_fail_disk)
  have four: "4 dvd sz \<longrightarrow> int_bytes sz held = held"
    using nc.length_rd_buf [of sz off s d] good(2) assms(7-9) unfolding held_def
    by (intro impI int_bytes_id) auto
  have "raid5_decode d buf sz off ?s = (sz, if d = f then int_bytes sz held else held, ?s)"
  proof (cases "d = f")
    case True
    have "overwrite buf 0 (zeros (nat sz)) = zeros (nat sz)"
      using assms(10) by (simp add: overwrite_def)
    then show ?thesis
      using True xor_surviving_lost [OF lost, of sz off "zeros (nat sz)"] assms st
      by (simp add: raid5_decode_def)
  next
    case False
    then show ?thesis using nc.rd_buf [of sz off ?s d buf] assms good st
      by (simp add: raid5_decode_def)
  qed
  then show ?thesis using four by simp
qed

text \<open>
  C22: RAID 5 with one lost disk: reading a range of bytes of the lost disk gives what it held when the
  size is a multiple of four. For other sizes, because the loop runs over whole \<open>int\<close>s, the last \<open>sz mod 4\<close>
  bytes come back as zero and those before are right. Other disks are read as before.
\<close>

theorem raid5_degraded_read:
  assumes "array_ok m s"
    and "xor_parity (disk_total_num s) (nat (m * disk_block_size s)) (content s)"
    and "0 \<le> f" "f < disk_total_num s" "0 \<le> d" "d < disk_total_num s"
    and "0 < sz" "0 \<le> off" "off + sz \<le> m * disk_block_size s" "length buf = nat sz"
  defines "held \<equiv> take (nat sz) (drop (nat off) (content s d))"
  shows "raid5_decode d buf sz off (fail_disk f s) =
      (sz, if d = f then int_bytes sz held else held, fail_disk f s) \<and>
    (4 dvd sz \<longrightarrow> int_bytes sz held = held)"
  unfolding held_def by (rule raid5_decode_failed [OF assms(1-10)])

theorem raid5_degraded_read_witness:
  "fst (raid5_decode 2 [1, 1, 1, 1] 4 4 (fail_disk 2 (fresh_array 5 3 2 4 2))) = 4"
  using raid5_degraded_read [of 2 "fresh_array 5 3 2 4 2" 2 2 4 4 "[1, 1, 1, 1]"]
  by (simp add: array_ok_fresh xor_parity_fresh [of 3 2 4 5 2, simplified])

text \<open>RAID 4 and RAID 5 have the same degraded read.\<close>

lemma raid4_decode_raid5: "raid4_decode = raid5_decode"
  by (simp add: raid4_decode_def raid5_decode_def fun_eq_iff)

text \<open>The replacement of a disk when all others are good and \<open>v\<close> completes the parity.\<close>

definition parity_lost :: "int \<Rightarrow> int \<Rightarrow> int \<Rightarrow> byte list \<Rightarrow> sys \<Rightarrow> bool" where
  "parity_lost m bs d v s \<longleftrightarrow> bs = disk_block_size s \<and>
     lost_disk m d ((content s)(d := v)) s \<and> int (length (content s d)) = m * bs \<and>
     xor_parity (disk_total_num s) (nat (m * bs)) ((content s)(d := v))"

interpretation r5: block_rebuild nc_readDisk nc_writeDisk content frame raid5_decode parity_lost
proof
  fix m bs d i v s and buf :: "byte list"
  assume l: "parity_lost m bs d v s"
  then have ll: "lost_disk m d ((content s)(d := v)) s" and bs: "bs = disk_block_size s"
    by (auto simp: parity_lost_def)
  have d: "0 \<le> d" "d < disk_total_num s" "disk_status s d \<noteq> 0" "4 dvd bs"
    using ll bs by (auto simp: lost_disk_def)
  show g: "0 < bs \<and> m * bs < 2147483648 \<and> int (length v) = m * bs \<and>
      int (length (content s d)) = m * bs"
    using l ll d by (auto simp: parity_lost_def lost_disk_def list_all_iff)
  assume i: "0 \<le> i" "i < m" and b: "length buf = nat bs"
  have a: "0 \<le> i * bs" "i * bs + bs \<le> m * bs" using block_addr [of bs m i] g i by auto
  have len: "length (take (nat bs) (drop (nat (i * bs)) v)) = nat bs"
    using a g by (simp add: min_def) linarith
  have z: "overwrite buf 0 (zeros (nat bs)) = zeros (nat bs)"
    using b by (simp add: overwrite_def)
  have dec: "raid5_decode d buf bs (i * bs) s = (bs, take (nat bs) (drop (nat (i * bs)) v), s)"
    using xor_surviving_lost [OF ll, of bs "i * bs" "zeros (nat bs)"] l a g d z bs
      int_bytes_id [OF d(4) len]
    by (simp add: raid5_decode_def parity_lost_def)
  then show "\<exists>t. raid5_decode d buf bs (i * bs) s = (bs, take (nat bs) (drop (nat (i * bs)) v), t) \<and>
      content t = content s \<and> frame t = frame s \<and> parity_lost m bs d v t"
    using l by blast
  define t where "t = snd (nc_writeDisk d buf bs (i * bs) s)"
  have f: "frame t = frame s" and c: "content t =
      (content s)(d := overwrite (content s d) (nat (i * bs)) (take (nat bs) buf))"
    and tl: "length (content t d) = length (content s d)"
    using nc.wr_rest [of bs "i * bs" s d buf] nc.wr_cnt [of bs "i * bs" s d buf]
      nc.wr_len [of bs "i * bs" s d buf d] a g b by (auto simp: t_def)
  have cv: "(content t)(d := v) = (content s)(d := v)" "\<And>i. i \<noteq> d \<Longrightarrow> content t i = content s i"
    using c by simp_all
  show "parity_lost m bs d v (snd (nc_writeDisk d buf bs (i * bs) s))"
    using l unfolding t_def [symmetric]
    by (auto simp: parity_lost_def lost_disk_def frame_eqD(1,3,7,10) [OF f] list_all_iff cv tl)
qed

text \<open>
  C23: Recovery in RAID 4 and RAID 5 rebuilds a lost disk, data or parity: when the other disks are
  good and \<open>v\<close> is what makes every byte sum to zero, the replaced disk holds \<open>v\<close> afterwards, no other
  disk has changed, and the call reports success.
\<close>

theorem raid5_recover_ok:
  assumes "parity_lost (disk_size s d) (disk_block_size s) d v s" "0 \<le> disk_size s d"
  shows "fst (raid5_recover d s) = 0 \<and> content (snd (raid5_recover d s)) = (content s)(d := v) \<and>
    fst (raid4_recover d s) = 0 \<and> content (snd (raid4_recover d s)) = (content s)(d := v)"
proof -
  have "0 < disk_block_size s" using assms by (simp add: parity_lost_def lost_disk_def)
  then show ?thesis
    using r5.rebuild_all(1) [OF assms, of "\<lambda>b. b" "malloc (heap_junk s) (nat (disk_block_size s))"]
      r5.rebuild_all(1) [OF assms, of "\<lambda>b. overwrite b 0 (zeros (nat (disk_block_size s)))"
        "malloc (heap_junk s) (nat (disk_block_size s))"]
    by (simp add: raid5_recover_def raid4_recover_def raid4_decode_raid5 Let_def)
qed

theorem raid5_recover_ok_witness:
  "content (snd (raid5_recover 0 ((fresh_array 5 3 2 4 2)\<lparr>disk_status := (\<lambda>i. if i = 0 then 1 else 0)\<rparr>))) 0
   = zeros 8"
proof -
  let ?s = "(fresh_array 5 3 2 4 2)\<lparr>disk_status := (\<lambda>i. if i = 0 then 1 else 0)\<rparr>"
  have c: "content ?s = content (fresh_array 5 3 2 4 2)" by (rule content_cong) simp_all
  have "(content ?s)(0 := zeros 8) = content (fresh_array 5 3 2 4 2)"
    using c content_fresh [of 0 3 5 2 4 2] by (simp add: fun_eq_iff)
  then have "parity_lost (disk_size ?s 0) (disk_block_size ?s) 0 (zeros 8) ?s"
    using xor_parity_fresh [of 3 2 4 5 2]
    by (simp add: parity_lost_def lost_disk_def list_all_iff content_fresh c)
  then show ?thesis using raid5_recover_ok [of ?s 0 "zeros 8"] by simp
qed

end
