(* ===== verification/StripeCode.thy ===== *)
theory StripeCode
  imports Rebuild
begin

text \<open>
  What EVENODD, RDP and MDR share (\<open>coding_evenodd.cc\<close>, \<open>coding_rdp.cc\<close>, \<open>coding_mdr1.cc\<close>): data
  disks, then the disk P with the sum of each row, then the disk Q, whose blocks are sums of cells of
  the same strip. A strip is a group of \<open>S\<close> consecutive rows. The text of \<open>encode\<close> is the same in
  the three classes up to the function that finds the Q blocks of a cell, and the number of bytes
  that are summed and written.
\<close>

section \<open>Operations\<close>

text \<open>Read a list of cells, given by disk and address, and add each to the buffer.\<close>

fun xor_cells :: "int \<Rightarrow> (int \<times> int) list \<Rightarrow> byte list \<Rightarrow> byte list \<Rightarrow> sys \<Rightarrow>
    byte list \<times> byte list \<times> sys" where
  "xor_cells sz [] temp buf s = (temp, buf, s)"
| "xor_cells sz (x # xs) temp buf s =
     (let (retstat, temp, s) = nc_readDisk (fst x) temp sz (snd x) s
      in xor_cells sz xs temp (xor_into (heap_junk s) (nat sz) buf temp) s)"

text \<open>The loop over the Q blocks of a cell: read, add the data, write back.\<close>

fun update_q :: "int \<Rightarrow> int \<Rightarrow> int \<Rightarrow> int \<Rightarrow> int \<Rightarrow> byte list \<Rightarrow> int list \<Rightarrow> sys \<Rightarrow> sys" where
  "update_q q_disk bs nx rsz wsz buf [] s = s"
| "update_q q_disk bs nx rsz wsz buf (q # qs) s =
     (let buf_q = zeros (nat rsz);
          (retstat, buf_q, s) = nc_readDisk q_disk buf_q rsz (i32 (q * bs)) s;
          buf_q = xor_into (heap_junk s) (nat nx) buf_q buf;
          (retstat, s) = nc_writeDisk q_disk buf_q wsz (i32 (q * bs)) s
      in update_q q_disk bs nx rsz wsz buf qs s)"

text \<open>The counters of P and Q advance when a block of disk 0 is taken.\<close>

definition stripe_count :: "int \<Rightarrow> int \<Rightarrow> int \<Rightarrow> sys \<Rightarrow> sys" where
  "stripe_count S disk_id block_no s =
     (if disk_id = 0 then
        let n = disk_total_num s;
            s = put_free_offset (n - 2) (free_offset s (n - 2) + 1) s;
            s = put_free_size (n - 2) (free_size s (n - 2) - 1) s
        in if block_no smod S = 0 then
             let s = put_free_offset (n - 1) (free_offset s (n - 1) + S) s
             in put_free_size (n - 1) (free_size s (n - 1) - S) s
           else s
      else s)"

definition stripe_encode :: "(int \<Rightarrow> int \<Rightarrow> int list) \<Rightarrow> int \<Rightarrow> int \<Rightarrow> int \<Rightarrow> byte list \<Rightarrow> int \<Rightarrow> sys \<Rightarrow>
    data_block_info \<times> sys" where
  "stripe_encode find_q S nx wq buf sz s =
     (let n = disk_total_num s;
          block_size = disk_block_size s;
          size_request = round_to_block_size sz s;
          block_request = size_request sdiv block_size;
          (disk_id, block_no, fo) = pick_striped block_request (n - 3) s;
          s = stripe_count S disk_id block_no s;
          (disk_id, block_no, s) = or_space_list (disk_id, block_no) s
      in if disk_id = -1 then (\<lparr>bi_disk_id = disk_id, bi_block_no = block_no\<rparr>, s)
         else
           let s = claim disk_id block_no block_request s;
               p_disk_id = n - 2;
               q_disk_id = n - 1;
               buf_p = malloc (heap_junk s) (nat size_request);
               (retstat, buf_p, s) = nc_readDisk p_disk_id buf_p size_request (i32 (block_no * block_size)) s;
               buf_p = xor_into (heap_junk s) (nat nx) buf_p buf;
               (retstat, s) = nc_writeDisk p_disk_id buf_p sz (i32 (block_no * block_size)) s;
               strip_num = block_no sdiv S;
               strip_offset = block_no smod S;
               s = update_q q_disk_id block_size nx size_request wq buf
                     (map (\<lambda>q. q + strip_num * S) (find_q disk_id strip_offset)) s;
               (retstat, s) = nc_writeDisk disk_id buf sz (i32 (block_no * block_size)) s
           in (\<lparr>bi_disk_id = disk_id, bi_block_no = block_no\<rparr>, s))"

section \<open>Cells\<close>

text \<open>Byte \<open>j\<close> of block \<open>b\<close> on disk \<open>c\<close>.\<close>

definition cell :: "(int \<Rightarrow> byte list) \<Rightarrow> int \<Rightarrow> int \<Rightarrow> int \<Rightarrow> nat \<Rightarrow> byte" where
  "cell v bs c b j = v c ! (nat (b * bs) + j)"

definition row_parity :: "int \<Rightarrow> int \<Rightarrow> int \<Rightarrow> (int \<Rightarrow> byte list) \<Rightarrow> bool" where
  "row_parity n m bs v \<longleftrightarrow> list_all (\<lambda>b. list_all (\<lambda>j.
     xsum (\<lambda>c. cell v bs c b j) [0..n - 2] = 0) [0..<nat bs]) [0..m - 1]"

text \<open>
  \<open>q_rel i\<close> lists the cells, as pairs of an offset in the strip and a disk, whose sum is block \<open>i\<close> of
  the strip on Q.
\<close>

definition q_sum :: "int \<Rightarrow> (int \<Rightarrow> (int \<times> int) list) \<Rightarrow> int \<Rightarrow> (int \<Rightarrow> byte list) \<Rightarrow> int \<Rightarrow> nat \<Rightarrow> byte" where
  "q_sum S q_rel bs v b j = xsum (\<lambda>x. cell v bs (snd x) (fst x + b div S * S) j) (q_rel (b mod S))"

definition q_parity :: "int \<Rightarrow> int \<Rightarrow> int \<Rightarrow> int \<Rightarrow> (int \<Rightarrow> (int \<times> int) list) \<Rightarrow> (int \<Rightarrow> byte list) \<Rightarrow> bool" where
  "q_parity n m bs S q_rel v \<longleftrightarrow> list_all (\<lambda>b. list_all (\<lambda>j.
     q_sum S q_rel bs v b j = cell v bs (n - 1) b j) [0..<nat bs]) [0..m - 1]"

text \<open>The relations name cells of the strip outside Q.\<close>

definition q_rel_ok :: "int \<Rightarrow> int \<Rightarrow> (int \<Rightarrow> (int \<times> int) list) \<Rightarrow> bool" where
  "q_rel_ok n S q_rel \<longleftrightarrow> 0 < S \<and> list_all (\<lambda>i. list_all (\<lambda>x.
     0 \<le> fst x \<and> fst x < S \<and> 0 \<le> snd x \<and> snd x < n - 1) (q_rel i)) [0..S - 1]"

text \<open>
  \<open>find_q d j\<close> is right for the cell of disk \<open>d\<close> in row \<open>j\<close>: it names a Q block an odd number of times
  exactly when the cell and the P cell of its row together occur an odd number of times in the
  relation of the block.
\<close>

definition find_q_ok :: "int \<Rightarrow> (int \<Rightarrow> (int \<times> int) list) \<Rightarrow> (int \<Rightarrow> int \<Rightarrow> int list) \<Rightarrow> int \<Rightarrow> int \<Rightarrow> int \<Rightarrow> bool" where
  "find_q_ok n q_rel find_q S d j \<longleftrightarrow> set (find_q d j) \<subseteq> set [0..S - 1] \<and>
     list_all (\<lambda>i. odd (count_list (find_q d j) i) =
       (odd (count_list (q_rel i) (j, d)) \<noteq> odd (count_list (q_rel i) (j, n - 2)))) [0..S - 1]"

lemma row_parityD:
  "row_parity n m bs v \<Longrightarrow> 0 \<le> b \<Longrightarrow> b < m \<Longrightarrow> j < nat bs \<Longrightarrow>
   xsum (\<lambda>c. cell v bs c b j) [0..n - 2] = 0"
  by (simp add: row_parity_def list_all_iff)

lemma q_parityD:
  "q_parity n m bs S q_rel v \<Longrightarrow> 0 \<le> b \<Longrightarrow> b < m \<Longrightarrow> j < nat bs \<Longrightarrow>
   q_sum S q_rel bs v b j = cell v bs (n - 1) b j"
  by (simp add: q_parity_def list_all_iff)

lemma cell_addr:
  assumes "0 \<le> q" "0 \<le> b" "j < nat bs" "sz \<le> bs"
  shows "(nat (q * bs) \<le> nat (b * bs) + j \<and> nat (b * bs) + j < nat (q * bs) + nat sz)
    \<longleftrightarrow> q = b \<and> j < nat sz"
proof -
  have bs: "0 < bs" "nat sz \<le> nat bs" using assms by auto
  have nm: "nat (x * bs) = nat x * nat bs" if "0 \<le> x" for x
    using that bs by (simp add: nat_mult_distrib)
  show ?thesis
  proof (cases "q = b")
    case True
    then show ?thesis by simp
  next
    case False
    have "nat q * nat bs + nat bs \<le> nat b * nat bs \<or> nat b * nat bs + nat bs \<le> nat q * nat bs"
    proof (cases "nat q < nat b")
      case True
      then have "Suc (nat q) * nat bs \<le> nat b * nat bs" by (intro mult_right_mono) auto
      then show ?thesis by (simp add: add.commute)
    next
      case f: False
      then have "nat b < nat q" using False assms(1,2) by linarith
      then have "Suc (nat b) * nat bs \<le> nat q * nat bs" by (intro mult_right_mono) auto
      then show ?thesis by (simp add: add.commute)
    qed
    then show ?thesis using False assms bs nm by auto
  qed
qed

section \<open>Reading cells\<close>

lemma xor_cells_ok:
  assumes "\<And>x. x \<in> set xs \<Longrightarrow> 0 \<le> snd x \<and> snd x + sz \<le> int (length (content s (fst x)))"
    and "0 < sz" "length temp = nat sz" "length buf = nat sz"
  shows "\<exists>t. xor_cells sz xs temp buf s = (t, map (\<lambda>j. buf ! j XOR
      xsum (\<lambda>x. content s (fst x) ! (nat (snd x) + j)) xs) [0..<nat sz], s)"
  using assms
proof (induction xs arbitrary: temp buf)
  case Nil
  then show ?case by (auto intro!: nth_equalityI)
next
  case (Cons x xs)
  let ?t = "take (nat sz) (drop (nat (snd x)) (content s (fst x)))"
  let ?b = "xor_into (heap_junk s) (nat sz) buf ?t"
  have x: "0 \<le> snd x" "snd x + sz \<le> int (length (content s (fst x)))"
    using Cons.prems(1) [of x] by auto
  have r: "nc_readDisk (fst x) temp sz (snd x) s = (sz, ?t, s)"
    by (rule nc.rd_buf) (use x Cons.prems in auto)
  have t: "length ?t = nat sz" by (rule nc.length_rd_buf) (use x Cons.prems in auto)
  have tj: "?t ! j = content s (fst x) ! (nat (snd x) + j)" if "j < nat sz" for j
    using that x by simp
  obtain t' where "xor_cells sz xs ?t ?b s = (t', map (\<lambda>j. ?b ! j XOR
      xsum (\<lambda>x. content s (fst x) ! (nat (snd x) + j)) xs) [0..<nat sz], s)"
    using Cons.IH [of ?t ?b] Cons.prems t by auto
  moreover have "?b ! j = buf ! j XOR content s (fst x) ! (nat (snd x) + j)" if "j < nat sz" for j
    using that Cons.prems(4) t tj by (simp add: nth_xor_into)
  ultimately show ?case using r by (auto simp: xor.assoc)
qed

lemma xor_cells_length:
  assumes "\<And>x. x \<in> set xs \<Longrightarrow> 0 \<le> snd x \<and> snd x + sz \<le> int (length (content s (fst x)))"
    and "0 < sz" "length temp = nat sz"
  shows "length (fst (xor_cells sz xs temp buf s)) = nat sz"
  using assms
proof (induction xs arbitrary: temp buf)
  case Nil
  then show ?case by simp
next
  case (Cons x xs)
  have x: "0 \<le> snd x" "snd x + sz \<le> int (length (content s (fst x)))"
    using Cons.prems(1) [of x] by auto
  have r: "nc_readDisk (fst x) temp sz (snd x) s =
      (sz, take (nat sz) (drop (nat (snd x)) (content s (fst x))), s)"
    by (rule nc.rd_buf) (use x Cons.prems in auto)
  have l: "length (take (nat sz) (drop (nat (snd x)) (content s (fst x)))) = nat sz"
    by (rule nc.length_rd_buf) (use x Cons.prems in auto)
  show ?case using Cons.IH [OF _ Cons.prems(2) l] Cons.prems(1) r by simp
qed

section \<open>Writing sums\<close>

text \<open>One read, add, write: a block changes by the data, in its first \<open>sz\<close> bytes.\<close>

definition sum_widths :: "int \<Rightarrow> int \<Rightarrow> int \<Rightarrow> int \<Rightarrow> bool" where
  "sum_widths sz bs nx wsz \<longleftrightarrow> 0 < sz \<and> sz \<le> bs \<and>
     (nx = sz \<and> (wsz = bs \<or> wsz = sz) \<or> nx = bs \<and> wsz = sz)"

lemma write_cell:
  fixes s :: sys
  defines "bs \<equiv> disk_block_size s"
  assumes i: "in_array m s c q wsz" and x: "nat wsz \<le> length x"
  defines "s' \<equiv> snd (nc_writeDisk c x wsz (i32 (q * bs)) s)"
  shows "frame s' = frame s" "array_ok m s'" "\<And>i. i \<noteq> c \<Longrightarrow> content s' i = content s i"
    "length (content s' i) = length (content s i)"
    "0 \<le> b \<Longrightarrow> b < m \<Longrightarrow> j < nat bs \<Longrightarrow> cell (content s') bs c b j =
       (if b = q \<and> j < nat wsz then x ! j else cell (content s) bs c b j)"
proof -
  note a = array_addr [OF i, folded bs_def]
  note wr = array_write [OF i x, folded bs_def, folded s'_def]
  show "frame s' = frame s" "array_ok m s'" by (rule wr)+
  show "\<And>i. i \<noteq> c \<Longrightarrow> content s' i = content s i" by (simp add: wr)
  have fit: "nat (q * bs) + nat wsz \<le> length (content s c)" using a by linarith
  then show "length (content s' i) = length (content s i)" using x by (simp add: wr)
  assume b: "0 \<le> b" "b < m" and j: "j < nat bs"
  have q: "0 \<le> q" "wsz \<le> bs" using i by (auto simp: in_array_def bs_def)
  have in_len: "nat (b * bs) + j < length (content s c)"
  proof -
    have g: "0 < bs" "m * bs < 2147483648" "int (length (content s c)) = m * bs"
      using i by (auto simp: in_array_def array_ok_def list_all_iff bs_def)
    show ?thesis using block_addr [OF g(1,2) b] g(3) j by linarith
  qed
  show "cell (content s') bs c b j =
       (if b = q \<and> j < nat wsz then x ! j else cell (content s) bs c b j)"
    unfolding cell_def wr(3) using in_len fit x cell_addr [OF q(1) b(1) j q(2)]
    by (auto simp: nth_overwrite)
qed

lemma toggle_block:
  fixes s :: sys and junk :: "nat \<Rightarrow> byte"
  defines "bs \<equiv> disk_block_size s"
  assumes i: "in_array m s c q bs" and w: "sum_widths sz bs nx wsz" and len: "length buf = nat sz"
  defines "s' \<equiv> snd (nc_writeDisk c (xor_into junk (nat nx) (block_of s c q bs) buf) wsz
      (i32 (q * bs)) s)"
  shows "frame s' = frame s" "array_ok m s'" "\<And>i. i \<noteq> c \<Longrightarrow> content s' i = content s i"
    "length (content s' i) = length (content s i)"
    "0 \<le> b \<Longrightarrow> b < m \<Longrightarrow> j < nat bs \<Longrightarrow> cell (content s') bs c b j =
       cell (content s) bs c b j XOR (if b = q \<and> j < nat sz then buf ! j else 0)"
proof -
  let ?x = "xor_into junk (nat nx) (block_of s c q bs) buf"
  note a = array_addr [OF i, folded bs_def]
  have lb: "length (block_of s c q bs) = nat bs" by (rule length_block_of [OF i])
  have iw: "in_array m s c q wsz" using i w by (auto simp: in_array_def sum_widths_def bs_def)
  have lw: "nat wsz \<le> length ?x" using w lb by (auto simp: sum_widths_def)
  note wr = write_cell [OF iw lw, folded bs_def, folded s'_def]
  show "frame s' = frame s" "array_ok m s'" "\<And>i. i \<noteq> c \<Longrightarrow> content s' i = content s i"
    "length (content s' i) = length (content s i)" by (rule wr; simp)+
  assume b: "0 \<le> b" "b < m" and j: "j < nat bs"
  have "nat (q * bs) + nat bs \<le> length (content s c)" using a by linarith
  then have old: "block_of s c q bs ! j = content s c ! (nat (q * bs) + j)"
    using j unfolding block_of_def bs_def [symmetric] by simp
  have "cell (content s') bs c b j =
      (if b = q \<and> j < nat wsz then ?x ! j else cell (content s) bs c b j)"
    by (rule wr(5) [OF b j])
  also have "\<dots> = cell (content s) bs c b j XOR (if b = q \<and> j < nat sz then buf ! j else 0)"
    using w len lb j old by (auto simp: nth_xor_into cell_def sum_widths_def)
  finally show "cell (content s') bs c b j = \<dots>" .
qed

lemma update_q_ok:
  fixes s :: sys
  defines "bs \<equiv> disk_block_size s"
  assumes "array_ok m s" "0 \<le> qd" "qd < disk_total_num s" "sum_widths sz bs nx wsz"
    "length buf = nat sz" "\<And>q. q \<in> set qs \<Longrightarrow> 0 \<le> q \<and> q < m"
  defines "s' \<equiv> update_q qd bs nx bs wsz buf qs s"
  shows "frame s' = frame s \<and> array_ok m s' \<and> (\<forall>i. i \<noteq> qd \<longrightarrow> content s' i = content s i) \<and>
    (\<forall>i. length (content s' i) = length (content s i)) \<and>
    (\<forall>b j. 0 \<le> b \<longrightarrow> b < m \<longrightarrow> j < nat bs \<longrightarrow> cell (content s') bs qd b j =
       cell (content s) bs qd b j XOR
       (if odd (count_list qs b) \<and> j < nat sz then buf ! j else 0))"
  using assms(2-7) unfolding s'_def bs_def
proof (induction qs arbitrary: s)
  case Nil
  then show ?case by simp
next
  case (Cons q qs)
  let ?bs = "disk_block_size s"
  have i: "in_array m s qd q ?bs"
    using Cons.prems(1-3,4) Cons.prems(6) [of q]
    by (auto simp: in_array_def array_ok_def)
  define t where "t = snd (nc_writeDisk qd
      (xor_into (heap_junk s) (nat nx) (block_of s qd q ?bs) buf) wsz (i32 (q * ?bs)) s)"
  note tg = toggle_block [where junk = "heap_junk s", OF i Cons.prems(4,5), folded t_def]
  note f = frame_eqD(1,3) [OF tg(1)]
  have st: "update_q qd ?bs nx ?bs wsz buf (q # qs) s = update_q qd ?bs nx ?bs wsz buf qs t"
    using array_read [OF i, of "zeros (nat ?bs)"] by (simp add: t_def split: prod.splits)
  have IH: "frame (update_q qd ?bs nx ?bs wsz buf qs t) = frame t \<and>
    array_ok m (update_q qd ?bs nx ?bs wsz buf qs t) \<and>
    (\<forall>i. i \<noteq> qd \<longrightarrow> content (update_q qd ?bs nx ?bs wsz buf qs t) i = content t i) \<and>
    (\<forall>i. length (content (update_q qd ?bs nx ?bs wsz buf qs t) i) = length (content t i)) \<and>
    (\<forall>b j. 0 \<le> b \<longrightarrow> b < m \<longrightarrow> j < nat ?bs \<longrightarrow>
       cell (content (update_q qd ?bs nx ?bs wsz buf qs t)) ?bs qd b j =
       cell (content t) ?bs qd b j XOR (if odd (count_list qs b) \<and> j < nat sz then buf ! j else 0))"
    using Cons.IH [of t] tg(2) Cons.prems f by simp
  show ?case unfolding st using IH tg by (auto simp: xor.assoc)
qed

lemma strip_in_range:
  assumes "0 < S" "S dvd (m::int)" "0 \<le> b" "b < m" "0 \<le> f" "f < S"
  shows "0 \<le> f + b div S * S \<and> f + b div S * S < m"
proof -
  obtain M where M: "m = M * S" using assms(2) by (metis dvdE mult.commute)
  have "b div S * S < M * S"
    using div_mult_mod_eq [of b S] pos_mod_sign [OF assms(1), of b] assms(4) M by linarith
  then have "b div S < M" using assms(1) by simp
  then have "(b div S + 1) * S \<le> M * S" using assms(1) by (intro mult_right_mono) auto
  then have "b div S * S + S \<le> m" using M by (simp add: algebra_simps)
  moreover have "0 \<le> b div S * S" using assms(1,3) by (simp add: pos_imp_zdiv_nonneg_iff)
  ultimately show ?thesis using assms(5,6) by linarith
qed

section \<open>Encoding\<close>

lemma stripe_count_fields [simp]:
  "disk_total_num (stripe_count S d b s) = disk_total_num s"
  "data_disk_num (stripe_count S d b s) = data_disk_num s"
  "disk_block_size (stripe_count S d b s) = disk_block_size s"
  "disk_size (stripe_count S d b s) = disk_size s"
  "disk_status (stripe_count S d b s) = disk_status s"
  "dev_name (stripe_count S d b s) = dev_name s"
  "devices (stripe_count S d b s) = devices s"
  "space_list_head (stripe_count S d b s) = space_list_head s"
  "heap_junk (stripe_count S d b s) = heap_junk s"
  by (simp_all add: stripe_count_def put_free_offset_def put_free_size_def Let_def)

lemma content_count [simp]: "content (stripe_count S d b s) = content s"
  by (rule content_cong) simp_all

lemma array_ok_count [simp]: "array_ok m (stripe_count S d b s) = array_ok m s"
  by (simp add: array_ok_def)

lemma stripe_count_data:
  "i < disk_total_num s - 2 \<Longrightarrow> free_offset (stripe_count S d b s) i = free_offset s i \<and>
   free_size (stripe_count S d b s) i = free_size s i"
  by (simp add: stripe_count_def put_free_offset_def put_free_size_def Let_def)

lemma alloc_ok_count:
  assumes "alloc_ok (\<lambda>d _. d < disk_total_num s - 2) m s" "0 < S"
  shows "alloc_ok (\<lambda>d _. d < disk_total_num s - 2) m (stripe_count S d b s)"
proof -
  have "0 \<le> free_offset (stripe_count S d b s) i \<and>
      free_offset (stripe_count S d b s) i + free_size (stripe_count S d b s) i \<le> m"
    if "0 \<le> i" "i < disk_total_num s" for i
  proof -
    have "0 \<le> free_offset s i \<and> free_offset s i + free_size s i \<le> m"
      using assms(1) that by (simp add: alloc_ok_def list_all_iff)
    then show ?thesis using assms(2)
      by (auto simp: stripe_count_def put_free_offset_def put_free_size_def Let_def)
  qed
  then show ?thesis using assms(1) by (auto simp: alloc_ok_def list_all_iff stripe_count_data)
qed

text \<open>
  What an encoded block changes: the data block, the P block of its row by the data, and the Q blocks
  \<open>find_q\<close> names an odd number of times, by the data.
\<close>

definition encode_delta :: "int \<Rightarrow> int \<Rightarrow> (int \<Rightarrow> int \<Rightarrow> int list) \<Rightarrow> int \<Rightarrow> int \<Rightarrow> int \<Rightarrow> byte list \<Rightarrow>
    (int \<Rightarrow> byte list) \<Rightarrow> int \<Rightarrow> int \<Rightarrow> nat \<Rightarrow> byte" where
  "encode_delta n S find_q bs d b buf v c b' j =
     (if length buf \<le> j then 0
      else if c = d then (if b' = b then cell v bs d b j XOR buf ! j else 0)
      else if c = n - 2 then (if b' = b then buf ! j else 0)
      else if c = n - 1 then
        (if odd (count_list (map (\<lambda>q. q + b div S * S) (find_q d (b mod S))) b') then buf ! j else 0)
      else 0)"

lemma stripe_encode_cells:
  fixes s :: sys
  defines "n \<equiv> disk_total_num s" and "bs \<equiv> disk_block_size s"
  assumes ok: "array_ok m s" "alloc_ok (\<lambda>d _. d < n - 2) m s" "3 \<le> n" "0 < S" "S dvd m"
    and fq: "\<And>d j. 0 \<le> d \<Longrightarrow> d < n - 2 \<Longrightarrow> 0 \<le> j \<Longrightarrow> j < S \<Longrightarrow> set (find_q d j) \<subseteq> set [0..S - 1]"
    and w: "sum_widths sz bs nx wq" and len: "length buf = nat sz"
    and enc: "stripe_encode find_q S nx wq buf sz s = (r, s')" "bi_disk_id r \<noteq> -1"
  shows "0 \<le> bi_disk_id r \<and> bi_disk_id r < n - 2 \<and> 0 \<le> bi_block_no r \<and> bi_block_no r < m \<and>
    array_ok m s' \<and> alloc_ok (\<lambda>d _. d < n - 2) m s' \<and>
    disk_total_num s' = n \<and> disk_block_size s' = bs \<and> data_disk_num s' = data_disk_num s \<and>
    (\<forall>c b j. 0 \<le> b \<longrightarrow> b < m \<longrightarrow> j < nat bs \<longrightarrow> cell (content s') bs c b j =
       cell (content s) bs c b j XOR
       encode_delta n S find_q bs (bi_disk_id r) (bi_block_no r) buf (content s) c b j) \<and>
    (space_list_head s = [] \<longrightarrow> bi_block_no r = free_offset s (bi_disk_id r) \<and>
       space_list_head s' = [] \<and> (\<forall>i. i < n - 2 \<longrightarrow>
         free_offset s' i = ((free_offset s)(bi_disk_id r := bi_block_no r + 1)) i))"
proof -
  let ?D = "\<lambda>d (_::int). d < n - 2"
  have sz: "0 < sz" "sz \<le> bs" "0 < bs" using w by (auto simp: sum_widths_def)
  have req: "round_to_block_size sz s = bs" "bs sdiv bs = 1"
    using sz round_one_block [of s sz] by (auto simp: bs_def)
  obtain d0 b0 fo where p: "pick_striped 1 (n - 3) s = (d0, b0, fo)" by (metis prod_cases3)
  let ?k = "stripe_count S d0 b0 s"
  obtain d b s1 where o: "or_space_list (d0, b0) ?k = (d, b, s1)" by (metis prod_cases3)
  note f = or_space_list_fields [OF o, simplified, folded n_def bs_def]
  have dne: "d \<noteq> -1" using enc p o unfolding stripe_encode_def Let_def n_def [symmetric]
      bs_def [symmetric] req by (auto split: if_splits prod.splits)
  have d0: "d0 \<noteq> -1 \<Longrightarrow> 0 \<le> d0 \<and> d0 < disk_total_num ?k \<and> 1 \<le> free_size ?k d0 \<and>
      b0 = free_offset ?k d0 \<and> ?D d0 b0"
    using pick_striped_spec(1) [OF p] stripe_count_data [of d0 s S d0 b0] by (auto simp: n_def)
  have al: "alloc_ok ?D m ?k" using alloc_ok_count ok(2,4) by (simp add: n_def)
  note c = alloc_ok_claim [OF al o dne d0, simplified, folded n_def]
  define t0 where "t0 = claim d b 1 s1"
  have t0: "disk_total_num t0 = n" "disk_block_size t0 = bs" "content t0 = content s"
    "heap_junk t0 = heap_junk s" "array_ok m t0" "alloc_ok ?D m t0"
    "data_disk_num t0 = data_disk_num s"
    using f c(6) ok(1) array_ok_space [OF o] by (simp_all add: t0_def)
  have ip: "in_array m t0 (n - 2) b bs" using t0 c ok(3) sz by (simp add: in_array_def)
  define t1 where "t1 = snd (nc_writeDisk (n - 2) (xor_into (heap_junk s) (nat nx)
      (block_of t0 (n - 2) b bs) buf) sz (i32 (b * bs)) t0)"
  have wp: "sum_widths sz bs nx sz" using w by (auto simp: sum_widths_def)
  note tg = toggle_block [where s = t0 and junk = "heap_junk s", unfolded t0, OF ip wp len, folded t1_def]
  note f1 = frame_eqD(1,2,3) [OF tg(1), unfolded t0]
  let ?j = "b mod S"
  let ?qs = "map (\<lambda>q. q + b div S * S) (find_q d ?j)"
  have qs: "0 \<le> q \<and> q < m" if qin: "q \<in> set ?qs" for q
  proof -
    have j: "0 \<le> ?j" "?j < S" using ok(4) by simp_all
    obtain x where x': "x \<in> set (find_q d ?j)" "q = x + b div S * S" using qin by auto
    have x: "q = x + b div S * S" "0 \<le> x" "x < S"
      using x' subsetD [OF fq [OF c(1,5) j]] by auto
    show ?thesis unfolding x(1) by (rule strip_in_range [OF ok(4,5) c(3,4) x(2,3)])
  qed
  define t2 where "t2 = update_q (n - 1) bs nx bs wq buf ?qs t1"
  have q1: "0 \<le> n - 1" "n - 1 < disk_total_num t1" "sum_widths sz (disk_block_size t1) nx wq"
    using ok(3) f1 w by simp_all
  note u = update_q_ok [where qs = ?qs, OF tg(2) q1 len qs, unfolded f1, folded t2_def]
  have fr2: "frame t2 = frame t0" using u tg(1) by simp
  note f2 = frame_eqD(1,2,3) [OF fr2, unfolded t0]
  have id: "in_array m t2 d b sz"
    using f2 u c sz by (simp add: in_array_def)
  have l: "nat sz \<le> length buf" using len by simp
  define t3 where "t3 = snd (nc_writeDisk d buf sz (i32 (b * bs)) t2)"
  note wd = write_cell [OF id l, unfolded f2, folded t3_def]
  have fr3: "frame t3 = frame t0" using wd(1) fr2 by simp
  note f3 = frame_eqD(1,2,3) [OF fr3, unfolded t0]
  have r: "r = \<lparr>bi_disk_id = d, bi_block_no = b\<rparr>" "s' = t3"
    using enc(1) array_read [OF ip, of "malloc (heap_junk s) (nat bs)"] c(3) ok(4)
    unfolding stripe_encode_def Let_def n_def [symmetric] bs_def [symmetric] req p o
    by (simp_all add: o dne t0 t0_def [symmetric] t1_def t2_def t3_def f split: prod.splits)
  have "cell (content t3) bs c b' j = cell (content s) bs c b' j XOR
      encode_delta n S find_q bs d b buf (content s) c b' j"
    if "0 \<le> b'" "b' < m" "j < nat bs" for c b' j
  proof -
    have ne: "d \<noteq> n - 2" "d \<noteq> n - 1" "n - 2 \<noteq> n - 1" using c(5) by auto
    consider "c = d" | "c = n - 2" | "c = n - 1" | "c \<noteq> d" "c \<noteq> n - 2" "c \<noteq> n - 1" by blast
    then show ?thesis
    proof cases
      case 1
      have "cell (content t2) bs d b' j = cell (content s) bs d b' j"
        using u tg(3) [of d] ne t0(3) by (simp add: cell_def)
      then show ?thesis using 1 wd(5) [OF that] len by (simp add: encode_delta_def)
    next
      case 2
      have "cell (content t3) bs c b' j = cell (content t1) bs c b' j"
        using 2 u wd(3) [of c] ne by (simp add: cell_def)
      then show ?thesis using 2 ne tg(5) [OF that] t0(3) len by (simp add: encode_delta_def)
    next
      case 3
      have "cell (content t3) bs c b' j = cell (content t2) bs c b' j"
        "cell (content t1) bs c b' j = cell (content s) bs c b' j"
        using 3 wd(3) [of c] tg(3) [of c] ne t0(3) by (simp_all add: cell_def)
      then show ?thesis using 3 ne u that len by (simp add: encode_delta_def)
    next
      case 4
      then show ?thesis using u wd(3) [of c] tg(3) [of c] t0(3)
        by (simp add: encode_delta_def cell_def)
    qed
  qed
  moreover have "space_list_head s = [] \<longrightarrow> b = free_offset s d \<and>
       space_list_head t3 = [] \<and> (\<forall>i. i < n - 2 \<longrightarrow>
         free_offset t3 i = ((free_offset s)(d := b + 1)) i)"
  proof
    assume e: "space_list_head s = []"
    have "d0 \<noteq> -1 \<and> d = d0 \<and> b = b0 \<and> s1 = ?k"
      using o dne e by (cases rule: or_space_list_cases) auto
    then show "b = free_offset s d \<and> space_list_head t3 = [] \<and> (\<forall>i. i < n - 2 \<longrightarrow>
         free_offset t3 i = ((free_offset s)(d := b + 1)) i)"
      using e d0 frame_eqD(8,12) [OF fr3] c(5) stripe_count_data [of _ s S d0 b0]
      by (auto simp: t0_def n_def)
  qed
  ultimately show ?thesis
    using r c(1-5) wd(2) alloc_ok_frame [OF fr3, of ?D m] t0(6) f3 by simp
qed

section \<open>The relations after an encoded block\<close>

lemma count_list_shift: "count_list (map (\<lambda>q. q + k) xs) (b::int) = count_list xs (b - k)"
  by (induction xs) auto

lemma count_list_range: "set xs \<subseteq> set [0..S - 1] \<Longrightarrow> \<not> (0 \<le> i \<and> i < (S::int)) \<Longrightarrow> count_list xs i = 0"
  by (induction xs) auto

text \<open>The sum of a row changes by the old contents of the block: it stays zero when they are zero.\<close>

lemma encode_row_sum:
  assumes "0 \<le> d" "d < n - 2" "0 \<le> b'"
    and w: "\<And>c. cell w bs c b' j = cell v bs c b' j XOR encode_delta n S find_q bs d b buf v c b' j"
  shows "xsum (\<lambda>c. cell w bs c b' j) [0..n - 2] = xsum (\<lambda>c. cell v bs c b' j) [0..n - 2] XOR
    (if b' = b \<and> j < length buf then cell v bs d b j else 0)"
proof -
  let ?in = "b' = b \<and> j < length buf"
  have "xsum (\<lambda>c. encode_delta n S find_q bs d b buf v c b' j) [0..n - 2] =
      xsum (\<lambda>c. (if c = d then (if ?in then cell v bs d b j XOR buf ! j else 0) else 0) XOR
                (if c = n - 2 then (if ?in then buf ! j else 0) else 0)) [0..n - 2]"
    using assms(1,2) by (intro xsum_cong) (auto simp: encode_delta_def)
  also have "\<dots> = (if ?in then cell v bs d b j else 0)"
    using assms(1,2) by (auto simp: xsum_xor xsum_single xor.assoc)
  finally show ?thesis by (simp add: w xsum_xor)
qed

lemma encode_row_parity:
  assumes "row_parity n m bs v" "0 \<le> d" "d < n - 2"
    and w: "\<And>c b' j. 0 \<le> b' \<Longrightarrow> b' < m \<Longrightarrow> j < nat bs \<Longrightarrow> cell w bs c b' j = cell v bs c b' j XOR
      encode_delta n S find_q bs d b buf v c b' j"
    and z: "\<And>j. j < length buf \<Longrightarrow> cell v bs d b j = 0"
  shows "row_parity n m bs w"
  unfolding row_parity_def list_all_iff
proof (intro ballI)
  fix b' j assume b: "b' \<in> set [0..m - 1]" and j: "j \<in> set [0..<nat bs]"
  then have r: "0 \<le> b'" "b' < m" "j < nat bs" by auto
  show "xsum (\<lambda>c. cell w bs c b' j) [0..n - 2] = 0"
    using encode_row_sum [OF assms(2,3) r(1), of w bs j v S find_q b buf] w [OF r] z
      row_parityD [OF assms(1) r] by auto
qed

lemma strip_cell_eq:
  assumes "0 \<le> f" "f < (S::int)"
  shows "f + b' div S * S = b \<longleftrightarrow> b' div S = b div S \<and> f = b mod S"
proof
  assume e: "f + b' div S * S = b"
  have "b div S = b' div S" using assms by (simp flip: e)
  moreover have "b mod S = f" using assms by (simp flip: e)
  ultimately show "b' div S = b div S \<and> f = b mod S" by simp
next
  assume "b' div S = b div S \<and> f = b mod S"
  then show "f + b' div S * S = b" by (simp add: mod_div_mult_eq)
qed

text \<open>
  What \<open>encode\<close> does to the sum of the cells of a Q block, and to the Q block: each changes by the data,
  the sum when the cell written and the P cell of its row occur in it an odd number of times together.
\<close>

lemma encode_q_sum:
  assumes d: "0 \<le> d" "d < n - 2" and b': "0 \<le> b'" "b' < m" "j < nat bs"
    and rel: "q_rel_ok n S q_rel" "S dvd m"
    and w: "\<And>c b'. 0 \<le> b' \<Longrightarrow> b' < m \<Longrightarrow> cell w bs c b' j = cell v bs c b' j XOR
      encode_delta n S find_q bs d b buf v c b' j"
    and z: "j < length buf \<Longrightarrow> cell v bs d b j = 0"
  shows "q_sum S q_rel bs w b' j = q_sum S q_rel bs v b' j XOR
    (if b' div S = b div S \<and> j < length buf \<and>
        odd (count_list (q_rel (b' mod S)) (b mod S, d)) \<noteq>
        odd (count_list (q_rel (b' mod S)) (b mod S, n - 2)) then buf ! j else 0)"
proof -
  have S: "0 < S" using rel by (simp add: q_rel_ok_def)
  have i: "0 \<le> b' mod S" "b' mod S < S" using S by simp_all
  have cells: "0 \<le> fst x \<and> fst x < S \<and> 0 \<le> snd x \<and> snd x < n - 1" if "x \<in> set (q_rel (b' mod S))" for x
    using rel(1) i that by (auto simp: q_rel_ok_def list_all_iff)
  have rng: "0 \<le> fst x + b' div S * S \<and> fst x + b' div S * S < m"
    if "x \<in> set (q_rel (b' mod S))" for x
    using strip_in_range [OF S rel(2) b'(1,2)] cells [OF that] by blast
  let ?same = "b' div S = b div S \<and> j < length buf"
  have "xsum (\<lambda>x. encode_delta n S find_q bs d b buf v (snd x) (fst x + b' div S * S) j)
      (q_rel (b' mod S)) =
      xsum (\<lambda>x. (if x = (b mod S, d) then (if ?same then buf ! j else 0) else 0) XOR
      (if x = (b mod S, n - 2) then (if ?same then buf ! j else 0) else 0)) (q_rel (b' mod S))"
  proof (intro xsum_cong refl)
    fix x assume "x \<in> set (q_rel (b' mod S))"
    note c = cells [OF this]
    show "encode_delta n S find_q bs d b buf v (snd x) (fst x + b' div S * S) j =
      (if x = (b mod S, d) then (if ?same then buf ! j else 0) else 0) XOR
      (if x = (b mod S, n - 2) then (if ?same then buf ! j else 0) else 0)"
      using c d z strip_cell_eq [of "fst x" S b' b] by (cases x) (auto simp: encode_delta_def)
  qed
  moreover have "q_sum S q_rel bs w b' j = q_sum S q_rel bs v b' j XOR
      xsum (\<lambda>x. encode_delta n S find_q bs d b buf v (snd x) (fst x + b' div S * S) j)
      (q_rel (b' mod S))"
    unfolding q_sum_def xsum_xor [symmetric] using rng w by (intro xsum_cong) auto
  ultimately show ?thesis by (auto simp: xsum_xor xsum_indicator)
qed

lemma encode_q_cell:
  assumes "0 \<le> d" "d < n - 2" and S: "0 < S" and fq: "set (find_q d (b mod S)) \<subseteq> set [0..S - 1]"
  shows "encode_delta n S find_q bs d b buf v (n - 1) b' j =
    (if b' div S = b div S \<and> j < length buf \<and> odd (count_list (find_q d (b mod S)) (b' mod S))
     then buf ! j else 0)"
proof -
  have "count_list (map (\<lambda>q. q + b div S * S) (find_q d (b mod S))) b' =
      (if b' div S = b div S then count_list (find_q d (b mod S)) (b' mod S) else 0)"
  proof (cases "b' div S = b div S")
    case True
    then have "b' - b div S * S = b' mod S" using div_mult_mod_eq [of b' S] by simp
    then show ?thesis using True by (simp add: count_list_shift)
  next
    case False
    have "\<not> (0 \<le> b' - b div S * S \<and> b' - b div S * S < S)"
      using False strip_cell_eq [of "b' - b div S * S" S b b'] by auto
    then show ?thesis using False fq by (simp add: count_list_shift count_list_range)
  qed
  then show ?thesis using assms(1,2) by (simp add: encode_delta_def)
qed

text \<open>A Q block stays the sum of its relation when \<open>find_q\<close> is right for the cell written.\<close>

lemma encode_q_parity:
  assumes q: "q_parity n m bs S q_rel v" and d: "0 \<le> d" "d < n - 2"
    and rel: "q_rel_ok n S q_rel" "S dvd m" and fq: "find_q_ok n q_rel find_q S d (b mod S)"
    and w: "\<And>c b' j. 0 \<le> b' \<Longrightarrow> b' < m \<Longrightarrow> j < nat bs \<Longrightarrow> cell w bs c b' j = cell v bs c b' j XOR
      encode_delta n S find_q bs d b buf v c b' j"
    and z: "\<And>j. j < length buf \<Longrightarrow> cell v bs d b j = 0"
  shows "q_parity n m bs S q_rel w"
  unfolding q_parity_def list_all_iff
proof (intro ballI)
  fix b' j assume "b' \<in> set [0..m - 1]" "j \<in> set [0..<nat bs]"
  then have r: "0 \<le> b'" "b' < m" "j < nat bs" by auto
  have S: "0 < S" using rel by (simp add: q_rel_ok_def)
  have fs: "set (find_q d (b mod S)) \<subseteq> set [0..S - 1]" using fq by (simp add: find_q_ok_def)
  have "odd (count_list (find_q d (b mod S)) (b' mod S)) =
      (odd (count_list (q_rel (b' mod S)) (b mod S, d)) \<noteq>
       odd (count_list (q_rel (b' mod S)) (b mod S, n - 2)))"
    using fq S by (simp add: find_q_ok_def list_all_iff)
  then show "q_sum S q_rel bs w b' j = cell w bs (n - 1) b' j"
    using encode_q_sum [OF d r rel w [OF _ _ r(3)] z] encode_q_cell [where b' = b' and b = b and find_q = find_q and S = S, OF d S fs]
      w [OF r, of "n - 1"] q_parityD [OF q r] by simp
qed

section \<open>The invariant of a stripe code\<close>

text \<open>
  \<open>encode\<close> adds the data it is given, not the difference to what the block held. That is right as
  long as the block holds zeros, as every block does that was never used on a cleared disk:
  \<open>unused_zero\<close> says that no deleted block is waiting and that the data disks are zero from
  their free offset on.
\<close>

definition unused_zero :: "int \<Rightarrow> sys \<Rightarrow> bool" where
  "unused_zero m s \<longleftrightarrow> space_list_head s = [] \<and> list_all (\<lambda>i. list_all (\<lambda>b. list_all (\<lambda>j.
     cell (content s) (disk_block_size s) i b j = 0) [0..<nat (disk_block_size s)])
     [free_offset s i..m - 1]) [0..disk_total_num s - 3]"

definition stripe_inv :: "int \<Rightarrow> int \<Rightarrow> sys \<Rightarrow> bool" where
  "stripe_inv m S s \<longleftrightarrow> array_ok m s \<and> alloc_ok (\<lambda>d _. d < disk_total_num s - 2) m s \<and>
     3 \<le> disk_total_num s \<and> 0 < S \<and> S dvd m \<and> unused_zero m s \<and>
     row_parity (disk_total_num s) m (disk_block_size s) (content s)"

lemma unused_zeroD:
  "unused_zero m s \<Longrightarrow> 0 \<le> i \<Longrightarrow> i < disk_total_num s - 2 \<Longrightarrow> free_offset s i \<le> b \<Longrightarrow> b < m \<Longrightarrow>
   j < nat (disk_block_size s) \<Longrightarrow> cell (content s) (disk_block_size s) i b j = 0"
  by (simp add: unused_zero_def list_all_iff)

lemma block_of_cells:
  assumes "in_array m s d b sz" "length x = nat sz"
    and "\<And>j. j < nat sz \<Longrightarrow> cell (content s) (disk_block_size s) d b j = x ! j"
  shows "block_of s d b sz = x"
proof (rule nth_equalityI)
  show "length (block_of s d b sz) = length x"
    using length_block_of [OF assms(1)] assms(2) by simp
  fix j assume j: "j < length (block_of s d b sz)"
  then have "j < nat sz" using length_block_of [OF assms(1)] by simp
  moreover have "nat (b * disk_block_size s) \<le> length (content s d)"
    using array_addr [OF assms(1)] by linarith
  ultimately show "block_of s d b sz ! j = x ! j"
    using assms(3) [of j] j by (simp add: block_of_def cell_def)
qed

text \<open>
  One call of \<open>encode\<close> on an array in order: the data is in the reported block, every row still sums to
  zero, the rest of the invariant holds, and the Q blocks fit too when \<open>find_q\<close> is right for the cell.
\<close>

lemma stripe_encode_inv:
  fixes s :: sys
  defines "n \<equiv> disk_total_num s" and "bs \<equiv> disk_block_size s"
  assumes inv: "stripe_inv m S s"
    and fq: "\<And>d j. 0 \<le> d \<Longrightarrow> d < n - 2 \<Longrightarrow> 0 \<le> j \<Longrightarrow> j < S \<Longrightarrow> set (find_q d j) \<subseteq> set [0..S - 1]"
    and w: "sum_widths sz bs nx wq" and len: "length buf = nat sz"
    and enc: "stripe_encode find_q S nx wq buf sz s = (r, s')" "bi_disk_id r \<noteq> -1"
  shows "stripe_inv m S s'" "disk_total_num s' = n" "disk_block_size s' = bs"
    "data_disk_num s' = data_disk_num s"
    "0 \<le> bi_disk_id r \<and> bi_disk_id r < n - 2 \<and> bi_block_no r = free_offset s (bi_disk_id r)"
    "block_of s' (bi_disk_id r) (bi_block_no r) sz = buf"
    "\<And>c b j. c < n - 2 \<Longrightarrow> (c, b) \<noteq> (bi_disk_id r, bi_block_no r) \<Longrightarrow> 0 \<le> b \<Longrightarrow> b < m \<Longrightarrow>
       j < nat bs \<Longrightarrow> cell (content s') bs c b j = cell (content s) bs c b j"
    "q_parity n m bs S q_rel (content s) \<Longrightarrow> q_rel_ok n S q_rel \<Longrightarrow>
       find_q_ok n q_rel find_q S (bi_disk_id r) (bi_block_no r mod S) \<Longrightarrow>
       q_parity n m bs S q_rel (content s')"
proof -
  have i: "array_ok m s" "alloc_ok (\<lambda>d _. d < n - 2) m s" "3 \<le> n" "0 < S" "S dvd m"
    "unused_zero m s" "row_parity n m bs (content s)" "space_list_head s = []"
    using inv by (simp_all add: stripe_inv_def n_def bs_def unused_zero_def)
  obtain d b where r: "r = \<lparr>bi_disk_id = d, bi_block_no = b\<rparr>" by (cases r) auto
  note c = stripe_encode_cells [where s = s and find_q = find_q, folded n_def bs_def,
      OF i(1-5) fq w len enc, unfolded r, simplified]
  have c1: "0 \<le> d" "d < n - 2" "0 \<le> b" "b < m" "array_ok m s'" "alloc_ok (\<lambda>d _. d < n - 2) m s'"
    "disk_total_num s' = n" "disk_block_size s' = bs" "data_disk_num s' = data_disk_num s"
    "b = free_offset s d" "space_list_head s' = []"
    "\<And>i. i < n - 2 \<Longrightarrow> free_offset s' i = ((free_offset s)(d := b + 1)) i"
    using c i(8) by auto
  have dl: "\<And>c b' j. 0 \<le> b' \<Longrightarrow> b' < m \<Longrightarrow> j < nat bs \<Longrightarrow> cell (content s') bs c b' j =
      cell (content s) bs c b' j XOR encode_delta n S find_q bs d b buf (content s) c b' j"
    using c by blast
  have sz: "nat sz \<le> nat bs" "0 < sz" "sz \<le> bs" using w by (auto simp: sum_widths_def)
  have z: "\<And>j. j < length buf \<Longrightarrow> cell (content s) bs d b j = 0"
    using unused_zeroD [OF i(6), of d b, folded n_def bs_def] c1 len sz by simp
  have same: "cell (content s') bs c b' j = cell (content s) bs c b' j"
    if "c < n - 2" "(c, b') \<noteq> (d, b)" "0 \<le> b'" "b' < m" "j < nat bs" for c b' j
    using dl [OF that(3-5), of c] that(1,2) by (auto simp: encode_delta_def)
  have "unused_zero m s'"
    unfolding unused_zero_def list_all_iff c1(7,8)
  proof (intro conjI ballI)
    fix i b' j assume a: "i \<in> set [0..n - 3]" "b' \<in> set [free_offset s' i..m - 1]" "j \<in> set [0..<nat bs]"
    have fo: "0 \<le> free_offset s i" using i(2) a(1) by (auto simp: alloc_ok_def list_all_iff n_def)
    have b': "free_offset s i \<le> b'" "(i, b') \<noteq> (d, b)" "b' < m"
      using a c1(10) c1(12) [of i] by (auto split: if_splits)
    show "cell (content s') bs i b' j = 0"
      using same [of i b' j] unused_zeroD [OF i(6), of i b' j, folded n_def bs_def] a b' fo by auto
  qed (rule c1(11))
  moreover have "row_parity n m bs (content s')"
    by (rule encode_row_parity [OF i(7) c1(1,2) dl z])
  ultimately show "stripe_inv m S s'"
    using c1 i by (simp add: stripe_inv_def)
  show "disk_total_num s' = n" "disk_block_size s' = bs" "data_disk_num s' = data_disk_num s"
    by (rule c1)+
  show "0 \<le> bi_disk_id r \<and> bi_disk_id r < n - 2 \<and> bi_block_no r = free_offset s (bi_disk_id r)"
    using c1 by (simp add: r)
  have "in_array m s' d b sz" using c1 sz by (simp add: in_array_def)
  then show "block_of s' (bi_disk_id r) (bi_block_no r) sz = buf"
    using len dl [of b _ d] c1(3,4,8) sz by (auto simp: r encode_delta_def intro!: block_of_cells)
  show "\<And>c b j. c < n - 2 \<Longrightarrow> (c, b) \<noteq> (bi_disk_id r, bi_block_no r) \<Longrightarrow> 0 \<le> b \<Longrightarrow> b < m \<Longrightarrow>
       j < nat bs \<Longrightarrow> cell (content s') bs c b j = cell (content s) bs c b j"
    using same by (simp add: r)
  assume "q_parity n m bs S q_rel (content s)" "q_rel_ok n S q_rel"
    "find_q_ok n q_rel find_q S (bi_disk_id r) (bi_block_no r mod S)"
  then show "q_parity n m bs S q_rel (content s')"
    using encode_q_parity [OF _ c1(1,2) _ i(5) _ dl z] by (simp add: r)
qed

section \<open>Decoding\<close>

text \<open>
  The text of \<open>decode\<close> in EVENODD and RDP: a good disk is read; with one failed disk a block of a
  data disk or of P is the sum of its row, a block of Q the sum of the cells that \<open>elem_hash\<close> lists
  for it; with more failed disks the call fails. The row is read from the start of the block, whatever
  the offset in the block was.
\<close>

definition array_decode :: "(int \<times> int \<Rightarrow> (int \<times> int) list) \<Rightarrow> int \<Rightarrow> int \<Rightarrow> byte list \<Rightarrow> int \<Rightarrow> int \<Rightarrow> sys \<Rightarrow>
    int \<times> byte list \<times> sys" where
  "array_decode elem_hash S disk_id buf sz offset s =
     (let buf = overwrite buf 0 (zeros (nat sz));
          temp_buf = zeros (nat sz);
          n = disk_total_num s;
          block_size = disk_block_size s;
          block_no = offset sdiv block_size
      in if disk_status s disk_id = 0 then nc_readDisk disk_id buf sz offset s
         else let strip_num = block_no sdiv S;
                  strip_offset = block_no smod S
              in if get_fail_num s = 1 then
                   let cells = (if 0 \<le> disk_id \<and> disk_id < n - 1
                         then map (\<lambda>i. (i, block_no * block_size)) (filter (\<lambda>i. i \<noteq> disk_id) [0..n - 2])
                         else map (\<lambda>x. (snd x, i32 ((fst x + strip_num * S) * block_size)))
                                (elem_hash (strip_offset, disk_id)));
                       (temp_buf, buf, s) = xor_cells sz cells temp_buf buf s
                   in (sz, buf, s)
                 else (-1, buf, s))"

definition stripe_lost :: "int \<Rightarrow> int \<Rightarrow> (int \<Rightarrow> (int \<times> int) list) \<Rightarrow> int \<Rightarrow> (int \<Rightarrow> byte list) \<Rightarrow> sys \<Rightarrow> bool" where
  "stripe_lost m S q_rel d v s \<longleftrightarrow> lost_disk m d v s \<and> disk_status s d = 1 \<and> S dvd m \<and>
     q_rel_ok (disk_total_num s) S q_rel \<and>
     row_parity (disk_total_num s) m (disk_block_size s) v \<and>
     (d = disk_total_num s - 1 \<longrightarrow>
        q_parity (disk_total_num s) m (disk_block_size s) S q_rel v)"

lemma get_fail_num_lost:
  assumes "lost_disk m d v s" "disk_status s d = 1"
  shows "get_fail_num s = 1"
proof -
  have "status_ok s" using assms by (auto simp: status_ok_def lost_disk_def list_all_iff)
  then have "get_fail_num s = count_failed s" by (rule get_fail_num_count)
  also have "filter (\<lambda>i. disk_status s i \<noteq> 0) (disk_ids s) = filter (\<lambda>i. i = d) (disk_ids s)"
    using assms by (intro filter_cong) (auto simp: lost_disk_def list_all_iff)
  then have "count_failed s = int (length (filter (\<lambda>i. i = d) (disk_ids s)))"
    by (simp add: count_failed_def)
  also have "\<dots> = int (card {d})"
    using assms(1) by (subst distinct_length_filter) (auto simp: lost_disk_def)
  finally show ?thesis by simp
qed

text \<open>Cells of the surviving disks, in terms of what the disks hold.\<close>

lemma xor_cells_lost:
  fixes s :: sys
  defines "bs \<equiv> disk_block_size s"
  assumes "lost_disk m d v s"
    and c: "\<And>x. x \<in> set xs \<Longrightarrow> 0 \<le> fst x \<and> fst x < disk_total_num s \<and> fst x \<noteq> d \<and>
      0 \<le> snd x \<and> snd x < m"
    and "0 < sz" "sz \<le> bs" "length temp = nat sz"
  shows "\<exists>t. xor_cells sz (map (\<lambda>x. (fst x, snd x * bs)) xs) temp (zeros (nat sz)) s =
    (t, map (\<lambda>j. xsum (\<lambda>x. cell v bs (fst x) (snd x) j) xs) [0..<nat sz], s)"
proof -
  have g: "0 < bs" "m * bs < 2147483648" using assms(2) by (auto simp: lost_disk_def bs_def)
  have in_r: "0 \<le> snd x * bs \<and> snd x * bs + sz \<le> int (length (content s (fst x))) \<and>
      content s (fst x) = v (fst x)" if "x \<in> set xs" for x
  proof -
    note x = c [OF that]
    have "int (length (v (fst x))) = m * bs" "content s (fst x) = v (fst x)"
      using assms(2) x by (auto simp: lost_disk_def bs_def list_all_iff)
    then show ?thesis using block_addr [OF g, of "snd x"] x assms(5) by auto
  qed
  have pr: "0 \<le> snd y \<and> snd y + sz \<le> int (length (content s (fst y)))"
    if y: "y \<in> set (map (\<lambda>x. (fst x, snd x * bs)) xs)" for y
  proof -
    obtain x where x: "x \<in> set xs" "y = (fst x, snd x * bs)" using y by auto
    show ?thesis unfolding x(2) fst_conv snd_conv using in_r [OF x(1)] by blast
  qed
  obtain t where "xor_cells sz (map (\<lambda>x. (fst x, snd x * bs)) xs) temp (zeros (nat sz)) s =
    (t, map (\<lambda>j. zeros (nat sz) ! j XOR xsum (\<lambda>x. content s (fst x) ! (nat (snd x) + j))
       (map (\<lambda>x. (fst x, snd x * bs)) xs)) [0..<nat sz], s)"
    using xor_cells_ok [OF pr assms(4,6) length_zeros] by blast
  moreover have "xsum (\<lambda>x. content s (fst x) ! (nat (snd x * bs) + j)) xs =
      xsum (\<lambda>x. cell v bs (fst x) (snd x) j) xs" for j
    using in_r by (intro xsum_cong) (auto simp: cell_def)
  ultimately show ?thesis by auto
qed

lemma block_bytes:
  assumes "nat (b * bs) + nat sz \<le> length (v d)"
  shows "map (\<lambda>j. cell v bs d b j) [0..<nat sz] = take (nat sz) (drop (nat (b * bs)) (v d))"
  using assms by (intro nth_equalityI) (auto simp: cell_def)

lemma row_cells_lost:
  assumes "row_parity n m bs v" "0 \<le> b" "b < m" "j < nat bs" "0 \<le> d" "d < n - 1"
  shows "xsum (\<lambda>c. cell v bs c b j) (filter (\<lambda>c. c \<noteq> d) [0..n - 2]) = cell v bs d b j"
  using xsum_solve [OF _ _ row_parityD [OF assms(1-4)], of d] assms(5,6) by simp

lemma array_decode_ok:
  fixes s :: sys
  defines "n \<equiv> disk_total_num s" and "bs \<equiv> disk_block_size s"
  assumes lost: "stripe_lost m S (\<lambda>i. h (i, n - 1)) d v s"
    and off: "0 \<le> off" "off div bs = b" and b: "b < m"
    and sz: "0 < sz" "sz \<le> bs" "length buf = nat sz"
  shows "array_decode h S d buf sz off s =
    (sz, take (nat sz) (drop (nat (b * bs)) (v d)), s)"
proof -
  let ?q = "\<lambda>i. h (i, n - 1)"
  have l: "lost_disk m d v s" "disk_status s d = 1" "S dvd m" "q_rel_ok n S ?q"
    "row_parity n m bs v" "d = n - 1 \<Longrightarrow> q_parity n m bs S ?q v"
    using lost by (simp_all add: stripe_lost_def n_def bs_def)
  have d: "0 \<le> d" "d < n" "int (length (v d)) = m * bs" "0 < bs" "m * bs < 2147483648"
    using l(1) by (auto simp: lost_disk_def list_all_iff n_def bs_def)
  have S: "0 < S" using l(4) by (simp add: q_rel_ok_def)
  have b: "0 \<le> b" "b < m" using off b d(4) by (auto simp: pos_imp_zdiv_nonneg_iff)
  note a = block_addr [OF d(4,5) b]
  have bd: "nat (b * bs) + nat sz \<le> length (v d)" using a d sz by linarith
  note bytes = block_bytes [where v = v and d = d, OF bd]
  have z: "overwrite buf 0 (zeros (nat sz)) = zeros (nat sz)" using sz by (simp add: overwrite_def)
  have bn: "off sdiv bs = b" using off d(4) by simp
  have sd: "b sdiv S = b div S" "b smod S = b mod S" using b S by simp_all
  define cells where "cells = (if d < n - 1
      then map (\<lambda>i. (i, b)) (filter (\<lambda>i. i \<noteq> d) [0..n - 2])
      else map (\<lambda>x. (snd x, fst x + b div S * S)) (h (b mod S, d)))"
  have cl: "0 \<le> fst x \<and> fst x < n \<and> fst x \<noteq> d \<and> 0 \<le> snd x \<and> snd x < m" if "x \<in> set cells" for x
  proof (cases "d < n - 1")
    case True
    then show ?thesis using that b d by (auto simp: cells_def)
  next
    case False
    then have dq: "d = n - 1" using d by simp
    obtain y where y: "y \<in> set (h (b mod S, n - 1))" "x = (snd y, fst y + b div S * S)"
      using \<open>x \<in> set cells\<close> dq by (auto simp: cells_def)
    have "0 \<le> fst y \<and> fst y < S \<and> 0 \<le> snd y \<and> snd y < n - 1"
      using l(4) y(1) S by (auto simp: q_rel_ok_def list_all_iff)
    then show ?thesis using y(2) dq strip_in_range [OF S l(3) b] by auto
  qed
  have cs: "xsum (\<lambda>x. cell v bs (fst x) (snd x) j) cells = cell v bs d b j" if "j < nat bs" for j
  proof (cases "d < n - 1")
    case True
    then show ?thesis using row_cells_lost [OF l(5) b that d(1) True] by (simp add: cells_def)
  next
    case False
    then have dq: "d = n - 1" using d by simp
    then show ?thesis using q_parityD [OF l(6) [OF dq] b that]
      by (simp add: cells_def q_sum_def)
  qed
  obtain t where t: "xor_cells sz (map (\<lambda>x. (fst x, snd x * bs)) cells) (zeros (nat sz))
      (zeros (nat sz)) s =
      (t, map (\<lambda>j. xsum (\<lambda>x. cell v bs (fst x) (snd x) j) cells) [0..<nat sz], s)"
    using xor_cells_lost [OF l(1), of cells sz "zeros (nat sz)"] cl sz
    by (auto simp: n_def bs_def)
  have m1: "map (\<lambda>x. (fst x, snd x * bs)) cells = (if 0 \<le> d \<and> d < n - 1
      then map (\<lambda>i. (i, b * bs)) (filter (\<lambda>i. i \<noteq> d) [0..n - 2])
      else map (\<lambda>x. (snd x, i32 ((fst x + b div S * S) * bs))) (h (b mod S, d)))"
  proof -
    have "i32 ((fst y + b div S * S) * bs) = (fst y + b div S * S) * bs"
      if "\<not> d < n - 1" "y \<in> set (h (b mod S, d))" for y
      using cl [of "(snd y, fst y + b div S * S)"] that block_addr(1) [OF d(4,5)]
      by (auto simp: cells_def)
    then show ?thesis using d(1) by (auto simp: cells_def)
  qed
  have m2: "map (\<lambda>j. xsum (\<lambda>x. cell v bs (fst x) (snd x) j) cells) [0..<nat sz] =
      map (\<lambda>j. cell v bs d b j) [0..<nat sz]"
    using cs sz by auto
  show ?thesis
    unfolding array_decode_def Let_def n_def [symmetric] bs_def [symmetric] bn sd z
      m1 [symmetric] t m2 bytes
    by (simp add: l(2) get_fail_num_lost [OF l(1,2)])
qed

lemma stripe_lost_fail:
  assumes "stripe_inv m S s" "q_rel_ok (disk_total_num s) S q_rel"
    "f = disk_total_num s - 1 \<longrightarrow>
      q_parity (disk_total_num s) m (disk_block_size s) S q_rel (content s)"
    "0 \<le> f" "f < disk_total_num s"
  shows "stripe_lost m S q_rel f (content s) (fail_disk f s)"
    and "disk_total_num (fail_disk f s) = disk_total_num s"
    and "disk_block_size (fail_disk f s) = disk_block_size s"
    and "data_disk_num (fail_disk f s) = data_disk_num s"
proof -
  have ok: "array_ok m s" using assms(1) by (simp add: stripe_inv_def)
  show st: "disk_total_num (fail_disk f s) = disk_total_num s"
    "disk_block_size (fail_disk f s) = disk_block_size s"
    "data_disk_num (fail_disk f s) = data_disk_num s"
    using assms set_device_status_1 [of f "put_device (dev_name s f) None s"]
    by (simp_all add: fail_disk_def)
  have "disk_status (fail_disk f s) f = 1"
    using assms set_device_status_1 [of f "put_device (dev_name s f) None s"]
    by (simp add: fail_disk_def)
  then show "stripe_lost m S q_rel f (content s) (fail_disk f s)"
    using lost_fail_disk [OF ok assms(4,5)] assms unfolding stripe_lost_def st
    by (simp add: stripe_inv_def)
qed

lemma stripe_lost_write:
  assumes l: "stripe_lost m S q_rel d ((content s)(d := v)) s"
    and f: "frame t = frame s" and c: "content t = (content s)(d := x)"
  shows "stripe_lost m S q_rel d ((content t)(d := v)) t"
proof -
  have "(content t)(d := v) = (content s)(d := v)" "\<And>i. i \<noteq> d \<Longrightarrow> content t i = content s i"
    using c by simp_all
  then show ?thesis using l
    by (auto simp: stripe_lost_def lost_disk_def frame_eqD(1,3,7,10) [OF f] list_all_iff)
qed

section \<open>A fresh array is in order\<close>

text \<open>
  A disk that is being replaced: the others are good, the replacement has the size of the lost disk,
  and \<open>v\<close> in its place completes the parities. Writing to the replacement keeps that.
\<close>

definition stripe_rebuilding :: "int \<Rightarrow> int \<Rightarrow> int \<Rightarrow> (int \<Rightarrow> (int \<times> int) list) \<Rightarrow> int \<Rightarrow> byte list \<Rightarrow>
    sys \<Rightarrow> bool" where
  "stripe_rebuilding m bs S q_rel d v s \<longleftrightarrow> bs = disk_block_size s \<and>
     int (length (content s d)) = m * bs \<and> stripe_lost m S q_rel d ((content s)(d := v)) s"

lemma stripe_rebuilding_geom:
  assumes "stripe_rebuilding m bs S q_rel d v s"
  shows "0 < bs \<and> m * bs < 2147483648 \<and> int (length v) = m * bs \<and>
    int (length (content s d)) = m * bs"
  using assms by (auto simp: stripe_rebuilding_def stripe_lost_def lost_disk_def list_all_iff)

lemma stripe_rebuilding_write:
  assumes l: "stripe_rebuilding m bs S q_rel d v s" and i: "0 \<le> i" "i < m"
    and b: "length buf = nat bs"
  defines "t \<equiv> snd (nc_writeDisk d buf bs (i * bs) s)"
  shows "stripe_rebuilding m bs S q_rel d v t" "frame t = frame s"
proof -
  note g = stripe_rebuilding_geom [OF l]
  have a: "0 \<le> i * bs" "i * bs + bs \<le> m * bs" using block_addr [of bs m i] g i by auto
  show f: "frame t = frame s" and tl: "stripe_rebuilding m bs S q_rel d v t"
  proof -
    show f: "frame t = frame s" using nc.wr_rest [of bs "i * bs" s d buf] a g b by (auto simp: t_def)
    have c: "content t =
        (content s)(d := overwrite (content s d) (nat (i * bs)) (take (nat bs) buf))"
      and tl: "length (content t d) = length (content s d)"
      using nc.wr_cnt [of bs "i * bs" s d buf]
        nc.wr_len [of bs "i * bs" s d buf d] a g b by (auto simp: t_def)
    have "stripe_lost m S q_rel d ((content s)(d := v)) s"
      using l by (simp add: stripe_rebuilding_def)
    from stripe_lost_write [OF this f c] show "stripe_rebuilding m bs S q_rel d v t"
      using l tl by (simp add: stripe_rebuilding_def frame_eqD(1,2,3) [OF f])
  qed
qed

lemma array_decode_rebuilding:
  assumes l: "stripe_rebuilding m bs S (\<lambda>i. h (i, disk_total_num s - 1)) d v s"
    and i: "0 \<le> i" "i < m" and b: "length buf = nat bs"
  shows "array_decode h S d buf bs (i * bs) s = (bs, take (nat bs) (drop (nat (i * bs)) v), s)"
proof -
  note g = stripe_rebuilding_geom [OF l]
  have "stripe_lost m S (\<lambda>i. h (i, disk_total_num s - 1)) d ((content s)(d := v)) s"
    "bs = disk_block_size s" using l by (auto simp: stripe_rebuilding_def)
  then show ?thesis using array_decode_ok [of m S h s d "(content s)(d := v)" "i * bs" i bs buf] g i b
    by simp
qed

lemma cell_fresh:
  assumes "0 < bs" "0 \<le> c" "c < n" "0 \<le> b" "b < m" "j < nat bs"
  shows "cell (content (fresh_array t n k bs m)) bs c b j = 0"
proof -
  have "(b + 1) * bs \<le> m * bs" using assms by (intro mult_right_mono) auto
  then have "b * bs + bs \<le> m * bs" by (simp add: distrib_right)
  moreover have "0 \<le> b * bs" using assms by simp
  ultimately have "nat (b * bs) + j < nat (m * bs)" using assms(6) by linarith
  then show ?thesis using assms by (simp add: cell_def content_fresh)
qed

lemma stripe_inv_fresh:
  assumes "0 < bs" "4 dvd bs" "0 \<le> m" "m * bs < 2147483648" "3 \<le> n" "0 < S" "S dvd m"
  shows "stripe_inv m S (fresh_array t n k bs m)"
proof -
  have "unused_zero m (fresh_array t n k bs m)"
    using assms(1) by (auto simp: unused_zero_def list_all_iff intro!: cell_fresh)
  moreover have "row_parity n m bs (content (fresh_array t n k bs m))"
  proof -
    have "xsum (\<lambda>c. cell (content (fresh_array t n k bs m)) bs c b j) [0..n - 2] = xsum (\<lambda>_. 0) [0..n - 2]"
      if "0 \<le> b" "b < m" "j < nat bs" for b j
      using that assms(1) by (intro xsum_cong refl cell_fresh) auto
    then show ?thesis by (simp add: row_parity_def list_all_iff)
  qed
  ultimately show ?thesis
    using assms by (simp add: stripe_inv_def array_ok_fresh alloc_ok_fresh)
qed

lemma q_parity_fresh:
  assumes "q_rel_ok n S q_rel" "S dvd m" "0 < bs" "1 \<le> n"
  shows "q_parity n m bs S q_rel (content (fresh_array t n k bs m))"
proof -
  let ?v = "content (fresh_array t n k bs m)"
  have S: "0 < S" using assms(1) by (simp add: q_rel_ok_def)
  have "q_sum S q_rel bs ?v b j = xsum (\<lambda>_. 0) (q_rel (b mod S))"
    if "0 \<le> b" "b < m" "j < nat bs" for b j
    unfolding q_sum_def
  proof (intro xsum_cong refl)
    fix x assume "x \<in> set (q_rel (b mod S))"
    then have "0 \<le> fst x \<and> fst x < S \<and> 0 \<le> snd x \<and> snd x < n - 1"
      using assms(1) pos_mod_bound [OF S, of b] pos_mod_sign [OF S, of b]
      by (auto simp: q_rel_ok_def list_all_iff)
    then show "cell ?v bs (snd x) (fst x + b div S * S) j = 0"
      using strip_in_range [OF S assms(2) that(1,2)] assms(3) that(3) by (intro cell_fresh) auto
  qed
  then show ?thesis
    using assms(3,4) by (simp add: q_parity_def list_all_iff cell_fresh)
qed

section \<open>Strips in memory\<close>

text \<open>
  The recovery tool reads a strip once into a table of buffers, one per row and disk, and rebuilds the
  lost blocks from there. \<open>read_stripes\<close> reads a list of cells of the strip that starts at block \<open>base\<close>,
  \<open>xor_stripes\<close> adds cells of the table to a buffer.
\<close>

type_synonym stripes = "int \<Rightarrow> int \<Rightarrow> byte list"

fun read_stripes :: "int \<Rightarrow> int \<Rightarrow> (int \<times> int) list \<Rightarrow> stripes \<Rightarrow> sys \<Rightarrow> stripes \<times> sys" where
  "read_stripes bs base [] bufs s = (bufs, s)"
| "read_stripes bs base (x # xs) bufs s =
     (let (retstat, b, s) = nc_readDisk (snd x) (bufs (fst x) (snd x)) bs (i32 ((base + fst x) * bs)) s
      in read_stripes bs base xs (bufs(fst x := (bufs (fst x))(snd x := b))) s)"

fun xor_stripes :: "(nat \<Rightarrow> byte) \<Rightarrow> int \<Rightarrow> stripes \<Rightarrow> (int \<times> int) list \<Rightarrow> byte list \<Rightarrow> byte list" where
  "xor_stripes junk sz bufs [] buf = buf"
| "xor_stripes junk sz bufs (x # xs) buf =
     xor_stripes junk sz bufs xs (xor_into junk (nat sz) buf (bufs (fst x) (snd x)))"

text \<open>The table holds these cells of the strip.\<close>

definition strip_read :: "(int \<Rightarrow> byte list) \<Rightarrow> int \<Rightarrow> int \<Rightarrow> (int \<times> int) list \<Rightarrow> stripes \<Rightarrow> bool" where
  "strip_read v bs base xs bufs \<longleftrightarrow> list_all (\<lambda>x. length (bufs (fst x) (snd x)) = nat bs \<and>
     list_all (\<lambda>j. bufs (fst x) (snd x) ! j = cell v bs (snd x) (base + fst x) j) [0..<nat bs]) xs"

lemma strip_readD:
  "strip_read v bs base xs bufs \<Longrightarrow> x \<in> set xs \<Longrightarrow> length (bufs (fst x) (snd x)) = nat bs"
  "strip_read v bs base xs bufs \<Longrightarrow> x \<in> set xs \<Longrightarrow> j < nat bs \<Longrightarrow>
     bufs (fst x) (snd x) ! j = cell v bs (snd x) (base + fst x) j"
  by (auto simp: strip_read_def list_all_iff)

lemma strip_read_subset:
  "strip_read v bs base ys bufs \<Longrightarrow> set xs \<subseteq> set ys \<Longrightarrow> strip_read v bs base xs bufs"
  by (auto simp: strip_read_def list_all_iff)

lemma read_stripes_ok:
  fixes s :: sys
  defines "bs \<equiv> disk_block_size s"
  assumes lost: "lost_disk m d v s"
    and c: "\<And>x. x \<in> set xs \<Longrightarrow> 0 \<le> snd x \<and> snd x < disk_total_num s \<and> snd x \<noteq> d \<and>
      0 \<le> base + fst x \<and> base + fst x < m"
    and len: "\<And>x. x \<in> set xs \<Longrightarrow> length (bufs (fst x) (snd x)) = nat bs"
    and old: "strip_read v bs base ys bufs"
  shows "\<exists>bufs'. read_stripes bs base xs bufs s = (bufs', s) \<and> strip_read v bs base (ys @ xs) bufs'"
  using c len old
proof (induction xs arbitrary: bufs ys)
  case Nil
  then show ?case by simp
next
  case (Cons x xs)
  have x: "0 \<le> snd x" "snd x < disk_total_num s" "snd x \<noteq> d" "0 \<le> base + fst x" "base + fst x < m"
    using Cons.prems(1) [of x] by auto
  have g: "0 < bs" "m * bs < 2147483648" using lost by (auto simp: lost_disk_def bs_def)
  have cv: "content s (snd x) = v (snd x)" "int (length (content s (snd x))) = m * bs"
    using lost x by (auto simp: lost_disk_def bs_def list_all_iff)
  note a = block_addr [OF g x(4,5)]
  let ?b = "take (nat bs) (drop (nat ((base + fst x) * bs)) (content s (snd x)))"
  have r: "nc_readDisk (snd x) (bufs (fst x) (snd x)) bs (i32 ((base + fst x) * bs)) s = (bs, ?b, s)"
    unfolding a(1) by (rule nc.rd_buf) (use a g cv Cons.prems(2) [of x] in auto)
  let ?bufs = "bufs(fst x := (bufs (fst x))(snd x := ?b))"
  have lb: "length ?b = nat bs" by (rule nc.length_rd_buf) (use a g cv in auto)
  have bj: "?b ! j = cell v bs (snd x) (base + fst x) j" if "j < nat bs" for j
    using that lb cv by (simp add: cell_def)
  have o: "strip_read v bs base (ys @ [x]) ?bufs"
    using Cons.prems(3) lb bj by (auto simp: strip_read_def list_all_iff)
  have l: "\<And>y. y \<in> set xs \<Longrightarrow> length (?bufs (fst y) (snd y)) = nat bs"
    using Cons.prems(2) lb by auto
  have c': "\<And>x. x \<in> set xs \<Longrightarrow> 0 \<le> snd x \<and> snd x < disk_total_num s \<and> snd x \<noteq> d \<and>
      0 \<le> base + fst x \<and> base + fst x < m"
    by (rule Cons.prems(1)) simp
  obtain bufs' where b': "read_stripes bs base xs ?bufs s = (bufs', s)"
    "strip_read v bs base ((ys @ [x]) @ xs) bufs'"
    using Cons.IH [OF c' l o] by blast
  then show ?case using r by simp
qed

lemma xor_stripes_ok:
  assumes "strip_read v bs base xs bufs" "length buf = nat sz" "sz \<le> bs"
  shows "xor_stripes junk sz bufs xs buf =
    map (\<lambda>j. buf ! j XOR xsum (\<lambda>x. cell v bs (snd x) (base + fst x) j) xs) [0..<nat sz]"
  using assms
proof (induction xs arbitrary: buf)
  case Nil
  then show ?case by (auto intro!: nth_equalityI)
next
  case (Cons x xs)
  let ?b = "xor_into junk (nat sz) buf (bufs (fst x) (snd x))"
  have "xor_stripes junk sz bufs (x # xs) buf =
      map (\<lambda>j. ?b ! j XOR xsum (\<lambda>x. cell v bs (snd x) (base + fst x) j) xs) [0..<nat sz]"
    using Cons.IH [of ?b] Cons.prems strip_read_subset [OF Cons.prems(1), of xs] by auto
  moreover have "?b ! j = buf ! j XOR cell v bs (snd x) (base + fst x) j" if "j < nat sz" for j
    using that Cons.prems strip_readD [OF Cons.prems(1), of x] by (simp add: nth_xor_into)
  ultimately show ?case by (auto simp: xor.assoc)
qed

text \<open>A strip in memory gives back a block of the lost disk, the sum of its row or of its Q relation.\<close>

lemma xor_stripes_lost:
  fixes s :: sys
  defines "n \<equiv> disk_total_num s" and "bs \<equiv> disk_block_size s"
  assumes lost: "stripe_lost m S q_rel d v s" and b: "0 \<le> b" "b < m" and sz: "0 < sz" "sz \<le> bs"
    and cells: "cells = (if 0 \<le> d \<and> d < n - 1
      then map (\<lambda>i. (b mod S, i)) (filter (\<lambda>i. i \<noteq> d) [0..n - 2]) else q_rel (b mod S))"
    and sr: "strip_read v bs (b div S * S) ys bufs" and sub: "set cells \<subseteq> set ys"
  shows "xor_stripes junk sz bufs cells (zeros (nat sz)) = take (nat sz) (drop (nat (b * bs)) (v d))"
proof -
  have l: "lost_disk m d v s" "row_parity n m bs v" "d = n - 1 \<Longrightarrow> q_parity n m bs S q_rel v"
    using lost by (simp_all add: stripe_lost_def n_def bs_def)
  have d: "0 \<le> d" "d < n" "int (length (v d)) = m * bs" "0 < bs" "m * bs < 2147483648"
    using l(1) by (auto simp: lost_disk_def list_all_iff n_def bs_def)
  have cs: "xsum (\<lambda>x. cell v bs (snd x) (b div S * S + fst x) j) cells = cell v bs d b j"
    if "j < nat bs" for j
  proof (cases "d < n - 1")
    case True
    then show ?thesis using row_cells_lost [OF l(2) b that d(1) True] d(1) by (simp add: cells)
  next
    case False
    then have dq: "d = n - 1" using d by simp
    then show ?thesis using q_parityD [OF l(3) [OF dq] b that]
      by (simp add: cells q_sum_def add.commute)
  qed
  have "nat (b * bs) + nat sz \<le> length (v d)" using block_addr [OF d(4,5) b] d sz by linarith
  note bytes = block_bytes [where v = v and d = d, OF this]
  show ?thesis unfolding bytes [symmetric]
    using xor_stripes_ok [OF strip_read_subset [OF sr sub], of "zeros (nat sz)" sz junk] cs sz
    by simp
qed

section \<open>Blocks that are used again\<close>

text \<open>
  Without \<open>unused_zero\<close>: after \<open>encode\<close> the row of the block sums to what the block held before. The
  rows all sum to zero again exactly when that was zero.
\<close>

lemma stripe_encode_row_iff:
  fixes s :: sys
  defines "n \<equiv> disk_total_num s" and "bs \<equiv> disk_block_size s"
  assumes ok: "array_ok m s" "alloc_ok (\<lambda>d _. d < n - 2) m s" "3 \<le> n" "0 < S" "S dvd m"
    and fq: "\<And>d j. 0 \<le> d \<Longrightarrow> d < n - 2 \<Longrightarrow> 0 \<le> j \<Longrightarrow> j < S \<Longrightarrow> set (find_q d j) \<subseteq> set [0..S - 1]"
    and w: "sum_widths sz bs nx wq" and len: "length buf = nat sz"
    and par: "row_parity n m bs (content s)"
    and enc: "stripe_encode find_q S nx wq buf sz s = (r, s')" "bi_disk_id r \<noteq> -1"
  shows "row_parity n m bs (content s') \<longleftrightarrow>
    list_all (\<lambda>j. cell (content s) bs (bi_disk_id r) (bi_block_no r) j = 0) [0..<nat sz]"
proof -
  obtain d b where r: "r = \<lparr>bi_disk_id = d, bi_block_no = b\<rparr>" by (cases r) auto
  note c = stripe_encode_cells [where s = s and find_q = find_q, folded n_def bs_def,
      OF ok fq w len enc, unfolded r, simplified]
  have c1: "0 \<le> d" "d < n - 2" "0 \<le> b" "b < m" using c by auto
  have dl: "\<And>c b' j. 0 \<le> b' \<Longrightarrow> b' < m \<Longrightarrow> j < nat bs \<Longrightarrow> cell (content s') bs c b' j =
      cell (content s) bs c b' j XOR encode_delta n S find_q bs d b buf (content s) c b' j"
    using c by blast
  have sz: "nat sz \<le> nat bs" using w by (auto simp: sum_widths_def)
  show ?thesis
  proof
    assume p: "row_parity n m bs (content s')"
    have "cell (content s) bs d b j = 0" if j: "j < nat sz" for j
    proof -
      have jb: "j < nat bs" using j sz by simp
      show ?thesis
        using encode_row_sum [OF c1(1-3), of "content s'" bs j "content s" S find_q b buf]
          dl [OF c1(3,4) jb] row_parityD [OF p c1(3,4) jb] row_parityD [OF par c1(3,4) jb] j len
        by simp
    qed
    then show "list_all (\<lambda>j. cell (content s) bs (bi_disk_id r) (bi_block_no r) j = 0) [0..<nat sz]"
      by (simp add: r list_all_iff)
  next
    assume "list_all (\<lambda>j. cell (content s) bs (bi_disk_id r) (bi_block_no r) j = 0) [0..<nat sz]"
    then show "row_parity n m bs (content s')"
      using len by (intro encode_row_parity [OF par c1(1,2) dl]) (auto simp: r list_all_iff)
  qed
qed

end
