(* ===== verification/ElemHash.thy ===== *)
theory ElemHash
  imports StripeCode
begin

text \<open>
  The table \<open>elem_hash\<close> of EVENODD and RDP (\<open>RELATED_ELEMS_HASH\<close> in \<open>coding_evenodd.hh\<close> and
  \<open>coding_rdp.hh\<close>), which maps a cell of the strip to the list of the cells it is related to, and the
  operations both classes have on the table and on a matrix of integers: \<open>gen_p\<close>, \<open>gen_q\<close> and \<open>repair\<close>.
\<close>

type_synonym pair = "int \<times> int"
type_synonym elem_hash = "pair \<Rightarrow> pair list"

section \<open>Building the table\<close>

text \<open>\<open>elem_hash[e].push_back(x)\<close>, and a sequence of such calls.\<close>

definition push_back :: "elem_hash \<Rightarrow> pair \<times> pair \<Rightarrow> elem_hash" where
  "push_back h ex = h(fst ex := h (fst ex) @ [snd ex])"

definition build_hash :: "(pair \<times> pair) list \<Rightarrow> elem_hash" where
  "build_hash ps = foldl push_back (\<lambda>_. []) ps"

lemma foldl_push_back: "foldl push_back h ps e = h e @ map snd (filter (\<lambda>p. fst p = e) ps)"
  by (induction ps arbitrary: h) (auto simp: push_back_def)

lemma build_hash_eq: "build_hash ps e = map snd (filter (\<lambda>p. fst p = e) ps)"
  by (simp add: build_hash_def foldl_push_back)

lemma count_build_hash: "count_list (build_hash ps e) x = count_list ps (e, x)"
  unfolding build_hash_eq by (induction ps) auto

lemma set_build_hash: "x \<in> set (build_hash ps e) \<longleftrightarrow> (e, x) \<in> set ps"
  by (force simp: build_hash_eq)

text \<open>The row of a diagonal in a column.\<close>

lemma mod_diff_iff:
  fixes k i t f :: int
  assumes "0 \<le> i" "i < k"
  shows "(i - t) mod k = f \<longleftrightarrow> 0 \<le> f \<and> f < k \<and> (f + t) mod k = i"
proof
  assume f: "(i - t) mod k = f"
  have "(f + t) mod k = (i - t + t) mod k" unfolding f [symmetric] by (rule mod_add_left_eq)
  moreover have "0 \<le> f" "f < k" using assms pos_mod_bound [of k "i - t"] pos_mod_sign [of k "i - t"]
    unfolding f [symmetric] by auto
  ultimately show "0 \<le> f \<and> f < k \<and> (f + t) mod k = i" using assms by simp
next
  assume f: "0 \<le> f \<and> f < k \<and> (f + t) mod k = i"
  have "(f + t - t) mod k = ((f + t) mod k - t) mod k" by (rule mod_diff_left_eq [symmetric])
  then show "(i - t) mod k = f" using f by simp
qed

lemma count_concat_single:
  assumes "distinct xs" "x \<in> set xs" "\<And>y. y \<in> set xs \<Longrightarrow> y \<noteq> x \<Longrightarrow> e \<notin> set (f y)"
  shows "count_list (concat (map f xs)) e = count_list (f x) e"
  using assms
proof (induction xs)
  case Nil
  then show ?case by simp
next
  case (Cons y ys)
  have z: "count_list (f y) e = 0" if "y \<noteq> x" using Cons.prems(3) [of y] that
    by (simp add: count_list_0_iff)
  have "count_list (concat (map f ys)) e = 0" if "y = x"
    using Cons.prems(1,3) that by (auto simp: count_list_0_iff)
  then show ?case using Cons z by (cases "y = x") auto
qed

text \<open>\<open>find_q_blocks_id\<close>: the offsets of the Q blocks among the related cells.\<close>

definition find_q_blocks_id :: "elem_hash \<Rightarrow> int \<Rightarrow> int \<Rightarrow> int \<Rightarrow> int list" where
  "find_q_blocks_id h col disk_id block_no =
     map fst (filter (\<lambda>x. snd x = col - 1) (h (block_no, disk_id)))"

lemma count_find_q: "count_list (find_q_blocks_id h col d j) i = count_list (h (j, d)) (i, col - 1)"
proof -
  have "count_list (map fst (filter (\<lambda>x. snd x = col - 1) xs)) i = count_list xs (i, col - 1)"
    for xs :: "pair list"
    by (induction xs) auto
  then show ?thesis by (simp add: find_q_blocks_id_def)
qed

text \<open>Relations entered in both directions.\<close>

definition symmetric_log :: "(pair \<times> pair) list \<Rightarrow> bool" where
  "symmetric_log ps \<longleftrightarrow> (\<forall>x y. count_list ps (x, y) = count_list ps (y, x))"

lemma symmetric_logD: "symmetric_log ps \<Longrightarrow> count_list ps (x, y) = count_list ps (y, x)"
  unfolding symmetric_log_def by blast

lemma symmetric_log_append:
  assumes "symmetric_log xs" "symmetric_log ys"
  shows "symmetric_log (xs @ ys)"
  unfolding symmetric_log_def count_list_append
proof (intro allI)
  fix x y
  show "count_list xs (x, y) + count_list ys (x, y) = count_list xs (y, x) + count_list ys (y, x)"
    using symmetric_logD [OF assms(1), of x y] symmetric_logD [OF assms(2), of x y] by simp
qed

lemma symmetric_log_Nil: "symmetric_log []"
  by (simp add: symmetric_log_def)

lemma symmetric_log_pair: "symmetric_log [(x, y), (y, x)]"
  unfolding symmetric_log_def
proof (intro allI)
  fix a b
  show "count_list [(x, y), (y, x)] (a, b) = count_list [(x, y), (y, x)] (b, a)"
    by (cases "x = a"; cases "y = b"; cases "y = a"; cases "x = b") simp_all
qed

lemma symmetric_log_concat:
  "(\<And>x. x \<in> set xs \<Longrightarrow> symmetric_log (f x)) \<Longrightarrow> symmetric_log (concat (map f xs))"
  by (induction xs) (auto simp: symmetric_log_Nil symmetric_log_append)

lemma symmetric_log_both:
  "symmetric_log (map (\<lambda>x. (e, f x)) xs @ map (\<lambda>x. (f x, e)) xs)"
proof -
  have "count_list (map (\<lambda>x. (e, f x)) xs) (y, z) = count_list (map (\<lambda>x. (f x, e)) xs) (z, y)" for y z
    by (induction xs) auto
  then show ?thesis by (simp add: symmetric_log_def add.commute)
qed

section \<open>The code on a matrix of integers\<close>

type_synonym matrix = "int \<Rightarrow> int \<Rightarrow> 32 word"

definition mat_xor :: "matrix \<Rightarrow> int \<Rightarrow> int \<Rightarrow> 32 word \<Rightarrow> matrix" where
  "mat_xor m i j x = m(i := (m i)(j := m i j XOR x))"

definition gen_p :: "int \<Rightarrow> int \<Rightarrow> matrix \<Rightarrow> matrix" where
  "gen_p row col m = foldl (\<lambda>m i. foldl (\<lambda>m j. mat_xor m i (col - 2) (m i j)) m [0..col - 3])
     m [0..row - 1]"

definition gen_q :: "elem_hash \<Rightarrow> int \<Rightarrow> int \<Rightarrow> matrix \<Rightarrow> matrix" where
  "gen_q h row col m = foldl (\<lambda>m i. foldl (\<lambda>m e. mat_xor m i (col - 1) (m (fst e) (snd e))) m
     (h (i, col - 1))) m [0..row - 1]"

definition repair :: "elem_hash \<Rightarrow> int \<Rightarrow> int \<Rightarrow> matrix \<Rightarrow> int \<Rightarrow> 32 word list" where
  "repair h row col m id_failed =
     (if id_failed < 0 \<or> col \<le> id_failed then []
      else if id_failed \<noteq> col - 1
      then map (\<lambda>i. foldl (\<lambda>ret j. if j \<noteq> id_failed then ret XOR m i j else ret) 0 [0..col - 2])
             [0..row - 1]
      else map (\<lambda>i. foldl (\<lambda>ret e. ret XOR m (fst e) (snd e)) 0 (h (i, col - 1))) [0..row - 1])"

lemma foldl_mat_row:
  assumes "\<And>x. x \<in> set xs \<Longrightarrow> snd x \<noteq> c"
  shows "foldl (\<lambda>m x. mat_xor m i c (m (fst x) (snd x))) m xs =
    mat_xor m i c (xsum (\<lambda>x. m (fst x) (snd x)) xs)"
  using assms
proof (induction xs arbitrary: m)
  case Nil
  then show ?case by (simp add: mat_xor_def)
next
  case (Cons x xs)
  have "xsum (\<lambda>x'. mat_xor m i c (m (fst x) (snd x)) (fst x') (snd x')) xs
      = xsum (\<lambda>x. m (fst x) (snd x)) xs"
    using Cons.prems by (intro xsum_cong) (auto simp: mat_xor_def)
  then show ?case using Cons by (simp add: mat_xor_def fun_eq_iff xor.assoc)
qed

lemma foldl_mat_rows:
  assumes "distinct rs" and "\<And>i x. x \<in> set (f i) \<Longrightarrow> snd x \<noteq> c"
  shows "foldl (\<lambda>m i. foldl (\<lambda>m x. mat_xor m i c (m (fst x) (snd x))) m (f i)) m rs =
    (\<lambda>i j. if i \<in> set rs \<and> j = c then m i c XOR xsum (\<lambda>x. m (fst x) (snd x)) (f i) else m i j)"
  using assms(1)
proof (induction rs rule: rev_induct)
  case Nil
  then show ?case by simp
next
  case (snoc r rs)
  let ?m = "\<lambda>i j. if i \<in> set rs \<and> j = c then m i c XOR xsum (\<lambda>x. m (fst x) (snd x)) (f i) else m i j"
  have s: "xsum (\<lambda>x. ?m (fst x) (snd x)) (f r) = xsum (\<lambda>x. m (fst x) (snd x)) (f r)"
    using assms(2) by (intro xsum_cong) auto
  have "foldl (\<lambda>m i. foldl (\<lambda>m x. mat_xor m i c (m (fst x) (snd x))) m (f i)) m (rs @ [r]) =
      foldl (\<lambda>m x. mat_xor m r c (m (fst x) (snd x))) ?m (f r)"
    using snoc by simp
  also have "\<dots> = mat_xor ?m r c (xsum (\<lambda>x. m (fst x) (snd x)) (f r))"
    unfolding s [symmetric] using assms(2) by (intro foldl_mat_row)
  also have "\<dots> = (\<lambda>i j. if i \<in> set (rs @ [r]) \<and> j = c
      then m i c XOR xsum (\<lambda>x. m (fst x) (snd x)) (f i) else m i j)"
    using snoc.prems by (intro ext) (auto simp: mat_xor_def)
  finally show ?case .
qed

lemma foldl_xor: "foldl (\<lambda>ret x. if P x then ret XOR f x else ret) (a :: 'b::len word) xs =
    a XOR xsum f (filter P xs)"
  by (induction xs arbitrary: a) (auto simp: xor.assoc)

lemma gen_p_eq:
  "gen_p row col m = (\<lambda>i j. if i \<in> set [0..row - 1] \<and> j = col - 2
     then m i (col - 2) XOR xsum (\<lambda>j. m i j) [0..col - 3] else m i j)"
proof -
  have "foldl (\<lambda>m j. mat_xor m i (col - 2) (m i j)) m xs =
      foldl (\<lambda>m x. mat_xor m i (col - 2) (m (fst x) (snd x))) m (map (\<lambda>j. (i, j)) xs)" for m i xs
    by (simp add: foldl_map)
  then have "gen_p row col m = foldl (\<lambda>m i. foldl (\<lambda>m x. mat_xor m i (col - 2) (m (fst x) (snd x))) m
      (map (\<lambda>j. (i, j)) [0..col - 3])) m [0..row - 1]"
    by (simp add: gen_p_def)
  also have "\<dots> = (\<lambda>i j. if i \<in> set [0..row - 1] \<and> j = col - 2
     then m i (col - 2) XOR xsum (\<lambda>j. m i j) [0..col - 3] else m i j)"
    by (subst foldl_mat_rows) (auto simp: fun_eq_iff)
  finally show ?thesis .
qed

lemma gen_q_eq:
  assumes "\<And>i x. x \<in> set (h (i, col - 1)) \<Longrightarrow> snd x \<noteq> col - 1"
  shows "gen_q h row col m = (\<lambda>i j. if i \<in> set [0..row - 1] \<and> j = col - 1
     then m i (col - 1) XOR xsum (\<lambda>x. m (fst x) (snd x)) (h (i, col - 1)) else m i j)"
  unfolding gen_q_def using assms by (intro foldl_mat_rows) auto

text \<open>
  On a matrix whose last two columns are zero, \<open>gen_p\<close> and \<open>gen_q\<close> compute the code: \<open>repair\<close> of the matrix
  they leave gives the column it already has.
\<close>

lemma repair_generated:
  fixes row :: int
  assumes h: "\<And>i x. x \<in> set (h (i, col - 1)) \<Longrightarrow> snd x \<noteq> col - 1"
    and z: "\<And>i. m i (col - 2) = 0" "\<And>i. m i (col - 1) = 0"
    and c: "0 \<le> c" "c < col" "2 \<le> col"
  defines "g \<equiv> gen_q h row col (gen_p row col m)"
  shows "repair h row col g c = map (\<lambda>i. g i c) [0..row - 1]"
proof -
  define p where "p = gen_p row col m"
  have p: "p i j = (if i \<in> set [0..row - 1] \<and> j = col - 2 then xsum (\<lambda>j. m i j) [0..col - 3]
      else m i j)" for i j
    using z by (auto simp: p_def gen_p_eq)
  have g: "g i j = (if i \<in> set [0..row - 1] \<and> j = col - 1
      then xsum (\<lambda>x. p (fst x) (snd x)) (h (i, col - 1)) else p i j)" for i j
    using z p by (auto simp: g_def gen_q_eq [OF h] simp flip: p_def)
  show ?thesis
  proof (cases "c = col - 1")
    case True
    have "xsum (\<lambda>x. g (fst x) (snd x)) (h (i, col - 1)) =
        xsum (\<lambda>x. p (fst x) (snd x)) (h (i, col - 1))" for i
      using h by (intro xsum_cong refl) (auto simp: g)
    moreover have "foldl (\<lambda>ret e. ret XOR f e) 0 xs = xsum f xs" for f :: "pair \<Rightarrow> 32 word" and xs
      using foldl_xor [of "\<lambda>_. True" f 0 xs] by simp
    ultimately show ?thesis using True c by (auto simp: repair_def g [of _ "col - 1"])
  next
    case False
    have r: "xsum (\<lambda>j. g i j) [0..col - 2] = 0" if i: "i \<in> set [0..row - 1]" for i
    proof -
      have s: "[0..col - 2] = [0..col - 3] @ [col - 2]"
        using c by (subst upto_rec2) auto
      have "xsum (\<lambda>j. g i j) [0..col - 3] = xsum (\<lambda>j. m i j) [0..col - 3]"
        by (intro xsum_cong) (auto simp: g p)
      moreover have "g i (col - 2) = xsum (\<lambda>j. m i j) [0..col - 3]"
        using i by (simp add: g p)
      ultimately show ?thesis unfolding s by simp
    qed
    have "foldl (\<lambda>ret j. if j \<noteq> c then ret XOR g i j else ret) 0 [0..col - 2] = g i c"
      if "i \<in> set [0..row - 1]" for i
      using xsum_solve [OF _ _ r [OF that], of c] c False by (simp add: foldl_xor)
    then show ?thesis using False c by (simp add: repair_def)
  qed
qed

text \<open>\<open>repair\<close> does not look at the column it computes: whatever a lost column holds, it is given back.\<close>

lemma repair_cong:
  assumes h: "\<And>i x. x \<in> set (h (i, col - 1)) \<Longrightarrow> snd x \<noteq> col - 1"
    and "\<And>i j. j \<noteq> c \<Longrightarrow> m i j = m' i j"
  shows "repair h row col m c = repair h row col m' c"
proof -
  have "foldl (\<lambda>ret j. if j \<noteq> c then ret XOR m i j else ret) 0 [0..col - 2] =
      foldl (\<lambda>ret j. if j \<noteq> c then ret XOR m' i j else ret) 0 [0..col - 2]" for i
    by (rule foldl_cong) (use assms(2) in auto)
  moreover have "foldl (\<lambda>ret e. ret XOR m (fst e) (snd e)) 0 (h (i, col - 1)) =
      foldl (\<lambda>ret e. ret XOR m' (fst e) (snd e)) 0 (h (i, col - 1))" if "c = col - 1" for i
    by (rule foldl_cong) (use assms(2) h that in auto)
  ultimately show ?thesis by (simp add: repair_def)
qed

end
