(* ===== verification/Evenodd.thy ===== *)
theory Evenodd
  imports ElemHash
begin

text \<open>
  EVENODD, \<open>Coding4Evenodd\<close> of \<open>coding_evenodd.cc\<close>: \<open>k\<close> data disks, P and Q, and strips of \<open>k - 1\<close>
  rows. The constructor fills \<open>elem_hash\<close>; \<open>encode\<close>, \<open>decode\<close> and the recovery functions look the
  related cells up there.
\<close>

section \<open>The table\<close>

text \<open>
  The calls of \<open>push_back\<close> in \<open>elems_related_elems\<close>, in their order: with row \<open>i\<close> of column \<open>j\<close> the P
  cell of the row, all Q cells when the cell lies on the diagonal \<open>i + j = k - 1\<close>, and last the Q cell
  of the cell's own diagonal.
\<close>

definition evenodd_row_log :: "int \<Rightarrow> int \<Rightarrow> int \<Rightarrow> int \<Rightarrow> (pair \<times> pair) list" where
  "evenodd_row_log row k i j =
     (let p = (i, k); d = (i, j)
      in [(d, p), (p, d)] @
         (if i + j = k - 1 then map (\<lambda>r. (d, (r, k + 1))) [0..row - 1] @
                                map (\<lambda>r. ((r, k + 1), d)) [0..row - 1] else []))"

definition evenodd_diag_log :: "int \<Rightarrow> int \<Rightarrow> int \<Rightarrow> int \<Rightarrow> (pair \<times> pair) list" where
  "evenodd_diag_log row k i t =
     (let q = (i, k + 1);
          f = (i - t) smod k;
          first = (if f \<ge> 0 then f else f + k)
      in if first \<ge> 0 \<and> first < row then [((first, t), q), (q, (first, t))] else [])"

definition evenodd_log :: "int \<Rightarrow> (pair \<times> pair) list" where
  "evenodd_log k = (let row = k - 1 in
     concat (map (\<lambda>i. concat (map (\<lambda>j. evenodd_row_log row k i j) [0..k - 1])) [0..row - 1]) @
     concat (map (\<lambda>i. concat (map (\<lambda>t. evenodd_diag_log row k i t) [0..k - 1])) [0..row - 1]))"

definition evenodd_elem_hash :: "int \<Rightarrow> elem_hash" where
  "evenodd_elem_hash k = build_hash (evenodd_log k)"

section \<open>The operations\<close>

definition evenodd_find_q_blocks_id :: "int \<Rightarrow> int \<Rightarrow> int \<Rightarrow> int list" where
  "evenodd_find_q_blocks_id k disk_id block_no =
     find_q_blocks_id (evenodd_elem_hash k) (k + 2) disk_id block_no"

definition evenodd_encode :: "byte list \<Rightarrow> int \<Rightarrow> sys \<Rightarrow> data_block_info \<times> sys" where
  "evenodd_encode buf sz s =
     (let k = data_disk_num s; strip_size = k - 1
      in stripe_encode (evenodd_find_q_blocks_id k) strip_size sz (round_to_block_size sz s) buf sz s)"

definition evenodd_decode :: "int \<Rightarrow> byte list \<Rightarrow> int \<Rightarrow> int \<Rightarrow> sys \<Rightarrow> int \<times> byte list \<times> sys" where
  "evenodd_decode disk_id buf sz offset s =
     (let k = data_disk_num s; strip_size = k - 1
      in array_decode (evenodd_elem_hash k) strip_size disk_id buf sz offset s)"

definition evenodd_recover :: "int \<Rightarrow> sys \<Rightarrow> int \<times> sys" where
  "evenodd_recover failed_disk_id s =
     (let recoversize = disk_size s failed_disk_id;
          block_size = disk_block_size s
      in (0, rebuild_blocks evenodd_decode nc_writeDisk (\<lambda>b. overwrite b 0 (zeros (nat block_size)))
               failed_disk_id block_size [0..recoversize - 1]
               (malloc (heap_junk s) (nat block_size)) s))"

section \<open>The relations of the table\<close>

lemma evenodd_log_symmetric: "symmetric_log (evenodd_log k)"
  unfolding evenodd_log_def Let_def evenodd_row_log_def evenodd_diag_log_def
  by (auto intro!: symmetric_log_append symmetric_log_concat symmetric_log_pair symmetric_log_Nil
      symmetric_log_both simp del: append.simps)

text \<open>Every cell related to a Q cell is a data cell of the strip.\<close>

lemma evenodd_q_rel:
  assumes "((i, k + 1), x) \<in> set (evenodd_log k)"
  shows "0 \<le> fst x \<and> fst x < k - 1 \<and> 0 \<le> snd x \<and> snd x < k"
  using assms by (auto simp: evenodd_log_def evenodd_row_log_def evenodd_diag_log_def Let_def
      split: if_splits)

lemma evenodd_rel_ok:
  "2 \<le> k \<Longrightarrow> n = k + 2 \<Longrightarrow> q_rel_ok n (k - 1) (\<lambda>i. evenodd_elem_hash k (i, n - 1))"
  using evenodd_q_rel by (fastforce simp: q_rel_ok_def list_all_iff evenodd_elem_hash_def
      set_build_hash add.commute)

text \<open>A data cell is related to the same Q cells that are related to it, so \<open>encode\<close> updates the right ones.\<close>

lemma evenodd_find_q_set:
  "set (evenodd_find_q_blocks_id k d j) \<subseteq> set [0..k - 2]"
proof
  fix i assume "i \<in> set (evenodd_find_q_blocks_id k d j)"
  then have "((j, d), (i, k + 1)) \<in> set (evenodd_log k)"
    by (auto simp: evenodd_find_q_blocks_id_def find_q_blocks_id_def evenodd_elem_hash_def
        set_build_hash add.commute)
  then show "i \<in> set [0..k - 2]"
    by (auto simp: evenodd_log_def evenodd_row_log_def evenodd_diag_log_def Let_def
        split: if_splits)
qed

lemma evenodd_find_q_ok:
  assumes "n = k + 2" "0 \<le> d" "d < k"
  shows "find_q_ok n (\<lambda>i. evenodd_elem_hash k (i, n - 1)) (evenodd_find_q_blocks_id k) (k - 1) d j"
proof -
  have n: "n - 1 = k + 1" "n - 2 = k" using assms by auto
  have "count_list (evenodd_log k) ((i, k + 1), (j, k)) = 0" for i
    using evenodd_q_rel [of i k "(j, k)"] by (auto simp: count_list_0_iff)
  moreover have "count_list (evenodd_find_q_blocks_id k d j) i =
      count_list (evenodd_log k) ((i, k + 1), (j, d))" for i
    using symmetric_logD [OF evenodd_log_symmetric, of k "(j, d)" "(i, k + 1)"]
    by (simp add: evenodd_find_q_blocks_id_def count_find_q evenodd_elem_hash_def count_build_hash
        add.commute)
  ultimately show ?thesis
    using evenodd_find_q_set [of k d j]
    by (simp add: find_q_ok_def n evenodd_elem_hash_def count_build_hash list_all_iff)
qed

lemma evenodd_count_row:
  assumes "2 \<le> k" "0 \<le> i" "i < k - 1"
  shows "count_list (concat (map (\<lambda>i. concat (map (\<lambda>j. evenodd_row_log (k - 1) k i j) [0..k - 1])) [0..(k - 1) - 1]))
    ((i, k + 1), (f, t)) = (if 0 \<le> f \<and> f < k - 1 \<and> 0 \<le> t \<and> f + t = k - 1 then 1 else 0)"
proof -
  let ?e = "((i, k + 1), (f, t))" and ?row = "k - 1"
  let ?h = "\<lambda>i. concat (map (\<lambda>j. evenodd_row_log ?row k i j) [0..k - 1])"
  have r: "?e \<in> set (evenodd_row_log ?row k i' j) \<longleftrightarrow> i' = f \<and> j = t \<and> f + t = k - 1" if "j < k" for i' j
    using assms that by (auto simp: evenodd_row_log_def Let_def image_iff)
  have c: "count_list (evenodd_row_log ?row k f t) ?e = (if f + t = k - 1 then 1 else 0)" if t: "t < k"
  proof (cases "f + t = k - 1")
    case True
    have m: "count_list (map (\<lambda>r. ((r, k + 1), (f, t))) xs) ?e = count_list xs i"
      "count_list (map (\<lambda>r. ((f, t), (r, k + 1))) xs) ?e = 0" for xs
      using t by (induction xs) auto
    have "count_list [0..?row - 1] i = 1" using assms by (simp add: count_distinct)
    then show ?thesis using True t m by (simp add: evenodd_row_log_def Let_def)
  next
    case False
    then show ?thesis using r [OF t] by (simp add: count_list_0_iff)
  qed
  show ?thesis
  proof (cases "0 \<le> f \<and> f < k - 1 \<and> 0 \<le> t \<and> t < k")
    case True
    have "count_list (concat (map ?h [0..?row - 1])) ?e = count_list (?h f) ?e"
      by (rule count_concat_single) (use True r in auto)
    moreover have "count_list (?h f) ?e = count_list (evenodd_row_log ?row k f t) ?e"
      by (rule count_concat_single) (use True r in auto)
    ultimately show ?thesis using c True by simp
  next
    case False
    have "?e \<notin> set (concat (map ?h [0..?row - 1]))" using False r by auto
    then show ?thesis using False by (auto simp: count_list_0_iff)
  qed
qed

lemma evenodd_count_diag:
  assumes "2 \<le> k" "0 \<le> i" "i < k - 1"
  shows "count_list (concat (map (\<lambda>i. concat (map (\<lambda>t. evenodd_diag_log (k - 1) k i t) [0..k - 1])) [0..(k - 1) - 1]))
    ((i, k + 1), (f, t)) = (if 0 \<le> f \<and> f < k - 1 \<and> 0 \<le> t \<and> t < k \<and> (f + t) mod k = i then 1 else 0)"
proof -
  let ?e = "((i, k + 1), (f, t))" and ?row = "k - 1"
  let ?h = "\<lambda>i. concat (map (\<lambda>t. evenodd_diag_log ?row k i t) [0..k - 1])"
  have d: "evenodd_diag_log ?row k i' t' = (if (i' - t') mod k < ?row
      then [(((i' - t') mod k, t'), (i', k + 1)), ((i', k + 1), ((i' - t') mod k, t'))] else [])"
    if "0 \<le> i'" "i' < k" "0 \<le> t'" "t' < k" for i' t'
    using assms that smod_wrap [of k "i' - t'"]
    by (simp add: evenodd_diag_log_def Let_def)
  have "count_list (concat (map ?h [0..?row - 1])) ?e = count_list (?h i) ?e"
    by (rule count_concat_single) (use assms d in \<open>auto split: if_splits\<close>)
  also have "count_list (?h i) ?e =
      (if 0 \<le> f \<and> f < k - 1 \<and> 0 \<le> t \<and> t < k \<and> (f + t) mod k = i then 1 else 0)"
  proof (cases "0 \<le> t \<and> t < k")
    case True
    have "count_list (?h i) ?e = count_list (evenodd_diag_log ?row k i t) ?e"
      by (rule count_concat_single) (use assms d True in \<open>auto split: if_splits\<close>)
    moreover have "(i - t) mod k = f \<longleftrightarrow> 0 \<le> f \<and> f < k \<and> (f + t) mod k = i"
      using assms by (intro mod_diff_iff) auto
    ultimately show ?thesis using d [of i t] assms True by auto
  next
    case False
    have "?e \<notin> set (?h i)" using False assms d by (auto split: if_splits)
    then have "count_list (?h i) ?e = 0" by (rule count_list_0_iff [THEN iffD2])
    moreover have "(if 0 \<le> f \<and> f < k - 1 \<and> 0 \<le> t \<and> t < k \<and> (f + t) mod k = i then 1 else 0) = (0 :: nat)"
      by (rule if_not_P) (use False in blast)
    ultimately show ?thesis by (rule trans [OF _ sym])
  qed
  finally show ?thesis .
qed

text \<open>
  C39: The table of EVENODD is the one of the code's name: block \<open>i\<close> of Q in a strip of \<open>k - 1\<close> rows is
  related, once each, to the data cells of the diagonal \<open>i\<close> modulo \<open>k\<close> and to those of the diagonal
  \<open>k - 1\<close>, the adjuster, and to nothing else.
\<close>

theorem evenodd_diagonals:
  assumes "2 \<le> k" "0 \<le> i" "i < k - 1"
  shows "count_list (evenodd_elem_hash k (i, k + 1)) (f, t) =
    (if 0 \<le> f \<and> f < k - 1 \<and> 0 \<le> t \<and> t < k \<and> ((f + t) mod k = i \<or> f + t = k - 1) then 1 else 0)"
proof -
  have "(f + t) mod k = k - 1" if "f + t = k - 1" using that assms by (simp add: zmod_minus1)
  then show ?thesis
    using assms unfolding evenodd_elem_hash_def count_build_hash evenodd_log_def Let_def count_list_append
      evenodd_count_row [OF assms] evenodd_count_diag [OF assms] by auto
qed

theorem evenodd_diagonals_witness:
  "count_list (evenodd_elem_hash 5 (1, 6)) (3, 3) = 1 \<and> count_list (evenodd_elem_hash 5 (1, 6)) (3, 2) = 0"
  using evenodd_diagonals [of 5 1 3 3] evenodd_diagonals [of 5 1 3 2] by simp

section \<open>Correctness\<close>

text \<open>
  C27: EVENODD keeps both parities: on an array in order, in which every row of data and P sums to
  zero, every Q block is the sum of the cells the table lists for it, and unused blocks are zero, \<open>encode\<close>
  stores the data in the reported block, changes no other data block, and leaves an array in order
  with the same relations.
\<close>

theorem evenodd_encode_parity:
  fixes s :: sys
  defines "n \<equiv> disk_total_num s" and "k \<equiv> data_disk_num s" and "bs \<equiv> disk_block_size s"
  assumes inv: "stripe_inv m (k - 1) s"
    and q: "q_parity n m bs (k - 1) (\<lambda>i. evenodd_elem_hash k (i, n - 1)) (content s)"
    and k: "2 \<le> k" "n = k + 2"
    and sz: "0 < sz" "sz \<le> bs" "length buf = nat sz"
    and enc: "evenodd_encode buf sz s = (r, s')" "bi_disk_id r \<noteq> -1"
  shows "stripe_inv m (k - 1) s' \<and>
    q_parity n m bs (k - 1) (\<lambda>i. evenodd_elem_hash k (i, n - 1)) (content s') \<and>
    block_of s' (bi_disk_id r) (bi_block_no r) sz = buf \<and>
    0 \<le> bi_disk_id r \<and> bi_disk_id r < k \<and>
    (\<forall>c b j. c < k \<longrightarrow> (c, b) \<noteq> (bi_disk_id r, bi_block_no r) \<longrightarrow> 0 \<le> b \<longrightarrow> b < m \<longrightarrow>
       j < nat bs \<longrightarrow> cell (content s') bs c b j = cell (content s) bs c b j)"
proof -
  have rs: "round_to_block_size sz s = bs" using sz round_one_block [of s sz] by (simp add: bs_def)
  have w: "sum_widths sz bs sz bs" using sz by (simp add: sum_widths_def)
  have e: "stripe_encode (evenodd_find_q_blocks_id k) (k - 1) sz bs buf sz s = (r, s')"
    using enc(1) by (simp add: evenodd_encode_def rs k_def [symmetric])
  have fq: "set (evenodd_find_q_blocks_id k d j) \<subseteq> set [0..(k - 1) - 1]" for d j
    using evenodd_find_q_set [of k d j] by simp
  note st = stripe_encode_inv [where s = s, folded n_def bs_def, OF inv fq w sz(3) e enc(2)]
  have n2: "n - 2 = k" using k by simp
  have d: "0 \<le> bi_disk_id r" "bi_disk_id r < k" using st(5) n2 by auto
  show ?thesis
    using st(1,5,6) st(7) st(8) [OF q evenodd_rel_ok [OF k] evenodd_find_q_ok [OF k(2) d]] n2
    by auto
qed

theorem evenodd_encode_parity_witness:
  "stripe_inv 2 1 (snd (evenodd_encode [7, 8, 9] 3 (fresh_array 60 4 2 4 2))) \<and>
   block_of (snd (evenodd_encode [7, 8, 9] 3 (fresh_array 60 4 2 4 2))) 0 0 3 = [7, 8, 9]"
proof -
  let ?s = "fresh_array 60 4 2 4 2"
  have i: "stripe_inv 2 (data_disk_num ?s - 1) ?s" by (simp add: stripe_inv_fresh)
  have q: "q_parity (disk_total_num ?s) 2 (disk_block_size ?s) (data_disk_num ?s - 1)
      (\<lambda>i. evenodd_elem_hash (data_disk_num ?s) (i, disk_total_num ?s - 1)) (content ?s)"
    using q_parity_fresh [OF evenodd_rel_ok [of 2 4]] by simp
  have e: "evenodd_encode [7, 8, 9] 3 ?s =
      (\<lparr>bi_disk_id = 0, bi_block_no = 0\<rparr>, snd (evenodd_encode [7, 8, 9] 3 ?s))"
    by (simp add: evenodd_encode_def stripe_encode_def round_to_block_size_def pick_striped_def
        pick_step_def or_space_list_def stripe_count_def put_free_offset_def put_free_size_def
        upto.simps Let_def split: prod.splits)
  show ?thesis
    using evenodd_encode_parity [OF i q _ _ _ _ _ e] by simp
qed

text \<open>
  C28: EVENODD survives the loss of any one disk: reading from the start of a block gives what the
  lost disk held there, for a data disk, for P and for Q. A read of a lost disk from inside a block gives
  the bytes from the start of the block.
\<close>

theorem evenodd_degraded_read:
  fixes s :: sys
  defines "n \<equiv> disk_total_num s" and "k \<equiv> data_disk_num s" and "bs \<equiv> disk_block_size s"
  assumes inv: "stripe_inv m (k - 1) s"
    and q: "q_parity n m bs (k - 1) (\<lambda>i. evenodd_elem_hash k (i, n - 1)) (content s)"
    and k: "2 \<le> k" "n = k + 2" and f: "0 \<le> f" "f < n"
    and off: "0 \<le> off" "off div bs < m" and sz: "0 < sz" "sz \<le> bs" "length buf = nat sz"
  shows "evenodd_decode f buf sz off (fail_disk f s) =
    (sz, block_of s f (off div bs) sz, fail_disk f s)"
proof -
  note l = stripe_lost_fail [OF inv evenodd_rel_ok [OF k, unfolded n_def]
      impI [OF q [unfolded n_def bs_def]] f [unfolded n_def]]
  show ?thesis
    using array_decode_ok [OF l(1) [folded l(2)], of off "off div bs" sz buf] off sz
    by (simp add: evenodd_decode_def l k_def [symmetric] bs_def [symmetric] block_of_def)
qed

theorem evenodd_degraded_read_witness:
  "evenodd_decode 3 [1, 1] 2 5 (fail_disk 3 (fresh_array 60 4 2 4 2)) =
   (2, block_of (fresh_array 60 4 2 4 2) 3 1 2, fail_disk 3 (fresh_array 60 4 2 4 2))"
proof -
  let ?s = "fresh_array 60 4 2 4 2"
  have i: "stripe_inv 2 (data_disk_num ?s - 1) ?s" by (simp add: stripe_inv_fresh)
  have q: "q_parity (disk_total_num ?s) 2 (disk_block_size ?s) (data_disk_num ?s - 1)
      (\<lambda>i. evenodd_elem_hash (data_disk_num ?s) (i, disk_total_num ?s - 1)) (content ?s)"
    using q_parity_fresh [OF evenodd_rel_ok [of 2 4]] by simp
  show ?thesis using evenodd_degraded_read [OF i q, of 3 5 2 "[1, 1]"] by simp
qed

text \<open>A disk being replaced, as \<open>decode\<close> and \<open>writeDisk\<close> leave it.\<close>

definition evenodd_lost :: "int \<Rightarrow> int \<Rightarrow> int \<Rightarrow> byte list \<Rightarrow> sys \<Rightarrow> bool" where
  "evenodd_lost m bs d v s \<longleftrightarrow> stripe_rebuilding m bs (data_disk_num s - 1)
     (\<lambda>i. evenodd_elem_hash (data_disk_num s) (i, disk_total_num s - 1)) d v s"

interpretation eo: block_rebuild nc_readDisk nc_writeDisk content frame evenodd_decode evenodd_lost
proof
  fix m bs d i v s and buf :: "byte list"
  assume l: "evenodd_lost m bs d v s"
  note r = l [unfolded evenodd_lost_def]
  show "0 < bs \<and> m * bs < 2147483648 \<and> int (length v) = m * bs \<and>
      int (length (content s d)) = m * bs"
    by (rule stripe_rebuilding_geom [OF r])
  assume i: "0 \<le> i" "i < m" and b: "length buf = nat bs"
  have dec: "evenodd_decode d buf bs (i * bs) s = (bs, take (nat bs) (drop (nat (i * bs)) v), s)"
    using array_decode_rebuilding [OF r i b] by (simp add: evenodd_decode_def)
  then show "\<exists>t. evenodd_decode d buf bs (i * bs) s = (bs, take (nat bs) (drop (nat (i * bs)) v), t) \<and>
      content t = content s \<and> frame t = frame s \<and> evenodd_lost m bs d v t"
    using l by blast
  show "evenodd_lost m bs d v (snd (nc_writeDisk d buf bs (i * bs) s))"
    using stripe_rebuilding_write(1) [OF r i b] frame_eqD(1,2) [OF stripe_rebuilding_write(2) [OF r i b]]
    by (simp add: evenodd_lost_def)
qed

text \<open>
  Recovery of EVENODD rebuilds any one disk, data, P or Q, on its replacement, leaves the other
  disks alone and reports success.
\<close>

theorem evenodd_recover_ok:
  assumes "evenodd_lost (disk_size s d) (disk_block_size s) d v s" "0 \<le> disk_size s d"
  shows "fst (evenodd_recover d s) = 0 \<and>
    content (snd (evenodd_recover d s)) = (content s)(d := v)"
proof -
  have "0 < disk_block_size s"
    using assms by (simp add: evenodd_lost_def stripe_rebuilding_def stripe_lost_def lost_disk_def)
  then show ?thesis
    using eo.rebuild_all(1) [OF assms, of "\<lambda>b. overwrite b 0 (zeros (nat (disk_block_size s)))"
        "malloc (heap_junk s) (nat (disk_block_size s))"]
    by (simp add: evenodd_recover_def Let_def)
qed

theorem evenodd_recover_ok_witness:
  "content (snd (evenodd_recover 3
     ((fresh_array 60 4 2 4 2)\<lparr>disk_status := (\<lambda>i. if i = 3 then 1 else 0)\<rparr>))) 3 = zeros 8"
proof -
  let ?s = "(fresh_array 60 4 2 4 2)\<lparr>disk_status := (\<lambda>i. if i = 3 then 1 else 0)\<rparr>"
  have c: "content ?s = content (fresh_array 60 4 2 4 2)" by (rule content_cong) simp_all
  have v: "(content ?s)(3 := zeros 8) = content (fresh_array 60 4 2 4 2)"
    using c content_fresh [of 3 4 60 2 4 2] by (simp add: fun_eq_iff)
  have "row_parity 4 2 4 (content (fresh_array 60 4 2 4 2))"
    using stripe_inv_fresh [of 4 2 4 1 60 2] by (simp add: stripe_inv_def)
  then have "evenodd_lost (disk_size ?s 3) (disk_block_size ?s) 3 (zeros 8) ?s"
    unfolding evenodd_lost_def stripe_rebuilding_def v using evenodd_rel_ok [of 2 4]
      q_parity_fresh [OF evenodd_rel_ok [of 2 4], of 2 4 60 2]
    by (simp add: stripe_lost_def lost_disk_def list_all_iff c content_fresh)
  then show ?thesis using evenodd_recover_ok [of ?s 3 "zeros 8"] by simp
qed

section \<open>Recovery from a strip in memory\<close>

text \<open>
  \<open>pre_read_into_buf\<close> reads the columns a lost disk needs: all but P for a lost Q, all but Q otherwise.
\<close>

definition evenodd_pre_read_cells :: "int \<Rightarrow> int \<Rightarrow> int \<Rightarrow> (int \<times> int) list" where
  "evenodd_pre_read_cells n S failed_disk_id =
     (let non_read_col = (if failed_disk_id = n - 1 then n - 2 else n - 1)
      in concat (map (\<lambda>i. if i \<noteq> failed_disk_id \<and> i \<noteq> non_read_col
                          then map (\<lambda>j. (j, i)) [0..S - 1] else []) [0..n - 1]))"

definition evenodd_pre_read_into_buf :: "int \<Rightarrow> int \<Rightarrow> stripes \<Rightarrow> sys \<Rightarrow> stripes \<times> sys" where
  "evenodd_pre_read_into_buf failed_disk_id strip_num bufs s =
     (let S = data_disk_num s - 1
      in read_stripes (disk_block_size s) (strip_num * S)
           (evenodd_pre_read_cells (disk_total_num s) S failed_disk_id) bufs s)"

text \<open>
  \<open>evenodd_recover_block\<close>, and \<open>evenodd_recover_block2\<close>, which differs in the timing code only. The repair
  path has no \<open>return\<close> of its own and ends in the \<open>return -1\<close> behind \<open>AbnormalError()\<close>. The result is the
  return value, the buffer, the table, the flag \<open>in_buf\<close> and the state.
\<close>

definition evenodd_recover_block :: "int \<Rightarrow> byte list \<Rightarrow> int \<Rightarrow> int \<Rightarrow> stripes \<Rightarrow> bool \<Rightarrow> sys \<Rightarrow>
    int \<times> byte list \<times> stripes \<times> bool \<times> sys" where
  "evenodd_recover_block disk_id buf sz offset pread_stripes in_buf s =
     (let k = data_disk_num s; S = k - 1; n = disk_total_num s; block_size = disk_block_size s;
          buf = overwrite buf 0 (zeros (nat sz));
          block_no = offset sdiv block_size
      in if disk_status s disk_id = 0 then
           let (retstat, buf, s) = nc_readDisk disk_id buf sz offset s
           in (retstat, buf, pread_stripes, in_buf, s)
         else
           let strip_num = block_no sdiv S;
               strip_offset = block_no smod S;
               (pread_stripes, s) = (if \<not> in_buf
                 then evenodd_pre_read_into_buf disk_id strip_num pread_stripes s
                 else (pread_stripes, s))
           in if get_fail_num s = 1 then
                let cells = (if 0 \<le> disk_id \<and> disk_id < n - 1
                      then map (\<lambda>i. (strip_offset, i)) (filter (\<lambda>i. i \<noteq> disk_id) [0..n - 2])
                      else evenodd_elem_hash k (strip_offset, disk_id));
                    buf = xor_stripes (heap_junk s) sz pread_stripes cells buf
                in (-1, buf, pread_stripes, True, s)
              else (-1, buf, pread_stripes, True, s))"

definition evenodd_recover_block2 :: "int \<Rightarrow> byte list \<Rightarrow> int \<Rightarrow> int \<Rightarrow> stripes \<Rightarrow> bool \<Rightarrow> sys \<Rightarrow>
    int \<times> byte list \<times> stripes \<times> bool \<times> sys" where
  "evenodd_recover_block2 disk_id buf sz offset pread_stripes in_buf s =
     evenodd_recover_block disk_id buf sz offset pread_stripes in_buf s"

lemma set_pre_read_cells:
  "x \<in> set (evenodd_pre_read_cells n S d) \<longleftrightarrow> 0 \<le> fst x \<and> fst x < S \<and> 0 \<le> snd x \<and> snd x < n \<and>
     snd x \<noteq> d \<and> snd x \<noteq> (if d = n - 1 then n - 2 else n - 1)"
  by (cases x) (auto simp: evenodd_pre_read_cells_def Let_def image_iff Bex_def)

text \<open>
  Rebuilding a block of a lost disk from a strip in memory: the first call of a strip reads the
  strip, later calls use it, and each leaves in the buffer what the lost disk held at the block. The
  call nevertheless returns -1.
\<close>

theorem evenodd_recover_block_ok:
  fixes s :: sys
  defines "n \<equiv> disk_total_num s" and "S \<equiv> data_disk_num s - 1" and "bs \<equiv> disk_block_size s"
  assumes lost: "stripe_lost m S (\<lambda>i. evenodd_elem_hash (data_disk_num s) (i, n - 1)) d v s"
    and k: "n = data_disk_num s + 2"
    and off: "0 \<le> off" "off div bs = b" "b < m" and sz: "0 < sz" "sz \<le> bs" "length buf = nat sz"
    and bufs: "if in_buf then strip_read v bs (b div S * S) (evenodd_pre_read_cells n S d) bufs
      else list_all (\<lambda>x. length (bufs (fst x) (snd x)) = nat bs) (evenodd_pre_read_cells n S d)"
    and run: "evenodd_recover_block d buf sz off bufs in_buf s = (ret, buf', bufs', in_buf', s')"
  shows "ret = -1 \<and> buf' = take (nat sz) (drop (nat (b * bs)) (v d)) \<and> in_buf' \<and> s' = s \<and>
    strip_read v bs (b div S * S) (evenodd_pre_read_cells n S d) bufs'"
proof -
  let ?q = "\<lambda>i. evenodd_elem_hash (data_disk_num s) (i, n - 1)"
  have l: "lost_disk m d v s" "disk_status s d = 1" "S dvd m" "q_rel_ok n S ?q"
    "row_parity n m bs v" "d = n - 1 \<Longrightarrow> q_parity n m bs S ?q v"
    using lost by (simp_all add: stripe_lost_def n_def bs_def)
  have d: "0 \<le> d" "d < n" "int (length (v d)) = m * bs" "0 < bs" "m * bs < 2147483648"
    using l(1) by (auto simp: lost_disk_def list_all_iff n_def bs_def)
  have S: "0 < S" using l(4) by (simp add: q_rel_ok_def)
  have b: "0 \<le> b" "b < m" using off d(4) by (auto simp: pos_imp_zdiv_nonneg_iff)
  have bn: "off sdiv bs = b" "b sdiv S = b div S" "b smod S = b mod S" using off d(4) b S by simp_all
  have i: "0 \<le> b mod S" "b mod S < S" using S by simp_all
  have z: "overwrite buf 0 (zeros (nat sz)) = zeros (nat sz)" using sz by (simp add: overwrite_def)
  let ?P = "evenodd_pre_read_cells n S d"
  obtain bufs1 where b1: "(if \<not> in_buf then evenodd_pre_read_into_buf d (b div S) bufs s else (bufs, s))
      = (bufs1, s)" and sr: "strip_read v bs (b div S * S) ?P bufs1"
  proof (cases in_buf)
    case True
    then show ?thesis using bufs that by simp
  next
    case False
    have c: "\<And>x. x \<in> set ?P \<Longrightarrow> 0 \<le> snd x \<and> snd x < disk_total_num s \<and> snd x \<noteq> d \<and>
        0 \<le> b div S * S + fst x \<and> b div S * S + fst x < m"
      using strip_in_range [OF S l(3) b] by (auto simp: set_pre_read_cells n_def add.commute)
    have len: "\<And>x. x \<in> set ?P \<Longrightarrow> length (bufs (fst x) (snd x)) = nat (disk_block_size s)"
      using bufs False by (simp add: list_all_iff bs_def)
    have "strip_read v bs (b div S * S) [] bufs" by (simp add: strip_read_def)
    from read_stripes_ok [OF l(1) c len this [unfolded bs_def]] that False show ?thesis
      by (auto simp: evenodd_pre_read_into_buf_def n_def [symmetric] S_def [symmetric] bs_def [symmetric]
          Let_def)
  qed
  define cells where "cells = (if 0 \<le> d \<and> d < n - 1
      then map (\<lambda>i. (b mod S, i)) (filter (\<lambda>i. i \<noteq> d) [0..n - 2])
      else evenodd_elem_hash (data_disk_num s) (b mod S, d))"
  have sub: "set cells \<subseteq> set ?P"
  proof (cases "d < n - 1")
    case True
    then show ?thesis using d(1) i by (auto simp: cells_def set_pre_read_cells)
  next
    case False
    then have dq: "d = n - 1" using d by simp
    show ?thesis
    proof
      fix x assume "x \<in> set cells"
      then have "((b mod S, data_disk_num s + 1), x) \<in> set (evenodd_log (data_disk_num s))"
        using dq k by (simp add: cells_def evenodd_elem_hash_def set_build_hash add.commute)
      then show "x \<in> set ?P" using evenodd_q_rel dq k
        by (fastforce simp: set_pre_read_cells S_def)
    qed
  qed
  have ce: "cells = (if 0 \<le> d \<and> d < n - 1
      then map (\<lambda>i. (b mod S, i)) (filter (\<lambda>i. i \<noteq> d) [0..n - 2])
      else evenodd_elem_hash (data_disk_num s) (b mod S, n - 1))"
  proof (cases "d < n - 1")
    case False
    then have "d = n - 1" using d(2) by simp
    then show ?thesis by (simp add: cells_def)
  qed (use d in \<open>simp add: cells_def\<close>)
  have "xor_stripes (heap_junk s) sz bufs1 cells (zeros (nat sz)) =
      take (nat sz) (drop (nat (b * bs)) (v d))"
    by (rule xor_stripes_lost [where s = s, folded n_def bs_def, OF lost b sz(1,2) ce sr sub])
  then have "evenodd_recover_block d buf sz off bufs in_buf s =
      (-1, take (nat sz) (drop (nat (b * bs)) (v d)), bufs1, True, s)"
    using l(2) get_fail_num_lost [OF l(1,2)] unfolding evenodd_recover_block_def Let_def
      S_def [symmetric] n_def [symmetric] bs_def [symmetric] bn z b1 cells_def [symmetric]
    by simp
  then show ?thesis using run sr by simp
qed

theorem evenodd_recover_block_ok_witness:
  "fst (evenodd_recover_block 0 [1, 1] 2 0 (\<lambda>_ _. zeros 4) False
     (fail_disk 0 (fresh_array 60 4 2 4 2))) = -1"
proof -
  let ?f = "fresh_array 60 4 2 4 2"
  let ?s = "fail_disk 0 ?f"
  have i: "stripe_inv 2 1 ?f" by (simp add: stripe_inv_fresh)
  have q: "q_parity (disk_total_num ?f) 2 (disk_block_size ?f) 1
      (\<lambda>i. evenodd_elem_hash 2 (i, 3)) (content ?f)"
    using q_parity_fresh [OF evenodd_rel_ok [of 2 4]] by simp
  have r: "q_rel_ok (disk_total_num ?f) 1 (\<lambda>i. evenodd_elem_hash 2 (i, 3))"
    using evenodd_rel_ok [of 2 4] by simp
  note l = stripe_lost_fail [OF i r impI [OF q], of 0, simplified]
  obtain ret buf' bufs' inb s' where run: "evenodd_recover_block 0 [1, 1] 2 0 (\<lambda>_ _. zeros 4) False ?s
      = (ret, buf', bufs', inb, s')" by (metis prod_cases5)
  have lost: "stripe_lost 2 (data_disk_num ?s - 1)
      (\<lambda>i. evenodd_elem_hash (data_disk_num ?s) (i, disk_total_num ?s - 1)) 0 (content ?f) ?s"
    using l by simp
  have "ret = -1"
    using evenodd_recover_block_ok [where b = 0, OF lost _ _ _ _ _ _ _ _ run] l(2-4)
    by (simp add: list_all_iff)
  then show ?thesis using run by simp
qed

text \<open>
  The class's own arithmetic on a matrix is a code that corrects one erasure: after \<open>gen_p\<close> and \<open>gen_q\<close> on
  a matrix with cleared parity columns, \<open>repair\<close> gives back any one column, whatever has been put in its place.
\<close>

lemma evenodd_repair:
  assumes "2 \<le> k" "0 \<le> c" "c < k + 2" "\<And>i. m i k = 0" "\<And>i. m i (k + 1) = 0"
  defines "g \<equiv> gen_q (evenodd_elem_hash k) (k - 1) (k + 2) (gen_p (k - 1) (k + 2) m)"
  assumes "\<And>i j. j \<noteq> c \<Longrightarrow> lost i j = g i j"
  shows "repair (evenodd_elem_hash k) (k - 1) (k + 2) lost c = map (\<lambda>i. g i c) [0..k - 2]"
proof -
  have h: "snd x \<noteq> (k + 2) - 1" if "x \<in> set (evenodd_elem_hash k (i, k + 2 - 1))" for i x
    using that evenodd_q_rel [of i k x] by (auto simp: evenodd_elem_hash_def set_build_hash add.commute)
  have "repair (evenodd_elem_hash k) (k - 1) (k + 2) lost c = repair (evenodd_elem_hash k) (k - 1) (k + 2) g c"
    by (rule repair_cong [OF h assms(7)])
  then show ?thesis
    using repair_generated [where h = "evenodd_elem_hash k" and m = m and c = c and row = "k - 1"
        and col = "k + 2", OF h] assms(1-6)
    by (simp add: add.commute)
qed

text \<open>
  C30: The updates of EVENODD are right only for blocks that held zeros: on an array whose rows sum to
  zero, also one with deleted blocks waiting to be used again, all rows sum to zero after \<open>encode\<close>
  exactly when the block it used held zeros. A deleted block with old data in it breaks the parity.
\<close>

theorem evenodd_encode_row_iff:
  fixes s :: sys
  defines "n \<equiv> disk_total_num s" and "k \<equiv> data_disk_num s" and "bs \<equiv> disk_block_size s"
  assumes ok: "array_ok m s" "alloc_ok (\<lambda>d _. d < n - 2) m s" "(k - 1) dvd m"
    and k: "2 \<le> k" "n = k + 2" and par: "row_parity n m bs (content s)"
    and sz: "0 < sz" "sz \<le> bs" "length buf = nat sz"
    and enc: "evenodd_encode buf sz s = (r, s')" "bi_disk_id r \<noteq> -1"
  shows "row_parity n m bs (content s') \<longleftrightarrow>
    list_all (\<lambda>j. cell (content s) bs (bi_disk_id r) (bi_block_no r) j = 0) [0..<nat sz]"
proof -
  have rs: "round_to_block_size sz s = bs" using sz round_one_block [of s sz] by (simp add: bs_def)
  have w: "sum_widths sz bs sz bs" using sz by (simp add: sum_widths_def)
  have e: "stripe_encode (evenodd_find_q_blocks_id k) (k - 1) sz bs buf sz s = (r, s')"
    using enc(1) by (simp add: evenodd_encode_def rs k_def [symmetric])
  have fq: "set (evenodd_find_q_blocks_id k d j) \<subseteq> set [0..(k - 1) - 1]" for d j
    using evenodd_find_q_set [of k d j] by simp
  have "3 \<le> n" "0 < k - 1" using k by auto
  from stripe_encode_row_iff [where s = s, folded n_def bs_def, OF ok(1,2) this ok(3) fq w sz(3)
      par e enc(2)]
  show ?thesis .
qed

theorem evenodd_encode_row_iff_witness:
  "row_parity 4 2 4 (content (snd (evenodd_encode [7, 8, 9] 3 (fresh_array 60 4 2 4 2)))) \<longleftrightarrow>
   list_all (\<lambda>j. cell (content (fresh_array 60 4 2 4 2)) 4 0 0 j = 0) [0..<3]"
proof -
  let ?s = "fresh_array 60 4 2 4 2"
  have par: "row_parity (disk_total_num ?s) 2 (disk_block_size ?s) (content ?s)"
    using stripe_inv_fresh [of 4 2 4 1 60 2] by (simp add: stripe_inv_def)
  have e: "evenodd_encode [7, 8, 9] 3 ?s =
      (\<lparr>bi_disk_id = 0, bi_block_no = 0\<rparr>, snd (evenodd_encode [7, 8, 9] 3 ?s))"
    by (simp add: evenodd_encode_def stripe_encode_def round_to_block_size_def pick_striped_def
        pick_step_def or_space_list_def stripe_count_def put_free_offset_def put_free_size_def
        upto.simps Let_def split: prod.splits)
  show ?thesis
    using evenodd_encode_row_iff [OF array_ok_fresh alloc_ok_fresh _ _ _ par _ _ _ e] by simp
qed

end
