(* ===== verification/Rdp.thy ===== *)
theory Rdp
  imports ElemHash
begin

text \<open>
  RDP, \<open>Coding4Rdp\<close> of \<open>coding_rdp.cc\<close>: \<open>k\<close> data disks, P and Q, strips of \<open>k\<close> rows. The Q blocks are
  sums over diagonals that run through the P column as well.
\<close>

section \<open>The table\<close>

definition rdp_row_log :: "int \<Rightarrow> int \<Rightarrow> (pair \<times> pair) list" where
  "rdp_row_log k i =
     concat (map (\<lambda>j. let p = (i, k); d = (i, j) in [(d, p), (p, d)]) [0..k - 1])"

definition rdp_diag_log :: "int \<Rightarrow> int \<Rightarrow> (pair \<times> pair) list" where
  "rdp_diag_log k i =
     (let q = (i, k + 1); m = k + 1; row = k;
          first = (i + 1) smod m;
          t = (i + 1) smod m
      in (if first \<ge> 0 \<and> first < row then [(q, (first, k)), ((first, k), q)] else []) @
         concat (map (\<lambda>j. if j \<noteq> t then
             let f = (i - j) smod m;
                 second = (if f \<ge> 0 then f else f + m)
             in [(q, (j, second)), ((j, second), q)] else []) [0..m - 2]))"

definition rdp_log :: "int \<Rightarrow> (pair \<times> pair) list" where
  "rdp_log k = concat (map (rdp_row_log k) [0..k - 1]) @ concat (map (rdp_diag_log k) [0..k - 1])"

definition rdp_elem_hash :: "int \<Rightarrow> elem_hash" where
  "rdp_elem_hash k = build_hash (rdp_log k)"

section \<open>The operations\<close>

definition rdp_find_q_blocks_id :: "int \<Rightarrow> int \<Rightarrow> int \<Rightarrow> int list" where
  "rdp_find_q_blocks_id k disk_id block_no =
     find_q_blocks_id (rdp_elem_hash k) (k + 2) disk_id block_no"

definition rdp_encode :: "byte list \<Rightarrow> int \<Rightarrow> sys \<Rightarrow> data_block_info \<times> sys" where
  "rdp_encode buf sz s =
     (let k = data_disk_num s; strip_size = k
      in stripe_encode (rdp_find_q_blocks_id k) strip_size sz (round_to_block_size sz s) buf sz s)"

definition rdp_decode :: "int \<Rightarrow> byte list \<Rightarrow> int \<Rightarrow> int \<Rightarrow> sys \<Rightarrow> int \<times> byte list \<times> sys" where
  "rdp_decode disk_id buf sz offset s =
     (let k = data_disk_num s; strip_size = k
      in array_decode (rdp_elem_hash k) strip_size disk_id buf sz offset s)"

definition rdp_recover :: "int \<Rightarrow> sys \<Rightarrow> int \<times> sys" where
  "rdp_recover failed_disk_id s =
     (let recoversize = disk_size s failed_disk_id;
          block_size = disk_block_size s
      in (0, rebuild_blocks rdp_decode nc_writeDisk (\<lambda>b. overwrite b 0 (zeros (nat block_size)))
               failed_disk_id block_size [0..recoversize - 1]
               (malloc (heap_junk s) (nat block_size)) s))"

section \<open>The relations of the table\<close>

lemma rdp_log_symmetric: "symmetric_log (rdp_log k)"
proof -
  have swap: "symmetric_log ([(x, y), (y, x)] :: (pair \<times> pair) list)" for x y
    by (rule symmetric_log_pair)
  show ?thesis
    unfolding rdp_log_def Let_def rdp_row_log_def rdp_diag_log_def
    by (auto intro!: symmetric_log_append symmetric_log_concat swap symmetric_log_Nil
        simp del: append.simps)
qed

text \<open>The column of the data cell of diagonal \<open>i\<close> in row \<open>j\<close>.\<close>

lemma rdp_column:
  assumes "1 \<le> (k::int)" "0 \<le> i" "i < k" "0 \<le> j" "j < k"
  shows "(if (i - j) smod (k + 1) \<ge> 0 then (i - j) smod (k + 1) else (i - j) smod (k + 1) + (k + 1)) =
    (i - j) mod (k + 1)"
  using assms by (intro smod_wrap) auto

lemma rdp_column_k:
  assumes "1 \<le> (k::int)" "0 \<le> i" "i < k" "0 \<le> j" "j < k" "j \<noteq> i + 1"
  shows "(i - j) mod (k + 1) < k"
proof -
  have "(i - j) mod (k + 1) = (if j \<le> i then i - j else i - j + (k + 1))"
  proof (cases "j \<le> i")
    case True
    then show ?thesis using assms by simp
  next
    case False
    have "(i - j) mod (k + 1) = (i - j + (k + 1)) mod (k + 1)" by simp
    also have "\<dots> = i - j + (k + 1)" using False assms by (intro mod_pos_pos_trivial) auto
    finally show ?thesis using False by simp
  qed
  then show ?thesis using assms by auto
qed

lemma rdp_diag_log_eq:
  assumes "1 \<le> k" "0 \<le> i" "i < k"
  shows "rdp_diag_log k i =
    (if i + 1 < k then [((i, k + 1), (i + 1, k)), ((i + 1, k), (i, k + 1))] else []) @
    concat (map (\<lambda>j. if j \<noteq> i + 1
      then [((i, k + 1), (j, (i - j) mod (k + 1))), ((j, (i - j) mod (k + 1)), (i, k + 1))] else [])
      [0..k - 1])"
proof -
  have t: "(i + 1) smod (k + 1) = i + 1" using assms by simp
  show ?thesis
    unfolding rdp_diag_log_def Let_def t using assms rdp_column [of k i]
    by (auto intro!: arg_cong [where f = concat] map_cong)
qed

lemma rdp_log_q:
  assumes "1 \<le> k" "((i, k + 1), x) \<in> set (rdp_log k)"
  shows "0 \<le> i \<and> i < k \<and> ((i, k + 1), x) \<in> set (rdp_diag_log k i)"
proof -
  have "\<not> ((i, k + 1), x) \<in> set (concat (map (rdp_row_log k) [0..k - 1]))"
    by (auto simp: rdp_row_log_def Let_def)
  then obtain i' where i': "0 \<le> i'" "i' < k" "((i, k + 1), x) \<in> set (rdp_diag_log k i')"
    using assms(2) unfolding rdp_log_def by auto
  have "i' = i"
    using i'(3) rdp_column_k [OF assms(1) i'(1,2)] unfolding rdp_diag_log_eq [OF assms(1) i'(1,2)]
    by (fastforce split: if_splits)
  then show ?thesis using i' by simp
qed

text \<open>A Q cell is related to data cells, and to the P cell one row below it.\<close>

lemma rdp_q_rel:
  assumes "1 \<le> k" "((i, k + 1), x) \<in> set (rdp_log k)"
  shows "0 \<le> i \<and> i < k \<and> 0 \<le> fst x \<and> fst x < k \<and> 0 \<le> snd x \<and> snd x < k + 1"
proof -
  note l = rdp_log_q [OF assms]
  then have i: "0 \<le> i" "i < k" by auto
  have "((i, k + 1), x) \<in> set (rdp_diag_log k i)" using l by simp
  then show ?thesis
    unfolding rdp_diag_log_eq [OF assms(1) i] using i assms(1) rdp_column_k [OF assms(1) i]
    by (fastforce split: if_splits)
qed

lemma rdp_rel_ok:
  "1 \<le> k \<Longrightarrow> n = k + 2 \<Longrightarrow> q_rel_ok n k (\<lambda>i. rdp_elem_hash k (i, n - 1))"
  using rdp_q_rel by (fastforce simp: q_rel_ok_def list_all_iff rdp_elem_hash_def
      set_build_hash add.commute)

lemma rdp_find_q_set:
  assumes "1 \<le> k"
  shows "set (rdp_find_q_blocks_id k d j) \<subseteq> set [0..k - 1]"
proof
  fix i assume "i \<in> set (rdp_find_q_blocks_id k d j)"
  then have "((j, d), (i, k + 1)) \<in> set (rdp_log k)"
    by (auto simp: rdp_find_q_blocks_id_def find_q_blocks_id_def rdp_elem_hash_def
        set_build_hash add.commute)
  then have "count_list (rdp_log k) ((i, k + 1), (j, d)) \<noteq> 0"
    using symmetric_logD [OF rdp_log_symmetric, of k "(j, d)" "(i, k + 1)"]
    by (metis count_list_0_iff)
  then have "((i, k + 1), (j, d)) \<in> set (rdp_log k)" by (metis count_list_0_iff)
  then show "i \<in> set [0..k - 1]" using rdp_q_rel [OF assms] by auto
qed

lemma rdp_count_find_q:
  "count_list (rdp_find_q_blocks_id k d j) i = count_list (rdp_elem_hash k (i, k + 1)) (j, d)"
  using symmetric_logD [OF rdp_log_symmetric, of k "(j, d)" "(i, k + 1)"]
  by (simp add: rdp_find_q_blocks_id_def count_find_q rdp_elem_hash_def count_build_hash add.commute)

text \<open>The P cell of row \<open>j\<close> occurs once in the relation of the Q cell of row \<open>j - 1\<close> and in no other.\<close>

lemma rdp_count_p:
  assumes "1 \<le> k" "0 \<le> i" "i < k"
  shows "count_list (rdp_elem_hash k (i, k + 1)) (j, k) = (if j = i + 1 \<and> j < k then 1 else 0)"
proof -
  let ?e = "((i, k + 1), (j, k))"
  have r: "count_list (concat (map (rdp_row_log k) [0..k - 1])) ?e = 0"
    by (auto simp: count_list_0_iff rdp_row_log_def Let_def)
  have o: "?e \<notin> set (rdp_diag_log k i')" if "0 \<le> i'" "i' < k" "i' \<noteq> i" for i'
    using that unfolding rdp_diag_log_eq [OF assms(1) that(1,2)]
    by (auto split: if_splits)
  have "count_list (concat (map (rdp_diag_log k) [0..k - 1])) ?e = count_list (rdp_diag_log k i) ?e"
    using assms o by (intro count_concat_single) auto
  also have "\<dots> = (if j = i + 1 \<and> j < k then 1 else 0)"
  proof -
    have "?e \<notin> set (concat (map (\<lambda>j. if j \<noteq> i + 1
        then [((i, k + 1), (j, (i - j) mod (k + 1))), ((j, (i - j) mod (k + 1)), (i, k + 1))] else [])
        [0..k - 1]))"
      using rdp_column_k [OF assms] by (fastforce split: if_splits)
    then show ?thesis unfolding rdp_diag_log_eq [OF assms] by (auto simp: count_list_0_iff)
  qed
  finally show ?thesis using r by (simp add: rdp_elem_hash_def count_build_hash rdp_log_def)
qed

text \<open>
  C40: The table of RDP is the one of the code's name: block \<open>i\<close> of Q in a strip of \<open>k\<close> rows is related,
  once each, to the cells of the diagonal \<open>i\<close> modulo \<open>k + 1\<close> of data and P, and to nothing else.
\<close>

theorem rdp_diagonals:
  assumes "1 \<le> k" "0 \<le> i" "i < k"
  shows "count_list (rdp_elem_hash k (i, k + 1)) (f, t) =
    (if 0 \<le> f \<and> f < k \<and> 0 \<le> t \<and> t \<le> k \<and> (f + t) mod (k + 1) = i then 1 else 0)"
proof (cases "t = k")
  case True
  have "(f + k) mod (k + 1) = i \<longleftrightarrow> f = i + 1" if "0 \<le> f" "f < k"
  proof (cases "f = 0")
    case True
    then show ?thesis using assms by simp
  next
    case False
    have "(f + k) mod (k + 1) = (f - 1 + (k + 1)) mod (k + 1)" by simp
    also have "\<dots> = f - 1" using False that by (simp only: mod_add_self2) (simp add: mod_pos_pos_trivial)
    finally show ?thesis by auto
  qed
  then show ?thesis using rdp_count_p [OF assms, of f] True assms by auto
next
  case False
  let ?e = "((i, k + 1), (f, t))"
  let ?g = "\<lambda>j. if j \<noteq> i + 1
      then [((i, k + 1), (j, (i - j) mod (k + 1))), ((j, (i - j) mod (k + 1)), (i, k + 1))] else []"
  have r: "count_list (concat (map (rdp_row_log k) [0..k - 1])) ?e = 0"
    by (auto simp: count_list_0_iff rdp_row_log_def Let_def)
  have o: "?e \<notin> set (rdp_diag_log k i')" if "0 \<le> i'" "i' < k" "i' \<noteq> i" for i'
    using that rdp_column_k [OF assms(1) that(1,2)] unfolding rdp_diag_log_eq [OF assms(1) that(1,2)]
    by (fastforce split: if_splits)
  have cell: "count_list (?g f) ?e = (if 0 \<le> t \<and> t \<le> k \<and> (f + t) mod (k + 1) = i then 1 else 0)"
    if f: "0 \<le> f" "f < k"
  proof -
    have c: "(i - f) mod (k + 1) = t \<longleftrightarrow> 0 \<le> t \<and> t \<le> k \<and> (f + t) mod (k + 1) = i"
    proof -
      have m: "(i - f) mod (k + 1) = t \<longleftrightarrow> 0 \<le> t \<and> t < k + 1 \<and> (t + f) mod (k + 1) = i"
        by (rule mod_diff_iff) (use assms in auto)
      show ?thesis unfolding m zle_add1_eq_le add.commute [of t f] ..
    qed
    have n: "f = i + 1 \<Longrightarrow> (i - f) mod (k + 1) = k"
      using assms zmod_minus1 [of "k + 1"] by simp
    show ?thesis unfolding c [symmetric]
    proof (cases "f = i + 1")
      case True
      then have "(i - f) mod (k + 1) \<noteq> t" using n False by simp
      then show "count_list (?g f) ?e = (if (i - f) mod (k + 1) = t then 1 else 0)" using True by simp
    next
      case g: False
      obtain m where m: "m = (i - f) mod (k + 1)" by blast
      have "m < k" using rdp_column_k [OF assms(1-3) f g] m by simp
      then show "count_list (?g f) ?e = (if (i - f) mod (k + 1) = t then 1 else 0)"
        using g unfolding m [symmetric] by auto
    qed
  qed
  have "count_list (concat (map ?g [0..k - 1])) ?e =
      (if 0 \<le> f \<and> f < k \<and> 0 \<le> t \<and> t \<le> k \<and> (f + t) mod (k + 1) = i then 1 else 0)"
  proof (cases "0 \<le> f \<and> f < k")
    case True
    have "count_list (concat (map ?g [0..k - 1])) ?e = count_list (?g f) ?e"
      using True rdp_column_k [OF assms] by (intro count_concat_single) (auto split: if_splits)
    then show ?thesis using cell True by simp
  next
    case f: False
    have "?e \<notin> set (concat (map ?g [0..k - 1]))"
      using f rdp_column_k [OF assms] by (fastforce split: if_splits)
    then have "count_list (concat (map ?g [0..k - 1])) ?e = 0" by (rule count_list_0_iff [THEN iffD2])
    moreover have "(if 0 \<le> f \<and> f < k \<and> 0 \<le> t \<and> t \<le> k \<and> (f + t) mod (k + 1) = i then 1 else 0) = (0 :: nat)"
      by (rule if_not_P) (use f in blast)
    ultimately show ?thesis by (rule trans [OF _ sym])
  qed
  moreover have "count_list (concat (map (rdp_diag_log k) [0..k - 1])) ?e = count_list (rdp_diag_log k i) ?e"
    using assms o by (intro count_concat_single) auto
  ultimately show ?thesis using r False
    unfolding rdp_elem_hash_def count_build_hash rdp_log_def count_list_append
    by (simp add: rdp_diag_log_eq [OF assms])
qed

theorem rdp_diagonals_witness:
  "count_list (rdp_elem_hash 4 (1, 5)) (3, 3) = 1 \<and> count_list (rdp_elem_hash 4 (1, 5)) (3, 2) = 0"
  using rdp_diagonals [of 4 1 3 3] rdp_diagonals [of 4 1 3 2] by simp

section \<open>Correctness\<close>

text \<open>
  C31: RDP keeps the rows but not the diagonals. \<open>encode\<close> on an array in order stores the data, changes
  no other data block and keeps the sum of every row of data and P. The Q blocks, sums of diagonals
  that contain P cells, still fit afterwards exactly when the block lies in the first row of its
  strip or the data is zero: in every other row the diagonal of the P cell that changed is not
  updated.
\<close>

theorem rdp_encode_q_iff:
  fixes s :: sys
  defines "n \<equiv> disk_total_num s" and "k \<equiv> data_disk_num s" and "bs \<equiv> disk_block_size s"
  assumes inv: "stripe_inv m k s"
    and q: "q_parity n m bs k (\<lambda>i. rdp_elem_hash k (i, n - 1)) (content s)"
    and k: "1 \<le> k" "n = k + 2"
    and sz: "0 < sz" "sz \<le> bs" "length buf = nat sz"
    and enc: "rdp_encode buf sz s = (r, s')" "bi_disk_id r \<noteq> -1"
  shows "stripe_inv m k s' \<and>
    block_of s' (bi_disk_id r) (bi_block_no r) sz = buf \<and>
    0 \<le> bi_disk_id r \<and> bi_disk_id r < k \<and>
    (\<forall>c b j. c < k \<longrightarrow> (c, b) \<noteq> (bi_disk_id r, bi_block_no r) \<longrightarrow> 0 \<le> b \<longrightarrow> b < m \<longrightarrow>
       j < nat bs \<longrightarrow> cell (content s') bs c b j = cell (content s) bs c b j) \<and>
    (q_parity n m bs k (\<lambda>i. rdp_elem_hash k (i, n - 1)) (content s') \<longleftrightarrow>
       bi_block_no r mod k = 0 \<or> list_all (\<lambda>x. x = 0) buf)"
proof -
  let ?q = "\<lambda>i. rdp_elem_hash k (i, n - 1)"
  have rs: "round_to_block_size sz s = bs" using sz round_one_block [of s sz] by (simp add: bs_def)
  have w: "sum_widths sz bs sz bs" using sz by (simp add: sum_widths_def)
  have e: "stripe_encode (rdp_find_q_blocks_id k) k sz bs buf sz s = (r, s')"
    using enc(1) by (simp add: rdp_encode_def rs k_def [symmetric])
  have fq: "set (rdp_find_q_blocks_id k d j) \<subseteq> set [0..k - 1]" for d j
    by (rule rdp_find_q_set [OF k(1)])
  obtain d b where r: "r = \<lparr>bi_disk_id = d, bi_block_no = b\<rparr>" by (cases r) auto
  note st = stripe_encode_inv [where s = s, folded n_def bs_def, OF inv fq w sz(3) e enc(2),
      unfolded r, simplified]
  have i: "array_ok m s" "alloc_ok (\<lambda>d _. d < n - 2) m s" "3 \<le> n" "0 < k" "k dvd m"
      "unused_zero m s"
    using inv by (auto simp: stripe_inv_def n_def)
  note c = stripe_encode_cells [where s = s, folded n_def bs_def, OF i(1-5) fq w sz(3) e enc(2),
      unfolded r, simplified]
  have d: "0 \<le> d" "d < n - 2" and b: "0 \<le> b" "b < m" using c by auto
  have w: "\<And>c b' j. 0 \<le> b' \<Longrightarrow> b' < m \<Longrightarrow> j < nat bs \<Longrightarrow> cell (content s') bs c b' j =
      cell (content s) bs c b' j XOR
      encode_delta n k (rdp_find_q_blocks_id k) bs d b buf (content s) c b' j"
    using c by blast
  have z: "cell (content s) bs d b j = 0" if "j < length buf" for j
    using unused_zeroD [OF i(6) d(1), of b j] d(2) b st(5) that sz by (auto simp: n_def bs_def)
  have n: "n - 1 = k + 1" "n - 2 = k" using k by auto
  have rel: "q_rel_ok n k ?q" by (rule rdp_rel_ok [OF k])
  have cnt: "count_list (?q (b' mod k)) (b mod k, n - 2) =
      (if b mod k = b' mod k + 1 then 1 else 0)" for b'
    using rdp_count_p [OF k(1), of "b' mod k" "b mod k"] k(1) by (simp add: n)
  text \<open>How far the sum of a Q block and the block are apart afterwards.\<close>
  have diff: "q_sum k ?q bs (content s') b' j = cell (content s') bs (n - 1) b' j \<longleftrightarrow>
      \<not> (b' div k = b div k \<and> j < length buf \<and> b mod k = b' mod k + 1 \<and> buf ! j \<noteq> 0)"
    if b': "0 \<le> b'" "b' < m" "j < nat bs" for b' j
  proof -
    have qs: "q_sum k ?q bs (content s') b' j = q_sum k ?q bs (content s) b' j XOR
        (if b' div k = b div k \<and> j < length buf \<and> odd (count_list (?q (b' mod k)) (b mod k, d)) \<noteq>
           odd (count_list (?q (b' mod k)) (b mod k, n - 2)) then buf ! j else 0)"
      using w b'(3) z by (intro encode_q_sum [OF d b' rel i(5)]) auto
    show ?thesis
      unfolding qs w [OF b'] encode_q_cell [OF d i(4) fq] q_parityD [OF q b'] cnt rdp_count_find_q
      by (auto simp: n xor_eq_self)
  qed
  have "q_parity n m bs k ?q (content s') \<longleftrightarrow> b mod k = 0 \<or> list_all (\<lambda>x. x = 0) buf"
  proof
    assume p: "q_parity n m bs k ?q (content s')"
    have "buf ! j = 0" if "b mod k \<noteq> 0" "j < length buf" for j
    proof -
      have m0: "0 < b mod k" using that(1) i(4) by (metis order_le_less pos_mod_sign)
      have b1: "b - 1 = b div k * k + (b mod k - 1)" by simp
      have m1: "(b - 1) mod k = b mod k - 1" "(b - 1) div k = b div k"
        unfolding b1 using m0 i(4) pos_mod_bound [OF i(4), of b] by simp_all
      have "0 \<le> b - 1" using m0 b(1) by (metis diff_ge_0_iff_ge int_one_le_iff_zero_less
            mod_0 order_le_less)
      then show ?thesis using diff [of "b - 1" j] q_parityD [OF p, of "b - 1" j] b that sz m1 by simp
    qed
    then show "b mod k = 0 \<or> list_all (\<lambda>x. x = 0) buf" by (auto simp: list_all_length)
  next
    assume a: "b mod k = 0 \<or> list_all (\<lambda>x. x = 0) buf"
    have "q_sum k ?q bs (content s') b' j = cell (content s') bs (n - 1) b' j"
      if "0 \<le> b'" "b' < m" "j < nat bs" for b' j
    proof -
      have "b' mod k + 1 \<noteq> 0" using pos_mod_sign [OF i(4), of b'] by linarith
      then show ?thesis using diff [OF that] a by (auto simp: list_all_length)
    qed
    then show "q_parity n m bs k ?q (content s')" by (simp add: q_parity_def list_all_iff)
  qed
  then show ?thesis using st n d unfolding r by auto
qed

theorem rdp_encode_q_iff_witness:
  "stripe_inv 2 2 (snd (rdp_encode [7, 8, 9] 3 (fresh_array 70 4 2 4 2))) \<and>
   q_parity 4 2 4 2 (\<lambda>i. rdp_elem_hash 2 (i, 3))
     (content (snd (rdp_encode [7, 8, 9] 3 (fresh_array 70 4 2 4 2))))"
proof -
  let ?s = "fresh_array 70 4 2 4 2"
  have i: "stripe_inv 2 (data_disk_num ?s) ?s" by (simp add: stripe_inv_fresh)
  have q: "q_parity (disk_total_num ?s) 2 (disk_block_size ?s) (data_disk_num ?s)
      (\<lambda>i. rdp_elem_hash (data_disk_num ?s) (i, disk_total_num ?s - 1)) (content ?s)"
    using q_parity_fresh [OF rdp_rel_ok [of 2 4]] by simp
  have e: "rdp_encode [7, 8, 9] 3 ?s =
      (\<lparr>bi_disk_id = 0, bi_block_no = 0\<rparr>, snd (rdp_encode [7, 8, 9] 3 ?s))"
    by (simp add: rdp_encode_def stripe_encode_def round_to_block_size_def pick_striped_def
        pick_step_def or_space_list_def stripe_count_def put_free_offset_def put_free_size_def
        upto.simps Let_def split: prod.splits)
  show ?thesis
    using rdp_encode_q_iff [OF i q _ _ _ _ _ e] by simp
qed

text \<open>
  RDP reads a lost data disk or P from the others whatever the Q disk holds, and a lost Q disk
  when the array still has its diagonal sums. As in EVENODD the bytes come from the start of the block.
\<close>

theorem rdp_degraded_read:
  fixes s :: sys
  defines "n \<equiv> disk_total_num s" and "k \<equiv> data_disk_num s" and "bs \<equiv> disk_block_size s"
  assumes inv: "stripe_inv m k s"
    and q: "f = n - 1 \<Longrightarrow> q_parity n m bs k (\<lambda>i. rdp_elem_hash k (i, n - 1)) (content s)"
    and k: "1 \<le> k" "n = k + 2" and f: "0 \<le> f" "f < n"
    and off: "0 \<le> off" "off div bs < m" and sz: "0 < sz" "sz \<le> bs" "length buf = nat sz"
  shows "rdp_decode f buf sz off (fail_disk f s) =
    (sz, block_of s f (off div bs) sz, fail_disk f s)"
proof -
  have "f = disk_total_num s - 1 \<longrightarrow> q_parity (disk_total_num s) m (disk_block_size s) k
      (\<lambda>i. rdp_elem_hash k (i, disk_total_num s - 1)) (content s)"
    using q by (simp add: n_def bs_def)
  note l = stripe_lost_fail [OF inv rdp_rel_ok [OF k, unfolded n_def] this f [unfolded n_def]]
  show ?thesis
    using array_decode_ok [OF l(1) [folded l(2)], of off "off div bs" sz buf] off sz
    by (simp add: rdp_decode_def l k_def [symmetric] bs_def [symmetric] block_of_def)
qed

theorem rdp_degraded_read_witness:
  "rdp_decode 3 [1, 1] 2 5 (fail_disk 3 (fresh_array 70 4 2 4 2)) =
   (2, block_of (fresh_array 70 4 2 4 2) 3 1 2, fail_disk 3 (fresh_array 70 4 2 4 2))"
proof -
  let ?s = "fresh_array 70 4 2 4 2"
  have i: "stripe_inv 2 (data_disk_num ?s) ?s" by (simp add: stripe_inv_fresh)
  have q: "q_parity (disk_total_num ?s) 2 (disk_block_size ?s) (data_disk_num ?s)
      (\<lambda>i. rdp_elem_hash (data_disk_num ?s) (i, disk_total_num ?s - 1)) (content ?s)"
    using q_parity_fresh [OF rdp_rel_ok [of 2 4]] by simp
  show ?thesis using rdp_degraded_read [OF i q, of 3 5 2 "[1, 1]"] by simp
qed

text \<open>A disk being replaced, as for EVENODD; the diagonals count when the disk is Q.\<close>

definition rdp_lost :: "int \<Rightarrow> int \<Rightarrow> int \<Rightarrow> byte list \<Rightarrow> sys \<Rightarrow> bool" where
  "rdp_lost m bs d v s \<longleftrightarrow> stripe_rebuilding m bs (data_disk_num s)
     (\<lambda>i. rdp_elem_hash (data_disk_num s) (i, disk_total_num s - 1)) d v s"

interpretation rd: block_rebuild nc_readDisk nc_writeDisk content frame rdp_decode rdp_lost
proof
  fix m bs d i v s and buf :: "byte list"
  assume l: "rdp_lost m bs d v s"
  note r = l [unfolded rdp_lost_def]
  show "0 < bs \<and> m * bs < 2147483648 \<and> int (length v) = m * bs \<and>
      int (length (content s d)) = m * bs"
    by (rule stripe_rebuilding_geom [OF r])
  assume i: "0 \<le> i" "i < m" and b: "length buf = nat bs"
  have dec: "rdp_decode d buf bs (i * bs) s = (bs, take (nat bs) (drop (nat (i * bs)) v), s)"
    using array_decode_rebuilding [OF r i b] by (simp add: rdp_decode_def)
  then show "\<exists>t. rdp_decode d buf bs (i * bs) s = (bs, take (nat bs) (drop (nat (i * bs)) v), t) \<and>
      content t = content s \<and> frame t = frame s \<and> rdp_lost m bs d v t"
    using l by blast
  show "rdp_lost m bs d v (snd (nc_writeDisk d buf bs (i * bs) s))"
    using stripe_rebuilding_write(1) [OF r i b] frame_eqD(1,2) [OF stripe_rebuilding_write(2) [OF r i b]]
    by (simp add: rdp_lost_def)
qed

text \<open>
  Recovery of RDP rebuilds a data disk or P from the row sums, and Q from the diagonals, leaves the
  other disks alone and reports success.
\<close>

theorem rdp_recover_ok:
  assumes "rdp_lost (disk_size s d) (disk_block_size s) d v s" "0 \<le> disk_size s d"
  shows "fst (rdp_recover d s) = 0 \<and> content (snd (rdp_recover d s)) = (content s)(d := v)"
proof -
  have "0 < disk_block_size s"
    using assms by (simp add: rdp_lost_def stripe_rebuilding_def stripe_lost_def lost_disk_def)
  then show ?thesis
    using rd.rebuild_all(1) [OF assms, of "\<lambda>b. overwrite b 0 (zeros (nat (disk_block_size s)))"
        "malloc (heap_junk s) (nat (disk_block_size s))"]
    by (simp add: rdp_recover_def Let_def)
qed

theorem rdp_recover_ok_witness:
  "content (snd (rdp_recover 3
     ((fresh_array 70 4 2 4 2)\<lparr>disk_status := (\<lambda>i. if i = 3 then 1 else 0)\<rparr>))) 3 = zeros 8"
proof -
  let ?s = "(fresh_array 70 4 2 4 2)\<lparr>disk_status := (\<lambda>i. if i = 3 then 1 else 0)\<rparr>"
  have c: "content ?s = content (fresh_array 70 4 2 4 2)" by (rule content_cong) simp_all
  have v: "(content ?s)(3 := zeros 8) = content (fresh_array 70 4 2 4 2)"
    using c content_fresh [of 3 4 70 2 4 2] by (simp add: fun_eq_iff)
  have "row_parity 4 2 4 (content (fresh_array 70 4 2 4 2))"
    using stripe_inv_fresh [of 4 2 4 1 70 2] by (simp add: stripe_inv_def)
  then have "rdp_lost (disk_size ?s 3) (disk_block_size ?s) 3 (zeros 8) ?s"
    unfolding rdp_lost_def stripe_rebuilding_def v using rdp_rel_ok [of 2 4]
      q_parity_fresh [OF rdp_rel_ok [of 2 4], of 2 4 70 2]
    by (simp add: stripe_lost_def lost_disk_def list_all_iff c content_fresh)
  then show ?thesis using rdp_recover_ok [of ?s 3 "zeros 8"] by simp
qed

section \<open>Recovery from a strip in memory\<close>

text \<open>
  \<open>pre_read_into_buf\<close> reads the rows of data and P without the lost column, or for a lost Q the cells
  each Q block is related to.
\<close>

definition rdp_pre_read_cells :: "int \<Rightarrow> int \<Rightarrow> int \<Rightarrow> elem_hash \<Rightarrow> (int \<times> int) list" where
  "rdp_pre_read_cells n S failed_disk_id elem_hash =
     (if failed_disk_id \<noteq> n - 1
      then concat (map (\<lambda>i. if i \<noteq> failed_disk_id then map (\<lambda>j. (j, i)) [0..S - 1] else []) [0..n - 2])
      else concat (map (\<lambda>j. elem_hash (j, failed_disk_id)) [0..S - 1]))"

definition rdp_pre_read_into_buf :: "int \<Rightarrow> int \<Rightarrow> stripes \<Rightarrow> sys \<Rightarrow> stripes \<times> sys" where
  "rdp_pre_read_into_buf failed_disk_id strip_num bufs s =
     (let k = data_disk_num s; S = k
      in read_stripes (disk_block_size s) (strip_num * S)
           (rdp_pre_read_cells (disk_total_num s) S failed_disk_id (rdp_elem_hash k)) bufs s)"

text \<open>\<open>rdp_recover_block2\<close>, with the same missing \<open>return\<close> at its end as in EVENODD.\<close>

definition rdp_recover_block2 :: "int \<Rightarrow> byte list \<Rightarrow> int \<Rightarrow> int \<Rightarrow> stripes \<Rightarrow> bool \<Rightarrow> sys \<Rightarrow>
    int \<times> byte list \<times> stripes \<times> bool \<times> sys" where
  "rdp_recover_block2 disk_id buf sz offset pread_stripes in_buf s =
     (let k = data_disk_num s; S = k; n = disk_total_num s; block_size = disk_block_size s;
          buf = overwrite buf 0 (zeros (nat sz));
          block_no = offset sdiv block_size
      in if disk_status s disk_id = 0 then
           let (retstat, buf, s) = nc_readDisk disk_id buf sz offset s
           in (retstat, buf, pread_stripes, in_buf, s)
         else
           let strip_num = block_no sdiv S;
               strip_offset = block_no smod S;
               (pread_stripes, s) = (if \<not> in_buf
                 then rdp_pre_read_into_buf disk_id strip_num pread_stripes s
                 else (pread_stripes, s))
           in if get_fail_num s = 1 then
                let cells = (if 0 \<le> disk_id \<and> disk_id < n - 1
                      then map (\<lambda>i. (strip_offset, i)) (filter (\<lambda>i. i \<noteq> disk_id) [0..n - 2])
                      else rdp_elem_hash k (strip_offset, disk_id));
                    buf = xor_stripes (heap_junk s) sz pread_stripes cells buf
                in (-1, buf, pread_stripes, True, s)
              else (-1, buf, pread_stripes, True, s))"

lemma set_rdp_pre_read_row:
  "d \<noteq> n - 1 \<Longrightarrow> x \<in> set (rdp_pre_read_cells n S d h) \<longleftrightarrow>
     0 \<le> fst x \<and> fst x < S \<and> 0 \<le> snd x \<and> snd x < n - 1 \<and> snd x \<noteq> d"
  by (cases x) (force simp: rdp_pre_read_cells_def split: if_splits)

lemma set_rdp_pre_read_q:
  "x \<in> set (rdp_pre_read_cells n S (n - 1) h) \<longleftrightarrow> (\<exists>i. 0 \<le> i \<and> i < S \<and> x \<in> set (h (i, n - 1)))"
  by (auto simp: rdp_pre_read_cells_def)

text \<open>
  As for EVENODD: the first call of a strip reads the cells, later calls use them, each leaves
  the bytes of the lost block in the buffer, and each returns -1.
\<close>

theorem rdp_recover_block2_ok:
  fixes s :: sys
  defines "n \<equiv> disk_total_num s" and "k \<equiv> data_disk_num s" and "bs \<equiv> disk_block_size s"
  assumes lost: "stripe_lost m k (\<lambda>i. rdp_elem_hash k (i, n - 1)) d v s"
    and off: "0 \<le> off" "off div bs = b" "b < m" and sz: "0 < sz" "sz \<le> bs" "length buf = nat sz"
    and bufs: "if in_buf
      then strip_read v bs (b div k * k) (rdp_pre_read_cells n k d (rdp_elem_hash k)) bufs
      else list_all (\<lambda>x. length (bufs (fst x) (snd x)) = nat bs)
        (rdp_pre_read_cells n k d (rdp_elem_hash k))"
    and run: "rdp_recover_block2 d buf sz off bufs in_buf s = (ret, buf', bufs', in_buf', s')"
  shows "ret = -1 \<and> buf' = take (nat sz) (drop (nat (b * bs)) (v d)) \<and> in_buf' \<and> s' = s \<and>
    strip_read v bs (b div k * k) (rdp_pre_read_cells n k d (rdp_elem_hash k)) bufs'"
proof -
  let ?q = "\<lambda>i. rdp_elem_hash k (i, n - 1)"
  have l: "lost_disk m d v s" "disk_status s d = 1" "k dvd m" "q_rel_ok n k ?q"
    using lost by (simp_all add: stripe_lost_def n_def bs_def)
  have d: "0 \<le> d" "d < n" "0 < bs"
    using l(1) by (auto simp: lost_disk_def list_all_iff n_def bs_def)
  have k: "0 < k" using l(4) by (simp add: q_rel_ok_def)
  have b: "0 \<le> b" "b < m" using off d(3) by (auto simp: pos_imp_zdiv_nonneg_iff)
  have bn: "off sdiv bs = b" "b sdiv k = b div k" "b smod k = b mod k" using off d(3) b k by simp_all
  have i: "0 \<le> b mod k" "b mod k < k" using k by simp_all
  have z: "overwrite buf 0 (zeros (nat sz)) = zeros (nat sz)" using sz by (simp add: overwrite_def)
  let ?P = "rdp_pre_read_cells n k d (rdp_elem_hash k)"
  have P: "0 \<le> fst x \<and> fst x < k \<and> 0 \<le> snd x \<and> snd x < n \<and> snd x \<noteq> d" if "x \<in> set ?P" for x
  proof (cases "d = n - 1")
    case True
    then show ?thesis using that l(4) set_rdp_pre_read_q [of x n k "rdp_elem_hash k"]
      by (fastforce simp: q_rel_ok_def list_all_iff)
  next
    case False
    then show ?thesis using that by (simp add: set_rdp_pre_read_row)
  qed
  obtain bufs1 where b1: "(if \<not> in_buf then rdp_pre_read_into_buf d (b div k) bufs s else (bufs, s))
      = (bufs1, s)" and sr: "strip_read v bs (b div k * k) ?P bufs1"
  proof (cases in_buf)
    case True
    then show ?thesis using bufs that by simp
  next
    case False
    have c: "\<And>x. x \<in> set ?P \<Longrightarrow> 0 \<le> snd x \<and> snd x < disk_total_num s \<and> snd x \<noteq> d \<and>
        0 \<le> b div k * k + fst x \<and> b div k * k + fst x < m"
      using strip_in_range [OF k l(3) b] P by (simp add: n_def add.commute)
    have len: "\<And>x. x \<in> set ?P \<Longrightarrow> length (bufs (fst x) (snd x)) = nat (disk_block_size s)"
      using bufs False by (simp add: list_all_iff bs_def)
    have "strip_read v bs (b div k * k) [] bufs" by (simp add: strip_read_def)
    from read_stripes_ok [OF l(1) c len this [unfolded bs_def]] that False show ?thesis
      by (auto simp: rdp_pre_read_into_buf_def n_def [symmetric] k_def [symmetric] bs_def [symmetric]
          Let_def)
  qed
  define cells where "cells = (if 0 \<le> d \<and> d < n - 1
      then map (\<lambda>i. (b mod k, i)) (filter (\<lambda>i. i \<noteq> d) [0..n - 2])
      else rdp_elem_hash k (b mod k, d))"
  have sub: "set cells \<subseteq> set ?P" and ce: "cells = (if 0 \<le> d \<and> d < n - 1
      then map (\<lambda>i. (b mod k, i)) (filter (\<lambda>i. i \<noteq> d) [0..n - 2])
      else rdp_elem_hash k (b mod k, n - 1))"
    using d i set_rdp_pre_read_q [of _ n k "rdp_elem_hash k"]
    by (cases "d = n - 1"; auto simp: cells_def set_rdp_pre_read_row)+
  have "xor_stripes (heap_junk s) sz bufs1 cells (zeros (nat sz)) =
      take (nat sz) (drop (nat (b * bs)) (v d))"
    by (rule xor_stripes_lost [where s = s, folded n_def bs_def, OF lost b sz(1,2) ce sr sub])
  then have "rdp_recover_block2 d buf sz off bufs in_buf s =
      (-1, take (nat sz) (drop (nat (b * bs)) (v d)), bufs1, True, s)"
    using l(2) get_fail_num_lost [OF l(1,2)] unfolding rdp_recover_block2_def Let_def
      k_def [symmetric] n_def [symmetric] bs_def [symmetric] bn z b1 cells_def [symmetric]
    by simp
  then show ?thesis using run sr by simp
qed

theorem rdp_recover_block2_ok_witness:
  "fst (rdp_recover_block2 0 [1, 1] 2 0 (\<lambda>_ _. zeros 4) False
     (fail_disk 0 (fresh_array 70 4 2 4 2))) = -1"
proof -
  let ?f = "fresh_array 70 4 2 4 2"
  let ?s = "fail_disk 0 ?f"
  have i: "stripe_inv 2 2 ?f" by (simp add: stripe_inv_fresh)
  have r: "q_rel_ok (disk_total_num ?f) 2 (\<lambda>i. rdp_elem_hash 2 (i, 3))"
    using rdp_rel_ok [of 2 4] by simp
  note l = stripe_lost_fail [OF i r, of 0, simplified]
  obtain ret buf' bufs' inb s' where run: "rdp_recover_block2 0 [1, 1] 2 0 (\<lambda>_ _. zeros 4) False ?s
      = (ret, buf', bufs', inb, s')" by (metis prod_cases5)
  have lost: "stripe_lost 2 (data_disk_num ?s)
      (\<lambda>i. rdp_elem_hash (data_disk_num ?s) (i, disk_total_num ?s - 1)) 0 (content ?f) ?s"
    using l by simp
  have "ret = -1"
    using rdp_recover_block2_ok [where b = 0, OF lost _ _ _ _ _ _ _ run] l(2-4)
    by (simp add: list_all_iff)
  then show ?thesis using run by simp
qed

end
