(* ===== verification/MdrMatrix.thy ===== *)
theory MdrMatrix
  imports StripeCode
begin

text \<open>
  The tables of MDR, \<open>Coding4Mdr1\<close> of \<open>coding_mdr1.cc\<close>: \<open>k\<close> data disks, P and Q, strips of \<open>2 ^ k\<close>
  rows. A matrix of bit masks says which cells of data and P each Q block sums; from it follow the
  rows that have to be read to repair a disk and the Q block each other row is repaired with.
  Masks are built with \<open>1 << t\<close> on \<open>int\<close>, and the theorems are for \<open>k \<le> 4\<close>, where no shift leaves
  the positive \<open>int\<close>s.
\<close>

type_synonym mdr_matrix = "int \<Rightarrow> int \<Rightarrow> 64 word"

section \<open>The matrix\<close>

text \<open>\<open>(int)pow(2, k)\<close>; a cell tested against the mask of row \<open>t\<close>.\<close>

definition pow2 :: "int \<Rightarrow> int" where
  "pow2 k = (if k < 0 then 0 else i32 (2 ^ nat k))"

definition mdr_test :: "int \<Rightarrow> 64 word \<Rightarrow> int \<Rightarrow> bool" where
  "mdr_test S w t \<longleftrightarrow> w AND word_of_int (shl1 (S - t - 1)) \<noteq> 0"

text \<open>
  \<open>mdr_I_iterative_construct_encoding_matrixB\<close>, from \<open>k\<close> to \<open>k + 1\<close> disks; its first branch, for no matrix
  at all, is not reached by \<open>mdr_I_encoding_matrix\<close>. The counter \<open>t\<close> of the last two columns runs
  through both.
\<close>

definition mdr_base :: mdr_matrix where
  "mdr_base j i = (if j = 0 \<and> i = 0 then 1 else if j = 1 \<and> i = 1 then 2 else 0)"

definition mdr_I_iterative_construct_encoding_matrixB :: "mdr_matrix \<Rightarrow> int \<Rightarrow> mdr_matrix" where
  "mdr_I_iterative_construct_encoding_matrixB matrix k =
     (let row = pow2 k; col = k + 1;
          new_k = k + 1; new_row = pow2 new_k; new_col = new_k + 1
      in (\<lambda>j i.
            if i < new_col - 2 then
              if j < row then push_bit (nat row) (matrix j i XOR matrix j (col - 1))
              else matrix (j - row) i XOR matrix (j - row) (col - 1)
            else if i = new_col - 2 then
              if j < row then (let t = row - 1 - j in word_of_int (shl1 t)) else 0
            else
              if j < row then 0 else (let t = row + (new_row - 1 - j) in word_of_int (shl1 t))))"

text \<open>\<open>mdr_I_encoding_matrix\<close>; the process exits for \<open>k \<le> 0\<close>.\<close>

definition mdr_I_encoding_matrix :: "int \<Rightarrow> mdr_matrix option" where
  "mdr_I_encoding_matrix k = (if k \<le> 0 then None
     else Some (foldl mdr_I_iterative_construct_encoding_matrixB mdr_base [1..k - 1]))"

section \<open>Lists of rows\<close>

text \<open>The Q blocks a data cell has a part in, itself and through the P cell of its row.\<close>

definition mdr_I_find_q_blocks_id :: "mdr_matrix \<Rightarrow> int \<Rightarrow> int \<Rightarrow> int \<Rightarrow> int \<Rightarrow> int list" where
  "mdr_I_find_q_blocks_id B strip_size k disk_id block_no =
     (let row = strip_size; pDisk_id = k
      in concat (map (\<lambda>i. (if mdr_test strip_size (B i disk_id) block_no then [i] else []) @
                          (if mdr_test strip_size (B i pDisk_id) block_no then [i] else []))
           [0..row - 1]))"

text \<open>The cells of a Q block, one list of rows for each disk.\<close>

definition mdr_I_repair_qDisk_blocks_id :: "mdr_matrix \<Rightarrow> int \<Rightarrow> int \<Rightarrow> int \<Rightarrow> int list list" where
  "mdr_I_repair_qDisk_blocks_id B strip_size k block_no =
     (let col = k + 1
      in map (\<lambda>i. filter (\<lambda>j. mdr_test strip_size (B block_no i) j) [0..strip_size - 1]) [0..col - 1])"

text \<open>
  The rows read to repair a data disk or P, counted from 1; the process exits when there is no such
  disk.
\<close>

function mdr_I_repair_dpDisk_stripeIndexs_internal :: "int \<Rightarrow> int \<Rightarrow> int list option" where
  "mdr_I_repair_dpDisk_stripeIndexs_internal diskID val_k =
     (if val_k = 1 then
        if diskID = 1 then Some [1] else if diskID = 2 then Some [2] else None
      else
        let val_strip_size = pow2 val_k; r = val_strip_size sdiv 2
        in if 1 \<le> diskID \<and> diskID \<le> val_k - 1 then
             case mdr_I_repair_dpDisk_stripeIndexs_internal diskID (val_k - 1) of
               None \<Rightarrow> None
             | Some iset \<Rightarrow> Some (filter (\<lambda>i. i \<in> set iset \<or> i - r \<in> set iset) [1..val_strip_size])
           else if diskID = val_k then Some [1..r]
           else if diskID = val_k + 1 then Some [r + 1..val_strip_size]
           else None)"
  by pat_completeness auto

termination
  by (relation "measure (\<lambda>(d, k). nat k)") auto

declare mdr_I_repair_dpDisk_stripeIndexs_internal.simps [simp del]

definition mdr_I_repair_dpDisk_stripeIndexs :: "int \<Rightarrow> int \<Rightarrow> int list option" where
  "mdr_I_repair_dpDisk_stripeIndexs diskID val_k =
     map_option (map (\<lambda>i. i - 1)) (mdr_I_repair_dpDisk_stripeIndexs_internal (diskID + 1) val_k)"

text \<open>The position of a row in the list, -1 when it is not there.\<close>

fun chg_from :: "int \<Rightarrow> int \<Rightarrow> int list \<Rightarrow> int" where
  "chg_from count x [] = -1"
| "chg_from count x (y # ys) = (if x = y then count else chg_from (count + 1) x ys)"

definition mdr_I_repair_chg_blkIndexOffset_in_buf :: "int \<Rightarrow> int \<Rightarrow> int list \<Rightarrow> int" where
  "mdr_I_repair_chg_blkIndexOffset_in_buf disk_id stripe_blk_offset stripeIndexs =
     chg_from 0 stripe_blk_offset stripeIndexs"

text \<open>
  The Q block and the cells to repair each other row with. \<open>val\<close> is the matrix entry cut to an \<open>int\<close>.
\<close>

definition nonstripe_row :: "mdr_matrix \<Rightarrow> int \<Rightarrow> int \<Rightarrow> int list \<Rightarrow> int \<Rightarrow> int \<times> int list list" where
  "nonstripe_row B strip_size col stripeIndexs i =
     (let test = (\<lambda>j t. let val = word_of_int (i32 (sint (B i j))) in mdr_test strip_size val t);
          iivec = map (\<lambda>j. filter (\<lambda>t. test j t \<and> t \<in> set stripeIndexs) [0..strip_size - 1]) [0..col - 1];
          fail_disk_block_no = foldl (\<lambda>b j. foldl (\<lambda>b t.
              if test j t \<and> t \<notin> set stripeIndexs then t else b) b [0..strip_size - 1]) (-1) [0..col - 1]
      in (fail_disk_block_no, iivec @ [[i]]))"

fun nonstripe_map :: "mdr_matrix \<Rightarrow> int \<Rightarrow> int \<Rightarrow> int list \<Rightarrow> int list \<Rightarrow> (int \<Rightarrow> int list list) \<Rightarrow>
    (int \<Rightarrow> int list list) option" where
  "nonstripe_map B strip_size col stripeIndexs [] ivmap = Some ivmap"
| "nonstripe_map B strip_size col stripeIndexs (i # xs) ivmap =
     (let (fail_disk_block_no, iivec) = nonstripe_row B strip_size col stripeIndexs i
      in if fail_disk_block_no = -1 then None
         else nonstripe_map B strip_size col stripeIndexs xs (ivmap(fail_disk_block_no := iivec)))"

definition mdr_I_repair_dpDisk_nonstripeIndexs_blocks_no :: "mdr_matrix \<Rightarrow> int \<Rightarrow> int \<Rightarrow> int \<Rightarrow> int list \<Rightarrow>
    (int \<Rightarrow> int list list) option" where
  "mdr_I_repair_dpDisk_nonstripeIndexs_blocks_no B strip_size k fail_disk_id stripeIndexs =
     (let col = k + 1 in nonstripe_map B strip_size col stripeIndexs stripeIndexs (\<lambda>_. []))"

section \<open>The code as relations\<close>

text \<open>
  What the matrix says, without masks: \<open>mdr_bit k i c t\<close>, the Q block of row \<open>i\<close> sums the cell of disk
  \<open>c\<close> in row \<open>t\<close>; \<open>mdr_row k d i\<close>, row \<open>i\<close> is read to repair disk \<open>d\<close>; \<open>mdr_to k d i\<close>, the row that is
  repaired with the Q block of row \<open>i\<close>, and \<open>mdr_from\<close>, its inverse.
\<close>

fun mdr_bit :: "nat \<Rightarrow> int \<Rightarrow> int \<Rightarrow> int \<Rightarrow> bool" where
  "mdr_bit (Suc (Suc k)) i c t = (let r = 2 ^ Suc k in
     if c \<le> int k then
       if i < r then t < r \<and> mdr_bit (Suc k) i c t \<noteq> mdr_bit (Suc k) i (int k + 1) t
       else r \<le> t \<and> mdr_bit (Suc k) (i - r) c (t - r) \<noteq> mdr_bit (Suc k) (i - r) (int k + 1) (t - r)
     else if c = int k + 1 then i < r \<and> t = r + i
     else r \<le> i \<and> t = i - r)"
| "mdr_bit (Suc 0) i c t \<longleftrightarrow> i = 0 \<and> c = 0 \<and> t = 1 \<or> i = 1 \<and> c = 1 \<and> t = 0"
| "mdr_bit 0 i c t \<longleftrightarrow> i = 0 \<and> c = 0 \<and> t = 1 \<or> i = 1 \<and> c = 1 \<and> t = 0"

fun mdr_row :: "nat \<Rightarrow> int \<Rightarrow> int \<Rightarrow> bool" where
  "mdr_row (Suc (Suc k)) d i = (let r = 2 ^ Suc k in
     if d \<le> int k then mdr_row (Suc k) d i \<or> mdr_row (Suc k) d (i - r)
     else if d = int k + 1 then 0 \<le> i \<and> i < r
     else r \<le> i \<and> i < 2 * r)"
| "mdr_row (Suc 0) d i \<longleftrightarrow> i = d"
| "mdr_row 0 d i \<longleftrightarrow> i = d"

fun mdr_to :: "nat \<Rightarrow> int \<Rightarrow> int \<Rightarrow> int" where
  "mdr_to (Suc (Suc k)) d i = (let r = 2 ^ Suc k in
     if d \<le> int k then if i < r then mdr_to (Suc k) d i else r + mdr_to (Suc k) d (i - r)
     else if d = int k + 1 then r + i
     else i - r)"
| "mdr_to (Suc 0) d i = 1 - i"
| "mdr_to 0 d i = 1 - i"

fun mdr_from :: "nat \<Rightarrow> int \<Rightarrow> int \<Rightarrow> int" where
  "mdr_from (Suc (Suc k)) d t = (let r = 2 ^ Suc k in
     if d \<le> int k then if t < r then mdr_from (Suc k) d t else r + mdr_from (Suc k) d (t - r)
     else if d = int k + 1 then t - r
     else t + r)"
| "mdr_from (Suc 0) d t = 1 - t"
| "mdr_from 0 d t = 1 - t"

lemma mdr_row_range:
  "1 \<le> k \<Longrightarrow> 0 \<le> d \<Longrightarrow> d \<le> int k \<Longrightarrow> mdr_row k d i \<Longrightarrow> 0 \<le> i \<and> i < 2 ^ k"
proof (induction k d i rule: mdr_row.induct)
  case (1 k d i)
  then show ?case by (auto simp: Let_def split: if_splits)
qed auto

text \<open>The rows that are read and the rows that are repaired correspond one to one.\<close>

lemma mdr_to:
  "1 \<le> k \<Longrightarrow> 0 \<le> d \<Longrightarrow> d \<le> int k \<Longrightarrow> mdr_row k d i \<Longrightarrow>
   0 \<le> mdr_to k d i \<and> mdr_to k d i < 2 ^ k \<and> \<not> mdr_row k d (mdr_to k d i) \<and>
   mdr_from k d (mdr_to k d i) = i"
proof (induction k d i rule: mdr_to.induct)
  case (1 k d i)
  let ?r = "2 ^ Suc k :: int"
  show ?case
  proof (cases "d \<le> int k")
    case False
    then show ?thesis using 1(3-6) by (auto simp: Let_def split: if_splits)
  next
    case True
    have d: "1 \<le> Suc k" "0 \<le> d" "d \<le> int (Suc k)" using 1(4) True by auto
    note rg = mdr_row_range [OF d]
    show ?thesis
    proof (cases "i < ?r")
      case lt: True
      have row: "mdr_row (Suc k) d i" using 1(6) True lt rg [of "i - ?r"]
        by (auto simp: Let_def)
      have ih: "0 \<le> mdr_to (Suc k) d i" "mdr_to (Suc k) d i < ?r"
        "\<not> mdr_row (Suc k) d (mdr_to (Suc k) d i)" "mdr_from (Suc k) d (mdr_to (Suc k) d i) = i"
        using 1(1) [OF refl True lt d row] by auto
      have n: "\<not> mdr_row (Suc k) d (mdr_to (Suc k) d i - ?r)"
        using rg [of "mdr_to (Suc k) d i - ?r"] ih by auto
      show ?thesis using True lt ih n by (auto simp: Let_def)
    next
      case ge: False
      have row: "mdr_row (Suc k) d (i - ?r)" using 1(6) True ge rg [of i]
        by (auto simp: Let_def)
      have ih: "0 \<le> mdr_to (Suc k) d (i - ?r)" "mdr_to (Suc k) d (i - ?r) < ?r"
        "\<not> mdr_row (Suc k) d (mdr_to (Suc k) d (i - ?r))"
        "mdr_from (Suc k) d (mdr_to (Suc k) d (i - ?r)) = i - ?r"
        using 1(2) [OF refl True ge d row] by auto
      have n: "\<not> mdr_row (Suc k) d (?r + mdr_to (Suc k) d (i - ?r))"
        using rg [of "?r + mdr_to (Suc k) d (i - ?r)"] ih by auto
      show ?thesis using True ge ih n by (auto simp: Let_def)
    qed
  qed
qed (auto simp: numeral_2_eq_2, presburger)

lemma mdr_from:
  "1 \<le> k \<Longrightarrow> 0 \<le> d \<Longrightarrow> d \<le> int k \<Longrightarrow> 0 \<le> t \<Longrightarrow> t < 2 ^ k \<Longrightarrow> \<not> mdr_row k d t \<Longrightarrow>
   mdr_row k d (mdr_from k d t) \<and> mdr_to k d (mdr_from k d t) = t"
proof (induction k d t rule: mdr_from.induct)
  case (1 k d t)
  let ?r = "2 ^ Suc k :: int"
  show ?case
  proof (cases "d \<le> int k")
    case False
    then show ?thesis using 1(3-8) by (auto simp: Let_def split: if_splits)
  next
    case True
    have d: "1 \<le> Suc k" "0 \<le> d" "d \<le> int (Suc k)" using 1(4) True by auto
    note rg = mdr_row_range [OF d]
    have nr: "\<not> mdr_row (Suc k) d t" "\<not> mdr_row (Suc k) d (t - ?r)" using 1(8) True
      by (auto simp: Let_def)
    show ?thesis
    proof (cases "t < ?r")
      case lt: True
      have ih: "mdr_row (Suc k) d (mdr_from (Suc k) d t)"
        "mdr_to (Suc k) d (mdr_from (Suc k) d t) = t"
        using 1(1) [OF refl True lt d 1(6) lt nr(1)] by auto
      show ?thesis using True lt ih rg [OF ih(1)] by (auto simp: Let_def)
    next
      case ge: False
      have t: "0 \<le> t - ?r" "t - ?r < 2 ^ Suc k" using ge 1(7) by auto
      have ih: "mdr_row (Suc k) d (mdr_from (Suc k) d (t - ?r))"
        "mdr_to (Suc k) d (mdr_from (Suc k) d (t - ?r)) = t - ?r"
        using 1(2) [OF refl True ge d t nr(2)] by auto
      show ?thesis using True ge ih rg [OF ih(1)] by (auto simp: Let_def)
    qed
  qed
next
  case (2 d t)
  then have "d = 0 \<or> d = 1" "t = 0 \<or> t = 1" by auto
  then show ?case using 2(6) by auto
qed simp

text \<open>
  A Q block that is read sums one cell outside the rows that are read, and that is a cell of the disk
  to repair.
\<close>

lemma mdr_bit_to:
  "1 \<le> k \<Longrightarrow> 0 \<le> d \<Longrightarrow> d \<le> int k \<Longrightarrow> mdr_row k d i \<Longrightarrow> 0 \<le> c \<Longrightarrow> c \<le> int k \<Longrightarrow> 0 \<le> t \<Longrightarrow> t < 2 ^ k \<Longrightarrow>
   \<not> mdr_row k d t \<Longrightarrow> mdr_bit k i c t \<longleftrightarrow> c = d \<and> t = mdr_to k d i"
proof (induction k i c t rule: mdr_bit.induct)
  case (1 k i c t)
  let ?r = "2 ^ Suc k :: int"
  show ?case
  proof (cases "d \<le> int k")
    case False
    then show ?thesis using 1(6-13) by (auto simp: Let_def split: if_splits)
  next
    case True
    have d: "1 \<le> Suc k" "0 \<le> d" "d \<le> int (Suc k)" using 1(6) True by auto
    note rg = mdr_row_range [OF d]
    have nr: "\<not> mdr_row (Suc k) d t" "\<not> mdr_row (Suc k) d (t - ?r)" using 1(13) True
      by (auto simp: Let_def)
    show ?thesis
    proof (cases "i < ?r")
      case lt: True
      have row: "mdr_row (Suc k) d i" using 1(8) True lt rg [of "i - ?r"] by (auto simp: Let_def)
      note to = mdr_to [OF d row]
      show ?thesis
        using True lt to row rg [OF row] 1(1) [OF refl _ lt d row] 1(2) [OF refl _ lt d row]
          1(9-13) nr
        by (auto simp: Let_def)
    next
      case ge: False
      have row: "mdr_row (Suc k) d (i - ?r)" using 1(8) True ge rg [of i] by (auto simp: Let_def)
      note to = mdr_to [OF d row]
      have i: "i - ?r < 2 ^ Suc k" using rg [OF row] by simp
      show ?thesis
        using True ge to row rg [OF row] 1(3) [OF refl _ ge d row] 1(4) [OF refl _ ge d row]
          1(9-13) nr
        by (auto simp: Let_def)
    qed
  qed
qed auto

section \<open>The masks hold the relations\<close>

text \<open>For up to four disks the integers of the code are exact.\<close>

lemma pow2_small: "k \<le> 30 \<Longrightarrow> pow2 (int k) = 2 ^ k"
  by (simp add: pow2_def i32_pow)

lemma bit_word_shl1: "t \<le> 30 \<Longrightarrow> bit (word_of_int (shl1 t) :: 64 word) p \<longleftrightarrow> p = nat t \<and> p < 64"
  by (auto simp: shl1_small bit_exp_iff possible_bit_def)

lemma mdr_test_bit:
  assumes "0 \<le> t" "t < S" "S \<le> 16"
  shows "mdr_test S w t \<longleftrightarrow> bit w (nat (S - t - 1))"
proof -
  have "(word_of_int (shl1 (S - t - 1)) :: 64 word) = 2 ^ nat (S - t - 1)"
    using assms by (simp add: shl1_small)
  then show ?thesis by (simp add: mdr_test_def and_exp_eq_0_iff_not_bit)
qed

fun mdr_mat :: "nat \<Rightarrow> mdr_matrix" where
  "mdr_mat (Suc (Suc k)) = mdr_I_iterative_construct_encoding_matrixB (mdr_mat (Suc k)) (int (Suc k))"
| "mdr_mat (Suc 0) = mdr_base"
| "mdr_mat 0 = mdr_base"

lemma mdr_encoding_matrix_eq: "1 \<le> k \<Longrightarrow> mdr_I_encoding_matrix (int k) = Some (mdr_mat k)"
proof (induction k rule: mdr_mat.induct)
  case (1 k)
  have "[1..int (Suc (Suc k)) - 1] = [1..int (Suc k) - 1] @ [int (Suc k)]"
    by (subst upto_rec2) auto
  then show ?case using 1 by (simp add: mdr_I_encoding_matrix_def)
qed (simp_all add: mdr_I_encoding_matrix_def)

declare mdr_mat.simps [simp del]

lemma mdr_mat_bit:
  "1 \<le> k \<Longrightarrow> k \<le> 4 \<Longrightarrow> 0 \<le> i \<Longrightarrow> i < 2 ^ k \<Longrightarrow> 0 \<le> c \<Longrightarrow> c \<le> int k \<Longrightarrow>
   bit (mdr_mat k i c) p \<longleftrightarrow> p < 2 ^ k \<and> mdr_bit k i c (2 ^ k - 1 - int p)"
proof (induction k arbitrary: i c p rule: mdr_mat.induct)
  case (1 k)
  let ?r = "2 ^ Suc k :: int" and ?n = "2 ^ Suc k :: nat"
  let ?M = "mdr_mat (Suc k)"
  have r: "?r \<le> 8" "2 \<le> ?r" using 1(3) power_increasing [of "Suc k" 3 "2::int"]
      power_increasing [of 1 "Suc k" "2::int"] by auto
  have n1: "int ?n = ?r" by simp
  then have n: "int ?n = ?r" "?n \<le> 8" "nat ?r = ?n" using r by linarith+
  have p2: "pow2 (int (Suc k)) = ?r" "pow2 (int (Suc k) + 1) = 2 * ?r"
    using 1(3) pow2_small [of "Suc k"] pow2_small [of "Suc (Suc k)"] by (simp_all add: add.commute)
  have ih: "bit (?M i c) p \<longleftrightarrow> p < ?n \<and> mdr_bit (Suc k) i c (?r - 1 - int p)"
    if "0 \<le> i" "i < ?r" "0 \<le> c" "c \<le> int (Suc k)" for i c p
    using 1(1) that 1(3) by simp
  have pn: "int p < ?r \<longleftrightarrow> p < ?n" using n(1) by linarith
  have "int (2 ^ Suc (Suc k)) = 2 * ?r" by simp
  then have pn2: "p < 2 ^ Suc (Suc k) \<longleftrightarrow> int p < 2 * ?r" by linarith
  have e: "mdr_mat (Suc (Suc k)) i c =
      (if c < int k + 1 then
         if i < ?r then push_bit ?n (?M i c XOR ?M i (int k + 1))
         else ?M (i - ?r) c XOR ?M (i - ?r) (int k + 1)
       else if c = int k + 1 then if i < ?r then word_of_int (shl1 (?r - 1 - i)) else 0
       else if i < ?r then 0 else word_of_int (shl1 (?r + (2 * ?r - 1 - i))))"
    using p2 n by (simp add: mdr_mat.simps mdr_I_iterative_construct_encoding_matrixB_def Let_def add.commute
        add.left_commute)
  consider (a) "c \<le> int k" "i < ?r" | (b) "c \<le> int k" "\<not> i < ?r" | (c) "c = int k + 1"
    | (d) "c = int k + 2" using 1(7) by linarith
  then show ?case
  proof cases
    case a
    have "bit (mdr_mat (Suc (Suc k)) i c) p \<longleftrightarrow> ?n \<le> p \<and>
        (bit (?M i c) (p - ?n) \<noteq> bit (?M i (int k + 1)) (p - ?n))"
      using a n(2) ih [OF 1(4) a(2), of c "p - ?n"] ih [OF 1(4) a(2), of "int k + 1" "p - ?n"] 1(6)
      by (auto simp: e bit_push_bit_iff bit_xor_iff possible_bit_def)
    also have "\<dots> \<longleftrightarrow> p < 2 ^ Suc (Suc k) \<and> mdr_bit (Suc (Suc k)) i c (2 ^ Suc (Suc k) - 1 - int p)"
    proof (cases "?n \<le> p")
      case True
      have q: "?r - 1 - int (p - ?n) = 2 ^ Suc (Suc k) - 1 - int p" using True n(1)
        by (simp add: of_nat_diff)
      have "?r \<le> int p" using True n(1) by linarith
      then show ?thesis
        using True a ih [OF 1(4) a(2), of c "p - ?n"] ih [OF 1(4) a(2), of "int k + 1" "p - ?n"] 1(6) n(1)
        unfolding q by (auto simp: Let_def)
    next
      case False
      then have "int p < ?r" using n(1) by linarith
      then show ?thesis using False a by (auto simp: Let_def)
    qed
    finally show ?thesis .
  next
    case b
    then have i: "0 \<le> i - ?r" "i - ?r < ?r" using 1(5) by auto
    have "bit (mdr_mat (Suc (Suc k)) i c) p \<longleftrightarrow>
        (bit (?M (i - ?r) c) p \<noteq> bit (?M (i - ?r) (int k + 1)) p)"
      using b by (simp add: e bit_xor_iff)
    also have "\<dots> \<longleftrightarrow> p < 2 ^ Suc (Suc k) \<and> mdr_bit (Suc (Suc k)) i c (2 ^ Suc (Suc k) - 1 - int p)"
    proof (cases "p < ?n")
      case True
      have q: "2 ^ Suc (Suc k) - 1 - int p - ?r = ?r - 1 - int p" by simp
      have "?r \<le> 2 ^ Suc (Suc k) - 1 - int p" "p < 2 ^ Suc (Suc k)"
        using True pn by simp_all
      then have "mdr_bit (Suc (Suc k)) i c (2 ^ Suc (Suc k) - 1 - int p) \<longleftrightarrow>
          mdr_bit (Suc k) (i - ?r) c (?r - 1 - int p) \<noteq>
          mdr_bit (Suc k) (i - ?r) (int k + 1) (?r - 1 - int p)"
        using b unfolding mdr_bit.simps Let_def q by simp
      then show ?thesis
        using True \<open>p < 2 ^ Suc (Suc k)\<close> ih [OF i, of c p] ih [OF i, of "int k + 1" p] 1(6) b by simp
    next
      case False
      have "\<not> ?r \<le> 2 ^ Suc (Suc k) - 1 - int p" using False pn by simp
      then show ?thesis
        using False b ih [OF i, of c p] ih [OF i, of "int k + 1" p] 1(6)
        unfolding mdr_bit.simps Let_def by simp
    qed
    finally show ?thesis .
  next
    case c
    have "bit (mdr_mat (Suc (Suc k)) i c) p \<longleftrightarrow> i < ?r \<and> p = nat (?r - 1 - i)"
      unfolding e using c r 1(4) by (auto simp: bit_word_shl1)
    moreover have "i < ?r \<and> p = nat (?r - 1 - i) \<longleftrightarrow>
        p < 2 ^ Suc (Suc k) \<and> i < ?r \<and> 2 ^ Suc (Suc k) - 1 - int p = ?r + i"
      using 1(4) unfolding pn2 by auto
    ultimately show ?thesis using c by (simp add: Let_def)
  next
    case d
    have "bit (mdr_mat (Suc (Suc k)) i c) p \<longleftrightarrow> \<not> i < ?r \<and> p = nat (?r + (2 * ?r - 1 - i))"
      unfolding e using d r 1(5) by (auto simp: bit_word_shl1)
    moreover have "\<not> i < ?r \<and> p = nat (?r + (2 * ?r - 1 - i)) \<longleftrightarrow>
        p < 2 ^ Suc (Suc k) \<and> ?r \<le> i \<and> 2 ^ Suc (Suc k) - 1 - int p = i - ?r"
      using 1(5) unfolding pn2 by auto
    ultimately show ?thesis using d by (simp add: Let_def)
  qed
next
  case 2
  then have "i = 0 \<or> i = 1" "c = 0 \<or> c = 1" by auto
  moreover have "bit (1 :: 64 word) p \<longleftrightarrow> p = 0" "bit (2 :: 64 word) p \<longleftrightarrow> p = 1"
    by (auto simp: bit_1_iff bit_2_iff possible_bit_def)
  ultimately show ?case by (elim disjE) (auto simp: mdr_mat.simps mdr_base_def)
qed simp

lemma bit_i32: "p < 32 \<Longrightarrow> bit (i32 x) p \<longleftrightarrow> bit x p"
proof -
  assume p: "p < 32"
  have "take_bit 32 (i32 x) = take_bit 32 x"
    by (simp add: i32_def take_bit_eq_mod mod_diff_left_eq)
  then show ?thesis using p by (metis bit_take_bit_iff)
qed

lemma mdr_mat_test:
  assumes k: "1 \<le> k" "k \<le> 4" and i: "0 \<le> i" "i < 2 ^ k" "0 \<le> c" "c \<le> int k"
    and t: "0 \<le> t" "t < 2 ^ k"
  shows "mdr_test (2 ^ k) (mdr_mat k i c) t \<longleftrightarrow> mdr_bit k i c t"
    and "mdr_test (2 ^ k) (word_of_int (i32 (sint (mdr_mat k i c)))) t \<longleftrightarrow> mdr_bit k i c t"
proof -
  have S: "(2::int) ^ k \<le> 16" using k power_increasing [of k 4 "2::int"] by simp
  let ?p = "nat (2 ^ k - t - 1)"
  have p: "int ?p = 2 ^ k - t - 1" "?p < 16" using t S by auto
  have "int ?p < int (2 ^ k)" using p(1) t by simp
  then have pk: "?p < 2 ^ k" by linarith
  have e: "2 ^ k - 1 - int ?p = t" using p(1) by simp
  show a: "mdr_test (2 ^ k) (mdr_mat k i c) t \<longleftrightarrow> mdr_bit k i c t"
    using mdr_test_bit [OF t S] mdr_mat_bit [OF k i, of ?p] pk e by simp
  have "bit (word_of_int (i32 (sint (mdr_mat k i c))) :: 64 word) ?p \<longleftrightarrow> bit (mdr_mat k i c) ?p"
    using p(2) by (simp add: bit_word_of_int_iff bit_i32 bit_sint_iff)
  then show "mdr_test (2 ^ k) (word_of_int (i32 (sint (mdr_mat k i c)))) t \<longleftrightarrow> mdr_bit k i c t"
    using mdr_test_bit [OF t S] a by simp
qed

section \<open>The lists hold the relations\<close>

lemma map_add_upto: "map (\<lambda>i. i + c) [a..b] = [a + c..b + (c::int)]"
proof (induction a b rule: upto.induct)
  case (1 a b)
  show ?case
  proof (cases "a \<le> b")
    case True
    then show ?thesis using 1 by (subst (1 2) upto_rec1) (auto simp: algebra_simps)
  qed simp
qed

lemma map_filter_pred:
  "map (\<lambda>i. i - 1) (filter P [1..n]) = filter (\<lambda>i. P (i + 1)) [0..n - (1::int)]"
proof -
  have "[1..n] = map (\<lambda>i. i + 1) [0..n - 1]" by (simp add: map_add_upto [of 1 0 "n - 1"])
  then show ?thesis by (simp add: filter_map o_def)
qed

lemma mdr_stripeIndexs_internal:
  "1 \<le> k \<Longrightarrow> k \<le> 4 \<Longrightarrow> 0 \<le> d \<Longrightarrow> d \<le> int k \<Longrightarrow>
   mdr_I_repair_dpDisk_stripeIndexs_internal (d + 1) (int k) =
     Some (filter (\<lambda>i. mdr_row k d (i - 1)) [1..2 ^ k])"
proof (induction k arbitrary: d rule: mdr_mat.induct)
  case (1 k)
  let ?r = "2 ^ Suc k :: int"
  have p: "pow2 (int (Suc (Suc k))) = 2 * ?r" using 1(3) pow2_small [of "Suc (Suc k)"] by simp
  have r: "2 * ?r sdiv 2 = ?r" "0 \<le> ?r" by simp_all
  have "1 \<le> ?r" by (rule one_le_power) simp
  then have s: "[1..2 ^ Suc (Suc k)] = [1..?r] @ [?r + 1..2 * ?r]"
    using upto_split1 [of 1 "?r + 1" "2 * ?r"] by simp
  consider (a) "d \<le> int k" | (b) "d = int k + 1" | (c) "d = int k + 2" using 1(5) by linarith
  then show ?case
  proof cases
    case a
    have ih: "mdr_I_repair_dpDisk_stripeIndexs_internal (d + 1) (int (Suc k)) =
        Some (filter (\<lambda>i. mdr_row (Suc k) d (i - 1)) [1..2 ^ Suc k])"
      using 1(1) [of d] 1(3,4) a by simp
    have "i \<in> set (filter (\<lambda>i. mdr_row (Suc k) d (i - 1)) [1..2 ^ Suc k]) \<longleftrightarrow> mdr_row (Suc k) d (i - 1)" for i
      using mdr_row_range [of "Suc k" d "i - 1"] 1(4) a by auto
    then show ?thesis
      using a 1(4) ih p r
      by (subst mdr_I_repair_dpDisk_stripeIndexs_internal.simps) (simp add: Let_def algebra_simps)
  next
    case b
    then show ?thesis using p r unfolding s
      by (subst mdr_I_repair_dpDisk_stripeIndexs_internal.simps) (auto simp: Let_def filter_empty_conv)
  next
    case c
    then show ?thesis using p r unfolding s
      by (subst mdr_I_repair_dpDisk_stripeIndexs_internal.simps) (auto simp: Let_def filter_empty_conv)
  qed
next
  case 2
  then have "d = 0 \<or> d = 1" by auto
  then show ?case by (subst mdr_I_repair_dpDisk_stripeIndexs_internal.simps) (auto simp: upto.simps)
qed simp

lemma mdr_stripeIndexs:
  assumes "1 \<le> k" "k \<le> 4" "0 \<le> d" "d \<le> int k"
  shows "mdr_I_repair_dpDisk_stripeIndexs d (int k) = Some (filter (mdr_row k d) [0..2 ^ k - 1])"
  using mdr_stripeIndexs_internal [OF assms]
  by (simp add: mdr_I_repair_dpDisk_stripeIndexs_def map_filter_pred)

text \<open>The cells of a Q block that lie in the rows read, disk by disk, and the Q block.\<close>

definition mdr_cells :: "nat \<Rightarrow> int \<Rightarrow> int \<Rightarrow> int list list" where
  "mdr_cells k d i = map (\<lambda>j. filter (\<lambda>t. mdr_bit k i j t \<and> mdr_row k d t) [0..2 ^ k - 1]) [0..int k] @ [[i]]"

lemma foldl_pick:
  assumes "\<And>x. x \<in> set xs \<Longrightarrow> P x \<longleftrightarrow> x = v"
  shows "foldl (\<lambda>b x. if P x then x else b) b xs = (if v \<in> set xs then v else b)"
  using assms by (induction xs rule: rev_induct) auto

lemma foldl_const:
  "foldl (\<lambda>b x. if x = v then c else b) b xs = (if v \<in> set xs then c else b)"
  by (induction xs rule: rev_induct) auto

lemma nonstripe_row_eq:
  assumes k: "1 \<le> k" "k \<le> 4" and d: "0 \<le> d" "d \<le> int k" and i: "mdr_row k d i"
  shows "nonstripe_row (mdr_mat k) (2 ^ k) (int k + 1) (filter (mdr_row k d) [0..2 ^ k - 1]) i =
    (mdr_to k d i, mdr_cells k d i)"
proof -
  let ?R = "filter (mdr_row k d) [0..2 ^ k - 1]"
  let ?t = "\<lambda>j t. mdr_test (2 ^ k) (word_of_int (i32 (sint (mdr_mat k i j)))) t"
  note rg = mdr_row_range [OF k(1) d]
  have R: "t \<in> set ?R \<longleftrightarrow> mdr_row k d t" for t using rg by auto
  have test: "?t j t \<longleftrightarrow> mdr_bit k i j t" if "j \<in> set [0..int k]" "t \<in> set [0..2 ^ k - 1]" for j t
    using mdr_mat_test(2) [OF k, of i j t] that rg [OF i] by simp
  have cells: "map (\<lambda>j. filter (\<lambda>t. ?t j t \<and> t \<in> set ?R) [0..2 ^ k - 1]) [0..int k] @ [[i]] =
      mdr_cells k d i"
    unfolding mdr_cells_def R using test by (auto intro!: filter_cong)
  note to = mdr_to [OF k(1) d i]
  have inner: "foldl (\<lambda>b t. if ?t j t \<and> t \<notin> set ?R then t else b) b [0..2 ^ k - 1] =
      (if j = d then mdr_to k d i else b)" if j: "j \<in> set [0..int k]" for j b
  proof (cases "j = d")
    case True
    have "(?t j t \<and> t \<notin> set ?R) = (t = mdr_to k d i)" if "t \<in> set [0..2 ^ k - 1]" for t
      using test [OF j that] R that to mdr_bit_to [OF k(1) d i, of j t] j True by auto
    then have "foldl (\<lambda>b t. if ?t j t \<and> t \<notin> set ?R then t else b) b [0..2 ^ k - 1] =
        (if mdr_to k d i \<in> set [0..2 ^ k - 1] then mdr_to k d i else b)"
      by (rule foldl_pick)
    then show ?thesis using True to by simp
  next
    case False
    have "(?t j t \<and> t \<notin> set ?R) = False" if "t \<in> set [0..2 ^ k - 1]" for t
      using test [OF j that] R that mdr_bit_to [OF k(1) d i, of j t] j False by auto
    then have "foldl (\<lambda>b t. if ?t j t \<and> t \<notin> set ?R then t else b) b [0..2 ^ k - 1] =
        foldl (\<lambda>b t. b) b [0..2 ^ k - 1]" by (intro foldl_cong) auto
    moreover have "foldl (\<lambda>b t. b) b xs = b" for b :: int and xs :: "int list" by (induction xs) auto
    ultimately show ?thesis using False by simp
  qed
  have "foldl (\<lambda>b j. foldl (\<lambda>b t. if ?t j t \<and> t \<notin> set ?R then t else b) b [0..2 ^ k - 1]) (-1) [0..int k]
      = foldl (\<lambda>b j. if j = d then mdr_to k d i else b) (-1) [0..int k]"
    using inner by (intro foldl_cong) auto
  also have "\<dots> = mdr_to k d i" using d by (simp add: foldl_const)
  finally show ?thesis using cells by (simp add: nonstripe_row_def Let_def)
qed

lemma nonstripe_map_eq:
  assumes k: "1 \<le> k" "k \<le> 4" and d: "0 \<le> d" "d \<le> int k"
  shows "(\<And>i. i \<in> set xs \<Longrightarrow> mdr_row k d i) \<Longrightarrow>
    \<exists>m'. nonstripe_map (mdr_mat k) (2 ^ k) (int k + 1) (filter (mdr_row k d) [0..2 ^ k - 1]) xs m = Some m' \<and>
      (\<forall>i\<in>set xs. m' (mdr_to k d i) = mdr_cells k d i) \<and>
      (\<forall>t. t \<notin> mdr_to k d ` set xs \<longrightarrow> m' t = m t)"
proof (induction xs arbitrary: m)
  case Nil
  then show ?case by simp
next
  case (Cons i xs)
  have i: "mdr_row k d i" using Cons.prems by simp
  note to = mdr_to [OF k(1) d]
  have "\<And>j. j \<in> set xs \<Longrightarrow> mdr_row k d j" using Cons.prems by simp
  from Cons.IH [OF this, of "m(mdr_to k d i := mdr_cells k d i)"]
  obtain m' where m': "nonstripe_map (mdr_mat k) (2 ^ k) (int k + 1)
      (filter (mdr_row k d) [0..2 ^ k - 1]) xs (m(mdr_to k d i := mdr_cells k d i)) = Some m'"
    "\<forall>i\<in>set xs. m' (mdr_to k d i) = mdr_cells k d i"
    "\<forall>t. t \<notin> mdr_to k d ` set xs \<longrightarrow> m' t = (m(mdr_to k d i := mdr_cells k d i)) t"
    by blast
  have "m' (mdr_to k d i) = mdr_cells k d i"
  proof (cases "mdr_to k d i \<in> mdr_to k d ` set xs")
    case True
    then obtain j where j: "j \<in> set xs" "mdr_to k d i = mdr_to k d j" by auto
    then have "j = i" using to [OF i] to [of j] Cons.prems by (metis list.set_intros(2))
    then show ?thesis using m'(2) j by simp
  next
    case False
    then show ?thesis using m'(3) by simp
  qed
  moreover have "mdr_to k d i \<noteq> -1" using to [OF i] by auto
  ultimately show ?case
    using m' nonstripe_row_eq [OF k d i] by (auto simp: Let_def)
qed

text \<open>Every row that is not read gets the cells to repair it with.\<close>

lemma mdr_nonstripe:
  assumes k: "1 \<le> k" "k \<le> 4" and d: "0 \<le> d" "d \<le> int k"
  shows "\<exists>m. mdr_I_repair_dpDisk_nonstripeIndexs_blocks_no (mdr_mat k) (2 ^ k) (int k) d
      (filter (mdr_row k d) [0..2 ^ k - 1]) = Some m \<and>
    (\<forall>t. 0 \<le> t \<longrightarrow> t < 2 ^ k \<longrightarrow> \<not> mdr_row k d t \<longrightarrow> m t = mdr_cells k d (mdr_from k d t))"
proof -
  let ?R = "filter (mdr_row k d) [0..2 ^ k - 1]"
  obtain m where m: "nonstripe_map (mdr_mat k) (2 ^ k) (int k + 1) ?R ?R (\<lambda>_. []) = Some m"
    "\<forall>i\<in>set ?R. m (mdr_to k d i) = mdr_cells k d i"
    using nonstripe_map_eq [OF assms, of ?R "\<lambda>_. []"] by auto
  have "m t = mdr_cells k d (mdr_from k d t)" if t: "0 \<le> t" "t < 2 ^ k" "\<not> mdr_row k d t" for t
    using m(2) mdr_from [OF k(1) d t] mdr_row_range [OF k(1) d, of "mdr_from k d t"] by auto
  then show ?thesis using m(1)
    by (simp add: mdr_I_repair_dpDisk_nonstripeIndexs_blocks_no_def Let_def)
qed

text \<open>The relation of each Q block, and the Q blocks to update.\<close>

definition mdr_rel :: "nat \<Rightarrow> int \<Rightarrow> (int \<times> int) list" where
  "mdr_rel k i = concat (map (\<lambda>c. map (\<lambda>t. (t, c)) (filter (mdr_bit k i c) [0..2 ^ k - 1])) [0..int k])"

lemma set_mdr_rel: "(t, c) \<in> set (mdr_rel k i) \<longleftrightarrow> 0 \<le> c \<and> c \<le> int k \<and> 0 \<le> t \<and> t < 2 ^ k \<and> mdr_bit k i c t"
  by (auto simp: mdr_rel_def)

lemma distinct_mdr_rel: "distinct (mdr_rel k i)"
proof -
  have "distinct (concat (map (\<lambda>c. map (\<lambda>t. (t, c)) (filter (mdr_bit k i c) xs)) ys))"
    if "distinct xs" "distinct ys" for xs :: "int list" and ys
    using that(2) by (induction ys) (auto simp: distinct_map inj_on_def that(1))
  then show ?thesis by (simp add: mdr_rel_def)
qed

lemma count_mdr_rel:
  assumes "0 \<le> c" "c \<le> int k" "0 \<le> t" "t < 2 ^ k"
  shows "count_list (mdr_rel k i) (t, c) = (if mdr_bit k i c t then 1 else 0)"
  using assms by (simp add: count_distinct [OF distinct_mdr_rel] set_mdr_rel)

lemma mdr_rel_ok:
  "n = int k + 2 \<Longrightarrow> q_rel_ok n (2 ^ k) (mdr_rel k)"
  by (auto simp: q_rel_ok_def list_all_iff set_mdr_rel)

lemma count_concat_upto:
  assumes "\<And>y. y \<in> set xs \<Longrightarrow> set (f y) \<subseteq> {y}" "distinct xs" "x \<in> set xs"
  shows "count_list (concat (map f xs)) x = count_list (f x) x"
  using assms
proof (induction xs)
  case Nil
  then show ?case by simp
next
  case (Cons y ys)
  have c: "count_list (f y) x = 0" if "y \<noteq> x"
    using Cons.prems(1) [of y] that by (auto simp: count_list_0_iff)
  have d: "count_list (concat (map f ys)) x = 0" if "y = x"
    using Cons.prems(1,2) that by (fastforce simp: count_list_0_iff)
  show ?case using Cons c d by (cases "y = x") auto
qed

lemma mdr_find_q_set: "set (mdr_I_find_q_blocks_id B S k d j) \<subseteq> set [0..S - 1]"
  by (auto simp: mdr_I_find_q_blocks_id_def Let_def split: if_splits)

lemma mdr_find_q_ok:
  assumes k: "1 \<le> k" "k \<le> 4" and n: "n = int k + 2" and d: "0 \<le> d" "d < int k"
    and j: "0 \<le> j" "j < 2 ^ k"
  shows "find_q_ok n (mdr_rel k) (mdr_I_find_q_blocks_id (mdr_mat k) (2 ^ k) (int k)) (2 ^ k) d j"
proof -
  have "count_list (mdr_I_find_q_blocks_id (mdr_mat k) (2 ^ k) (int k) d j) i =
      (if mdr_bit k i d j then 1 else 0) + (if mdr_bit k i (int k) j then 1 else 0)"
    if i: "0 \<le> i" "i < 2 ^ k" for i
    unfolding mdr_I_find_q_blocks_id_def Let_def
    by (subst count_concat_upto)
      (use i d j mdr_mat_test(1) [OF k i _ _ j] in \<open>auto split: if_splits\<close>)
  moreover have "count_list (mdr_rel k i) (j, d) = (if mdr_bit k i d j then 1 else 0)"
    "count_list (mdr_rel k i) (j, n - 2) = (if mdr_bit k i (int k) j then 1 else 0)" for i
    using d j n by (simp_all add: count_mdr_rel)
  ultimately show ?thesis
    using mdr_find_q_set [of "mdr_mat k" "2 ^ k" "int k" d j]
    by (simp add: find_q_ok_def list_all_iff)
qed

end
