(* ===== verification/Mdr1.thy ===== *)
theory Mdr1
  imports MdrMatrix
begin

text \<open>
  MDR, \<open>Coding4Mdr1\<close> of \<open>coding_mdr1.cc\<close>, on the tables of \<open>MdrMatrix\<close>: the object with its caches,
  \<open>encode\<close>, \<open>decode\<close> and \<open>recover\<close>. A repair reads the listed rows of a strip from every other disk,
  Q included. The result \<open>None\<close> means that the process has called \<open>exit\<close>.
\<close>

section \<open>The object\<close>

record mdr1 =
  encoding_matrixB :: mdr_matrix
  strip_size :: int
  dpDisk_fail_bool_m :: bool
  dpDisk_fail_bool_v :: bool
  qDisk_fail_bool :: bool
  nonStripeIndex :: "int \<Rightarrow> int list list"
  qStripeIndex :: "int \<Rightarrow> int list list"
  stripeIndex :: "int list"

text \<open>The constructor.\<close>

definition mdr1_new :: "sys \<Rightarrow> mdr1 option" where
  "mdr1_new s = map_option (\<lambda>B. \<lparr>encoding_matrixB = B, strip_size = 2 ^ nat (data_disk_num s),
     dpDisk_fail_bool_m = False, dpDisk_fail_bool_v = False, qDisk_fail_bool = False,
     nonStripeIndex = (\<lambda>_. []), qStripeIndex = (\<lambda>_. []), stripeIndex = []\<rparr>)
     (mdr_I_encoding_matrix (data_disk_num s))"

section \<open>Operations\<close>

definition mdr1_encode :: "byte list \<Rightarrow> int \<Rightarrow> mdr1 \<Rightarrow> sys \<Rightarrow> data_block_info \<times> sys" where
  "mdr1_encode buf sz ob s =
     stripe_encode (mdr_I_find_q_blocks_id (encoding_matrixB ob) (strip_size ob) (data_disk_num s))
       (strip_size ob) (round_to_block_size sz s) sz buf sz s"

text \<open>The lists of rows and of cells are computed once and kept, whatever disk is asked for later.\<close>

definition mdr1_stripe_index :: "int \<Rightarrow> sys \<Rightarrow> mdr1 \<Rightarrow> mdr1 option" where
  "mdr1_stripe_index disk_id s ob =
     (if \<not> dpDisk_fail_bool_v ob
      then map_option (\<lambda>xs. ob\<lparr>dpDisk_fail_bool_v := True, stripeIndex := xs\<rparr>)
             (mdr_I_repair_dpDisk_stripeIndexs disk_id (data_disk_num s))
      else Some ob)"

definition mdr1_nonstripe_index :: "int \<Rightarrow> sys \<Rightarrow> mdr1 \<Rightarrow> mdr1 option" where
  "mdr1_nonstripe_index disk_id s ob =
     (if \<not> dpDisk_fail_bool_m ob
      then map_option (\<lambda>m. ob\<lparr>dpDisk_fail_bool_m := True, nonStripeIndex := m\<rparr>)
             (mdr_I_repair_dpDisk_nonstripeIndexs_blocks_no (encoding_matrixB ob) (strip_size ob)
               (data_disk_num s) disk_id (stripeIndex ob))
      else Some ob)"

text \<open>
  The cells read to repair a row that is not in the list: those of the disk itself are replaced by
  the rest of their rows.
\<close>

definition mdr1_repair_cells :: "int \<Rightarrow> int \<Rightarrow> int list list \<Rightarrow> (int \<times> int) list" where
  "mdr1_repair_cells n disk_id iivec =
     concat (map (\<lambda>(i, ivec). if i = disk_id
         then concat (map (\<lambda>t. map (\<lambda>ii. (ii, t)) (filter (\<lambda>ii. ii \<noteq> i) [0..n - 2])) ivec)
         else map (\<lambda>t. (i, t)) ivec)
       (zip [0..int (length iivec) - 1] iivec))"

text \<open>
  \<open>decode\<close>. The last condition, \<open>disk_id = disk_total_num - 1\<close>, is an assignment in front of an
  empty block: for a lost Q disk nothing is read, and the call returns the cleared buffer.
\<close>

definition mdr1_decode :: "int \<Rightarrow> byte list \<Rightarrow> int \<Rightarrow> int \<Rightarrow> mdr1 \<Rightarrow> sys \<Rightarrow>
    (int \<times> byte list \<times> mdr1 \<times> sys) option" where
  "mdr1_decode disk_id buf sz offset ob s =
     (let buf = overwrite buf 0 (zeros (nat sz));
          temp_buf = zeros (nat sz);
          n = disk_total_num s;
          block_size = disk_block_size s;
          block_no = offset sdiv block_size
      in if disk_status s disk_id = 0 then
           let (retstat, buf, s) = nc_readDisk disk_id buf sz offset s in Some (retstat, buf, ob, s)
         else
           let strip_num = block_no sdiv strip_size ob;
               strip_offset = block_no smod strip_size ob
           in if get_fail_num s = 1 then
                if 0 \<le> disk_id \<and> disk_id < n - 1 then
                  case mdr1_stripe_index disk_id s ob of None \<Rightarrow> None
                  | Some ob \<Rightarrow>
                    if strip_offset \<in> set (stripeIndex ob) then
                      let cells = map (\<lambda>i. (i, offset)) (filter (\<lambda>i. i \<noteq> disk_id) [0..n - 2]);
                          (temp_buf, buf, s) = xor_cells sz cells temp_buf buf s
                      in Some (sz, buf, ob, s)
                    else
                      case mdr1_nonstripe_index disk_id s ob of None \<Rightarrow> None
                      | Some ob \<Rightarrow>
                        let iivec = nonStripeIndex ob strip_offset
                        in if int (length iivec) \<noteq> n then None
                           else
                             let cells = map (\<lambda>x. (fst x, i32 (i32 (snd x + strip_num * strip_size ob)
                                             * block_size))) (mdr1_repair_cells n disk_id iivec);
                                 (temp_buf, buf, s) = xor_cells sz cells temp_buf buf s
                             in Some (sz, buf, ob, s)
                else Some (sz, buf, ob, s)
              else Some (-1, buf, ob, s))"

text \<open>\<open>recover\<close>: the state of the loop is the object and the disks, or nothing after an \<open>exit\<close>.\<close>

definition mdr1_dec :: "int \<Rightarrow> byte list \<Rightarrow> int \<Rightarrow> int \<Rightarrow> (mdr1 \<times> sys) option \<Rightarrow>
    int \<times> byte list \<times> (mdr1 \<times> sys) option" where
  "mdr1_dec disk_id buf sz offset st = (case st of None \<Rightarrow> (0, buf, None)
     | Some (ob, s) \<Rightarrow> (case mdr1_decode disk_id buf sz offset ob s of None \<Rightarrow> (0, buf, None)
         | Some (retstat, buf, ob, s) \<Rightarrow> (retstat, buf, Some (ob, s))))"

definition mdr1_wr :: "int \<Rightarrow> byte list \<Rightarrow> int \<Rightarrow> int \<Rightarrow> (mdr1 \<times> sys) option \<Rightarrow> int \<times> (mdr1 \<times> sys) option" where
  "mdr1_wr disk_id buf sz offset st = (case st of None \<Rightarrow> (0, None)
     | Some (ob, s) \<Rightarrow> (let (retstat, s) = nc_writeDisk disk_id buf sz offset s in (retstat, Some (ob, s))))"

definition mdr1_recover :: "int \<Rightarrow> mdr1 \<Rightarrow> sys \<Rightarrow> (int \<times> mdr1 \<times> sys) option" where
  "mdr1_recover failed_disk_id ob s =
     (let recoversize = disk_size s failed_disk_id;
          block_size = disk_block_size s
      in map_option (\<lambda>st. (0, st))
           (rebuild_blocks mdr1_dec mdr1_wr (\<lambda>b. overwrite b 0 (zeros (nat block_size)))
             failed_disk_id block_size [0..recoversize - 1]
             (malloc (heap_junk s) (nat block_size)) (Some (ob, s))))"

section \<open>The object in order\<close>

text \<open>
  The matrix is that of \<open>k\<close> disks, and the lists that are there are those of disk \<open>d\<close>. The object is so
  when it is made, for every \<open>d\<close>, and stays so as long as the same disk is asked for.
\<close>

definition mdr1_ok :: "nat \<Rightarrow> int \<Rightarrow> mdr1 \<Rightarrow> bool" where
  "mdr1_ok k d ob \<longleftrightarrow> encoding_matrixB ob = mdr_mat k \<and> strip_size ob = 2 ^ k \<and>
     (dpDisk_fail_bool_v ob \<longrightarrow> stripeIndex ob = filter (mdr_row k d) [0..2 ^ k - 1]) \<and>
     (dpDisk_fail_bool_m ob \<longrightarrow> list_all (\<lambda>t. mdr_row k d t \<or>
        nonStripeIndex ob t = mdr_cells k d (mdr_from k d t)) [0..2 ^ k - 1])"

lemma mdr1_new_ok:
  assumes "1 \<le> k" "data_disk_num s = int k"
  shows "\<exists>ob. mdr1_new s = Some ob \<and> mdr1_ok k d ob"
  using mdr_encoding_matrix_eq [OF assms(1)] assms by (auto simp: mdr1_new_def mdr1_ok_def)

lemma mdr1_stripe_index_ok:
  assumes k: "1 \<le> k" "k \<le> 4" and d: "0 \<le> d" "d \<le> int k"
    and s: "data_disk_num s = int k" and ok: "mdr1_ok k d ob"
  shows "\<exists>ob'. mdr1_stripe_index d s ob = Some ob' \<and> mdr1_ok k d ob' \<and>
    stripeIndex ob' = filter (mdr_row k d) [0..2 ^ k - 1]"
  using mdr_stripeIndexs [OF k d] s ok
  by (auto simp: mdr1_stripe_index_def mdr1_ok_def)

lemma mdr1_nonstripe_index_ok:
  assumes k: "1 \<le> k" "k \<le> 4" and d: "0 \<le> d" "d \<le> int k"
    and s: "data_disk_num s = int k" and ok: "mdr1_ok k d ob"
    and st: "stripeIndex ob = filter (mdr_row k d) [0..2 ^ k - 1]"
  shows "\<exists>ob'. mdr1_nonstripe_index d s ob = Some ob' \<and> mdr1_ok k d ob' \<and>
    stripeIndex ob' = stripeIndex ob \<and>
    (\<forall>t. 0 \<le> t \<longrightarrow> t < 2 ^ k \<longrightarrow> \<not> mdr_row k d t \<longrightarrow>
       nonStripeIndex ob' t = mdr_cells k d (mdr_from k d t))"
proof (cases "dpDisk_fail_bool_m ob")
  case True
  then show ?thesis using ok by (auto simp: mdr1_nonstripe_index_def mdr1_ok_def list_all_iff)
next
  case False
  obtain m where "mdr_I_repair_dpDisk_nonstripeIndexs_blocks_no (mdr_mat k) (2 ^ k) (int k) d
      (filter (mdr_row k d) [0..2 ^ k - 1]) = Some m"
    "\<forall>t. 0 \<le> t \<longrightarrow> t < 2 ^ k \<longrightarrow> \<not> mdr_row k d t \<longrightarrow> m t = mdr_cells k d (mdr_from k d t)"
    using mdr_nonstripe [OF k d] by blast
  then show ?thesis using False ok s st
    by (auto simp: mdr1_nonstripe_index_def mdr1_ok_def list_all_iff)
qed

section \<open>Repairing a block\<close>

lemma xsum_concat: "xsum f (concat (map h xs)) = xsum (\<lambda>x. xsum f (h x)) xs"
  by (induction xs) simp_all

lemma zip_upto_snoc:
  "zip [0..int (length (map g [0..int k] @ [y])) - 1] (map g [0..int k] @ [y]) =
    map (\<lambda>j. (j, g j)) [0..int k] @ [(int k + 1, y)]"
proof -
  have "[0..int (length (map g [0..int k] @ [y])) - 1] = [0..int k] @ [int k + 1]"
    by (subst upto_rec2) (auto simp: add.commute)
  then show ?thesis by (simp add: zip_map2 zip_same_conv_map)
qed

text \<open>The cells listed for a row that is not read sum to the cell of the lost disk in that row.\<close>

lemma mdr1_repair_sum:
  assumes k: "1 \<le> k" "n = int k + 2" and d: "0 \<le> d" "d \<le> int k"
    and S: "2 ^ k dvd m" and b: "0 \<le> b" "b < m" "j < nat bs"
    and rp: "row_parity n m bs v" and qp: "q_parity n m bs (2 ^ k) (mdr_rel k) v"
    and t: "\<not> mdr_row k d (b mod 2 ^ k)"
  shows "xsum (\<lambda>x. cell v bs (fst x) (snd x + b div 2 ^ k * 2 ^ k) j)
      (mdr1_repair_cells n d (mdr_cells k d (mdr_from k d (b mod 2 ^ k)))) = cell v bs d b j"
proof -
  let ?S = "2 ^ k :: int"
  define t where "t = b mod ?S"
  define base where "base = b div ?S * ?S"
  define i where "i = mdr_from k d t"
  let ?c = "\<lambda>c t. cell v bs c (t + base) j"
  have tr: "0 \<le> t" "t < ?S" "\<not> mdr_row k d t" using t by (simp_all add: t_def)
  have i: "mdr_row k d i" "mdr_to k d i = t" using mdr_from [OF k(1) d tr] by (simp_all add: i_def)
  have ir: "0 \<le> i" "i < ?S" using mdr_row_range [OF k(1) d i(1)] by auto
  have inr: "0 \<le> t' + base \<and> t' + base < m" if "0 \<le> t'" "t' < ?S" for t'
    using strip_in_range [OF _ S b(1,2), of t'] that by (simp add: base_def add.commute)
  text \<open>The rest of a row sums to the cell of \<open>d\<close>.\<close>
  have row: "xsum (\<lambda>c. ?c c t') (filter (\<lambda>c. c \<noteq> d) [0..n - 2]) = ?c d t'" if "0 \<le> t'" "t' < ?S" for t'
    using row_cells_lost [OF rp inr [OF that, THEN conjunct1] inr [OF that, THEN conjunct2] b(3) d(1)] d(2) k(2)
    by simp
  have part: "xsum (\<lambda>x. ?c (fst x) (snd x)) (if c = d
        then concat (map (\<lambda>t. map (\<lambda>ii. (ii, t)) (filter (\<lambda>ii. ii \<noteq> c) [0..n - 2])) ts)
        else map (\<lambda>t. (c, t)) ts) = xsum (?c c) ts"
    if "set ts \<subseteq> {0..<?S}" for c ts
  proof (cases "c = d")
    case True
    have "xsum (\<lambda>t. xsum (\<lambda>ii. ?c ii t) (filter (\<lambda>ii. ii \<noteq> d) [0..n - 2])) ts = xsum (?c d) ts"
      using that row by (intro xsum_cong refl) auto
    then show ?thesis using True by (simp add: xsum_concat)
  qed simp
  let ?P = "\<lambda>c t. mdr_bit k i c t \<and> mdr_row k d t"
  have sub: "set (filter (?P c) [0..?S - 1]) \<subseteq> {0..<?S}" for c by auto
  have neq: "int k + 1 \<noteq> d" using d by simp
  have nn: "n - 1 = int k + 1" using k by simp
  have lhs: "xsum (\<lambda>x. ?c (fst x) (snd x)) (mdr1_repair_cells n d (mdr_cells k d i)) =
      xsum (\<lambda>c. xsum (?c c) (filter (?P c) [0..?S - 1])) [0..int k] XOR ?c (n - 1) i"
    unfolding mdr1_repair_cells_def mdr_cells_def zip_upto_snoc nn
    using part [OF sub] neq by (simp add: xsum_concat)
  text \<open>The Q block sums those cells and the one that is missing.\<close>
  have "?c (n - 1) i = q_sum ?S (mdr_rel k) bs v (i + base) j"
    using q_parityD [OF qp inr [OF ir, THEN conjunct1] inr [OF ir, THEN conjunct2] b(3)] by simp
  also have "\<dots> = xsum (\<lambda>x. ?c (snd x) (fst x)) (mdr_rel k i)"
    using ir by (simp add: q_sum_def base_def)
  also have "\<dots> = xsum (\<lambda>c. xsum (?c c) (filter (mdr_bit k i c) [0..?S - 1])) [0..int k]"
    by (simp add: mdr_rel_def xsum_concat)
  also have "\<dots> = xsum (\<lambda>c. xsum (?c c) (filter (?P c) [0..?S - 1]) XOR (if c = d then ?c d t else 0))
      [0..int k]"
  proof (intro xsum_cong refl)
    fix c assume c: "c \<in> set [0..int k]"
    have "xsum (?c c) (filter (mdr_bit k i c) [0..?S - 1]) =
        xsum (\<lambda>t'. (if ?P c t' then ?c c t' else 0) XOR (if t' = t then (if c = d then ?c d t else 0) else 0))
          [0..?S - 1]"
      unfolding xsum_filter using mdr_bit_to [OF k(1) d i(1), of c] c i tr
      by (intro xsum_cong refl) auto
    also have "\<dots> = xsum (?c c) (filter (?P c) [0..?S - 1]) XOR (if c = d then ?c d t else 0)"
      unfolding xsum_xor xsum_filter using tr by (simp add: xsum_single)
    finally show "xsum (?c c) (filter (mdr_bit k i c) [0..?S - 1]) = \<dots>" .
  qed
  also have "\<dots> = xsum (\<lambda>c. xsum (?c c) (filter (?P c) [0..?S - 1])) [0..int k] XOR ?c d t"
    unfolding xsum_xor using d by (simp add: xsum_single)
  finally have "?c (n - 1) i = xsum (\<lambda>c. xsum (?c c) (filter (?P c) [0..?S - 1])) [0..int k] XOR ?c d t" .
  then have "xsum (\<lambda>x. ?c (fst x) (snd x)) (mdr1_repair_cells n d (mdr_cells k d i)) = ?c d t"
    unfolding lhs by (simp add: xor.assoc [symmetric])
  then show ?thesis by (simp add: i_def t_def base_def mod_div_mult_eq)
qed

text \<open>A lost disk in an array with both parities.\<close>

definition mdr1_lost :: "nat \<Rightarrow> int \<Rightarrow> int \<Rightarrow> (int \<Rightarrow> byte list) \<Rightarrow> sys \<Rightarrow> bool" where
  "mdr1_lost k m d v s \<longleftrightarrow> stripe_lost m (2 ^ k) (mdr_rel k) d v s \<and>
     q_parity (disk_total_num s) m (disk_block_size s) (2 ^ k) (mdr_rel k) v \<and>
     data_disk_num s = int k \<and> disk_total_num s = int k + 2"

lemma mdr1_lostD:
  assumes "mdr1_lost k m d v s"
  shows "lost_disk m d v s" "disk_status s d = 1" "2 ^ k dvd m"
    "row_parity (disk_total_num s) m (disk_block_size s) v"
    "q_parity (disk_total_num s) m (disk_block_size s) (2 ^ k) (mdr_rel k) v"
    "data_disk_num s = int k" "disk_total_num s = int k + 2" "get_fail_num s = 1"
  using assms get_fail_num_lost [of m d v s] by (auto simp: mdr1_lost_def stripe_lost_def)

lemma mdr1_cells_range:
  assumes "1 \<le> k" "0 \<le> d" "d \<le> int k" "n = int k + 2" "mdr_row k d i"
    and x: "x \<in> set (mdr1_repair_cells n d (mdr_cells k d i))"
  shows "0 \<le> fst x \<and> fst x < n \<and> fst x \<noteq> d \<and> 0 \<le> snd x \<and> snd x < 2 ^ k"
proof -
  have "x \<in> set (concat (map (\<lambda>(i, ivec). if i = d
         then concat (map (\<lambda>t. map (\<lambda>ii. (ii, t)) (filter (\<lambda>ii. ii \<noteq> i) [0..n - 2])) ivec)
         else map (\<lambda>t. (i, t)) ivec)
       (map (\<lambda>j. (j, filter (\<lambda>t. mdr_bit k i j t \<and> mdr_row k d t) [0..2 ^ k - 1])) [0..int k] @
         [(int k + 1, [i])])))"
    using x unfolding mdr1_repair_cells_def mdr_cells_def zip_upto_snoc .
  then show ?thesis
    using assms(2-4) mdr_row_range [OF assms(1-3,5)] by (auto split: if_splits)
qed

lemma block_no_small:
  assumes "0 < bs" "m * bs < 2147483648" "0 \<le> b" "b < (m::int)"
  shows "b < 2147483648"
proof -
  have "b * 1 \<le> b * bs" using assms by (intro mult_left_mono) auto
  moreover have "b * bs + bs \<le> m * bs" by (rule block_addr [OF assms])
  ultimately show ?thesis using assms by linarith
qed

lemma mdr1_decode_ok:
  fixes s :: sys
  defines "n \<equiv> disk_total_num s" and "bs \<equiv> disk_block_size s"
  assumes k: "1 \<le> k" "k \<le> 4" and lost: "mdr1_lost k m d v s" and d: "d < n - 1"
    and ok: "mdr1_ok k d ob" and b: "0 \<le> b" "b < m" and sz: "0 < sz" "sz \<le> bs" "length buf = nat sz"
  shows "\<exists>ob'. mdr1_decode d buf sz (b * bs) ob s =
      Some (sz, take (nat sz) (drop (nat (b * bs)) (v d)), ob', s) \<and> mdr1_ok k d ob'"
proof -
  note l = mdr1_lostD [OF lost, folded n_def bs_def]
  have g: "0 \<le> d" "int (length (v d)) = m * bs" "0 < bs" "m * bs < 2147483648"
    using l(1) d by (auto simp: lost_disk_def list_all_iff n_def bs_def)
  have dk: "0 \<le> d" "d \<le> int k" using g d l(7) by auto
  have S: "0 < (2::int) ^ k" by simp
  have so: "strip_size ob = 2 ^ k" "encoding_matrixB ob = mdr_mat k" using ok by (auto simp: mdr1_ok_def)
  have bn: "b * bs sdiv bs = b" "b sdiv 2 ^ k = b div 2 ^ k" "b smod 2 ^ k = b mod 2 ^ k"
    using b g by simp_all
  have z: "overwrite buf 0 (zeros (nat sz)) = zeros (nat sz)" using sz by (simp add: overwrite_def)
  obtain ob1 where o1: "mdr1_stripe_index d s ob = Some ob1" "mdr1_ok k d ob1"
    "stripeIndex ob1 = filter (mdr_row k d) [0..2 ^ k - 1]"
    using mdr1_stripe_index_ok [OF k dk l(6) ok] by blast
  have so1: "strip_size ob1 = 2 ^ k" using o1(2) by (simp add: mdr1_ok_def)
  have mem: "b mod 2 ^ k \<in> set (stripeIndex ob1) \<longleftrightarrow> mdr_row k d (b mod 2 ^ k)"
    using o1(3) by simp
  have "nat (b * bs) + nat sz \<le> length (v d)" using block_addr [OF g(3,4) b] g sz by linarith
  note bytes = block_bytes [where v = v and d = d, OF this]
  have dec: "mdr1_decode d buf sz (b * bs) ob s = (if mdr_row k d (b mod 2 ^ k) then
        let (t, buf, s) = xor_cells sz (map (\<lambda>i. (i, b * bs)) (filter (\<lambda>i. i \<noteq> d) [0..n - 2]))
          (zeros (nat sz)) (zeros (nat sz)) s in Some (sz, buf, ob1, s)
      else case mdr1_nonstripe_index d s ob1 of None \<Rightarrow> None | Some ob \<Rightarrow>
        let iivec = nonStripeIndex ob (b mod 2 ^ k) in if int (length iivec) \<noteq> n then None else
        let (t, buf, s) = xor_cells sz (map (\<lambda>x. (fst x, i32 (i32 (snd x + b div 2 ^ k * strip_size ob) * bs)))
          (mdr1_repair_cells n d iivec)) (zeros (nat sz)) (zeros (nat sz)) s in Some (sz, buf, ob, s))"
    unfolding mdr1_decode_def Let_def n_def [symmetric] bs_def [symmetric] bn z so mem [symmetric]
    using l(2,8) g(1) d o1(1) by simp
  show ?thesis
  proof (cases "mdr_row k d (b mod 2 ^ k)")
    case True
    have e: "map (\<lambda>i. (i, b * bs)) (filter (\<lambda>i. i \<noteq> d) [0..n - 2]) =
        map (\<lambda>x. (fst x, snd x * bs)) (map (\<lambda>i. (i, b)) (filter (\<lambda>i. i \<noteq> d) [0..n - 2]))" by simp
    let ?xs = "map (\<lambda>i. (i, b)) (filter (\<lambda>i. i \<noteq> d) [0..n - 2])"
    have "\<exists>t. xor_cells sz (map (\<lambda>x. (fst x, snd x * bs)) ?xs) (zeros (nat sz)) (zeros (nat sz)) s =
        (t, map (\<lambda>j. xsum (\<lambda>x. cell v bs (fst x) (snd x) j) ?xs) [0..<nat sz], s)"
      by (rule xor_cells_lost [where s = s, folded bs_def, OF l(1)]) (use b sz in \<open>auto simp: n_def\<close>)
    then obtain t where t: "xor_cells sz (map (\<lambda>i. (i, b * bs)) (filter (\<lambda>i. i \<noteq> d) [0..n - 2]))
        (zeros (nat sz)) (zeros (nat sz)) s =
        (t, map (\<lambda>j. xsum (\<lambda>x. cell v bs (fst x) (snd x) j)
           (map (\<lambda>i. (i, b)) (filter (\<lambda>i. i \<noteq> d) [0..n - 2]))) [0..<nat sz], s)"
      unfolding e by blast
    have "map (\<lambda>j. xsum (\<lambda>x. cell v bs (fst x) (snd x) j)
        (map (\<lambda>i. (i, b)) (filter (\<lambda>i. i \<noteq> d) [0..n - 2]))) [0..<nat sz] =
        map (\<lambda>j. cell v bs d b j) [0..<nat sz]"
      using row_cells_lost [OF l(4) b _ dk(1) d] sz by simp
    note r = t [unfolded this bytes]
    show ?thesis unfolding dec if_P [OF True] r Let_def prod.case using o1(2) by blast
  next
    case False
    let ?t = "b mod 2 ^ k"
    have tr: "0 \<le> ?t" "?t < 2 ^ k" "\<not> mdr_row k d ?t" using False by simp_all
    obtain ob2 where o2: "mdr1_nonstripe_index d s ob1 = Some ob2" "mdr1_ok k d ob2"
      "nonStripeIndex ob2 ?t = mdr_cells k d (mdr_from k d ?t)"
      using mdr1_nonstripe_index_ok [OF k dk l(6) o1(2,3)] tr by blast
    let ?cs = "mdr1_repair_cells n d (mdr_cells k d (mdr_from k d ?t))"
    have so2: "strip_size ob2 = 2 ^ k" using o2(2) by (simp add: mdr1_ok_def)
    have len: "int (length (mdr_cells k d (mdr_from k d ?t))) = n" using l(7) by (simp add: mdr_cells_def)
    note rg = mdr1_cells_range [OF k(1) dk l(7) mdr_from [OF k(1) dk tr, THEN conjunct1]]
    have inr: "0 \<le> snd x + b div 2 ^ k * 2 ^ k \<and> snd x + b div 2 ^ k * 2 ^ k < m" if "x \<in> set ?cs" for x
      using strip_in_range [OF S l(3) b, of "snd x"] rg [OF that] by simp
    have e: "map (\<lambda>x. (fst x, i32 (i32 (snd x + b div 2 ^ k * 2 ^ k) * bs))) ?cs =
        map (\<lambda>x. (fst x, snd x * bs)) (map (\<lambda>x. (fst x, snd x + b div 2 ^ k * 2 ^ k)) ?cs)"
    proof -
      have "i32 (i32 (snd x + b div 2 ^ k * 2 ^ k) * bs) = (snd x + b div 2 ^ k * 2 ^ k) * bs"
        if "x \<in> set ?cs" for x
      proof -
        let ?b = "snd x + b div 2 ^ k * 2 ^ k"
        have "?b < 2147483648" using block_no_small [OF g(3,4)] inr [OF that] by simp
        then have "i32 ?b = ?b" using inr [OF that] by (intro i32_id) auto
        then show ?thesis using block_addr [OF g(3,4), of ?b] inr [OF that] by simp
      qed
      then show ?thesis by simp
    qed
    let ?xs = "map (\<lambda>x. (fst x, snd x + b div 2 ^ k * 2 ^ k)) ?cs"
    have cx: "0 \<le> fst x \<and> fst x < disk_total_num s \<and> fst x \<noteq> d \<and> 0 \<le> snd x \<and> snd x < m"
      if x: "x \<in> set ?xs" for x
    proof -
      obtain y where y: "y \<in> set ?cs" "fst x = fst y" "snd x = snd y + b div 2 ^ k * 2 ^ k"
        using x unfolding set_map by (elim imageE) simp
      show ?thesis using inr [OF y(1)] rg [OF y(1)] unfolding y(2,3) n_def by simp
    qed
    have "\<exists>t. xor_cells sz (map (\<lambda>x. (fst x, snd x * bs)) ?xs) (zeros (nat sz)) (zeros (nat sz)) s =
        (t, map (\<lambda>j. xsum (\<lambda>x. cell v bs (fst x) (snd x) j) ?xs) [0..<nat sz], s)"
      by (rule xor_cells_lost [where s = s, folded bs_def, OF l(1) cx sz(1,2)]) (simp_all add: length_zeros)
    then obtain t where t: "xor_cells sz (map (\<lambda>x. (fst x, i32 (i32 (snd x + b div 2 ^ k * 2 ^ k) * bs))) ?cs)
        (zeros (nat sz)) (zeros (nat sz)) s =
        (t, map (\<lambda>j. xsum (\<lambda>x. cell v bs (fst x) (snd x) j)
           (map (\<lambda>x. (fst x, snd x + b div 2 ^ k * 2 ^ k)) ?cs)) [0..<nat sz], s)"
      unfolding e by blast
    have "map (\<lambda>j. xsum (\<lambda>x. cell v bs (fst x) (snd x) j)
        (map (\<lambda>x. (fst x, snd x + b div 2 ^ k * 2 ^ k)) ?cs)) [0..<nat sz] =
        map (\<lambda>j. cell v bs d b j) [0..<nat sz]"
      using mdr1_repair_sum [OF k(1) l(7) dk l(3) b _ l(4,5) tr(3)] sz by simp
    note r = t [unfolded this bytes]
    show ?thesis
      unfolding dec if_not_P [OF False] o2(1) option.case Let_def o2(3) so2 r prod.case
      using o2(2) len by simp
  qed
qed

section \<open>Correctness\<close>

text \<open>
  C32: MDR keeps both parities: on an array in order with an object for its disks, \<open>encode\<close> stores the
  data in the reported block, changes no other data block, and keeps the sums of the rows and of
  all Q blocks.
\<close>

theorem mdr1_encode_parity:
  fixes s :: sys
  defines "n \<equiv> disk_total_num s" and "bs \<equiv> disk_block_size s"
  assumes inv: "stripe_inv m (2 ^ k) s"
    and q: "q_parity n m bs (2 ^ k) (mdr_rel k) (content s)"
    and k: "1 \<le> k" "k \<le> 4" "data_disk_num s = int k" "n = int k + 2" and ob: "mdr1_ok k d ob"
    and sz: "0 < sz" "sz \<le> bs" "length buf = nat sz"
    and enc: "mdr1_encode buf sz ob s = (r, s')" "bi_disk_id r \<noteq> -1"
  shows "stripe_inv m (2 ^ k) s' \<and> q_parity n m bs (2 ^ k) (mdr_rel k) (content s') \<and>
    block_of s' (bi_disk_id r) (bi_block_no r) sz = buf \<and>
    0 \<le> bi_disk_id r \<and> bi_disk_id r < int k \<and>
    (\<forall>c b j. c < int k \<longrightarrow> (c, b) \<noteq> (bi_disk_id r, bi_block_no r) \<longrightarrow> 0 \<le> b \<longrightarrow> b < m \<longrightarrow>
       j < nat bs \<longrightarrow> cell (content s') bs c b j = cell (content s) bs c b j)"
proof -
  let ?q = "mdr_I_find_q_blocks_id (mdr_mat k) (2 ^ k) (int k)"
  have rs: "round_to_block_size sz s = bs" using sz round_one_block [of s sz] by (simp add: bs_def)
  have w: "sum_widths sz bs bs sz" using sz by (simp add: sum_widths_def)
  have e: "stripe_encode ?q (2 ^ k) bs sz buf sz s = (r, s')"
    using enc(1) ob k(3) by (simp add: mdr1_encode_def rs mdr1_ok_def)
  have fq: "set (?q d j) \<subseteq> set [0..2 ^ k - 1]" for d j by (rule mdr_find_q_set)
  note st = stripe_encode_inv [where s = s, folded n_def bs_def, OF inv fq w sz(3) e enc(2)]
  have n2: "n - 2 = int k" using k by simp
  have d: "0 \<le> bi_disk_id r" "bi_disk_id r < int k" using st(5) n2 by auto
  have j: "0 \<le> bi_block_no r mod 2 ^ k" "bi_block_no r mod 2 ^ k < 2 ^ k" by simp_all
  show ?thesis
    using st(1,5,6) st(7) st(8) [OF q mdr_rel_ok [OF k(4)] mdr_find_q_ok [OF k(1,2,4) d j]] n2
    by auto
qed

theorem mdr1_encode_parity_witness:
  "case mdr1_new (fresh_array 600 4 2 4 4) of None \<Rightarrow> False
   | Some ob \<Rightarrow> stripe_inv 4 4 (snd (mdr1_encode [7, 8, 9] 3 ob (fresh_array 600 4 2 4 4))) \<and>
       block_of (snd (mdr1_encode [7, 8, 9] 3 ob (fresh_array 600 4 2 4 4))) 0 0 3 = [7, 8, 9]"
proof -
  let ?s = "fresh_array 600 4 2 4 4"
  obtain ob where ob: "mdr1_new ?s = Some ob" "mdr1_ok 2 0 ob" using mdr1_new_ok [of 2 ?s 0] by auto
  have i: "stripe_inv 4 (2 ^ 2) ?s" by (simp add: stripe_inv_fresh)
  have q: "q_parity (disk_total_num ?s) 4 (disk_block_size ?s) (2 ^ 2) (mdr_rel 2) (content ?s)"
    using q_parity_fresh [OF mdr_rel_ok [of 4 2]] by simp
  have e: "mdr1_encode [7, 8, 9] 3 ob ?s =
      (\<lparr>bi_disk_id = 0, bi_block_no = 0\<rparr>, snd (mdr1_encode [7, 8, 9] 3 ob ?s))"
    by (simp add: mdr1_encode_def stripe_encode_def round_to_block_size_def pick_striped_def
        pick_step_def or_space_list_def stripe_count_def put_free_offset_def put_free_size_def
        upto.simps Let_def split: prod.splits)
  show ?thesis
    using mdr1_encode_parity [OF i q _ _ _ _ ob(2) _ _ _ e] ob(1) by simp
qed

text \<open>
  C33: MDR survives the loss of a data disk or of P: \<open>decode\<close> of a block gives what the lost disk held,
  from the rows that are read or through the Q block that belongs to the row, and the lists it keeps
  stay those of the lost disk.
\<close>

theorem mdr1_degraded_read:
  fixes s :: sys
  defines "n \<equiv> disk_total_num s" and "bs \<equiv> disk_block_size s"
  assumes inv: "stripe_inv m (2 ^ k) s"
    and q: "q_parity n m bs (2 ^ k) (mdr_rel k) (content s)"
    and k: "1 \<le> k" "k \<le> 4" "data_disk_num s = int k" "n = int k + 2" and ob: "mdr1_ok k f ob"
    and f: "0 \<le> f" "f < n - 1" and b: "0 \<le> b" "b < m" and sz: "0 < sz" "sz \<le> bs" "length buf = nat sz"
  shows "\<exists>ob'. mdr1_decode f buf sz (b * bs) ob (fail_disk f s) =
      Some (sz, block_of s f b sz, ob', fail_disk f s) \<and> mdr1_ok k f ob'"
proof -
  have l: "stripe_lost m (2 ^ k) (mdr_rel k) f (content s) (fail_disk f s)"
    and e: "disk_total_num (fail_disk f s) = n" "disk_block_size (fail_disk f s) = bs"
    "data_disk_num (fail_disk f s) = int k"
    using stripe_lost_fail [OF inv mdr_rel_ok [OF k(4) [unfolded n_def]] _ f(1)] f k(3) q
    by (auto simp: n_def bs_def)
  have "mdr1_lost k m f (content s) (fail_disk f s)"
    using l e q k(4) by (simp add: mdr1_lost_def)
  from mdr1_decode_ok [OF k(1,2) this, unfolded e, OF f(2) ob b sz] show ?thesis
    by (simp add: block_of_def bs_def)
qed

theorem mdr1_degraded_read_witness:
  "case mdr1_new (fresh_array 600 4 2 4 4) of None \<Rightarrow> False
   | Some ob \<Rightarrow> map_option (\<lambda>r. fst (snd r))
       (mdr1_decode 1 [1, 1] 2 12 ob (fail_disk 1 (fresh_array 600 4 2 4 4))) =
       Some (block_of (fresh_array 600 4 2 4 4) 1 3 2)"
proof -
  let ?s = "fresh_array 600 4 2 4 4"
  obtain ob where ob: "mdr1_new ?s = Some ob" "mdr1_ok 2 1 ob" using mdr1_new_ok [of 2 ?s 1] by auto
  have i: "stripe_inv 4 (2 ^ 2) ?s" by (simp add: stripe_inv_fresh)
  have q: "q_parity (disk_total_num ?s) 4 (disk_block_size ?s) (2 ^ 2) (mdr_rel 2) (content ?s)"
    using q_parity_fresh [OF mdr_rel_ok [of 4 2]] by simp
  show ?thesis
    using mdr1_degraded_read [OF i q _ _ _ _ ob(2), of 3 2 "[1, 1]"] ob(1) by auto
qed

section \<open>Recovery\<close>

text \<open>The disks as the loop of \<open>recover\<close> sees them, beside the object.\<close>

definition mdr1_rd :: "int \<Rightarrow> byte list \<Rightarrow> int \<Rightarrow> int \<Rightarrow> (mdr1 \<times> sys) option \<Rightarrow>
    int \<times> byte list \<times> (mdr1 \<times> sys) option" where
  "mdr1_rd disk_id buf sz offset st = (case st of None \<Rightarrow> (0, buf, None)
     | Some (ob, s) \<Rightarrow> (let (retstat, buf, s) = nc_readDisk disk_id buf sz offset s
         in (retstat, buf, Some (ob, s))))"

definition mdr1_content :: "(mdr1 \<times> sys) option \<Rightarrow> int \<Rightarrow> byte list" where
  "mdr1_content st = (case st of None \<Rightarrow> (\<lambda>_. []) | Some (ob, s) \<Rightarrow> content s)"

definition mdr1_frame :: "(mdr1 \<times> sys) option \<Rightarrow> (mdr1 \<times> sys) option" where
  "mdr1_frame st = map_option (\<lambda>(ob, s). (\<lparr>encoding_matrixB = mdr_base, strip_size = 0,
     dpDisk_fail_bool_m = False, dpDisk_fail_bool_v = False, qDisk_fail_bool = False,
     nonStripeIndex = (\<lambda>_. []), qStripeIndex = (\<lambda>_. []), stripeIndex = []\<rparr>, frame s)) st"

text \<open>
  What the loop leaves on the replacement \<open>d\<close>: the bytes \<open>v\<close> that complete both parities, or, for the
  Q disk, zeros.
\<close>

definition mdr1_rebuilding :: "nat \<Rightarrow> int \<Rightarrow> int \<Rightarrow> int \<Rightarrow> byte list \<Rightarrow> (mdr1 \<times> sys) option \<Rightarrow> bool" where
  "mdr1_rebuilding k m bs d v st \<longleftrightarrow> (case st of None \<Rightarrow> False
     | Some (ob, s) \<Rightarrow> bs = disk_block_size s \<and> int (length (content s d)) = m * bs \<and>
         mdr1_ok k d ob \<and> 1 \<le> k \<and> k \<le> 4 \<and> data_disk_num s = int k \<and> disk_total_num s = int k + 2 \<and>
         (if d = disk_total_num s - 1
          then lost_disk m d ((content s)(d := v)) s \<and> disk_status s d = 1 \<and> v = zeros (nat (m * bs))
          else mdr1_lost k m d ((content s)(d := v)) s))"

text \<open>A read of the lost Q disk: nothing is repaired, and the result is the cleared buffer.\<close>

lemma mdr1_decode_q:
  assumes l: "lost_disk m d v s" "disk_status s d = 1" and d: "d = disk_total_num s - 1"
    and b: "length buf = nat sz"
  shows "mdr1_decode d buf sz off ob s = Some (sz, zeros (nat sz), ob, s)"
  using l d b get_fail_num_lost [OF l] by (simp add: mdr1_decode_def Let_def overwrite_def)

lemma mdr1_rebuilding_lost:
  assumes "mdr1_rebuilding k m bs d v (Some (ob, s))"
  shows "lost_disk m d ((content s)(d := v)) s" "disk_status s d = 1" "bs = disk_block_size s"
    "0 < bs \<and> m * bs < 2147483648 \<and> int (length v) = m * bs \<and> int (length (content s d)) = m * bs"
proof -
  show l: "lost_disk m d ((content s)(d := v)) s" "disk_status s d = 1" and bs: "bs = disk_block_size s"
    using assms mdr1_lostD(1,2) [of k m d "(content s)(d := v)" s]
    by (auto simp: mdr1_rebuilding_def split: if_splits)
  show "0 < bs \<and> m * bs < 2147483648 \<and> int (length v) = m * bs \<and>
      int (length (content s d)) = m * bs"
  proof -
    have "int (length (content s d)) = m * bs" using assms by (simp add: mdr1_rebuilding_def)
    moreover have "0 < bs \<and> m * bs < 2147483648 \<and> int (length (((content s)(d := v)) d)) = m * bs"
      using l bs unfolding lost_disk_def list_all_iff by (auto dest!: bspec [of _ _ d])
    ultimately show ?thesis by simp
  qed
qed

lemma mdr1_rebuilding_write:
  assumes l: "mdr1_rebuilding k m bs d v (Some (ob, s))" and i: "0 \<le> i" "i < m"
    and b: "length buf = nat bs"
  shows "mdr1_rebuilding k m bs d v (Some (ob, snd (nc_writeDisk d buf bs (i * bs) s)))"
proof -
  note r = mdr1_rebuilding_lost [OF l]
  have a: "0 \<le> i * bs" "i * bs + bs \<le> m * bs" using block_addr [of bs m i] r(4) i by auto
  define t where "t = snd (nc_writeDisk d buf bs (i * bs) s)"
  have f: "frame t = frame s" and c: "content t =
      (content s)(d := overwrite (content s d) (nat (i * bs)) (take (nat bs) buf))"
    and tl: "length (content t d) = length (content s d)"
    using nc.wr_rest [of bs "i * bs" s d buf] nc.wr_cnt [of bs "i * bs" s d buf]
      nc.wr_len [of bs "i * bs" s d buf d] a r(4) b by (auto simp: t_def)
  have cv: "(content t)(d := v) = (content s)(d := v)" using c by simp
  have ll: "lost_disk m d ((content s)(d := v)) t" if "lost_disk m d ((content s)(d := v)) s"
    using that c by (auto simp: lost_disk_def frame_eqD(1,3,7,10) [OF f] list_all_iff)
  have "mdr1_lost k m d ((content s)(d := v)) t" if "mdr1_lost k m d ((content s)(d := v)) s"
    using stripe_lost_write [of m "2 ^ k" "mdr_rel k" d s v, OF _ f c] that cv
    by (auto simp: mdr1_lost_def frame_eqD(1,2,3) [OF f])
  then show ?thesis
    using l ll tl unfolding t_def [symmetric] mdr1_rebuilding_def option.case prod.case cv
      frame_eqD(1,2,3,10) [OF f]
    by (metis (no_types))
qed

interpretation md: block_rebuild mdr1_rd mdr1_wr mdr1_content mdr1_frame mdr1_dec "mdr1_rebuilding k"
  for k
proof
  fix n off d and st :: "(mdr1 \<times> sys) option" and buf :: "byte list"
  assume a: "0 < n" "0 \<le> off" "off + n \<le> int (length (mdr1_content st d))"
  then obtain ob s where st: "st = Some (ob, s)"
    by (cases st) (auto simp: mdr1_content_def)
  have a': "0 < n" "0 \<le> off" "off + n \<le> int (length (content s d))"
    using a by (simp_all add: st mdr1_content_def)
  show "mdr1_rd d buf n off st =
      (n, overwrite buf 0 (take (nat n) (drop (nat off) (mdr1_content st d))), st)"
    using nc.rd_law [OF a', of buf] by (simp add: st mdr1_rd_def mdr1_content_def)
  assume b: "nat n \<le> length buf"
  show "fst (mdr1_wr d buf n off st) = n"
    and "mdr1_content (snd (mdr1_wr d buf n off st)) =
      (mdr1_content st)(d := overwrite (mdr1_content st d) (nat off) (take (nat n) buf))"
    and "mdr1_frame (snd (mdr1_wr d buf n off st)) = mdr1_frame st"
    using nc.wr_ret [OF a' b] nc.wr_cnt [OF a' b] nc.wr_rest [OF a' b]
    by (cases "nc_writeDisk d buf n off s"; simp add: st mdr1_wr_def mdr1_content_def mdr1_frame_def)+
next
  fix m bs d i v and st :: "(mdr1 \<times> sys) option" and buf :: "byte list"
  assume l: "mdr1_rebuilding k m bs d v st"
  then obtain ob s where st: "st = Some (ob, s)"
    by (cases st) (auto simp: mdr1_rebuilding_def)
  note r = mdr1_rebuilding_lost [OF l [unfolded st]]
  show "0 < bs \<and> m * bs < 2147483648 \<and> int (length v) = m * bs \<and>
      int (length (mdr1_content st d)) = m * bs"
    using r(4) by (simp add: st mdr1_content_def)
  assume i: "0 \<le> i" "i < m" and b: "length buf = nat bs"
  have l': "mdr1_ok k d ob" "1 \<le> k" "k \<le> 4" "disk_total_num s = int k + 2"
    using l by (simp_all add: st mdr1_rebuilding_def)
  obtain ob' where o': "mdr1_decode d buf bs (i * bs) ob s =
      Some (bs, take (nat bs) (drop (nat (i * bs)) v), ob', s)" "mdr1_ok k d ob'"
  proof (cases "d = disk_total_num s - 1")
    case True
    then have v: "v = zeros (nat (m * bs))" using l by (simp add: st mdr1_rebuilding_def)
    have "nat (i * bs) + nat bs \<le> nat (m * bs)"
      using block_addr [of bs m i] r(4) i by linarith
    then have "take (nat bs) (drop (nat (i * bs)) v) = zeros (nat bs)"
      by (simp add: v zeros_def min_def)
    then show ?thesis using mdr1_decode_q [OF r(1,2) True b] l'(1) that by simp
  next
    case False
    then have ml: "mdr1_lost k m d ((content s)(d := v)) s" using l
      by (simp add: st mdr1_rebuilding_def)
    have "d < disk_total_num s - 1" using False r(1) by (auto simp: lost_disk_def)
    from mdr1_decode_ok [OF l'(2,3) ml this l'(1) i, of bs buf] r(3,4) b that show ?thesis by auto
  qed
  have "mdr1_rebuilding k m bs d v (Some (ob', s))"
    using l o'(2) unfolding st mdr1_rebuilding_def option.case prod.case by blast
  then show "\<exists>t. mdr1_dec d buf bs (i * bs) st = (bs, take (nat bs) (drop (nat (i * bs)) v), t) \<and>
      mdr1_content t = mdr1_content st \<and> mdr1_frame t = mdr1_frame st \<and> mdr1_rebuilding k m bs d v t"
    using o'(1) by (auto simp: st mdr1_dec_def mdr1_content_def mdr1_frame_def)
  show "mdr1_rebuilding k m bs d v (snd (mdr1_wr d buf bs (i * bs) st))"
    using mdr1_rebuilding_write [OF l [unfolded st] i b]
    by (cases "nc_writeDisk d buf bs (i * bs) s") (simp add: st mdr1_wr_def)
qed

lemma mdr1_recover_eq:
  assumes l: "mdr1_rebuilding k (disk_size s d) (disk_block_size s) d v (Some (ob, s))"
    and m: "0 \<le> disk_size s d"
  shows "\<exists>ob' s'. mdr1_recover d ob s = Some (0, ob', s') \<and> content s' = (content s)(d := v)"
proof -
  have bs: "0 < disk_block_size s" using mdr1_rebuilding_lost(4) [OF l] by simp
  let ?r = "rebuild_blocks mdr1_dec mdr1_wr (\<lambda>b. overwrite b 0 (zeros (nat (disk_block_size s)))) d
      (disk_block_size s) [0..disk_size s d - 1] (malloc (heap_junk s) (nat (disk_block_size s)))
      (Some (ob, s))"
  have c: "mdr1_content ?r = (content s)(d := v)" and f: "mdr1_frame ?r = mdr1_frame (Some (ob, s))"
    using md.rebuild_all [OF l m, of "\<lambda>b. overwrite b 0 (zeros (nat (disk_block_size s)))"
        "malloc (heap_junk s) (nat (disk_block_size s))"] bs
    by (simp_all add: mdr1_content_def)
  obtain ob' s' where "?r = Some (ob', s')"
    using f by (cases ?r) (auto simp: mdr1_frame_def)
  then show ?thesis using c by (simp add: mdr1_recover_def Let_def mdr1_content_def)
qed

text \<open>
  Recovery of MDR rebuilds a data disk or P on its replacement, changes no
  other disk, does not exit, and reports success.
\<close>

theorem mdr1_recover_ok:
  assumes k: "1 \<le> k" "k \<le> 4" and ob: "mdr1_ok k d ob"
    and lost: "mdr1_lost k (disk_size s d) d ((content s)(d := v)) s"
    and d: "d < disk_total_num s - 1" and m: "0 \<le> disk_size s d"
    and len: "int (length (content s d)) = disk_size s d * disk_block_size s"
  shows "\<exists>ob' s'. mdr1_recover d ob s = Some (0, ob', s') \<and> content s' = (content s)(d := v)"
  using k ob lost d len mdr1_lostD(6,7) [OF lost]
  by (intro mdr1_recover_eq [where k = k] m) (simp add: mdr1_rebuilding_def)

theorem mdr1_recover_ok_witness:
  "case mdr1_new (fresh_array 600 4 2 4 4) of None \<Rightarrow> False
   | Some ob \<Rightarrow> map_option (\<lambda>r. content (snd (snd r)) 2)
       (mdr1_recover 2 ob ((fresh_array 600 4 2 4 4)\<lparr>disk_status := (\<lambda>i. if i = 2 then 1 else 0)\<rparr>)) =
       Some (zeros 16)"
proof -
  let ?f = "fresh_array 600 4 2 4 4"
  let ?s = "?f\<lparr>disk_status := (\<lambda>i. if i = 2 then 1 else 0)\<rparr>"
  obtain ob where ob: "mdr1_new ?f = Some ob" "mdr1_ok 2 2 ob" using mdr1_new_ok [of 2 ?f 2] by auto
  have c: "content ?s = content ?f" by (rule content_cong) simp_all
  have v: "(content ?s)(2 := zeros 16) = content ?f"
    using c content_fresh [of 2 4 600 2 4 4] by (simp add: fun_eq_iff)
  have r: "row_parity 4 4 4 (content ?f)"
    using stripe_inv_fresh [of 4 4 4 4 600 2] by (simp add: stripe_inv_def)
  have q: "q_parity 4 4 4 (2 ^ 2) (mdr_rel 2) (content ?f)"
    by (rule q_parity_fresh) (use mdr_rel_ok [of 4 2] in auto)
  have "mdr1_lost 2 (disk_size ?s 2) 2 ((content ?s)(2 := zeros 16)) ?s"
    unfolding v mdr1_lost_def stripe_lost_def using r q mdr_rel_ok [of 4 2]
    by (simp add: lost_disk_def list_all_iff content_fresh c)
  then show ?thesis
    using mdr1_recover_ok [of 2 2 ob ?s "zeros 16"] ob content_fresh [of 2 4 600 2 4 4]
    by (auto simp: c)
qed

text \<open>
  C35: The Q disk of MDR is not recovered: for a lost Q disk \<open>decode\<close> reads nothing, so that \<open>recover\<close>
  fills the replacement with zeros, and reports success.
\<close>

theorem mdr1_recover_q_zeros:
  assumes k: "1 \<le> k" "k \<le> 4" "data_disk_num s = int k" "disk_total_num s = int k + 2"
    and ob: "mdr1_ok k d ob" and d: "d = disk_total_num s - 1" "disk_status s d = 1"
    and m: "m = disk_size s d" "0 \<le> m"
    and lost: "lost_disk m d ((content s)(d := zeros (nat (m * disk_block_size s)))) s"
    and len: "int (length (content s d)) = m * disk_block_size s"
  shows "\<exists>ob' s'. mdr1_recover d ob s = Some (0, ob', s') \<and>
    content s' = (content s)(d := zeros (nat (m * disk_block_size s)))"
  using assms by (intro mdr1_recover_eq [where k = k]) (simp_all add: mdr1_rebuilding_def)

theorem mdr1_recover_q_zeros_witness:
  "case mdr1_new (fresh_array 600 4 2 4 4) of None \<Rightarrow> False
   | Some ob \<Rightarrow> map_option (\<lambda>r. content (snd (snd r)) 3)
       (mdr1_recover 3 ob ((fresh_array 600 4 2 4 4)\<lparr>disk_status := (\<lambda>i. if i = 3 then 1 else 0)\<rparr>)) =
       Some (zeros 16)"
proof -
  let ?f = "fresh_array 600 4 2 4 4"
  let ?s = "?f\<lparr>disk_status := (\<lambda>i. if i = 3 then 1 else 0)\<rparr>"
  obtain ob where ob: "mdr1_new ?f = Some ob" "mdr1_ok 2 3 ob" using mdr1_new_ok [of 2 ?f 3] by auto
  have c: "content ?s = content ?f" by (rule content_cong) simp_all
  have l: "lost_disk 4 3 ((content ?s)(3 := zeros (nat (4 * disk_block_size ?s)))) ?s"
    by (simp add: lost_disk_def list_all_iff content_fresh c)
  then show ?thesis
    using mdr1_recover_q_zeros [of 2 ?s 3 ob 4] ob content_fresh [of 3 4 600 2 4 4]
    by (auto simp: c)
qed

end
