(* ===== verification/Gf256.thy ===== *)
theory Gf256
  imports StripeCode
begin

text \<open>
  The arithmetic of RAID 6 (\<open>coding_raid6.cc\<close>, the same in \<open>coding_raid6_noRotate.cc\<close>): the field with
  256 elements, by tables of logarithms that the constructor fills.
\<close>

section \<open>The tables\<close>

record gf =
  gflog :: "int \<Rightarrow> int"
  gfilog :: "int \<Rightarrow> int"

definition prim_poly_8 :: int where "prim_poly_8 = 285"

definition field_power :: int where "field_power = 8"

text \<open>One round of the loop of \<open>gf_gen_tables\<close>; \<open>b\<close> is an \<open>unsigned int\<close>.\<close>

definition gf_step :: "int \<Rightarrow> int \<times> gf \<Rightarrow> int \<Rightarrow> int \<times> gf" where
  "gf_step gf_elements bT index =
     (let b = fst bT; T = snd bT;
          T = T\<lparr>gflog := (gflog T)(b := index mod 256)\<rparr>;
          T = T\<lparr>gfilog := (gfilog T)(index := b mod 256)\<rparr>;
          b = (2 * b) mod 4294967296;
          b = (if b AND gf_elements \<noteq> 0 then b XOR prim_poly_8 else b)
      in (b, T))"

text \<open>\<open>junk\<close> are the contents of the tables as they are allocated.\<close>

definition gf_gen_tables :: "gf \<Rightarrow> int \<Rightarrow> gf" where
  "gf_gen_tables junk s =
     (let gf_elements = shl1 s
      in snd (foldl (gf_step gf_elements) (1, junk) [0..gf_elements - 2]))"

definition gf_mul :: "gf \<Rightarrow> int \<Rightarrow> int \<Rightarrow> int \<Rightarrow> int" where
  "gf_mul T a b s =
     (if a = 0 \<or> b = 0 then 0
      else let field_max = shl1 s - 1;
               sum = gflog T a + gflog T b;
               sum = sum mod field_max
           in gfilog T sum)"

definition gf_div :: "gf \<Rightarrow> int \<Rightarrow> int \<Rightarrow> int \<Rightarrow> int" where
  "gf_div T a b s =
     (if a = 0 then 0
      else let field_max = shl1 s - 1;
               diff = gflog T a - gflog T b;
               diff = (if diff < 0 then diff + field_max else diff)
           in gfilog T diff)"

definition gf_get_coefficient :: "int \<Rightarrow> int \<Rightarrow> int" where
  "gf_get_coefficient value s = shl1 value"

section \<open>The field\<close>

text \<open>Multiplication by the generator, its powers, and the multiplication they give.\<close>

definition xtime :: "byte \<Rightarrow> byte" where
  "xtime w = push_bit 1 w XOR (if bit w 7 then 29 else 0)"

definition gpow :: "nat \<Rightarrow> byte" where "gpow i = (xtime ^^ i) 1"

fun iterates :: "nat \<Rightarrow> int \<Rightarrow> int list" where
  "iterates 0 b = []"
| "iterates (Suc n) b = b # iterates n (let c = 2 * b in if 256 \<le> c then c XOR 285 else c)"

lemma iterates_distinct: "distinct (iterates 255 1)"
  by code_simp

lemma gpow_Suc: "gpow (Suc i) = xtime (gpow i)"
  by (simp add: gpow_def)

lemma gpow_0: "gpow 0 = 1"
  by (simp add: gpow_def)

lemma xtime_xor: "xtime (a XOR b) = xtime a XOR xtime b"
  by (rule bit_eqI) (auto simp: xtime_def bit_simps)

lemma xtime_0: "xtime 0 = 0"
  by (simp add: xtime_def)

lemma xtime_pow_xor: "(xtime ^^ n) (a XOR b) = (xtime ^^ n) a XOR (xtime ^^ n) b"
  by (induction n) (simp_all add: xtime_xor)

lemma xtime_pow_0: "(xtime ^^ n) 0 = 0"
  by (induction n) (simp_all add: xtime_0)

lemma gpow_add: "gpow (i + j) = (xtime ^^ i) (gpow j)"
  by (simp add: gpow_def funpow_add)

text \<open>The integers of the loop are the powers of the generator.\<close>

lemma step_range:
  assumes "0 \<le> b" "b < 256"
  shows "(let c = 2 * b in if 256 \<le> c then c XOR 285 else c) = uint (xtime (word_of_int b))"
proof -
  have "list_all (\<lambda>b. (let c = 2 * b in if 256 \<le> c then c XOR 285 else c) =
      uint (xtime (word_of_int b))) [0..255]"
    by code_simp
  then show ?thesis using assms by (simp add: list_all_iff)
qed

lemma step_and:
  fixes b :: int
  assumes "0 \<le> b" "b < 256"
  shows "(2 * b) AND 256 \<noteq> 0 \<longleftrightarrow> 256 \<le> 2 * b"
proof -
  have "list_all (\<lambda>b. ((2 * b) AND 256 \<noteq> 0) = (256 \<le> 2 * b)) [0..(255::int)]"
    by code_simp
  then show ?thesis using assms by (simp add: list_all_iff)
qed

lemma uint_byte: "0 \<le> uint (w :: byte)" "uint (w :: byte) < 256"
  using uint_lt2p [of w] by simp_all

lemma iterates_gpow: "iterates n (uint (gpow i)) = map (\<lambda>j. uint (gpow (i + j))) [0..<n]"
proof (induction n arbitrary: i)
  case 0
  then show ?case by simp
next
  case (Suc n)
  have "(let c = 2 * uint (gpow i) in if 256 \<le> c then c XOR 285 else c) = uint (gpow (Suc i))"
    using step_range [OF uint_byte, of "gpow i"] by (simp add: gpow_Suc)
  then show ?case using Suc [of "Suc i"] by (simp only: iterates.simps map_upt_Suc) simp
qed

lemma gpow_inj: "i < 255 \<Longrightarrow> j < 255 \<Longrightarrow> gpow i = gpow j \<Longrightarrow> i = j"
proof -
  assume a: "i < 255" "j < 255" "gpow i = gpow j"
  have "distinct (map (\<lambda>j. uint (gpow j)) [0..<255])"
    using iterates_distinct iterates_gpow [of 255 0] by (simp add: gpow_0)
  then show "i = j" using a by (auto simp: distinct_map inj_on_def)
qed

lemma gpow_255: "gpow 255 = 1"
proof -
  have "last (iterates 256 1) = 1" by code_simp
  then show ?thesis
    using iterates_gpow [of 256 0] word_uint_eq_iff [of "gpow 255" 1] by (simp add: gpow_0 last_map)
qed

lemma gpow_mod: "gpow (i mod 255) = gpow i"
proof -
  have r: "gpow (j + 255) = gpow j" for j
    by (simp only: gpow_add gpow_255) (simp add: gpow_def)
  have p: "gpow (255 * k + j) = gpow j" for k j
  proof (induction k)
    case (Suc k)
    then show ?case using r [of "255 * k + j"] by (simp add: algebra_simps)
  qed simp
  show ?thesis using p [of "i div 255" "i mod 255"] by simp
qed

text \<open>Every byte but zero is a power: there are 255 of them, all different and none of them zero.\<close>

lemma gpow_nonzero: "gpow i \<noteq> 0"
proof
  assume "gpow i = 0"
  then have "gpow (255 * i - i + i) = 0"
    using gpow_add [of "255 * i - i" i] by (simp add: xtime_pow_0)
  then have "gpow (255 * i) = 0" by simp
  then show False using gpow_mod [of "255 * i"] by (simp add: gpow_0)
qed

lemma gpow_surj: "x \<noteq> 0 \<Longrightarrow> \<exists>i < 255. gpow i = x"
proof -
  assume x: "x \<noteq> 0"
  have fin: "finite (UNIV :: byte set)" by simp
  have card: "card (UNIV - {0 :: byte}) = 255"
    by (simp add: card_Diff_singleton card_word)
  have inj: "inj_on gpow {..<255}" using gpow_inj by (auto simp: inj_on_def)
  have im: "gpow ` {..<255} = UNIV - {0}"
  proof (rule card_subset_eq)
    show "finite (UNIV - {0 :: byte})" by simp
    show "gpow ` {..<255} \<subseteq> UNIV - {0}" using gpow_nonzero by auto
    show "card (gpow ` {..<255}) = card (UNIV - {0 :: byte})"
      unfolding card_image [OF inj] card by (rule card_lessThan)
  qed
  have "x \<in> gpow ` {..<255}" unfolding im using x by simp
  then show ?thesis by (elim imageE) blast
qed

definition glog :: "byte \<Rightarrow> nat" where
  "glog x = length (takeWhile (\<lambda>i. gpow i \<noteq> x) [0..<255])"

lemma glog: "x \<noteq> 0 \<Longrightarrow> gpow (glog x) = x \<and> glog x < 255"
proof -
  assume "x \<noteq> 0"
  then obtain i where i: "i < 255" "gpow i = x" using gpow_surj by blast
  have "takeWhile (\<lambda>i. gpow i \<noteq> x) [0..<255] = [0..<i]"
  proof -
    have e: "[0..<255] = [0..<i] @ i # [Suc i..<255]"
      using i(1) upt_add_eq_append [of 0 i "255 - i"] upt_conv_Cons [of i 255] by simp
    have "gpow j \<noteq> x" if "j < i" for j
      using gpow_inj [of j i] that i by auto
    then show ?thesis unfolding e using i by (subst takeWhile_append2) auto
  qed
  then show ?thesis using i by (simp add: glog_def)
qed

lemma glog_gpow: "i < 255 \<Longrightarrow> glog (gpow i) = i"
  using gpow_inj glog [OF gpow_nonzero, of i] by blast

text \<open>The product, defined by the logarithm of the first factor.\<close>

definition gmul :: "byte \<Rightarrow> byte \<Rightarrow> byte" where
  "gmul a b = (if a = 0 then 0 else (xtime ^^ glog a) b)"

definition gdiv :: "byte \<Rightarrow> byte \<Rightarrow> byte" where
  "gdiv a b = (if a = 0 then 0 else gpow (glog a + (255 - glog b)))"

lemma gmul_xor: "gmul a (b XOR c) = gmul a b XOR gmul a c"
  by (simp add: gmul_def xtime_pow_xor)

lemma gmul_0: "gmul a 0 = 0" "gmul 0 a = 0"
  by (simp_all add: gmul_def xtime_pow_0)

lemma gmul_gpow: "a \<noteq> 0 \<Longrightarrow> b \<noteq> 0 \<Longrightarrow> gmul a b = gpow (glog a + glog b)"
  using glog [of b] by (simp add: gmul_def gpow_add)

lemma gmul_nonzero: "a \<noteq> 0 \<Longrightarrow> b \<noteq> 0 \<Longrightarrow> gmul a b \<noteq> 0"
  by (simp add: gmul_gpow gpow_nonzero)

lemma gmul_commute: "gmul a b = gmul b a"
  by (cases "a = 0"; cases "b = 0") (simp_all add: gmul_0 gmul_gpow add.commute)

lemma gmul_xor_left: "gmul (a XOR b) c = gmul a c XOR gmul b c"
  by (simp add: gmul_commute [of _ c] gmul_xor)

lemma gdiv_gmul: "c \<noteq> 0 \<Longrightarrow> gdiv (gmul c x) c = x"
proof (cases "x = 0")
  case False
  assume c: "c \<noteq> 0"
  have l: "glog c < 255" "glog x < 255" using glog c False by auto
  have g: "gmul c x = gpow ((glog c + glog x) mod 255)" using c False by (simp add: gmul_gpow gpow_mod)
  have e: "((glog c + glog x) mod 255 + (255 - glog c)) mod 255 = glog x"
  proof -
    have "((glog c + glog x) mod 255 + (255 - glog c)) mod 255 =
        (glog c + glog x + (255 - glog c)) mod 255" by (rule mod_add_left_eq)
    also have "glog c + glog x + (255 - glog c) = glog x + 255" using l by simp
    finally show ?thesis using l by simp
  qed
  have "gdiv (gmul c x) c = gpow ((glog c + glog x) mod 255 + (255 - glog c))"
    using gmul_nonzero [OF c False] by (simp add: gdiv_def g glog_gpow)
  also have "\<dots> = x"
    using gpow_mod [of "(glog c + glog x) mod 255 + (255 - glog c)"] glog [OF False] by (simp only: e)
  finally show ?thesis .
qed (simp add: gmul_0 gdiv_def)

lemma gdiv_gmul_right: "c \<noteq> 0 \<Longrightarrow> gdiv (gmul x c) c = x"
  by (simp add: gmul_commute [of x] gdiv_gmul)

lemma gmul_gdiv: "c \<noteq> 0 \<Longrightarrow> gmul c (gdiv y c) = y"
proof -
  assume c: "c \<noteq> 0"
  have "inj (gmul c)" using gdiv_gmul [OF c] by (metis injI)
  then have "surj (gmul c)" by (simp add: finite_UNIV_inj_surj)
  then obtain z where z: "y = gmul c z" by (metis surjD)
  show ?thesis unfolding z gdiv_gmul [OF c] ..
qed

text \<open>Dividing by the wrong coefficient gives the right value for zero only.\<close>

lemma gdiv_gmul_iff:
  assumes "c \<noteq> 0"
  shows "gdiv (gmul x g) c = x \<longleftrightarrow> x = 0 \<or> g = c"
proof
  assume "gdiv (gmul x g) c = x"
  then have "gmul x g = gmul x c" using gmul_gdiv [OF assms, of "gmul x g"] gmul_commute [of c x] by simp
  then have "gmul x (g XOR c) = 0" by (simp add: gmul_xor)
  then have "x = 0 \<or> g XOR c = 0" using gmul_nonzero by blast
  then show "x = 0 \<or> g = c" by (simp add: xor_eq_iff)
next
  assume "x = 0 \<or> g = c"
  then show "gdiv (gmul x g) c = x" using gdiv_gmul_right [OF assms, of x] by (auto simp: gmul_0 gdiv_def [of 0])
qed

section \<open>The tables hold the field\<close>

lemma gf_step_foldl:
  assumes "n \<le> 255"
  shows "foldl (gf_step 256) (1, junk) [0..int n - 1] =
    (uint (gpow n), \<lparr>gflog = (\<lambda>x. if \<exists>i < n. x = uint (gpow i) then int (glog (word_of_int x)) else gflog junk x),
       gfilog = (\<lambda>i. if 0 \<le> i \<and> i < int n then uint (gpow (nat i)) else gfilog junk i)\<rparr>)"
  using assms
proof (induction n)
  case 0
  then show ?case by (cases junk) (auto simp: gpow_0 fun_eq_iff)
next
  case (Suc n)
  have s: "[0..int (Suc n) - 1] = [0..int n - 1] @ [int n]" by (subst upto_rec2) auto
  have b: "uint (gpow n) mod 256 = uint (gpow n)" "(2 * uint (gpow n)) mod 4294967296 = 2 * uint (gpow n)"
    using uint_byte [of "gpow n"] by simp_all
  have nx: "(if 2 * uint (gpow n) AND 256 \<noteq> 0 then 2 * uint (gpow n) XOR prim_poly_8
      else 2 * uint (gpow n)) = uint (gpow (Suc n))"
    using step_and [OF uint_byte, of "gpow n"] step_range [OF uint_byte, of "gpow n"]
    by (simp add: prim_poly_8_def gpow_Suc Let_def split: if_splits)
  have l: "int n mod 256 = int (glog (gpow n))" using Suc.prems by (simp add: glog_gpow)
  show ?case
    unfolding s foldl_append foldl.simps using Suc
    by (simp only: Suc.IH [OF Suc_leD [OF Suc.prems]] gf_step_def Let_def fst_conv snd_conv b nx l)
      (auto simp: fun_eq_iff less_Suc_eq)
qed

definition gf_ok :: "gf \<Rightarrow> bool" where
  "gf_ok T \<longleftrightarrow> list_all (\<lambda>i. gflog T (uint (gpow i)) = int i \<and> gfilog T (int i) = uint (gpow i)) [0..<255]"

lemma gf_gen_tables_ok: "gf_ok (gf_gen_tables junk field_power)"
proof -
  have g: "shl1 8 = 256" by (simp add: shl1_small)
  have u: "[0..256 - 2] = [0..int 255 - 1]" by simp
  show ?thesis
    unfolding gf_gen_tables_def field_power_def g Let_def u gf_step_foldl [OF order_refl]
    by (auto simp: gf_ok_def list_all_iff glog_gpow)
qed

lemma gf_okD:
  assumes "gf_ok T" "x \<noteq> 0"
  shows "gflog T (uint x) = int (glog x)"
proof -
  have h: "\<forall>i < 255. gflog T (uint (gpow i)) = int i"
    using assms(1) by (auto simp: gf_ok_def list_all_iff)
  have e: "gpow (glog x) = x" "glog x < 255" using glog [OF assms(2)] by auto
  show ?thesis using h [rule_format, OF e(2)] unfolding e(1) .
qed

lemma gf_mul_ok:
  assumes T: "gf_ok T"
  shows "gf_mul T (uint a) (uint b) field_power = uint (gmul a b)"
proof (cases "a = 0 \<or> b = 0")
  case True
  then show ?thesis by (auto simp: gf_mul_def gmul_0)
next
  case False
  have m: "shl1 8 - 1 = 255" by (simp add: shl1_small)
  have s: "(int (glog a) + int (glog b)) mod 255 = int ((glog a + glog b) mod 255)"
    by (simp add: zmod_int)
  have "(glog a + glog b) mod 255 < 255" by simp
  then have "gfilog T (int ((glog a + glog b) mod 255)) = uint (gpow ((glog a + glog b) mod 255))"
    using T by (simp add: gf_ok_def list_all_iff)
  then show ?thesis using False gf_okD [OF T]
    by (simp add: gf_mul_def field_power_def m s gmul_gpow gpow_mod uint_0_iff)
qed

lemma gf_div_ok:
  assumes T: "gf_ok T" and b: "b \<noteq> 0"
  shows "gf_div T (uint a) (uint b) field_power = uint (gdiv a b)"
proof (cases "a = 0")
  case True
  then show ?thesis by (simp add: gf_div_def gdiv_def)
next
  case False
  have m: "shl1 8 - 1 = 255" by (simp add: shl1_small)
  have l: "glog a < 255" "glog b < 255" using glog False b by auto
  let ?d = "(glog a + (255 - glog b)) mod 255"
  have d: "(if int (glog a) - int (glog b) < 0 then int (glog a) - int (glog b) + 255
      else int (glog a) - int (glog b)) = int ?d"
  proof (cases "glog a < glog b")
    case True
    then have "glog a + (255 - glog b) < 255" using l by linarith
    then show ?thesis using True l by simp
  next
    case False
    then have "glog a + (255 - glog b) = 255 + (glog a - glog b)" using l by linarith
    then have "?d = (glog a - glog b) mod 255" by (simp only: mod_add_self1)
    then have "?d = glog a - glog b" using l by simp
    then show ?thesis using False by simp
  qed
  have "gfilog T (int ?d) = uint (gpow ?d)" using T by (simp add: gf_ok_def list_all_iff)
  then show ?thesis
    using False gf_okD [OF T False] gf_okD [OF T b] d
    by (simp only: gf_div_def field_power_def m Let_def gdiv_def gpow_mod) (simp add: uint_0_iff)
qed

text \<open>
  Coefficients are powers of two below 256, as long as the exponent is below 8: for up to ten disks.
\<close>

lemma coefficient_byte:
  assumes "0 \<le> e" "e \<le> 7"
  shows "gf_get_coefficient e s = uint ((2 :: byte) ^ nat e)" "(2 :: byte) ^ nat e \<noteq> 0"
proof -
  have "e = 0 \<or> e = 1 \<or> e = 2 \<or> e = 3 \<or> e = 4 \<or> e = 5 \<or> e = 6 \<or> e = 7" using assms by linarith
  then show "gf_get_coefficient e s = uint ((2 :: byte) ^ nat e)" "(2 :: byte) ^ nat e \<noteq> 0"
    by (auto simp: gf_get_coefficient_def shl1_small)
qed

lemma coefficient_inj:
  assumes "0 \<le> e" "e \<le> 7" "0 \<le> f" "f \<le> 7" "(2 :: byte) ^ nat e = 2 ^ nat f"
  shows "e = f"
proof -
  have "(2 :: int) ^ nat e = 2 ^ nat f"
    using coefficient_byte(1) [OF assms(1,2), of 0] coefficient_byte(1) [OF assms(3,4), of 0] assms
    by (simp add: gf_get_coefficient_def shl1_small)
  then show ?thesis using assms by simp
qed

end
