(* ===== verification/Raid6.thy ===== *)
theory Raid6
  imports Gf256
begin

text \<open>
  RAID 6 (\<open>coding_raid6.cc\<close>): in row \<open>b\<close> the code block Q is on disk \<open>n - 1 - b mod n\<close> and the parity
  block P on disk \<open>n - 1 - (b + 1) mod n\<close>. P is the sum of the data blocks of the row, Q the sum of the
  data blocks, each multiplied by a power of two in the field with 256 elements. Also its variant with P
  and Q on fixed disks (\<open>coding_raid6_noRotate.cc\<close>).
\<close>

section \<open>Operations\<close>

definition raid6_code_disk :: "int \<Rightarrow> int \<Rightarrow> int" where
  "raid6_code_disk n b = n - 1 - (b smod n)"

definition raid6_parity_disk :: "int \<Rightarrow> int \<Rightarrow> int" where
  "raid6_parity_disk n b = n - 1 - ((b + 1) smod n)"

text \<open>The coefficient of disk \<open>i\<close> in Q.\<close>

definition raid6_exponent :: "int \<Rightarrow> int \<Rightarrow> int \<Rightarrow> int \<Rightarrow> int" where
  "raid6_exponent n code parity i =
     (let c = i;
          c = (if i > code then c - 1 else c);
          c = (if i > parity then c - 1 else c)
      in n - 3 - c)"

definition raid6_coeff :: "int \<Rightarrow> int \<Rightarrow> int \<Rightarrow> int \<Rightarrow> int" where
  "raid6_coeff n code parity i = gf_get_coefficient (raid6_exponent n code parity i) field_power"

text \<open>\<open>for (j = 0; j < n; j++) acc[j] = acc[j] ^ (char) gf_mul((unsigned char) temp[j], c, field_power);\<close>\<close>

definition gf_into :: "gf \<Rightarrow> int \<Rightarrow> (nat \<Rightarrow> byte) \<Rightarrow> nat \<Rightarrow> byte list \<Rightarrow> byte list \<Rightarrow> byte list" where
  "gf_into T c junk n acc temp =
     map (\<lambda>j. if j < n then acc ! j XOR word_of_int (gf_mul T (uint (peek junk temp j)) c field_power)
              else acc ! j) [0..<length acc]"

definition gf_div_buf :: "gf \<Rightarrow> int \<Rightarrow> nat \<Rightarrow> byte list \<Rightarrow> byte list" where
  "gf_div_buf T c n buf =
     map (\<lambda>j. if j < n then word_of_int (gf_div T (uint (buf ! j)) c field_power) else buf ! j)
       [0..<length buf]"

text \<open>Blocks of code and parity are stepped over before a data block is looked for.\<close>

definition raid6_mark_step :: "sys \<Rightarrow> int \<Rightarrow> sys" where
  "raid6_mark_step s i =
     (let n = disk_total_num s
      in if i = n - 1 - (free_offset s i smod n) \<or> i = n - 1 - ((free_offset s i + 1) smod n)
         then put_free_size i (free_size s i - 1) (put_free_offset i (free_offset s i + 1) s)
         else s)"

definition raid6_mark :: "sys \<Rightarrow> sys" where
  "raid6_mark s = foldl raid6_mark_step s (disk_ids s)"

text \<open>The loop of \<open>encode\<close> over the data disks of the row.\<close>

fun raid6_sums :: "gf \<Rightarrow> int \<Rightarrow> int \<Rightarrow> int \<Rightarrow> int \<Rightarrow> int \<Rightarrow> int list \<Rightarrow> byte list \<Rightarrow> byte list \<Rightarrow> byte list \<Rightarrow>
    sys \<Rightarrow> byte list \<times> byte list \<times> sys" where
  "raid6_sums T n code parity sr addr [] buf_read buf2 buf3 s = (buf2, buf3, s)"
| "raid6_sums T n code parity sr addr (i # xs) buf_read buf2 buf3 s =
     (if i \<noteq> parity \<and> i \<noteq> code then
        let (retstat, buf_read, s) = nc_readDisk i buf_read sr addr s;
            buf2 = xor_into (heap_junk s) (nat sr) buf2 buf_read;
            buf3 = gf_into T (raid6_coeff n code parity i) (heap_junk s) (nat sr) buf3 buf_read
        in raid6_sums T n code parity sr addr xs buf_read buf2 buf3 s
      else raid6_sums T n code parity sr addr xs buf_read buf2 buf3 s)"

text \<open>From the claim of the block on: data, then the sums, then P and Q.\<close>

definition raid6_store :: "gf \<Rightarrow> int \<Rightarrow> int \<Rightarrow> int \<Rightarrow> int \<Rightarrow> byte list \<Rightarrow> int \<Rightarrow> int \<Rightarrow> int \<Rightarrow> sys \<Rightarrow> sys" where
  "raid6_store T code parity disk_id block_no buf sz size_request block_request s =
     (let n = disk_total_num s;
          block_size = disk_block_size s;
          buf_read = malloc (heap_junk s) (nat size_request);
          buf2 = zeros (nat size_request);
          buf3 = zeros (nat size_request);
          s = claim disk_id block_no block_request s;
          addr = i32 (block_no * block_size);
          (retstat, s) = nc_writeDisk disk_id buf sz addr s;
          (buf2, buf3, s) = raid6_sums T n code parity size_request addr [0..n - 1] buf_read buf2 buf3 s;
          (retstat, s) = nc_writeDisk parity buf2 sz addr s;
          (retstat, s) = nc_writeDisk code buf3 sz addr s
      in s)"

definition raid6_encode :: "gf \<Rightarrow> byte list \<Rightarrow> int \<Rightarrow> sys \<Rightarrow> data_block_info \<times> sys" where
  "raid6_encode T buf sz s =
     (let n = disk_total_num s;
          size_request = round_to_block_size sz s;
          block_request = size_request sdiv disk_block_size s;
          s = raid6_mark s;
          (disk_id, block_no, s) = pick_striped_block block_request (n - 1) s
      in if disk_id = -1 then (\<lparr>bi_disk_id = disk_id, bi_block_no = block_no\<rparr>, s)
         else (\<lparr>bi_disk_id = disk_id, bi_block_no = block_no\<rparr>,
           raid6_store T (raid6_code_disk n block_no) (raid6_parity_disk n block_no)
             disk_id block_no buf sz size_request block_request s))"

definition raid6_noRotate_count :: "int \<Rightarrow> sys \<Rightarrow> sys" where
  "raid6_noRotate_count disk_id s =
     (if disk_id = 0 then
        let n = disk_total_num s;
            s = put_free_offset (n - 2) (free_offset s (n - 2) + 1) s;
            s = put_free_size (n - 2) (free_size s (n - 2) - 1) s;
            s = put_free_offset (n - 1) (free_offset s (n - 1) + 1) s
        in put_free_size (n - 1) (free_size s (n - 1) - 1) s
      else s)"

definition raid6_noRotate_encode :: "gf \<Rightarrow> byte list \<Rightarrow> int \<Rightarrow> sys \<Rightarrow> data_block_info \<times> sys" where
  "raid6_noRotate_encode T buf sz s =
     (let n = disk_total_num s;
          size_request = round_to_block_size sz s;
          block_request = size_request sdiv disk_block_size s;
          (disk_id, block_no, fo) = pick_striped block_request (n - 3) s;
          s = raid6_noRotate_count disk_id s;
          (disk_id, block_no, s) = or_space_list (disk_id, block_no) s
      in if disk_id = -1 then (\<lparr>bi_disk_id = disk_id, bi_block_no = block_no\<rparr>, s)
         else (\<lparr>bi_disk_id = disk_id, bi_block_no = block_no\<rparr>,
           raid6_store T (n - 1) (n - 2) disk_id block_no buf sz size_request block_request s))"

subsection \<open>Decoding\<close>

text \<open>The loop over \<open>int\<close>s that gives up at a failed disk.\<close>

fun raid6_xor_ints :: "int list \<Rightarrow> int \<Rightarrow> int \<Rightarrow> int list \<Rightarrow> byte list \<Rightarrow> byte list \<Rightarrow> sys \<Rightarrow>
    bool \<times> byte list \<times> byte list \<times> sys" where
  "raid6_xor_ints skip sz off [] temp buf s = (True, temp, buf, s)"
| "raid6_xor_ints skip sz off (i # xs) temp buf s =
     (if i \<notin> set skip then
        if disk_status s i \<noteq> 0 then (False, temp, buf, s)
        else let (retstat, temp, s) = nc_readDisk i temp sz off s
             in raid6_xor_ints skip sz off xs temp (xor_ints (heap_junk s) (nat sz) buf temp) s
      else raid6_xor_ints skip sz off xs temp buf s)"

text \<open>
  The loop that adds the multiples of the data blocks. \<open>known\<close> is a disk whose block is taken from a
  buffer.
\<close>

fun raid6_gf_sum :: "gf \<Rightarrow> int \<Rightarrow> int \<Rightarrow> int \<Rightarrow> int list \<Rightarrow> (int \<times> byte list) option \<Rightarrow> int \<Rightarrow> int \<Rightarrow>
    int list \<Rightarrow> byte list \<Rightarrow> byte list \<Rightarrow> sys \<Rightarrow> byte list \<times> byte list \<times> sys" where
  "raid6_gf_sum T n code parity skip known sz off [] temp acc s = (temp, acc, s)"
| "raid6_gf_sum T n code parity skip known sz off (i # xs) temp acc s =
     (if i \<notin> set skip then
        let (temp, s) = (case known of
              Some (k, b) \<Rightarrow> if i = k then (overwrite temp 0 (take (nat sz) b), s)
                             else snd (nc_readDisk i temp sz off s)
            | None \<Rightarrow> snd (nc_readDisk i temp sz off s))
        in raid6_gf_sum T n code parity skip known sz off xs temp
             (gf_into T (raid6_coeff n code parity i) (heap_junk s) (nat sz) acc temp) s
      else raid6_gf_sum T n code parity skip known sz off xs temp acc s)"

text \<open>The case of a data disk and another disk from which the data block is found through Q.\<close>

definition raid6_from_q :: "gf \<Rightarrow> int \<Rightarrow> int \<Rightarrow> int \<Rightarrow> int \<Rightarrow> int \<Rightarrow> int \<Rightarrow> byte list \<Rightarrow> byte list \<Rightarrow> sys \<Rightarrow>
    byte list \<times> byte list \<times> sys" where
  "raid6_from_q T code parity disk_id another sz off temp buf s =
     (let n = disk_total_num s;
          (temp, buf, s) = raid6_gf_sum T n code parity [disk_id, another, parity, code] None sz off
             [0..n - 1] temp buf s;
          (retstat, temp, s) = nc_readDisk code temp sz off s;
          buf = xor_into (heap_junk s) (nat sz) buf temp;
          buf = gf_div_buf T (raid6_coeff n code parity disk_id) (nat sz) buf
      in (temp, buf, s))"

text \<open>Two data disks: the loop over all disks reads the Q block again in each round.\<close>

fun raid6_two_data :: "gf \<Rightarrow> int \<Rightarrow> int \<Rightarrow> int \<Rightarrow> int list \<Rightarrow> int \<Rightarrow> int \<Rightarrow> int \<Rightarrow> int \<Rightarrow> byte list \<Rightarrow> int list \<Rightarrow>
    byte list \<Rightarrow> byte list \<Rightarrow> byte list \<Rightarrow> sys \<Rightarrow> byte list \<times> sys" where
  "raid6_two_data T n code parity skip g2 g12 sz off P_temp [] temp Q_temp buf s = (buf, s)"
| "raid6_two_data T n code parity skip g2 g12 sz off P_temp (i # xs) temp Q_temp buf s =
     (let (temp, Q_temp, s) =
            (if i \<notin> set skip then
               let (retstat, temp, s) = nc_readDisk i temp sz off s
               in (temp, gf_into T (raid6_coeff n code parity i) (heap_junk s) (nat sz) Q_temp temp, s)
             else (temp, Q_temp, s));
          (retstat, temp, s) = nc_readDisk code temp sz off s;
          buf = map (\<lambda>j. if j < nat sz then
              let temp_char = word_of_int (gf_mul T g2 (uint (P_temp ! j)) field_power)
                    XOR Q_temp ! j XOR peek (heap_junk s) temp j
              in word_of_int (gf_div T (uint (temp_char :: byte)) g12 field_power)
            else buf ! j) [0..<length buf]
      in raid6_two_data T n code parity skip g2 g12 sz off P_temp xs temp Q_temp buf s)"

definition raid6_another :: "int \<Rightarrow> sys \<Rightarrow> int" where
  "raid6_another disk_id s =
     (case filter (\<lambda>i. disk_status s i = 1 \<and> i \<noteq> disk_id) (rev (disk_ids s)) of
        [] \<Rightarrow> stack_junk s | i # _ \<Rightarrow> i)"

definition raid6_decode_one :: "int \<Rightarrow> int \<Rightarrow> byte list \<Rightarrow> byte list \<Rightarrow> int \<Rightarrow> int \<Rightarrow> sys \<Rightarrow>
    int \<times> byte list \<times> sys" where
  "raid6_decode_one disk_id code temp buf sz off s =
     (let (ok, temp, buf, s) = raid6_xor_ints [disk_id, code] sz off (disk_ids s) temp buf s
      in (if ok then sz else -1, buf, s))"

definition raid6_decode_q :: "gf \<Rightarrow> int \<Rightarrow> int \<Rightarrow> byte list \<Rightarrow> byte list \<Rightarrow> int \<Rightarrow> int \<Rightarrow> sys \<Rightarrow>
    int \<times> byte list \<times> sys" where
  "raid6_decode_q T code parity temp buf sz off s =
     (let (temp, buf, s) = raid6_gf_sum T (disk_total_num s) code parity [parity, code] None sz off
         (disk_ids s) temp buf s
      in (sz, buf, s))"

definition raid6_decode_p_d :: "gf \<Rightarrow> int \<Rightarrow> int \<Rightarrow> int \<Rightarrow> int \<Rightarrow> byte list \<Rightarrow> byte list \<Rightarrow> int \<Rightarrow> int \<Rightarrow> sys \<Rightarrow>
    int \<times> byte list \<times> sys" where
  "raid6_decode_p_d T code parity disk_id another temp buf sz off s =
     (let (temp, buf, s) = raid6_from_q T code parity disk_id another sz off temp buf s;
          (ok, temp, buf, s) =
            raid6_xor_ints [disk_id, code, another] sz off (disk_ids s) temp buf s
      in (if ok then sz else -1, buf, s))"

definition raid6_decode_q_d :: "gf \<Rightarrow> int \<Rightarrow> int \<Rightarrow> int \<Rightarrow> int \<Rightarrow> byte list \<Rightarrow> byte list \<Rightarrow> int \<Rightarrow> int \<Rightarrow> sys \<Rightarrow>
    int \<times> byte list \<times> sys" where
  "raid6_decode_q_d T code parity disk_id another temp buf sz off s =
     (let (ok, temp, buf, s) = raid6_xor_ints [disk_id, another] sz off (disk_ids s) temp buf s
      in if \<not> ok then (-1, buf, s)
         else
           let (temp, Q_temp, s) = raid6_gf_sum T (disk_total_num s) code parity [parity, code]
                 (Some (another, buf)) sz off (disk_ids s) temp (zeros (nat sz)) s;
               buf = overwrite buf 0 (take (nat sz) Q_temp)
           in (sz, buf, s))"

definition raid6_decode_d_d :: "gf \<Rightarrow> int \<Rightarrow> int \<Rightarrow> int \<Rightarrow> int \<Rightarrow> byte list \<Rightarrow> byte list \<Rightarrow> int \<Rightarrow> int \<Rightarrow> sys \<Rightarrow>
    int \<times> byte list \<times> sys" where
  "raid6_decode_d_d T code parity disk_id another temp buf sz off s =
     (let n = disk_total_num s;
          g1 = raid6_coeff n code parity disk_id;
          g2 = raid6_coeff n code parity another;
          g12 = g1 XOR g2;
          skip = [disk_id, another, parity, code];
          (temp, P_temp, s) = xor_cells sz (map (\<lambda>i. (i, off)) (filter (\<lambda>i. i \<notin> set skip) (disk_ids s)))
             temp (zeros (nat sz)) s;
          (retstat, temp, s) = nc_readDisk parity temp sz off s;
          P_temp = xor_into (heap_junk s) (nat sz) P_temp temp;
          (buf, s) = raid6_two_data T n code parity skip g2 g12 sz off P_temp (disk_ids s) temp
             (zeros (nat sz)) buf s
      in (sz, buf, s))"

definition raid6_decode :: "gf \<Rightarrow> int \<Rightarrow> byte list \<Rightarrow> int \<Rightarrow> int \<Rightarrow> sys \<Rightarrow> int \<times> byte list \<times> sys" where
  "raid6_decode T disk_id buf sz off s =
     (let temp = zeros (nat sz);
          buf = overwrite buf 0 (zeros (nat sz));
          n = disk_total_num s;
          block_no = off sdiv disk_block_size s;
          code = raid6_code_disk n block_no;
          parity = raid6_parity_disk n block_no
      in if disk_status s disk_id = 0 then nc_readDisk disk_id buf sz off s
         else
           let disk_failed_no = int (length (filter (\<lambda>i. disk_status s i = 1) (disk_ids s)));
               another = raid6_another disk_id s
           in if disk_failed_no = 1 \<and> disk_id \<noteq> code \<or> disk_failed_no = 2 \<and> another = code
              then raid6_decode_one disk_id code temp buf sz off s
              else if disk_failed_no = 1 \<and> disk_id = code \<or>
                disk_failed_no = 2 \<and> disk_id = code \<and> another = parity
              then raid6_decode_q T code parity temp buf sz off s
              else if disk_failed_no = 2 then
                if disk_id = parity \<and> another \<noteq> code
                then raid6_decode_p_d T code parity disk_id another temp buf sz off s
                else if disk_id = code \<and> another \<noteq> parity
                then raid6_decode_q_d T code parity disk_id another temp buf sz off s
                else if another = parity then
                  let (temp, buf, s) = raid6_from_q T code parity disk_id another sz off temp buf s
                  in (sz, buf, s)
                else raid6_decode_d_d T code parity disk_id another temp buf sz off s
              else (-1, buf, s))"

definition raid6_recover :: "gf \<Rightarrow> int \<Rightarrow> sys \<Rightarrow> int \<times> sys" where
  "raid6_recover T failed_disk_id s =
     (let recoversize = disk_size s failed_disk_id;
          block_size = disk_block_size s
      in (0, rebuild_blocks (raid6_decode T) nc_writeDisk (\<lambda>b. overwrite b 0 (zeros (nat block_size)))
               failed_disk_id block_size [0..recoversize - 1]
               (malloc (heap_junk s) (nat block_size)) s))"

section \<open>The rows\<close>

definition raid6_data :: "int \<Rightarrow> int \<Rightarrow> int list" where
  "raid6_data n b =
     filter (\<lambda>i. i \<noteq> raid6_parity_disk n b \<and> i \<noteq> raid6_code_disk n b) [0..n - 1]"

definition raid6_g :: "int \<Rightarrow> int \<Rightarrow> int \<Rightarrow> byte" where
  "raid6_g n b i = 2 ^ nat (raid6_exponent n (raid6_code_disk n b) (raid6_parity_disk n b) i)"

text \<open>What P and Q hold at address \<open>a\<close>, which belongs to row \<open>b\<close>.\<close>

definition raid6_rel :: "int \<Rightarrow> int \<Rightarrow> (int \<Rightarrow> byte list) \<Rightarrow> nat \<Rightarrow> bool" where
  "raid6_rel n b v a \<longleftrightarrow>
     v (raid6_parity_disk n b) ! a = xsum (\<lambda>i. v i ! a) (raid6_data n b) \<and>
     v (raid6_code_disk n b) ! a = xsum (\<lambda>i. gmul (v i ! a) (raid6_g n b i)) (raid6_data n b)"

definition raid6_parity :: "int \<Rightarrow> int \<Rightarrow> int \<Rightarrow> (int \<Rightarrow> byte list) \<Rightarrow> bool" where
  "raid6_parity n bs len v \<longleftrightarrow> list_all (\<lambda>a. raid6_rel n (int a div bs) v a) [0..<nat len]"

lemma mod_Suc_cases: "0 < (n::int) \<Longrightarrow> (b + 1) mod n = (if b mod n = n - 1 then 0 else b mod n + 1)"
proof -
  assume n: "0 < n"
  have b: "0 \<le> b mod n" "b mod n < n" using n by simp_all
  have "(b + 1) mod n = (b mod n + 1) mod n" by (simp add: mod_add_left_eq)
  then show ?thesis using b by (auto intro: mod_pos_pos_trivial)
qed

text \<open>The P block is left of the Q block, or at the other end.\<close>

lemma raid6_disks:
  assumes "2 \<le> n" "0 \<le> b"
  defines "q \<equiv> raid6_code_disk n b" and "p \<equiv> raid6_parity_disk n b"
  shows "0 \<le> q" "q < n" "p = (if q = 0 then n - 1 else q - 1)"
proof -
  have b: "0 \<le> b mod n" "b mod n < n" "(b + 1) mod n = (if b mod n = n - 1 then 0 else b mod n + 1)"
    using assms mod_Suc_cases [of n b] by simp_all
  have "q = n - 1 - b mod n" "p = n - 1 - (b + 1) mod n"
    using assms by (simp_all add: raid6_code_disk_def raid6_parity_disk_def)
  then show "0 \<le> q" "q < n" "p = (if q = 0 then n - 1 else q - 1)" using b by auto
qed

lemma raid6_parity_range:
  assumes "2 \<le> n" "0 \<le> b"
  shows "0 \<le> raid6_parity_disk n b" "raid6_parity_disk n b < n"
    "raid6_parity_disk n b \<noteq> raid6_code_disk n b"
  using raid6_disks [OF assms] assms(1) by (auto split: if_splits)

lemma set_raid6_data:
  "set (raid6_data n b) = {i. 0 \<le> i \<and> i < n \<and> i \<noteq> raid6_parity_disk n b \<and> i \<noteq> raid6_code_disk n b}"
  by (auto simp: raid6_data_def)

lemma distinct_raid6_data [simp]: "distinct (raid6_data n b)"
  by (simp add: raid6_data_def)

lemma raid6_exponent_range:
  assumes n: "3 \<le> n" "0 \<le> b" and i: "i \<in> set (raid6_data n b)"
  shows "0 \<le> raid6_exponent n (raid6_code_disk n b) (raid6_parity_disk n b) i"
    "raid6_exponent n (raid6_code_disk n b) (raid6_parity_disk n b) i \<le> n - 3"
  using raid6_disks [of n b] raid6_parity_range [of n b] n i
  by (auto simp: raid6_exponent_def set_raid6_data Let_def split: if_splits)

lemma raid6_exponent_inj:
  assumes n: "3 \<le> n" "0 \<le> b" and i: "i \<in> set (raid6_data n b)" "k \<in> set (raid6_data n b)"
    and e: "raid6_exponent n (raid6_code_disk n b) (raid6_parity_disk n b) i =
      raid6_exponent n (raid6_code_disk n b) (raid6_parity_disk n b) k"
  shows "i = k"
  using raid6_disks [of n b] raid6_parity_range [of n b] n i e
  by (auto simp: raid6_exponent_def set_raid6_data Let_def split: if_splits)

lemma raid6_coeff_g:
  assumes n: "3 \<le> n" "n \<le> 10" "0 \<le> b" and i: "i \<in> set (raid6_data n b)"
  shows "raid6_coeff n (raid6_code_disk n b) (raid6_parity_disk n b) i = uint (raid6_g n b i)"
    "raid6_g n b i \<noteq> 0"
proof -
  have e: "0 \<le> raid6_exponent n (raid6_code_disk n b) (raid6_parity_disk n b) i"
    "raid6_exponent n (raid6_code_disk n b) (raid6_parity_disk n b) i \<le> 7"
    using raid6_exponent_range [OF n(1,3) i] n(2) by linarith+
  show "raid6_coeff n (raid6_code_disk n b) (raid6_parity_disk n b) i = uint (raid6_g n b i)"
    "raid6_g n b i \<noteq> 0"
    unfolding raid6_coeff_def raid6_g_def by (rule coefficient_byte [OF e])+
qed

lemma raid6_g_inj:
  assumes n: "3 \<le> n" "n \<le> 10" "0 \<le> b"
    and i: "i \<in> set (raid6_data n b)" "k \<in> set (raid6_data n b)" "i \<noteq> k"
  shows "raid6_g n b i XOR raid6_g n b k \<noteq> 0"
proof
  assume "raid6_g n b i XOR raid6_g n b k = 0"
  then have e: "raid6_g n b i = raid6_g n b k" by (simp add: xor_eq_iff)
  have r: "0 \<le> raid6_exponent n (raid6_code_disk n b) (raid6_parity_disk n b) x"
    "raid6_exponent n (raid6_code_disk n b) (raid6_parity_disk n b) x \<le> 7"
    if "x \<in> set (raid6_data n b)" for x
    using raid6_exponent_range [OF n(1,3) that] n(2) by linarith+
  show False
    using coefficient_inj [OF r [OF i(1)] r [OF i(2)]] e raid6_exponent_inj [OF n(1,3) i(1,2)] i(3)
    by (simp add: raid6_g_def)
qed

section \<open>The equations of decoding, byte by byte\<close>

lemma xsum_without:
  assumes "distinct xs" "d \<in> set xs"
  shows "xsum f (filter (\<lambda>i. i \<noteq> d) xs) = f d XOR xsum f xs"
  using xsum_remove [OF assms, of f] by simp

lemma xsum_without_two:
  assumes "distinct xs" "d \<in> set xs" "e \<in> set xs" "d \<noteq> e"
  shows "xsum f (filter (\<lambda>i. i \<noteq> d \<and> i \<noteq> e) xs) = f d XOR f e XOR xsum f xs"
proof -
  have e: "filter (\<lambda>i. i \<noteq> d \<and> i \<noteq> e) xs = filter (\<lambda>i. i \<noteq> d) (filter (\<lambda>i. i \<noteq> e) xs)"
    by (auto intro: filter_cong)
  have "xsum f (filter (\<lambda>i. i \<noteq> d) (filter (\<lambda>i. i \<noteq> e) xs)) =
      f d XOR xsum f (filter (\<lambda>i. i \<noteq> e) xs)"
    using assms by (intro xsum_without) auto
  then show ?thesis
    unfolding e using xsum_without [OF assms(1,3), of f] by (simp only: xor.assoc)
qed

text \<open>One unknown data byte, by P or by Q, and two unknown data bytes, by both.\<close>

lemma data_by_p:
  assumes "raid6_rel n b v a" "d \<in> set (raid6_data n b)"
  shows "xsum (\<lambda>i. v i ! a) (filter (\<lambda>i. i \<noteq> d) (raid6_data n b)) XOR v (raid6_parity_disk n b) ! a
    = v d ! a"
  using assms by (simp add: raid6_rel_def xsum_without xor.assoc)

lemma data_by_q:
  assumes "raid6_rel n b v a" "d \<in> set (raid6_data n b)"
  shows "xsum (\<lambda>i. gmul (v i ! a) (raid6_g n b i)) (filter (\<lambda>i. i \<noteq> d) (raid6_data n b)) XOR
    v (raid6_code_disk n b) ! a = gmul (v d ! a) (raid6_g n b d)"
  using assms by (simp add: raid6_rel_def xsum_without xor.assoc)

lemma two_data:
  assumes r: "raid6_rel n b v a" and n: "3 \<le> n" "n \<le> 10" "0 \<le> b"
    and d: "d \<in> set (raid6_data n b)" "e \<in> set (raid6_data n b)" "d \<noteq> e"
  shows "gdiv (gmul (raid6_g n b e)
        (xsum (\<lambda>i. v i ! a) (filter (\<lambda>i. i \<noteq> d \<and> i \<noteq> e) (raid6_data n b)) XOR
         v (raid6_parity_disk n b) ! a) XOR
      xsum (\<lambda>i. gmul (v i ! a) (raid6_g n b i)) (filter (\<lambda>i. i \<noteq> d \<and> i \<noteq> e) (raid6_data n b)) XOR
      v (raid6_code_disk n b) ! a) (raid6_g n b d XOR raid6_g n b e) = v d ! a"
proof -
  let ?f = "\<lambda>i. v i ! a" and ?g = "raid6_g n b"
  have p: "xsum ?f (filter (\<lambda>i. i \<noteq> d \<and> i \<noteq> e) (raid6_data n b)) XOR ?f (raid6_parity_disk n b) =
      ?f d XOR ?f e"
    using r d by (simp add: raid6_rel_def xsum_without_two xor.assoc)
  have q: "xsum (\<lambda>i. gmul (?f i) (?g i)) (filter (\<lambda>i. i \<noteq> d \<and> i \<noteq> e) (raid6_data n b)) XOR
      ?f (raid6_code_disk n b) = gmul (?f d) (?g d) XOR gmul (?f e) (?g e)"
    using r d by (simp add: raid6_rel_def xsum_without_two xor.assoc)
  have "gmul (?g e) (?f d XOR ?f e) XOR gmul (?f d) (?g d) XOR gmul (?f e) (?g e) =
      gmul (?g d XOR ?g e) (?f d)"
    by (simp add: gmul_xor gmul_xor_left gmul_commute [of "?f d"] gmul_commute [of "?f e"] ac_simps)
  then show ?thesis
    unfolding p xor.assoc q using gdiv_gmul [OF raid6_g_inj [OF n d]] by (simp add: xor.assoc)
qed

section \<open>The loops\<close>

lemma length_gf_into [simp]: "length (gf_into T c junk n acc temp) = length acc"
  by (simp add: gf_into_def)

lemma nth_gf_into:
  assumes "gf_ok T" "j < length acc" "j < n" "j < length temp"
  shows "gf_into T (uint c) junk n acc temp ! j = acc ! j XOR gmul (temp ! j) c"
  using assms by (simp add: gf_into_def gf_mul_ok)

lemma length_gf_div_buf [simp]: "length (gf_div_buf T c n b) = length b"
  by (simp add: gf_div_buf_def)

lemma nth_gf_div_buf:
  "gf_ok T \<Longrightarrow> c \<noteq> 0 \<Longrightarrow> j < length b \<Longrightarrow> j < n \<Longrightarrow> gf_div_buf T (uint c) n b ! j = gdiv (b ! j) c"
  by (simp add: gf_div_buf_def gf_div_ok)

text \<open>These disks can be read at this range, and \<open>v\<close> is what they hold.\<close>

definition readable :: "sys \<Rightarrow> (int \<Rightarrow> byte list) \<Rightarrow> int \<Rightarrow> int \<Rightarrow> int \<Rightarrow> bool" where
  "readable s v sz off i \<longleftrightarrow> disk_status s i = 0 \<and> content s i = v i \<and> 0 < sz \<and> 0 \<le> off \<and>
     off + sz \<le> int (length (v i))"

lemma readable_read:
  assumes "readable s v sz off i" "length temp = nat sz"
  obtains t where "nc_readDisk i temp sz off s = (sz, t, s)" "length t = nat sz"
    "\<And>j. j < nat sz \<Longrightarrow> t ! j = v i ! (nat off + j)"
proof
  have r: "0 < sz" "0 \<le> off" "off + sz \<le> int (length (content s i))" "content s i = v i"
    using assms(1) by (auto simp: readable_def)
  show "nc_readDisk i temp sz off s = (sz, take (nat sz) (drop (nat off) (content s i)), s)"
    by (rule nc.rd_buf [OF r(1-3) assms(2)])
  show "length (take (nat sz) (drop (nat off) (content s i))) = nat sz"
    by (rule nc.length_rd_buf [OF r(1-3)])
  have "nat off \<le> length (content s i)" using r by linarith
  then show "take (nat sz) (drop (nat off) (content s i)) ! j = v i ! (nat off + j)" if "j < nat sz" for j
    using that r(4) by simp
qed

lemma raid6_xor_ints_ok:
  assumes "\<And>i. i \<in> set xs \<Longrightarrow> i \<notin> set skip \<Longrightarrow> readable s v sz off i"
    and "4 dvd sz" "length temp = nat sz" "length buf = nat sz"
  shows "\<exists>t. length t = nat sz \<and> raid6_xor_ints skip sz off xs temp buf s = (True, t,
    map (\<lambda>j. buf ! j XOR xsum (\<lambda>i. v i ! (nat off + j)) (filter (\<lambda>i. i \<notin> set skip) xs)) [0..<nat sz], s)"
  using assms
proof (induction xs arbitrary: temp buf)
  case Nil
  then show ?case by (auto intro: nth_equalityI)
next
  case (Cons x xs)
  show ?case
  proof (cases "x \<in> set skip")
    case True
    then show ?thesis using Cons by simp
  next
    case False
    have rx: "readable s v sz off x" using Cons.prems(1) [of x] False by simp
    obtain t where t: "nc_readDisk x temp sz off s = (sz, t, s)" "length t = nat sz"
      "\<And>j. j < nat sz \<Longrightarrow> t ! j = v x ! (nat off + j)"
      by (rule readable_read [OF rx Cons.prems(3)]) blast
    let ?b = "xor_into (heap_junk s) (nat sz) buf t"
    have b: "xor_ints (heap_junk s) (nat sz) buf t = ?b"
      using Cons.prems(2) by (intro xor_ints_eq dvd_4_nat)
    obtain t' where t': "length t' = nat sz" "raid6_xor_ints skip sz off xs t ?b s = (True, t',
        map (\<lambda>j. ?b ! j XOR xsum (\<lambda>i. v i ! (nat off + j)) (filter (\<lambda>i. i \<notin> set skip) xs)) [0..<nat sz], s)"
      using Cons.IH [of t ?b] Cons.prems t(2) by auto
    have "disk_status s x = 0" using rx by (simp add: readable_def)
    then show ?thesis using t' t False Cons.prems(4)
      by (auto simp: b nth_xor_into xor.assoc)
  qed
qed

lemma raid6_gf_sum_ok:
  assumes T: "gf_ok T"
    and k: "\<And>k b. known = Some (k, b) \<Longrightarrow> length b = nat sz \<and>
      (\<forall>j < nat sz. b ! j = v k ! (nat off + j))"
    and r: "\<And>i. i \<in> set xs \<Longrightarrow> i \<notin> set skip \<Longrightarrow> known = None \<or> i \<noteq> fst (the known) \<Longrightarrow>
      readable s v sz off i"
    and g: "\<And>i. i \<in> set xs \<Longrightarrow> i \<notin> set skip \<Longrightarrow> raid6_coeff n code parity i = uint (g i)"
    and len: "length temp = nat sz" "length acc = nat sz"
  shows "\<exists>t. length t = nat sz \<and> raid6_gf_sum T n code parity skip known sz off xs temp acc s = (t,
    map (\<lambda>j. acc ! j XOR xsum (\<lambda>i. gmul (v i ! (nat off + j)) (g i)) (filter (\<lambda>i. i \<notin> set skip) xs))
      [0..<nat sz], s)"
  using r g len
proof (induction xs arbitrary: temp acc)
  case Nil
  then show ?case by (auto intro: nth_equalityI)
next
  case (Cons x xs)
  show ?case
  proof (cases "x \<in> set skip")
    case True
    then show ?thesis using Cons by simp
  next
    case False
    obtain t where t: "(case known of
              Some (k, b) \<Rightarrow> if x = k then (overwrite temp 0 (take (nat sz) b), s)
                             else snd (nc_readDisk x temp sz off s)
            | None \<Rightarrow> snd (nc_readDisk x temp sz off s)) = (t, s)" "length t = nat sz"
      "\<And>j. j < nat sz \<Longrightarrow> t ! j = v x ! (nat off + j)"
    proof (cases "known = None \<or> x \<noteq> fst (the known)")
      case True
      have rx: "readable s v sz off x" using Cons.prems(1) [of x] False True by simp
      show ?thesis
        by (rule readable_read [OF rx Cons.prems(3)]) (rule that, use True in \<open>auto split: option.splits\<close>)
    next
      case False
      then obtain b where b: "known = Some (x, b)" by (cases known) auto
      show ?thesis
        by (rule that [of b]) (use k [OF b] b Cons.prems(3) in \<open>auto simp: overwrite_def\<close>)
    qed
    let ?a = "gf_into T (uint (g x)) (heap_junk s) (nat sz) acc t"
    have c: "raid6_coeff n code parity x = uint (g x)" using Cons.prems(2) False by simp
    obtain t' where t': "length t' = nat sz" "raid6_gf_sum T n code parity skip known sz off xs t ?a s =
      (t', map (\<lambda>j. ?a ! j XOR xsum (\<lambda>i. gmul (v i ! (nat off + j)) (g i))
        (filter (\<lambda>i. i \<notin> set skip) xs)) [0..<nat sz], s)"
      using Cons.IH [of t ?a] Cons.prems t(2) by auto
    have "raid6_gf_sum T n code parity skip known sz off (x # xs) temp acc s =
        raid6_gf_sum T n code parity skip known sz off xs t ?a s"
      using False t(1) c by simp
    then show ?thesis using t' t(2,3) False Cons.prems(4) T
      by (auto simp: nth_gf_into xor.assoc)
  qed
qed

lemma raid6_two_data_ok:
  assumes T: "gf_ok T" and rc: "readable s v sz off code"
    and r: "\<And>i. i \<in> set xs \<Longrightarrow> i \<notin> set skip \<Longrightarrow> readable s v sz off i"
    and g: "\<And>i. i \<in> set xs \<Longrightarrow> i \<notin> set skip \<Longrightarrow> raid6_coeff n code parity i = uint (g i)"
    and g12: "g12 \<noteq> 0" and P: "length P = nat sz"
    and len: "length temp = nat sz" "length Q = nat sz" "length buf = nat sz" and ne: "xs \<noteq> []"
  shows "raid6_two_data T n code parity skip (uint g2) (uint g12) sz off P xs temp Q buf s =
    (map (\<lambda>j. gdiv (gmul g2 (P ! j) XOR (Q ! j XOR
        xsum (\<lambda>i. gmul (v i ! (nat off + j)) (g i)) (filter (\<lambda>i. i \<notin> set skip) xs)) XOR
        v code ! (nat off + j)) g12) [0..<nat sz], s)"
  using r g len ne
proof (induction xs arbitrary: temp Q buf)
  case Nil
  then show ?case by simp
next
  case (Cons x xs)
  obtain t Q' where t: "(if x \<notin> set skip then
               let (retstat, temp, s) = nc_readDisk x temp sz off s
               in (temp, gf_into T (raid6_coeff n code parity x) (heap_junk s) (nat sz) Q temp, s)
             else (temp, Q, s)) = (t, Q', s)" "length t = nat sz" "length Q' = nat sz"
    "\<And>j. j < nat sz \<Longrightarrow> Q' ! j = Q ! j XOR
       (if x \<in> set skip then 0 else gmul (v x ! (nat off + j)) (g x))"
  proof (cases "x \<in> set skip")
    case True
    show ?thesis by (rule that [of temp Q]) (use True Cons.prems in auto)
  next
    case False
    have rx: "readable s v sz off x" using Cons.prems(1) [of x] False by simp
    have c: "raid6_coeff n code parity x = uint (g x)" using Cons.prems(2) False by simp
    obtain t where t: "nc_readDisk x temp sz off s = (sz, t, s)" "length t = nat sz"
      "\<And>j. j < nat sz \<Longrightarrow> t ! j = v x ! (nat off + j)"
      by (rule readable_read [OF rx Cons.prems(3)]) blast
    show ?thesis
      by (rule that [of t "gf_into T (uint (g x)) (heap_junk s) (nat sz) Q t"])
        (use False t Cons.prems(4) T c in \<open>auto simp: nth_gf_into\<close>)
  qed
  obtain u where u: "nc_readDisk code t sz off s = (sz, u, s)" "length u = nat sz"
    "\<And>j. j < nat sz \<Longrightarrow> u ! j = v code ! (nat off + j)"
    by (rule readable_read [OF rc t(2)]) blast
  let ?buf = "map (\<lambda>j. gdiv (gmul g2 (P ! j) XOR Q' ! j XOR v code ! (nat off + j)) g12) [0..<nat sz]"
  have b: "map (\<lambda>j. if j < nat sz then
              let temp_char = word_of_int (gf_mul T (uint g2) (uint (P ! j)) field_power)
                    XOR Q' ! j XOR peek (heap_junk s) u j
              in word_of_int (gf_div T (uint (temp_char :: byte)) (uint g12) field_power)
            else buf ! j) [0..<length buf] = ?buf"
    using Cons.prems(5) u(2,3) by (auto simp: gf_mul_ok [OF T] gf_div_ok [OF T g12] Let_def)
  have st: "raid6_two_data T n code parity skip (uint g2) (uint g12) sz off P (x # xs) temp Q buf s =
      raid6_two_data T n code parity skip (uint g2) (uint g12) sz off P xs u Q' ?buf s"
    unfolding raid6_two_data.simps t(1) by (simp only: Let_def prod.case u(1) b [unfolded Let_def])
  show ?case
  proof (cases "xs = []")
    case True
    then show ?thesis unfolding st using t(4) by (auto simp: xor.assoc)
  next
    case False
    have "raid6_two_data T n code parity skip (uint g2) (uint g12) sz off P xs u Q' ?buf s =
      (map (\<lambda>j. gdiv (gmul g2 (P ! j) XOR (Q' ! j XOR
        xsum (\<lambda>i. gmul (v i ! (nat off + j)) (g i)) (filter (\<lambda>i. i \<notin> set skip) xs)) XOR
        v code ! (nat off + j)) g12) [0..<nat sz], s)"
      by (rule Cons.IH) (use Cons.prems u t(3) False in auto)
    then show ?thesis unfolding st using t(4) by (auto simp: xor.assoc)
  qed
qed

end
