(* ===== verification/Raid6Read.thy ===== *)
theory Raid6Read
  imports Raid6
begin

text \<open>
  RAID 6 with lost disks (\<open>Coding4Raid6::decode\<close>): every case of one or two lost disks returns what
  was lost, but for one that divides by the wrong coefficient.
\<close>

section \<open>Degraded reads\<close>

text \<open>The disks in \<open>F\<close> have failed, the others are good; \<open>v\<close> is what the disks hold or held.\<close>

definition raid6_lost :: "int \<Rightarrow> int list \<Rightarrow> (int \<Rightarrow> byte list) \<Rightarrow> sys \<Rightarrow> bool" where
  "raid6_lost m F v s \<longleftrightarrow> 0 < disk_block_size s \<and> 4 dvd disk_block_size s \<and> 0 \<le> m \<and>
     m * disk_block_size s < 2147483648 \<and> distinct F \<and> set F \<subseteq> set (disk_ids s) \<and>
     list_all (\<lambda>i. int (length (v i)) = m * disk_block_size s \<and>
       (if i \<in> set F then disk_status s i = 1
        else disk_status s i = 0 \<and> content s i = v i)) (disk_ids s)"

lemma raid6_lost_readable:
  assumes "raid6_lost m F v s" "0 \<le> i" "i < disk_total_num s" "i \<notin> set F"
    and "0 < sz" "0 \<le> off" "off + sz \<le> m * disk_block_size s"
  shows "readable s v sz off i"
  using assms by (auto simp: raid6_lost_def readable_def list_all_iff)

lemma raid6_lost_count:
  assumes "raid6_lost m F v s"
  shows "length (filter (\<lambda>i. disk_status s i = 1) (disk_ids s)) = length F"
proof -
  have "set (filter (\<lambda>i. disk_status s i = 1) (disk_ids s)) = set F" "distinct F"
    using assms by (auto simp: raid6_lost_def list_all_iff split: if_splits)
  then show ?thesis by (metis distinct_card distinct_filter distinct_upto)
qed

lemma distinct_singleton:
  assumes "distinct xs" "set xs = {e}"
  shows "xs = [e]"
proof (cases xs)
  case (Cons x ys)
  have "x = e" "set ys \<subseteq> {e}" "x \<notin> set ys" using assms Cons by auto
  then have "set ys = {}" by (intro equals0I) auto
  then show ?thesis using Cons \<open>x = e\<close> by simp
qed (use assms in simp)

lemma raid6_lost_another:
  assumes "raid6_lost m F v s" "set F = {d, e}" "d \<noteq> e"
  shows "raid6_another d s = e"
proof -
  let ?xs = "filter (\<lambda>i. disk_status s i = 1 \<and> i \<noteq> d) (rev (disk_ids s))"
  have st: "disk_status s i = 1 \<longleftrightarrow> i = d \<or> i = e" if "i \<in> set (disk_ids s)" for i
  proof -
    have "if i \<in> set F then disk_status s i = 1 else disk_status s i = 0"
      using assms(1) that unfolding raid6_lost_def list_all_iff by (auto split: if_splits)
    then show ?thesis unfolding assms(2) by (auto split: if_splits)
  qed
  have e: "e \<in> set (disk_ids s)" using assms(1,2) unfolding raid6_lost_def by blast
  have "set ?xs = {e}"
  proof
    show "set ?xs \<subseteq> {e}" using st by (auto simp del: set_upto)
    show "{e} \<subseteq> set ?xs" using st [OF e] e assms(3) by (simp del: set_upto)
  qed
  moreover have "distinct ?xs" by simp
  ultimately have "?xs = [e]" by (intro distinct_singleton)
  then show ?thesis by (simp add: raid6_another_def)
qed

text \<open>The disks a loop visits, in terms of the data disks of the row.\<close>

lemma filter_skip_pq:
  "raid6_parity_disk n b \<in> set skip \<Longrightarrow> raid6_code_disk n b \<in> set skip \<Longrightarrow>
   filter (\<lambda>i. i \<notin> set skip) [0..n - 1] = filter (\<lambda>i. i \<notin> set skip) (raid6_data n b)"
  by (auto simp: raid6_data_def intro: filter_cong)

lemma xsum_skip_q:
  assumes n: "2 \<le> n" "0 \<le> b"
    and s: "raid6_code_disk n b \<in> set skip" "raid6_parity_disk n b \<notin> set skip"
  shows "xsum f (filter (\<lambda>i. i \<notin> set skip) [0..n - 1]) =
    f (raid6_parity_disk n b) XOR xsum f (filter (\<lambda>i. i \<notin> set skip) (raid6_data n b))"
proof -
  let ?p = "raid6_parity_disk n b"
  have f: "filter (\<lambda>i. i \<noteq> ?p) (filter (\<lambda>i. i \<notin> set skip) [0..n - 1]) =
      filter (\<lambda>i. i \<notin> set skip) (raid6_data n b)"
    using s(1) by (auto simp: raid6_data_def intro: filter_cong)
  have "xsum f (filter (\<lambda>i. i \<notin> set skip) [0..n - 1]) =
      f ?p XOR xsum f (filter (\<lambda>i. i \<noteq> ?p) (filter (\<lambda>i. i \<notin> set skip) [0..n - 1]))"
    using raid6_parity_range [OF n] s(2) by (intro xsum_remove) auto
  then show ?thesis by (simp only: f)
qed

text \<open>The situation of a degraded read within a row.\<close>

definition raid6_at :: "gf \<Rightarrow> int \<Rightarrow> int list \<Rightarrow> (int \<Rightarrow> byte list) \<Rightarrow> int \<Rightarrow> int \<Rightarrow> int \<Rightarrow> sys \<Rightarrow> bool" where
  "raid6_at T m F v b sz off s \<longleftrightarrow> gf_ok T \<and> raid6_lost m F v s \<and> 3 \<le> disk_total_num s \<and>
     disk_total_num s \<le> 10 \<and> 0 \<le> b \<and> 0 < sz \<and> 4 dvd sz \<and> 0 \<le> off \<and>
     off + sz \<le> m * disk_block_size s \<and>
     list_all (\<lambda>j. raid6_rel (disk_total_num s) b v (nat off + j)) [0..<nat sz]"

lemma raid6_at_readable:
  "raid6_at T m F v b sz off s \<Longrightarrow> 0 \<le> i \<Longrightarrow> i < disk_total_num s \<Longrightarrow> i \<notin> set F \<Longrightarrow>
   readable s v sz off i"
  using raid6_lost_readable by (auto simp: raid6_at_def)

lemma raid6_at_rel:
  "raid6_at T m F v b sz off s \<Longrightarrow> j < nat sz \<Longrightarrow> raid6_rel (disk_total_num s) b v (nat off + j)"
  by (simp add: raid6_at_def list_all_iff)

lemma raid6_at_bytes:
  assumes "raid6_at T m F v b sz off s" "0 \<le> d" "d < disk_total_num s"
  shows "map (\<lambda>j. v d ! (nat off + j)) [0..<nat sz] = take (nat sz) (drop (nat off) (v d))"
proof -
  have "0 \<le> off" "0 < sz" "off + sz \<le> int (length (v d))"
    using assms by (auto simp: raid6_at_def raid6_lost_def list_all_iff)
  then have "nat off + nat sz \<le> length (v d)" by linarith
  then show ?thesis by (auto intro!: nth_equalityI)
qed

lemma raid6_decode_one_ok:
  fixes s :: sys
  defines "n \<equiv> disk_total_num s"
  assumes at: "raid6_at T m F v b sz off s" and F: "set F \<subseteq> {d, raid6_code_disk n b}"
    and d: "0 \<le> d" "d < n" "d \<noteq> raid6_code_disk n b"
    and len: "length temp = nat sz"
  shows "raid6_decode_one d (raid6_code_disk n b) temp (zeros (nat sz)) sz off s =
    (sz, take (nat sz) (drop (nat off) (v d)), s)"
proof -
  let ?q = "raid6_code_disk n b" and ?p = "raid6_parity_disk n b"
  have n: "2 \<le> n" "0 \<le> b" "4 dvd sz" using at by (auto simp: raid6_at_def n_def)
  have r: "readable s v sz off i" if "i \<in> set (disk_ids s)" "i \<notin> set [d, ?q]" for i
    using raid6_at_readable [OF at, of i] that F by auto
  have x: "xsum (\<lambda>i. v i ! (nat off + j)) (filter (\<lambda>i. i \<notin> set [d, ?q]) [0..n - 1]) =
      v d ! (nat off + j)" if j: "j < nat sz" for j
  proof (cases "d = ?p")
    case True
    have f: "filter (\<lambda>i. i \<notin> set [d, ?q]) [0..n - 1] = raid6_data n b"
      using True by (simp add: raid6_data_def)
    show ?thesis using raid6_at_rel [OF at j] True unfolding f by (simp add: raid6_rel_def n_def)
  next
    case False
    then have dd: "d \<in> set (raid6_data n b)" using d by (simp add: set_raid6_data)
    have f: "filter (\<lambda>i. i \<notin> set [d, ?q]) (raid6_data n b) = filter (\<lambda>i. i \<noteq> d) (raid6_data n b)"
      by (rule filter_cong) (auto simp: set_raid6_data)
    have "?p \<notin> set [d, ?q]" using False raid6_parity_range [OF n(1,2)] by simp
    then have "xsum (\<lambda>i. v i ! (nat off + j)) (filter (\<lambda>i. i \<notin> set [d, ?q]) [0..n - 1]) =
        v ?p ! (nat off + j) XOR
        xsum (\<lambda>i. v i ! (nat off + j)) (filter (\<lambda>i. i \<noteq> d) (raid6_data n b))"
      unfolding f [symmetric] by (intro xsum_skip_q n) auto
    then show ?thesis using data_by_p [OF raid6_at_rel [OF at j, folded n_def] dd]
      by (simp add: xor.commute)
  qed
  obtain t where "raid6_xor_ints [d, ?q] sz off (disk_ids s) temp (zeros (nat sz)) s = (True, t,
      map (\<lambda>j. zeros (nat sz) ! j XOR xsum (\<lambda>i. v i ! (nat off + j))
        (filter (\<lambda>i. i \<notin> set [d, ?q]) (disk_ids s))) [0..<nat sz], s)"
    using raid6_xor_ints_ok [OF r n(3) len length_zeros] by blast
  moreover have "map (\<lambda>j. zeros (nat sz) ! j XOR xsum (\<lambda>i. v i ! (nat off + j))
        (filter (\<lambda>i. i \<notin> set [d, ?q]) (disk_ids s))) [0..<nat sz] =
      take (nat sz) (drop (nat off) (v d))"
    unfolding raid6_at_bytes [OF at d(1,2) [unfolded n_def], symmetric] using x
    by (intro map_cong refl) (simp add: n_def)
  ultimately show ?thesis by (simp add: raid6_decode_one_def)
qed

lemma raid6_at_coeff:
  fixes s :: sys
  defines "n \<equiv> disk_total_num s"
  assumes at: "raid6_at T m F v b sz off s" and i: "0 \<le> i" "i < n" "i \<notin> set skip"
    and skip: "raid6_parity_disk n b \<in> set skip" "raid6_code_disk n b \<in> set skip"
  shows "raid6_coeff n (raid6_code_disk n b) (raid6_parity_disk n b) i = uint (raid6_g n b i)"
  by (rule raid6_coeff_g(1)) (use at i skip in \<open>auto simp: raid6_at_def n_def set_raid6_data\<close>)

lemma raid6_decode_q_ok:
  fixes s :: sys and b :: int
  defines "n \<equiv> disk_total_num s"
  defines "p \<equiv> raid6_parity_disk n b" and "q \<equiv> raid6_code_disk n b"
  assumes at: "raid6_at T m F v b sz off s" and F: "set F \<subseteq> {p, q}"
    and len: "length temp = nat sz"
  shows "raid6_decode_q T q p temp (zeros (nat sz)) sz off s =
    (sz, take (nat sz) (drop (nat off) (v q)), s)"
proof -
  have n: "2 \<le> n" "0 \<le> b" and T: "gf_ok T" using at by (auto simp: raid6_at_def n_def)
  have q: "0 \<le> q" "q < disk_total_num s" using raid6_disks [OF n] by (auto simp: q_def n_def)
  have r: "readable s v sz off i" if "i \<in> set (disk_ids s)" "i \<notin> set [p, q]" for i
    using raid6_at_readable [OF at, of i] that F by auto
  have g: "raid6_coeff n q p i = uint (raid6_g n b i)" if "i \<in> set (disk_ids s)" "i \<notin> set [p, q]" for i
    unfolding p_def q_def n_def
    by (rule raid6_at_coeff [OF at, where skip = "[p, q]"]) (use that in \<open>auto simp: p_def q_def n_def\<close>)
  obtain t where t: "raid6_gf_sum T n q p [p, q] None sz off (disk_ids s) temp (zeros (nat sz)) s = (t,
      map (\<lambda>j. zeros (nat sz) ! j XOR xsum (\<lambda>i. gmul (v i ! (nat off + j)) (raid6_g n b i))
        (filter (\<lambda>i. i \<notin> set [p, q]) (disk_ids s))) [0..<nat sz], s)"
    using raid6_gf_sum_ok [OF T _ r g len length_zeros, of None] by fastforce
  have "filter (\<lambda>i. i \<notin> set [p, q]) (disk_ids s) = raid6_data n b"
    by (simp add: raid6_data_def p_def q_def n_def)
  then have "map (\<lambda>j. zeros (nat sz) ! j XOR xsum (\<lambda>i. gmul (v i ! (nat off + j)) (raid6_g n b i))
        (filter (\<lambda>i. i \<notin> set [p, q]) (disk_ids s))) [0..<nat sz] =
      take (nat sz) (drop (nat off) (v q))"
    unfolding raid6_at_bytes [OF at q, symmetric]
    by (intro map_cong refl) (use raid6_at_rel [OF at] in \<open>simp add: raid6_rel_def q_def n_def\<close>)
  then show ?thesis using t by (simp add: raid6_decode_q_def n_def)
qed

lemma raid6_from_q_ok:
  fixes s :: sys and b :: int
  defines "n \<equiv> disk_total_num s"
  defines "p \<equiv> raid6_parity_disk n b" and "q \<equiv> raid6_code_disk n b"
  assumes at: "raid6_at T m F v b sz off s" and F: "set F = {d, e}" "d \<noteq> q" "e \<noteq> q"
    and c: "raid6_coeff n q p d = uint c" "c \<noteq> 0" and len: "length temp = nat sz"
  shows "\<exists>t. length t = nat sz \<and> raid6_from_q T q p d e sz off temp (zeros (nat sz)) s = (t,
    map (\<lambda>j. gdiv (xsum (\<lambda>i. gmul (v i ! (nat off + j)) (raid6_g n b i))
      (filter (\<lambda>i. i \<noteq> d \<and> i \<noteq> e) (raid6_data n b)) XOR v q ! (nat off + j)) c) [0..<nat sz], s)"
proof -
  let ?skip = "[d, e, p, q]"
  have n: "2 \<le> n" "0 \<le> b" and T: "gf_ok T" using at by (auto simp: raid6_at_def n_def)
  have q: "0 \<le> q" "q < n" using raid6_disks [OF n] by (auto simp: q_def)
  have r: "readable s v sz off i" if "i \<in> set [0..n - 1]" "i \<notin> set ?skip"
    "None = None \<or> i \<noteq> fst (the (None :: (int \<times> byte list) option))" for i
    using raid6_at_readable [OF at, of i] that F by (auto simp: n_def)
  have g: "raid6_coeff n q p i = uint (raid6_g n b i)" if "i \<in> set [0..n - 1]" "i \<notin> set ?skip" for i
    unfolding p_def q_def n_def
    by (rule raid6_at_coeff [OF at, where skip = ?skip]) (use that in \<open>auto simp: p_def q_def n_def\<close>)
  have f: "filter (\<lambda>i. i \<notin> set ?skip) [0..n - 1] = filter (\<lambda>i. i \<noteq> d \<and> i \<noteq> e) (raid6_data n b)"
    by (subst filter_skip_pq [of n b]) (auto simp: p_def q_def set_raid6_data intro: filter_cong)
  have k: "length b' = nat sz \<and> (\<forall>j < nat sz. b' ! j = v k ! (nat off + j))"
    if "None = Some (k, b')" for k b' using that by simp
  let ?x = "\<lambda>j. xsum (\<lambda>i. gmul (v i ! (nat off + j)) (raid6_g n b i))
        (filter (\<lambda>i. i \<noteq> d \<and> i \<noteq> e) (raid6_data n b))"
  have "\<exists>t. length t = nat sz \<and>
      raid6_gf_sum T n q p ?skip None sz off [0..n - 1] temp (zeros (nat sz)) s =
      (t, map (\<lambda>j. zeros (nat sz) ! j XOR ?x j) [0..<nat sz], s)"
    unfolding f [symmetric] by (rule raid6_gf_sum_ok [OF T k r g len length_zeros])
  then obtain t where t: "length t = nat sz"
    "raid6_gf_sum T n q p ?skip None sz off [0..n - 1] temp (zeros (nat sz)) s =
      (t, map (\<lambda>j. zeros (nat sz) ! j XOR ?x j) [0..<nat sz], s)" by blast
  obtain u where u: "nc_readDisk q t sz off s = (sz, u, s)" "length u = nat sz"
    "\<And>j. j < nat sz \<Longrightarrow> u ! j = v q ! (nat off + j)"
  proof (rule readable_read [OF _ t(1)])
    show "readable s v sz off q" by (rule raid6_at_readable [OF at]) (use q F in \<open>auto simp: n_def\<close>)
  qed blast
  let ?y = "xor_into (heap_junk s) (nat sz) (map (\<lambda>j. zeros (nat sz) ! j XOR ?x j) [0..<nat sz]) u"
  have y: "gf_div_buf T (uint c) (nat sz) ?y = map (\<lambda>j. gdiv (?x j XOR v q ! (nat off + j)) c) [0..<nat sz]"
    using u(2,3) by (auto intro!: nth_equalityI simp: nth_gf_div_buf [OF T c(2)] nth_xor_into)
  show ?thesis
    unfolding raid6_from_q_def Let_def n_def [symmetric] t(2) prod.case u(1) c(1) y using u(2) by blast
qed

lemma raid6_decode_q_d_ok:
  fixes s :: sys and b :: int
  defines "n \<equiv> disk_total_num s"
  defines "p \<equiv> raid6_parity_disk n b" and "q \<equiv> raid6_code_disk n b"
  assumes at: "raid6_at T m F v b sz off s" and F: "set F = {q, e}" and e: "e \<in> set (raid6_data n b)"
    and len: "length temp = nat sz"
  shows "raid6_decode_q_d T q p q e temp (zeros (nat sz)) sz off s =
    (sz, take (nat sz) (drop (nat off) (v q)), s)"
proof -
  have n: "2 \<le> n" "0 \<le> b" "4 dvd sz" and T: "gf_ok T" using at by (auto simp: raid6_at_def n_def)
  have q: "0 \<le> q" "q < disk_total_num s" using raid6_disks [OF n(1,2)] by (auto simp: q_def n_def)
  have er: "0 \<le> e" "e < n" "e \<noteq> p" "e \<noteq> q" using e by (auto simp: set_raid6_data p_def q_def)
  have r1: "readable s v sz off i" if "i \<in> set (disk_ids s)" "i \<notin> set [q, e]" for i
    using raid6_at_readable [OF at, of i] that F by (auto simp: n_def)
  have x: "xsum (\<lambda>i. v i ! (nat off + j)) (filter (\<lambda>i. i \<notin> set [q, e]) (disk_ids s)) =
      v e ! (nat off + j)" if j: "j < nat sz" for j
  proof -
    have f: "filter (\<lambda>i. i \<notin> set [q, e]) (raid6_data n b) = filter (\<lambda>i. i \<noteq> e) (raid6_data n b)"
      by (rule filter_cong) (auto simp: set_raid6_data q_def)
    have "xsum (\<lambda>i. v i ! (nat off + j)) (filter (\<lambda>i. i \<notin> set [q, e]) [0..n - 1]) =
        v p ! (nat off + j) XOR
        xsum (\<lambda>i. v i ! (nat off + j)) (filter (\<lambda>i. i \<noteq> e) (raid6_data n b))"
      unfolding f [symmetric] p_def
      by (rule xsum_skip_q [OF n(1,2)]) (use raid6_parity_range [OF n(1,2)] er in \<open>auto simp: p_def q_def\<close>)
    then show ?thesis using data_by_p [OF raid6_at_rel [OF at j, folded n_def] e]
      by (simp add: xor.commute p_def n_def)
  qed
  let ?e = "map (\<lambda>j. v e ! (nat off + j)) [0..<nat sz]"
  obtain t where t: "length t = nat sz"
    "raid6_xor_ints [q, e] sz off (disk_ids s) temp (zeros (nat sz)) s = (True, t,
      map (\<lambda>j. zeros (nat sz) ! j XOR xsum (\<lambda>i. v i ! (nat off + j))
        (filter (\<lambda>i. i \<notin> set [q, e]) (disk_ids s))) [0..<nat sz], s)"
    using raid6_xor_ints_ok [OF r1 n(3) len length_zeros] by blast
  have be: "map (\<lambda>j. zeros (nat sz) ! j XOR xsum (\<lambda>i. v i ! (nat off + j))
        (filter (\<lambda>i. i \<notin> set [q, e]) (disk_ids s))) [0..<nat sz] = ?e"
    by (intro map_cong refl) (use x in simp)
  have r: "readable s v sz off i" if "i \<in> set (disk_ids s)" "i \<notin> set [p, q]"
    "Some (e, ?e) = None \<or> i \<noteq> fst (the (Some (e, ?e)))" for i
    using raid6_at_readable [OF at, of i] that F by auto
  have g: "raid6_coeff n q p i = uint (raid6_g n b i)" if "i \<in> set (disk_ids s)" "i \<notin> set [p, q]" for i
    unfolding p_def q_def n_def
    by (rule raid6_at_coeff [OF at, where skip = "[p, q]"]) (use that in \<open>auto simp: p_def q_def n_def\<close>)
  have k: "length b' = nat sz \<and> (\<forall>j < nat sz. b' ! j = v k ! (nat off + j))"
    if "Some (e, ?e) = Some (k, b')" for k b' using that by auto
  obtain u where u: "raid6_gf_sum T n q p [p, q] (Some (e, ?e)) sz off (disk_ids s) t (zeros (nat sz)) s = (u,
      map (\<lambda>j. zeros (nat sz) ! j XOR xsum (\<lambda>i. gmul (v i ! (nat off + j)) (raid6_g n b i))
        (filter (\<lambda>i. i \<notin> set [p, q]) (disk_ids s))) [0..<nat sz], s)"
    using raid6_gf_sum_ok [OF T k r g t(1) length_zeros] by blast
  have f: "filter (\<lambda>i. i \<notin> set [p, q]) (disk_ids s) = raid6_data n b"
    by (simp add: raid6_data_def p_def q_def n_def)
  have bq: "map (\<lambda>j. zeros (nat sz) ! j XOR xsum (\<lambda>i. gmul (v i ! (nat off + j)) (raid6_g n b i))
        (filter (\<lambda>i. i \<notin> set [p, q]) (disk_ids s))) [0..<nat sz] =
      take (nat sz) (drop (nat off) (v q))"
    unfolding f raid6_at_bytes [OF at q, symmetric]
    by (intro map_cong refl) (use raid6_at_rel [OF at] in \<open>simp add: raid6_rel_def q_def n_def\<close>)
  have lq: "length (take (nat sz) (drop (nat off) (v q))) = nat sz"
    unfolding raid6_at_bytes [OF at q, symmetric] by simp
  show ?thesis
    unfolding raid6_decode_q_d_def Let_def t(2) prod.case be u [unfolded bq, unfolded n_def]
    using lq by (simp add: overwrite_def)
qed

lemma raid6_decode_d_d_ok:
  fixes s :: sys and b :: int
  defines "n \<equiv> disk_total_num s"
  defines "p \<equiv> raid6_parity_disk n b" and "q \<equiv> raid6_code_disk n b"
  assumes at: "raid6_at T m F v b sz off s" and F: "set F = {d, e}"
    and d: "d \<in> set (raid6_data n b)" "e \<in> set (raid6_data n b)" "d \<noteq> e"
    and len: "length temp = nat sz"
  shows "raid6_decode_d_d T q p d e temp (zeros (nat sz)) sz off s =
    (sz, take (nat sz) (drop (nat off) (v d)), s)"
proof -
  let ?skip = "[d, e, p, q]" and ?a = "\<lambda>j. nat off + j"
  have n: "3 \<le> n" "n \<le> 10" "0 \<le> b" "2 \<le> n" "0 < sz" "0 \<le> off" and T: "gf_ok T"
    using at by (auto simp: raid6_at_def n_def)
  have dr: "0 \<le> d" "d < n" "d \<noteq> p" "d \<noteq> q" "e \<noteq> p" "e \<noteq> q"
    using d by (auto simp: set_raid6_data p_def q_def)
  have pq: "0 \<le> q" "q < n" "0 \<le> p" "p < n"
    using raid6_disks [OF n(4,3)] raid6_parity_range [OF n(4,3)] by (auto simp: p_def q_def)
  have r: "readable s v sz off i" if "i \<in> set (disk_ids s)" "i \<notin> set ?skip" for i
    using raid6_at_readable [OF at, of i] that F by auto
  have rpq: "readable s v sz off p" "readable s v sz off q"
    using raid6_at_readable [OF at, of p] raid6_at_readable [OF at, of q] pq dr F by (auto simp: n_def)
  have g: "raid6_coeff n q p i = uint (raid6_g n b i)" if "i \<in> set (disk_ids s)" "i \<notin> set ?skip" for i
    unfolding p_def q_def n_def
    by (rule raid6_at_coeff [OF at, where skip = ?skip]) (use that in \<open>auto simp: p_def q_def n_def\<close>)
  have f: "filter (\<lambda>i. i \<notin> set ?skip) (disk_ids s) = filter (\<lambda>i. i \<noteq> d \<and> i \<noteq> e) (raid6_data n b)"
    unfolding n_def [symmetric]
    by (subst filter_skip_pq [of n b]) (auto simp: p_def q_def set_raid6_data intro: filter_cong)
  let ?D = "filter (\<lambda>i. i \<noteq> d \<and> i \<noteq> e) (raid6_data n b)"
  have c: "raid6_coeff n q p d = uint (raid6_g n b d)" "raid6_coeff n q p e = uint (raid6_g n b e)"
    unfolding p_def q_def by (rule raid6_coeff_g [OF n(1-3)] d)+
  have g12: "raid6_g n b d XOR raid6_g n b e \<noteq> 0" by (rule raid6_g_inj [OF n(1-3) d])
  have rd: "0 \<le> snd x \<and> snd x + sz \<le> int (length (content s (fst x)))"
    if xin: "x \<in> set (map (\<lambda>i. (i, off)) ?D)" for x
  proof -
    have "fst x \<in> set (disk_ids s)" "fst x \<notin> set ?skip" "snd x = off"
      using xin by (auto simp: set_raid6_data n_def p_def q_def)
    then show ?thesis using r [of "fst x"] n(6) by (simp add: readable_def)
  qed
  have cv: "content s i = v i" if "i \<in> set ?D" for i
    using r [of i] that by (auto simp: set_raid6_data n_def p_def q_def readable_def)
  obtain t where t: "xor_cells sz (map (\<lambda>i. (i, off)) ?D) temp (zeros (nat sz)) s = (t,
      map (\<lambda>j. zeros (nat sz) ! j XOR xsum (\<lambda>x. content s (fst x) ! (nat (snd x) + j))
        (map (\<lambda>i. (i, off)) ?D)) [0..<nat sz], s)"
    using xor_cells_ok [OF rd n(5) len length_zeros] by blast
  have "length (fst (xor_cells sz (map (\<lambda>i. (i, off)) ?D) temp (zeros (nat sz)) s)) = nat sz"
    by (rule xor_cells_length [OF rd n(5) len])
  then have lt: "length t = nat sz" unfolding t fst_conv .
  let ?P' = "map (\<lambda>j. xsum (\<lambda>i. v i ! ?a j) ?D) [0..<nat sz]"
  have bt: "map (\<lambda>j. zeros (nat sz) ! j XOR xsum (\<lambda>x. content s (fst x) ! (nat (snd x) + j))
        (map (\<lambda>i. (i, off)) ?D)) [0..<nat sz] = ?P'"
  proof (intro map_cong refl)
    fix j assume "j \<in> set [0..<nat sz]"
    then have z: "zeros (nat sz) ! j = 0" by simp
    have "xsum (\<lambda>i. content s i ! ?a j) ?D = xsum (\<lambda>i. v i ! ?a j) ?D"
      by (rule xsum_cong [OF refl]) (simp only: cv)
    then show "zeros (nat sz) ! j XOR xsum (\<lambda>x. content s (fst x) ! (nat (snd x) + j))
        (map (\<lambda>i. (i, off)) ?D) = xsum (\<lambda>i. v i ! ?a j) ?D"
      unfolding z xsum_map fst_conv snd_conv xor.left_neutral .
  qed
  obtain u where u: "nc_readDisk p t sz off s = (sz, u, s)" "length u = nat sz"
    "\<And>j. j < nat sz \<Longrightarrow> u ! j = v p ! ?a j"
    by (rule readable_read [OF rpq(1) lt]) blast
  let ?P = "map (\<lambda>j. xsum (\<lambda>i. v i ! ?a j) ?D XOR v p ! ?a j) [0..<nat sz]"
  have P: "xor_into (heap_junk s) (nat sz) ?P' u = ?P"
    using u(2,3) by (auto intro!: nth_equalityI simp: nth_xor_into)
  have ne: "disk_ids s \<noteq> []" using n(1) by (simp add: n_def)
  have gx: "uint (raid6_g n b d) XOR uint (raid6_g n b e) = uint (raid6_g n b d XOR raid6_g n b e)"
    by (simp add: uint_xor)
  have lP: "length ?P = nat sz" by simp
  have two: "raid6_two_data T n q p ?skip (uint (raid6_g n b e)) (uint (raid6_g n b d XOR raid6_g n b e))
      sz off P [0..n - 1] u (zeros (nat sz)) (zeros (nat sz)) s = (map (\<lambda>j.
      gdiv (gmul (raid6_g n b e) (P ! j) XOR (zeros (nat sz) ! j XOR
        xsum (\<lambda>i. gmul (v i ! ?a j) (raid6_g n b i)) ?D) XOR v q ! ?a j)
      (raid6_g n b d XOR raid6_g n b e)) [0..<nat sz], s)" if "length P = nat sz" for P
    unfolding f [folded n_def, symmetric]
    by (rule raid6_two_data_ok [OF T rpq(2) r g g12 that u(2) length_zeros length_zeros ne, folded n_def])
  have "raid6_decode_d_d T q p d e temp (zeros (nat sz)) sz off s = (sz, map (\<lambda>j.
      gdiv (gmul (raid6_g n b e) (?P ! j) XOR (zeros (nat sz) ! j XOR
        xsum (\<lambda>i. gmul (v i ! ?a j) (raid6_g n b i)) ?D) XOR v q ! ?a j)
      (raid6_g n b d XOR raid6_g n b e)) [0..<nat sz], s)"
    unfolding raid6_decode_d_d_def Let_def n_def [symmetric] c f [folded n_def] t prod.case bt u(1) P gx
    by (simp only: two [OF lP] prod.case)
  also have "\<dots> = (sz, take (nat sz) (drop (nat off) (v d)), s)"
    unfolding raid6_at_bytes [OF at dr(1) dr(2) [unfolded n_def], symmetric]
    using two_data [OF raid6_at_rel [OF at, folded n_def] n(1-3) d]
    by (simp add: p_def q_def xor.assoc)
  finally show ?thesis .
qed

text \<open>
  A read of a range that lies in one row, of a disk that is good or failed. The case of a lost P and a
  lost data disk is treated below.
\<close>

lemma raid6_row_of:
  assumes "0 < bs" "0 \<le> off" "off mod bs + sz \<le> bs" "j < nat sz"
  shows "int (nat off + j) div bs = off div (bs :: int)"
proof -
  have "int (nat off + j) = (off mod bs + int j) + off div bs * bs"
    using div_mult_mod_eq [of off bs] assms(2) by simp
  moreover have "0 \<le> off mod bs + int j" "off mod bs + int j < bs" using assms by auto
  ultimately show ?thesis
    using assms(1) div_mult_self1 [of bs "off mod bs + int j" "off div bs"]
    by (simp only: div_pos_pos_trivial)
qed

lemma raid6_at_start:
  fixes s :: sys
  defines "n \<equiv> disk_total_num s" and "bs \<equiv> disk_block_size s"
  assumes l: "raid6_lost m F v s" and n: "3 \<le> n" "n \<le> 10"
    and par: "raid6_parity n bs (m * bs) v"
    and rng: "0 < sz" "4 dvd sz" "0 \<le> off" "off mod bs + sz \<le> bs" "off + sz \<le> m * bs"
    and T: "gf_ok T"
  shows "raid6_at T m F v (off div bs) sz off s"
proof -
  have bs: "0 < bs" using l by (simp add: raid6_lost_def bs_def)
  have "raid6_rel n (off div bs) v (nat off + j)" if j: "j < nat sz" for j
  proof -
    have "nat off + j < nat (m * bs)" using j rng by linarith
    then have "nat off + j \<in> set [0..<nat (m * bs)]" by simp
    with par have "raid6_rel n (int (nat off + j) div bs) v (nat off + j)"
      unfolding raid6_parity_def list_all_iff by (rule bspec)
    then show ?thesis unfolding raid6_row_of [OF bs rng(3,4) j] .
  qed
  moreover have "0 \<le> off div bs" using bs rng(3) by (simp add: pos_imp_zdiv_nonneg_iff)
  ultimately show ?thesis
    using l n rng T by (simp add: raid6_at_def list_all_iff n_def bs_def)
qed

lemma raid6_lost_cases [consumes 3, case_names one two]:
  assumes l: "raid6_lost m F v s" "length F \<le> 2" and d: "d \<in> set F"
  obtains (one) "set F = {d}" "length F = 1"
    | (two) e where "set F = {d, e}" "d \<noteq> e" "length F = 2" "0 \<le> e" "e < disk_total_num s"
proof -
  have dist: "distinct F" "set F \<subseteq> set (disk_ids s)" using l(1) by (simp_all add: raid6_lost_def)
  have "length F = 1 \<or> length F = 2" using l(2) d by (cases F) (auto simp: le_Suc_eq)
  then show thesis
  proof
    assume f: "length F = 1"
    then obtain x where "F = [x]" by (cases F) auto
    then show thesis using one d f by auto
  next
    assume f: "length F = 2"
    then obtain x y where F: "F = [x, y]" by (cases F; cases "tl F") auto
    have r: "0 \<le> x" "x < disk_total_num s" "0 \<le> y" "y < disk_total_num s" "x \<noteq> y"
      using dist F by auto
    show thesis
    proof (cases "d = x")
      case True then show thesis using two [of y] F f r by simp
    next
      case False
      then show thesis using two [of x] F f r d by auto
    qed
  qed
qed

lemma raid6_from_q_data:
  fixes s :: sys and b :: int
  defines "n \<equiv> disk_total_num s"
  defines "p \<equiv> raid6_parity_disk n b" and "q \<equiv> raid6_code_disk n b"
  assumes at: "raid6_at T m F v b sz off s" and F: "set F = {d, p}" and d: "d \<in> set (raid6_data n b)"
    and len: "length temp = nat sz"
  shows "\<exists>t. raid6_from_q T q p d p sz off temp (zeros (nat sz)) s =
    (t, take (nat sz) (drop (nat off) (v d)), s)"
proof -
  have n: "3 \<le> n" "n \<le> 10" "0 \<le> b" "2 \<le> n" using at by (auto simp: raid6_at_def n_def)
  have dr: "0 \<le> d" "d < disk_total_num s" "d \<noteq> q" using d by (auto simp: set_raid6_data q_def n_def)
  have c: "raid6_coeff n q p d = uint (raid6_g n b d)" "raid6_g n b d \<noteq> 0"
    unfolding p_def q_def by (rule raid6_coeff_g [OF n(1-3) d])+
  have f: "filter (\<lambda>i. i \<noteq> d \<and> i \<noteq> p) (raid6_data n b) = filter (\<lambda>i. i \<noteq> d) (raid6_data n b)"
    by (rule filter_cong) (auto simp: set_raid6_data p_def)
  have pq: "p \<noteq> q" using raid6_parity_range [OF n(4,3)] by (simp add: p_def q_def)
  have bd: "map (\<lambda>j. gdiv (xsum (\<lambda>i. gmul (v i ! (nat off + j)) (raid6_g n b i))
      (filter (\<lambda>i. i \<noteq> d) (raid6_data n b)) XOR v q ! (nat off + j)) (raid6_g n b d)) [0..<nat sz] =
    take (nat sz) (drop (nat off) (v d))"
    unfolding raid6_at_bytes [OF at dr(1,2), symmetric]
  proof (rule map_cong [OF refl])
    fix j assume "j \<in> set [0..<nat sz]"
    then have rl: "raid6_rel n b v (nat off + j)" unfolding n_def by (intro raid6_at_rel [OF at]) simp
    show "gdiv (xsum (\<lambda>i. gmul (v i ! (nat off + j)) (raid6_g n b i))
      (filter (\<lambda>i. i \<noteq> d) (raid6_data n b)) XOR v q ! (nat off + j)) (raid6_g n b d) =
      v d ! (nat off + j)"
      unfolding q_def data_by_q [OF rl d] by (rule gdiv_gmul_right [OF c(2)])
  qed
  show ?thesis
    using raid6_from_q_ok [OF at F, folded n_def, folded p_def q_def, OF dr(3) pq c len]
    unfolding f bd by blast
qed

text \<open>
  C17: RAID 6 survives the loss of any two disks: while at most two disks are lost and the parities
  hold, \<open>decode\<close> of a range within a block returns what the disk holds or held, for a good disk, a lost
  data disk, and a lost P or Q; the one exception is P when a data disk is lost as well.
\<close>

theorem raid6_degraded_read:
  fixes s :: sys and off :: int
  defines "n \<equiv> disk_total_num s" and "bs \<equiv> disk_block_size s"
  defines "p \<equiv> raid6_parity_disk n (off div bs)" and "q \<equiv> raid6_code_disk n (off div bs)"
  assumes l: "raid6_lost m F v s" "length F \<le> 2" and n: "3 \<le> n" "n \<le> 10"
    and par: "raid6_parity n bs (m * bs) v"
    and rng: "0 < sz" "4 dvd sz" "0 \<le> off" "off mod bs + sz \<le> bs" "off + sz \<le> m * bs"
    and d: "0 \<le> d" "d < n" "d \<noteq> p \<or> p \<notin> set F \<or> set F \<subseteq> {p, q}" and len: "length buf = nat sz"
  shows "raid6_decode (gf_gen_tables junk field_power) d buf sz off s =
    (sz, take (nat sz) (drop (nat off) (v d)), s)"
proof -
  define T where "T = gf_gen_tables junk field_power"
  define b where "b = off div bs"
  have at: "raid6_at T m F v b sz off s"
    unfolding b_def bs_def T_def using l(1) n par rng gf_gen_tables_ok
    by (intro raid6_at_start) (auto simp: n_def bs_def)
  have bs: "0 < bs" using l(1) by (simp add: raid6_lost_def bs_def)
  have b: "off sdiv bs = b" "0 \<le> b" using bs rng(3) by (simp_all add: b_def pos_imp_zdiv_nonneg_iff)
  have pq: "p = raid6_parity_disk n b" "q = raid6_code_disk n b" by (simp_all add: p_def q_def b_def)
  have n2: "2 \<le> n" using n by simp
  have ne: "p \<noteq> q" "0 \<le> p" "p < n" "0 \<le> q" "q < n"
    using raid6_parity_range [OF n2 b(2)] raid6_disks [OF n2 b(2)] by (auto simp: pq)
  have z: "overwrite buf 0 (zeros (nat sz)) = zeros (nat sz)" using len by (simp add: overwrite_def)
  note dec = raid6_decode_def [of T d buf sz off s, unfolded Let_def, folded n_def bs_def,
      unfolded b(1) z, folded pq]
  have cnt: "length (filter (\<lambda>i. disk_status s i = 1) (disk_ids s)) = length F"
    by (rule raid6_lost_count [OF l(1)])
  have inF: "d \<in> set F \<Longrightarrow> disk_status s d = 1" "d \<notin> set F \<Longrightarrow> disk_status s d = 0"
    using l(1) d by (auto simp: raid6_lost_def list_all_iff n_def)
  show ?thesis unfolding T_def [symmetric]
  proof (cases "d \<in> set F")
    case False
    have r: "readable s v sz off d" by (rule raid6_at_readable [OF at]) (use d False in \<open>auto simp: n_def\<close>)
    have "nc_readDisk d (zeros (nat sz)) sz off s = (sz, take (nat sz) (drop (nat off) (content s d)), s)"
      by (rule nc.rd_buf) (use r in \<open>auto simp: readable_def\<close>)
    then show "raid6_decode T d buf sz off s = (sz, take (nat sz) (drop (nat off) (v d)), s)"
      using inF(2) [OF False] r by (simp add: dec readable_def)
  next
    case True
    note st = inF(1) [OF True]
    show "raid6_decode T d buf sz off s = (sz, take (nat sz) (drop (nat off) (v d)), s)"
      using l True
    proof (cases rule: raid6_lost_cases)
      case one
      show ?thesis
      proof (cases "d = q")
        case True
        have "set F \<subseteq> {p, q}" using one(1) True by simp
        then show ?thesis unfolding dec
          using st cnt one(2) True raid6_decode_q_ok [OF at _ length_zeros] by (simp add: pq n_def)
      next
        case False
        have "set F \<subseteq> {d, q}" using one(1) by simp
        then show ?thesis unfolding dec
          using st cnt one(2) False d raid6_decode_one_ok [OF at _ d(1) _ _ length_zeros]
 by (simp add: pq n_def)
      qed
    next
      case (two e)
      have an: "raid6_another d s = e" by (rule raid6_lost_another [OF l(1) two(1,2)])
      consider "e = q" | "d = q" "e = p" | "d = q" "e \<noteq> p" | "e = p" "d \<noteq> q" | "e \<noteq> q" "e \<noteq> p" "d \<noteq> q"
        by blast
      then show ?thesis
      proof cases
        case 1
        have "set F \<subseteq> {d, q}" using two(1) 1 by simp
        then show ?thesis unfolding dec
          using st cnt two(2,3) 1 d an raid6_decode_one_ok [OF at _ d(1) _ _ length_zeros]
 by (simp add: pq n_def)
      next
        case 2
        have "set F \<subseteq> {p, q}" using two(1) 2 by auto
        then show ?thesis unfolding dec
          using st cnt two(3) 2 an ne raid6_decode_q_ok [OF at _ length_zeros] by (simp add: pq n_def)
      next
        case 3
        have ed: "e \<in> set (raid6_data n b)" using two 3 by (simp add: set_raid6_data pq n_def)
        have "set F = {raid6_code_disk (disk_total_num s) b, e}" using two(1) 3 by (simp add: pq n_def)
        then show ?thesis unfolding dec
          using st cnt two(2,3) 3 an ne raid6_decode_q_d_ok [OF at _ ed [unfolded n_def] length_zeros]
 by (simp add: pq n_def)
      next
        case 4
        have dd: "d \<in> set (raid6_data n b)" using two d 4 by (simp add: set_raid6_data pq n_def)
        obtain t where t: "raid6_from_q T q p d p sz off (zeros (nat sz)) (zeros (nat sz)) s =
            (t, take (nat sz) (drop (nat off) (v d)), s)"
          using raid6_from_q_data [OF at, folded n_def, folded pq, OF two(1) [unfolded 4(1)] dd length_zeros]
          by blast
        show ?thesis unfolding dec an
          using st cnt two(2,3) 4 ne(1) t by (simp add: n_def)
      next
        case 5
        have dp: "d \<noteq> p" using d(3) two 5 by auto
        have dd: "d \<in> set (raid6_data n b)" "e \<in> set (raid6_data n b)"
          using two d 5 dp by (simp_all add: set_raid6_data pq n_def)
        show ?thesis unfolding dec an
          using st cnt two(2,3) 5 dp
            raid6_decode_d_d_ok [OF at two(1), folded n_def, OF dd two(2) length_zeros]
          by (simp add: pq n_def)
      qed
    qed
  qed
qed

text \<open>A fresh array, with some disks marked as failed.\<close>

lemma raid6_parity_fresh:
  assumes "2 \<le> n" "0 < bs"
  shows "raid6_parity n bs (m * bs) (content (fresh_array t n k bs m))"
proof -
  let ?v = "content (fresh_array t n k bs m)"
  have z: "?v i ! a = 0" if "0 \<le> i" "i < n" "a < nat (m * bs)" for i a
    using that by (simp add: content_fresh)
  have "raid6_rel n (int a div bs) ?v a" if "a < nat (m * bs)" for a
  proof -
    have b: "0 \<le> int a div bs" using assms by (simp add: pos_imp_zdiv_nonneg_iff)
    have "xsum (\<lambda>i. ?v i ! a) (raid6_data n (int a div bs)) = xsum (\<lambda>_. 0) (raid6_data n (int a div bs))"
      "xsum (\<lambda>i. gmul (?v i ! a) (raid6_g n (int a div bs) i)) (raid6_data n (int a div bs)) =
        xsum (\<lambda>_. 0) (raid6_data n (int a div bs))"
      by (rule xsum_cong [OF refl]; use z that in \<open>simp add: set_raid6_data gmul_0\<close>)+
    then show ?thesis
      using z that raid6_disks [OF assms(1) b] raid6_parity_range [OF assms(1) b] by (simp add: raid6_rel_def)
  qed
  then show ?thesis by (simp add: raid6_parity_def list_all_iff)
qed

definition failed_array :: "int \<Rightarrow> int list \<Rightarrow> int \<Rightarrow> int \<Rightarrow> int \<Rightarrow> sys" where
  "failed_array t F n bs m =
     (fresh_array t n n bs m)\<lparr>disk_status := (\<lambda>i. if i \<in> set F then 1 else 0)\<rparr>"

lemma failed_array_fields [simp]:
  "disk_total_num (failed_array t F n bs m) = n"
  "disk_block_size (failed_array t F n bs m) = bs"
  "disk_size (failed_array t F n bs m) = (\<lambda>_. m)"
  "disk_status (failed_array t F n bs m) = (\<lambda>i. if i \<in> set F then 1 else 0)"
  by (simp_all add: failed_array_def)

lemma content_failed_array:
  "content (failed_array t F n bs m) = content (fresh_array t n n bs m)"
  by (rule content_cong) (simp_all add: failed_array_def)

lemma raid6_lost_failed_array:
  assumes "0 < bs" "4 dvd bs" "0 \<le> m" "m * bs < 2147483648" "distinct F" "set F \<subseteq> {0..n - 1}"
  shows "raid6_lost m F (content (fresh_array t n n bs m)) (failed_array t F n bs m)"
  using assms by (simp add: raid6_lost_def content_failed_array list_all_iff content_fresh)

theorem raid6_degraded_read_witness:
  "fst (raid6_decode (gf_gen_tables \<lparr>gflog = \<lambda>_. 0, gfilog = \<lambda>_. 0\<rparr> field_power) 0 [1, 1, 1, 1] 4 4
    (failed_array 6 [0, 3] 4 4 2)) = 4"
  using raid6_degraded_read [of 2 "[0, 3]" "content (fresh_array 6 4 4 4 2)" "failed_array 6 [0, 3] 4 4 2"
      4 4 0 "[1, 1, 1, 1]"]
    raid6_parity_fresh [of 4 4 2 6 4] raid6_lost_failed_array [of 4 2 "[0, 3]" 4 6]
  by (simp add: raid6_parity_disk_def)

text \<open>
  C19: The exception: with P and a data disk lost, and Q on neither end of the row, \<open>decode\<close> of P
  divides by the coefficient it computes for the P disk in place of that of the lost data disk. It
  reports success; a byte is right exactly when the lost data byte is zero, or the lost data disk
  is the one after Q, which has the same coefficient.
\<close>

theorem raid6_pd_read_iff:
  fixes s :: sys and off :: int
  defines "n \<equiv> disk_total_num s" and "bs \<equiv> disk_block_size s"
  defines "p \<equiv> raid6_parity_disk n (off div bs)" and "q \<equiv> raid6_code_disk n (off div bs)"
  assumes l: "raid6_lost m [p, e] v s" and e: "e \<in> set (raid6_data n (off div bs))"
    and n: "3 \<le> n" "n \<le> 10" "1 \<le> q" "q \<le> n - 2"
    and par: "raid6_parity n bs (m * bs) v"
    and rng: "0 < sz" "4 dvd sz" "0 \<le> off" "off mod bs + sz \<le> bs" "off + sz \<le> m * bs"
    and len: "length buf = nat sz"
  shows "\<exists>t. raid6_decode (gf_gen_tables junk field_power) p buf sz off s = (sz, t, s) \<and>
    length t = nat sz \<and> (\<forall>j < nat sz. t ! j = v p ! (nat off + j) \<longleftrightarrow>
      v e ! (nat off + j) = 0 \<or> e = q + 1)"
proof -
  define T where "T = gf_gen_tables junk field_power"
  define b where "b = off div bs"
  have at: "raid6_at T m [p, e] v b sz off s"
    unfolding b_def bs_def T_def using l(1) n par rng gf_gen_tables_ok
    by (intro raid6_at_start) (auto simp: n_def bs_def)
  have bs: "0 < bs" using l(1) by (simp add: raid6_lost_def bs_def)
  have b: "off sdiv bs = b" "0 \<le> b" using bs rng(3) by (simp_all add: b_def pos_imp_zdiv_nonneg_iff)
  have pq: "p = raid6_parity_disk n b" "q = raid6_code_disk n b" by (simp_all add: p_def q_def b_def)
  have n2: "2 \<le> n" using n by simp
  have pe: "p = q - 1" using raid6_disks [OF n2 b(2)] n(3) by (simp add: pq)
  have ed: "e \<in> set (raid6_data n b)" using e by (simp add: b_def)
  have er: "0 \<le> e" "e < n" "e \<noteq> p" "e \<noteq> q" using ed by (auto simp: set_raid6_data pq)
  let ?c = "2 ^ nat (n - 2 - q) :: byte" and ?a = "\<lambda>j. nat off + j"
  have ex: "0 \<le> n - 2 - q" "n - 2 - q \<le> 7" using n by auto
  have xp: "raid6_exponent n q p p = n - 2 - q" by (simp add: raid6_exponent_def pe)
  have c: "raid6_coeff n q p p = uint ?c" "?c \<noteq> 0"
    unfolding raid6_coeff_def xp by (rule coefficient_byte [OF ex])+
  have ge: "raid6_g n b e = ?c \<longleftrightarrow> e = q + 1"
  proof -
    let ?x = "raid6_exponent n q p e"
    have x: "0 \<le> ?x" "?x \<le> 7"
      using raid6_exponent_range [OF n(1) b(2) ed] n(2) by (simp_all add: pq)
    have "?x = n - 2 - q \<longleftrightarrow> e = q + 1" using er pe by (auto simp: raid6_exponent_def Let_def)
    moreover have "raid6_g n b e = ?c \<longleftrightarrow> ?x = n - 2 - q"
      using coefficient_inj [OF x ex] by (auto simp: raid6_g_def pq)
    ultimately show ?thesis by simp
  qed
  let ?D = "filter (\<lambda>i. i \<noteq> e) (raid6_data n b)"
  have f: "filter (\<lambda>i. i \<noteq> p \<and> i \<noteq> e) (raid6_data n b) = ?D"
    by (rule filter_cong) (auto simp: set_raid6_data pq)
  let ?y = "\<lambda>j. gdiv (gmul (v e ! ?a j) (raid6_g n b e)) ?c"
  have rel: "raid6_rel n b v (?a j)" if "j < nat sz" for j
    using raid6_at_rel [OF at that] by (simp add: n_def)
  have bm: "map (\<lambda>j. gdiv (xsum (\<lambda>i. gmul (v i ! ?a j) (raid6_g n b i)) ?D XOR v q ! ?a j) ?c)
      [0..<nat sz] = map ?y [0..<nat sz]"
    by (intro map_cong refl) (simp add: data_by_q [OF rel ed] pq)
  obtain t where t: "length t = nat sz" "raid6_from_q T q p p e sz off (zeros (nat sz)) (zeros (nat sz)) s =
      (t, map ?y [0..<nat sz], s)"
    using raid6_from_q_ok [OF at, folded n_def, folded pq, of p e, OF _ _ er(4) c length_zeros] pe
    unfolding f bm by auto
  have r: "readable s v sz off i" if "i \<in> set [0..n - 1]" "i \<notin> set [p, q, e]" for i
    using raid6_at_readable [OF at, of i] that by (auto simp: n_def)
  have fd: "filter (\<lambda>i. i \<notin> set [p, q, e]) [0..n - 1] = ?D"
    by (subst filter_skip_pq [of n b]) (auto simp: pq set_raid6_data intro: filter_cong)
  have "\<exists>u. length u = nat sz \<and> raid6_xor_ints [p, q, e] sz off [0..n - 1] t (map ?y [0..<nat sz]) s =
      (True, u, map (\<lambda>j. map ?y [0..<nat sz] ! j XOR
        xsum (\<lambda>i. v i ! ?a j) (filter (\<lambda>i. i \<notin> set [p, q, e]) [0..n - 1])) [0..<nat sz], s)"
    by (rule raid6_xor_ints_ok [OF r rng(2) t(1)]) auto
  then obtain u where u: "raid6_xor_ints [p, q, e] sz off [0..n - 1] t (map ?y [0..<nat sz]) s =
      (True, u, map (\<lambda>j. map ?y [0..<nat sz] ! j XOR xsum (\<lambda>i. v i ! ?a j) ?D) [0..<nat sz], s)"
    unfolding fd by blast
  let ?t = "map (\<lambda>j. map ?y [0..<nat sz] ! j XOR xsum (\<lambda>i. v i ! ?a j) ?D) [0..<nat sz]"
  have z: "overwrite buf 0 (zeros (nat sz)) = zeros (nat sz)" using len by (simp add: overwrite_def)
  note dec = raid6_decode_def [of T p buf sz off s, unfolded Let_def, folded n_def bs_def,
      unfolded b(1) z, folded pq]
  have an: "raid6_another p s = e" by (rule raid6_lost_another [OF l]) (use er in auto)
  have st: "disk_status s p = 1" "int (length (filter (\<lambda>i. disk_status s i = 1) [0..n - 1])) = 2"
    using l raid6_lost_count [OF l] raid6_parity_range [OF n2 b(2)]
    by (auto simp: raid6_lost_def list_all_iff n_def pq)
  have "raid6_decode T p buf sz off s = (sz, ?t, s)"
    unfolding dec an raid6_decode_p_d_def t(2) Let_def prod.case n_def [symmetric] u using st er pe by simp
  moreover have "?t ! j = v p ! ?a j \<longleftrightarrow> v e ! ?a j = 0 \<or> e = q + 1" if j: "j < nat sz" for j
  proof -
    have "xsum (\<lambda>i. v i ! ?a j) ?D = v e ! ?a j XOR v p ! ?a j"
      using data_by_p [OF rel [OF j] ed, folded pq] by (simp add: xor_eq_iff xor.commute)
    then have eq: "?t ! j = ?y j XOR (v e ! ?a j XOR v p ! ?a j)" using j by simp
    have "?t ! j = v p ! ?a j \<longleftrightarrow> ?y j = v e ! ?a j" unfolding eq xor_eq_iff xor.assoc by simp
    then show ?thesis using gdiv_gmul_iff [OF c(2)] ge by simp
  qed
  ultimately show ?thesis unfolding T_def by auto
qed

theorem raid6_pd_read_iff_witness:
  "\<exists>t. raid6_decode (gf_gen_tables \<lparr>gflog = \<lambda>_. 0, gfilog = \<lambda>_. 0\<rparr> field_power) 1 [1, 1, 1, 1] 4 4
    (failed_array 6 [1, 0] 4 4 2) = (4, t, failed_array 6 [1, 0] 4 4 2) \<and> length t = 4"
  using raid6_pd_read_iff [where s = "failed_array 6 [1, 0] 4 4 2" and off = 4 and m = 2 and e = 0 and sz = 4
      and v = "content (fresh_array 6 4 4 4 2)" and buf = "[1, 1, 1, 1]"
      and junk = "\<lparr>gflog = \<lambda>_. 0, gfilog = \<lambda>_. 0\<rparr>"]
    raid6_parity_fresh [of 4 4 2 6 4] raid6_lost_failed_array [of 4 2 "[1, 0]" 4 6]
  by (auto simp: raid6_parity_disk_def raid6_code_disk_def set_raid6_data)

end
