(* ===== verification/Raid6Write.thy ===== *)
theory Raid6Write
  imports Raid6Read
begin

text \<open>
  Storing blocks in RAID 6 (\<open>Coding4Raid6::encode\<close>), the order in which it takes the blocks, recovery
  of a disk (\<open>Coding4Raid6::recover\<close>), and the variant with P and Q on fixed disks.
\<close>

section \<open>Storing a block\<close>

lemma raid6_sums_ok:
  assumes T: "gf_ok T" and w: "0 < sr" "0 \<le> addr"
    and c: "\<And>i. i \<in> set xs \<Longrightarrow> addr + sr \<le> int (length (content s i))"
    and g: "\<And>i. i \<in> set xs \<Longrightarrow> i \<noteq> p \<Longrightarrow> i \<noteq> q \<Longrightarrow> raid6_coeff n q p i = uint (g i)"
    and len: "length temp = nat sr" "length b2 = nat sr" "length b3 = nat sr"
  shows "raid6_sums T n q p sr addr xs temp b2 b3 s =
    (map (\<lambda>j. b2 ! j XOR xsum (\<lambda>i. content s i ! (nat addr + j))
       (filter (\<lambda>i. i \<noteq> p \<and> i \<noteq> q) xs)) [0..<nat sr],
     map (\<lambda>j. b3 ! j XOR xsum (\<lambda>i. gmul (content s i ! (nat addr + j)) (g i))
       (filter (\<lambda>i. i \<noteq> p \<and> i \<noteq> q) xs)) [0..<nat sr], s)"
  using c g len
proof (induction xs arbitrary: temp b2 b3)
  case Nil
  then show ?case by (auto intro: nth_equalityI)
next
  case (Cons x xs)
  show ?case
  proof (cases "x \<noteq> p \<and> x \<noteq> q")
    case False
    then show ?thesis using Cons by auto
  next
    case True
    let ?t = "take (nat sr) (drop (nat addr) (content s x))"
    have x: "addr + sr \<le> int (length (content s x))" using Cons.prems(1) [of x] by simp
    have r: "nc_readDisk x temp sr addr s = (sr, ?t, s)"
      by (rule nc.rd_buf [OF w x Cons.prems(3)])
    have t: "length ?t = nat sr" by (rule nc.length_rd_buf [OF w x])
    have "nat addr \<le> length (content s x)" using x w by linarith
    then have tj: "?t ! j = content s x ! (nat addr + j)" if "j < nat sr" for j using that by simp
    let ?b2 = "xor_into (heap_junk s) (nat sr) b2 ?t"
    let ?b3 = "gf_into T (uint (g x)) (heap_junk s) (nat sr) b3 ?t"
    have c: "raid6_coeff n q p x = uint (g x)" using Cons.prems(2) True by simp
    have "raid6_sums T n q p sr addr (x # xs) temp b2 b3 s = raid6_sums T n q p sr addr xs ?t ?b2 ?b3 s"
      using True r c by simp
    also have "\<dots> = (map (\<lambda>j. ?b2 ! j XOR xsum (\<lambda>i. content s i ! (nat addr + j))
       (filter (\<lambda>i. i \<noteq> p \<and> i \<noteq> q) xs)) [0..<nat sr],
     map (\<lambda>j. ?b3 ! j XOR xsum (\<lambda>i. gmul (content s i ! (nat addr + j)) (g i))
       (filter (\<lambda>i. i \<noteq> p \<and> i \<noteq> q) xs)) [0..<nat sr], s)"
      by (rule Cons.IH) (use Cons.prems t in auto)
    also have "\<dots> = (map (\<lambda>j. b2 ! j XOR xsum (\<lambda>i. content s i ! (nat addr + j))
       (filter (\<lambda>i. i \<noteq> p \<and> i \<noteq> q) (x # xs))) [0..<nat sr],
     map (\<lambda>j. b3 ! j XOR xsum (\<lambda>i. gmul (content s i ! (nat addr + j)) (g i))
       (filter (\<lambda>i. i \<noteq> p \<and> i \<noteq> q) (x # xs))) [0..<nat sr], s)"
      using True Cons.prems(4,5) t tj T by (simp add: nth_xor_into nth_gf_into xor.assoc)
    finally show ?thesis .
  qed
qed

text \<open>
  What storing a block leaves, for any place of P and Q: the data, sums over the data disks in the
  range that was written, and everything else as it was.
\<close>

lemma raid6_store_ok:
  fixes s :: sys and b :: int
  defines "n \<equiv> disk_total_num s" and "bs \<equiv> disk_block_size s"
  assumes T: "gf_ok T" and i: "in_array m s d b sz"
    and pq: "0 \<le> p" "p < n" "0 \<le> q" "q < n" "d \<noteq> p" "d \<noteq> q" "p \<noteq> q"
    and g: "list_all (\<lambda>i. raid6_coeff n q p i = uint (g i)) (filter (\<lambda>i. i \<noteq> p \<and> i \<noteq> q) [0..n - 1])"
    and len: "length buf = nat sz"
  defines "xs \<equiv> filter (\<lambda>i. i \<noteq> p \<and> i \<noteq> q) [0..n - 1]"
  defines "s' \<equiv> raid6_store T q p d b buf sz bs 1 s"
  shows "frame s' = frame (claim d b 1 s)" "array_ok m s'" "block_of s' d b sz = buf"
    "\<And>i. i \<noteq> d \<Longrightarrow> i \<noteq> p \<Longrightarrow> i \<noteq> q \<Longrightarrow> content s' i = content s i"
    "\<And>i a. a < nat (m * bs) \<Longrightarrow> 0 \<le> i \<Longrightarrow> i < n \<Longrightarrow> a < nat (b * bs) \<or> nat (b * bs) + nat sz \<le> a \<Longrightarrow>
       content s' i ! a = content s i ! a"
    "\<And>a. nat (b * bs) \<le> a \<Longrightarrow> a < nat (b * bs) + nat sz \<Longrightarrow>
       content s' p ! a = xsum (\<lambda>i. content s' i ! a) xs \<and>
       content s' q ! a = xsum (\<lambda>i. gmul (content s' i ! a) (g i)) xs"
    "i \<in> {d, p, q} \<Longrightarrow> only_block (content s) (content s') i b bs"
proof -
  let ?a = "i32 (b * bs)"
  have ic: "in_array m (claim d b 1 s) d b sz" using i by (simp add: in_array_def)
  define t where "t = snd (nc_writeDisk d buf sz ?a (claim d b 1 s))"
  have lb: "nat sz \<le> length buf" using len by simp
  note w = array_write [OF ic lb, simplified, folded bs_def, folded t_def]
  note ft = frame_eqD(1,3,15) [OF w(2), simplified, folded n_def bs_def]
  note ad = array_addr [OF i, folded bs_def]
  have sz: "0 < sz" "sz \<le> bs" "0 \<le> b" "b < m" "0 < bs" "0 \<le> d" "d < n" "m * bs < 2147483648"
    using i by (auto simp: in_array_def array_ok_def bs_def n_def)
  have lc: "int (length (content t i)) = m * bs" if "0 \<le> i" "i < n" for i
    using w(4) that ft by (simp add: array_ok_def list_all_iff)
  have ls: "int (length (content s i)) = m * bs" if "0 \<le> i" "i < n" for i
    using i that by (simp add: in_array_def array_ok_def list_all_iff n_def bs_def)
  note ba = block_addr [OF sz(5,8,3,4)]
  let ?o = "nat (b * bs)"
  let ?P = "map (\<lambda>j. zeros (nat bs) ! j XOR xsum (\<lambda>i. content t i ! (?o + j)) xs) [0..<nat bs]"
  let ?Q = "map (\<lambda>j. zeros (nat bs) ! j XOR xsum (\<lambda>i. gmul (content t i ! (?o + j)) (g i)) xs) [0..<nat bs]"
  have sums: "raid6_sums T n q p bs ?a [0..n - 1] (malloc (heap_junk s) (nat bs)) (zeros (nat bs))
      (zeros (nat bs)) t = (?P, ?Q, t)"
    unfolding xs_def ba(1)
  proof (rule raid6_sums_ok [OF T sz(5) ba(2)])
    show "b * bs + bs \<le> int (length (content t i))" if "i \<in> set [0..n - 1]" for i
      using ba(3) lc [of i] that by simp
    show "raid6_coeff n q p i = uint (g i)" if "i \<in> set [0..n - 1]" "i \<noteq> p" "i \<noteq> q" for i
      using g that by (simp add: list_all_iff)
  qed simp_all
  have ip: "in_array m t p b sz" and iq: "in_array m t q b sz"
    using w(4) sz pq ft by (auto simp: in_array_def)
  have lP: "nat sz \<le> length ?P" "nat sz \<le> length ?Q" using sz by simp_all
  define u where "u = snd (nc_writeDisk p ?P sz ?a t)"
  note wp = array_write [OF ip lP(1), unfolded ft(2), folded u_def]
  have fu: "disk_total_num u = n" "disk_block_size u = bs"
    using frame_eqD(1,3) [OF wp(2)] ft by simp_all
  have iq: "in_array m u q b sz" using wp(4) sz pq fu by (auto simp: in_array_def)
  note wq = array_write [OF iq lP(2), unfolded fu]
  have e1: "nc_writeDisk d buf sz ?a (claim d b 1 s) = (sz, t)"
    by (rule prod_eqI) (simp_all add: w(1) t_def)
  have e2: "nc_writeDisk p ?P sz ?a t = (sz, u)"
    by (rule prod_eqI) (simp_all only: wp(1) u_def fst_conv snd_conv)
  define x where "x = snd (nc_writeDisk q ?Q sz ?a u)"
  have e3: "nc_writeDisk q ?Q sz ?a u = (sz, x)"
    by (rule prod_eqI) (simp_all only: wq(1) x_def fst_conv snd_conv)
  have s': "s' = x"
    unfolding s'_def raid6_store_def Let_def n_def [symmetric] bs_def [symmetric]
    by (simp only: e1 prod.case sums e2 e3)
  show f: "frame s' = frame (claim d b 1 s)" using wq(2) wp(2) w(2) by (simp add: s' x_def)
  show a: "array_ok m s'" using wq(4) by (simp add: s' x_def)
  have c: "content s' = (content s)(d := overwrite (content s d) ?o buf,
      p := overwrite (content s p) ?o (take (nat sz) ?P),
      q := overwrite (content s q) ?o (take (nat sz) ?Q))"
    using wq(3) wp(3) w(3) pq len by (simp add: fun_eq_iff s' x_def)
  show "block_of s' d b sz = buf"
    by (rule block_of_write [OF i len]) (use frame_eqD(3) [OF f] c pq bs_def in auto)
  show "\<And>i. i \<noteq> d \<Longrightarrow> i \<noteq> p \<Longrightarrow> i \<noteq> q \<Longrightarrow> content s' i = content s i" by (simp add: c)
  have fit: "?o + nat sz \<le> length (content s i)" "?o + nat bs \<le> length (content s i)" if "0 \<le> i" "i < n" for i
    using ba ls [OF that] sz by linarith+
  have lt: "length (take (nat sz) ?P) = nat sz" "length (take (nat sz) ?Q) = nat sz" using lP by simp_all
  show "content s' i ! a = content s i ! a" if "a < nat (m * bs)" "0 \<le> i" "i < n"
    "a < ?o \<or> ?o + nat sz \<le> a" for i a
  proof -
    have "a < length (content s i)" using ls [OF that(2,3)] that(1) by linarith
    then show ?thesis using fit [OF that(2,3)] that(4) len lt by (auto simp: c nth_overwrite)
  qed
  show "content s' p ! a = xsum (\<lambda>i. content s' i ! a) xs \<and>
       content s' q ! a = xsum (\<lambda>i. gmul (content s' i ! a) (g i)) xs"
    if a: "?o \<le> a" "a < ?o + nat sz" for a
  proof -
    have st: "content s' i = content t i" if "i \<in> set xs" for i
      using that c w(3) len by (auto simp: xs_def)
    have al: "a < length (content s i)" if "0 \<le> i" "i < n" for i using fit [OF that] a by linarith
    have j: "a - ?o < nat sz" "?o + (a - ?o) = a" using a by auto
    then have jb: "a - ?o < nat bs" using sz by linarith
    have ow: "overwrite w ?o (take (nat sz) (map F [0..<nat bs])) ! a = F (a - ?o)"
      if "?o + nat sz \<le> length w" for w and F :: "nat \<Rightarrow> byte"
    proof -
      have "length (take (nat sz) (map F [0..<nat bs])) = nat sz" using sz by simp
      then have "overwrite w ?o (take (nat sz) (map F [0..<nat bs])) ! a =
          take (nat sz) (map F [0..<nat bs]) ! (a - ?o)"
        using that a by (subst nth_overwrite) auto
      then show ?thesis using j jb by simp
    qed
    have "content s' p = overwrite (content s p) ?o (take (nat sz) ?P)"
      unfolding c using pq by simp
    then have "content s' p ! a = xsum (\<lambda>i. content t i ! a) xs"
      using ow [OF fit(1) [OF pq(1,2)]] jb j(2) by simp
    moreover have "content s' q = overwrite (content s q) ?o (take (nat sz) ?Q)"
      unfolding c by simp
    then have "content s' q ! a = xsum (\<lambda>i. gmul (content t i ! a) (g i)) xs"
      using ow [OF fit(1) [OF pq(3,4)]] jb j(2) by simp
    ultimately show ?thesis using st by (simp cong: xsum_cong)
  qed
  show "only_block (content s) (content s') i b bs" if "i \<in> {d, p, q}"
  proof -
    have "0 \<le> i" "i < n" using that sz pq by auto
    note fi = fit(1) [OF this]
    from that consider "i = d" | "i = p" | "i = q" by blast
    then show ?thesis
    proof cases
      case 1
      then show ?thesis
        by (intro only_block_overwrite [where x = buf]) (use fi len sz c pq in auto)
    next
      case 2
      then show ?thesis
        by (intro only_block_overwrite [where x = "take (nat sz) ?P"]) (use fi lt sz c pq in auto)
    next
      case 3
      then show ?thesis
        by (intro only_block_overwrite [where x = "take (nat sz) ?Q"]) (use fi lt sz c in auto)
    qed
  qed
qed

section \<open>Allocation row by row\<close>

definition raid6_special :: "int \<Rightarrow> int \<Rightarrow> int \<Rightarrow> bool" where
  "raid6_special n b i \<longleftrightarrow> i = raid6_code_disk n b \<or> i = raid6_parity_disk n b"

text \<open>
  While no block has been deleted the rows fill one after the other: \<open>r\<close> is the row that is being
  filled, disks that are ahead of it have only stepped over blocks of P and Q.
\<close>

definition raid6_filling :: "int \<Rightarrow> int \<Rightarrow> sys \<Rightarrow> bool" where
  "raid6_filling r m s \<longleftrightarrow> space_list_head s = [] \<and> 0 \<le> r \<and>
     list_all (\<lambda>i. r \<le> free_offset s i \<and> free_size s i = m - free_offset s i \<and>
       list_all (\<lambda>b. raid6_special (disk_total_num s) b i) [r + 1..free_offset s i - 1]) (disk_ids s) \<and>
     (list_all (\<lambda>i. raid6_special (disk_total_num s) r i \<longrightarrow> r < free_offset s i) (disk_ids s) \<or>
      list_all (\<lambda>i. \<not> raid6_special (disk_total_num s) r i \<longrightarrow> free_offset s i = r) (disk_ids s)) \<and>
     list_ex (\<lambda>i. \<not> raid6_special (disk_total_num s) r i \<and> free_offset s i = r) (disk_ids s)"

lemma raid6_mark_fold:
  "distinct xs \<Longrightarrow> foldl raid6_mark_step s xs = s
     \<lparr>free_offset := (\<lambda>i. if i \<in> set xs \<and> raid6_special (disk_total_num s) (free_offset s i) i
                          then free_offset s i + 1 else free_offset s i),
      free_size := (\<lambda>i. if i \<in> set xs \<and> raid6_special (disk_total_num s) (free_offset s i) i
                        then free_size s i - 1 else free_size s i)\<rparr>"
proof (induction xs rule: rev_induct)
  case Nil
  then show ?case by simp
next
  case (snoc x xs)
  then show ?case
    by (auto simp: raid6_mark_step_def raid6_special_def raid6_code_disk_def raid6_parity_disk_def
        put_free_offset_def put_free_size_def fun_eq_iff Let_def intro!: sys.equality)
qed

lemma raid6_mark_eq: "raid6_mark s = s
     \<lparr>free_offset := (\<lambda>i. if i \<in> set (disk_ids s) \<and> raid6_special (disk_total_num s) (free_offset s i) i
                          then free_offset s i + 1 else free_offset s i),
      free_size := (\<lambda>i. if i \<in> set (disk_ids s) \<and> raid6_special (disk_total_num s) (free_offset s i) i
                        then free_size s i - 1 else free_size s i)\<rparr>"
  unfolding raid6_mark_def by (rule raid6_mark_fold) simp

lemma raid6_mark_fields [simp]:
  "disk_total_num (raid6_mark s) = disk_total_num s"
  "disk_block_size (raid6_mark s) = disk_block_size s"
  "heap_junk (raid6_mark s) = heap_junk s"
  "disk_size (raid6_mark s) = disk_size s" "disk_status (raid6_mark s) = disk_status s"
  "dev_name (raid6_mark s) = dev_name s" "devices (raid6_mark s) = devices s"
  "space_list_head (raid6_mark s) = space_list_head s"
  "content (raid6_mark s) = content s"
  unfolding raid6_mark_eq by (simp_all add: content_def fun_eq_iff)

lemma raid6_data_exists:
  assumes "3 \<le> n" "0 \<le> b"
  obtains i where "0 \<le> i" "i < n" "\<not> raid6_special n b i"
proof -
  have "card {raid6_code_disk n b, raid6_parity_disk n b} < card {0, 1, 2 :: int}"
    by (simp add: card_insert_if)
  then have "\<not> {0, 1, 2} \<subseteq> {raid6_code_disk n b, raid6_parity_disk n b}"
    using card_mono [of "{raid6_code_disk n b, raid6_parity_disk n b}" "{0, 1, 2}"] by auto
  then show thesis using that [of 0] that [of 1] that [of 2] assms
    by (auto simp: raid6_special_def)
qed

lemma ball_ids: "(\<forall>i \<in> {0..n - 1}. P i) \<longleftrightarrow> (\<forall>i. 0 \<le> i \<longrightarrow> i < n \<longrightarrow> P (i :: int))"
  by auto

lemma bex_ids: "(\<exists>i \<in> {0..n - 1}. P i) \<longleftrightarrow> (\<exists>i. 0 \<le> i \<and> i < n \<and> P (i :: int))"
  by auto

lemmas raid6_filling_iff = raid6_filling_def [unfolded list_all_iff list_ex_iff set_upto ball_ids bex_ids]

text \<open>The facts of the invariant one by one, and what the marking makes of them.\<close>

lemma raid6_fillingD:
  assumes "raid6_filling r m s"
  shows "space_list_head s = []" "0 \<le> r"
    and "\<And>i. 0 \<le> i \<Longrightarrow> i < disk_total_num s \<Longrightarrow> r \<le> free_offset s i \<and> free_size s i = m - free_offset s i"
    and "\<And>i b. 0 \<le> i \<Longrightarrow> i < disk_total_num s \<Longrightarrow> r < b \<Longrightarrow> b < free_offset s i \<Longrightarrow>
      raid6_special (disk_total_num s) b i"
    and "(\<forall>i. 0 \<le> i \<longrightarrow> i < disk_total_num s \<longrightarrow> raid6_special (disk_total_num s) r i \<longrightarrow> r < free_offset s i) \<or>
      (\<forall>i. 0 \<le> i \<longrightarrow> i < disk_total_num s \<longrightarrow> \<not> raid6_special (disk_total_num s) r i \<longrightarrow> free_offset s i = r)"
    and "\<exists>i. 0 \<le> i \<and> i < disk_total_num s \<and> \<not> raid6_special (disk_total_num s) r i \<and> free_offset s i = r"
proof -
  note a = assms [unfolded raid6_filling_iff]
  show "space_list_head s = []" "0 \<le> r" using a by blast+
  show "\<And>i. 0 \<le> i \<Longrightarrow> i < disk_total_num s \<Longrightarrow> r \<le> free_offset s i \<and> free_size s i = m - free_offset s i"
    using a by blast
  show "raid6_special (disk_total_num s) b i"
    if i: "0 \<le> i" "i < disk_total_num s" "r < b" "b < free_offset s i" for i b
  proof -
    have "\<forall>b \<in> {r + 1..free_offset s i - 1}. raid6_special (disk_total_num s) b i" using a i(1,2) by blast
    then show ?thesis using i(3,4) by simp
  qed
  show "(\<forall>i. 0 \<le> i \<longrightarrow> i < disk_total_num s \<longrightarrow> raid6_special (disk_total_num s) r i \<longrightarrow> r < free_offset s i) \<or>
      (\<forall>i. 0 \<le> i \<longrightarrow> i < disk_total_num s \<longrightarrow> \<not> raid6_special (disk_total_num s) r i \<longrightarrow> free_offset s i = r)"
    using a by blast
  show "\<exists>i. 0 \<le> i \<and> i < disk_total_num s \<and> \<not> raid6_special (disk_total_num s) r i \<and> free_offset s i = r"
    using a by blast
qed

lemma raid6_fillingI:
  assumes "space_list_head s = []" "0 \<le> r"
    and "\<And>i. 0 \<le> i \<Longrightarrow> i < disk_total_num s \<Longrightarrow> r \<le> free_offset s i \<and> free_size s i = m - free_offset s i"
    and "\<And>i b. 0 \<le> i \<Longrightarrow> i < disk_total_num s \<Longrightarrow> r < b \<Longrightarrow> b < free_offset s i \<Longrightarrow>
      raid6_special (disk_total_num s) b i"
    and "(\<forall>i. 0 \<le> i \<longrightarrow> i < disk_total_num s \<longrightarrow> raid6_special (disk_total_num s) r i \<longrightarrow> r < free_offset s i) \<or>
      (\<forall>i. 0 \<le> i \<longrightarrow> i < disk_total_num s \<longrightarrow> \<not> raid6_special (disk_total_num s) r i \<longrightarrow> free_offset s i = r)"
    and "\<exists>i. 0 \<le> i \<and> i < disk_total_num s \<and> \<not> raid6_special (disk_total_num s) r i \<and> free_offset s i = r"
  shows "raid6_filling r m s"
proof -
  have "\<forall>b \<in> {r + 1..free_offset s i - 1}. raid6_special (disk_total_num s) b i"
    if "0 \<le> i" "i < disk_total_num s" for i using assms(4) [OF that] by simp
  then show ?thesis unfolding raid6_filling_iff using assms by blast
qed

lemma raid6_filling_mark:
  fixes s :: sys
  defines "n \<equiv> disk_total_num s"
  assumes f: "raid6_filling r m s"
  shows "\<And>i. 0 \<le> i \<Longrightarrow> i < n \<Longrightarrow> r \<le> free_offset (raid6_mark s) i \<and>
      free_size (raid6_mark s) i = m - free_offset (raid6_mark s) i"
    and "\<And>i b. 0 \<le> i \<Longrightarrow> i < n \<Longrightarrow> r < b \<Longrightarrow> b < free_offset (raid6_mark s) i \<Longrightarrow> raid6_special n b i"
    and "\<And>i. 0 \<le> i \<Longrightarrow> i < n \<Longrightarrow> raid6_special n r i \<Longrightarrow> r < free_offset (raid6_mark s) i"
    and "\<exists>i. 0 \<le> i \<and> i < n \<and> \<not> raid6_special n r i \<and> free_offset (raid6_mark s) i = r"
proof -
  note d = raid6_fillingD [OF f, folded n_def]
  have fo: "free_offset (raid6_mark s) i = (if raid6_special n (free_offset s i) i
      then free_offset s i + 1 else free_offset s i)"
    and fs: "free_size (raid6_mark s) i = (if raid6_special n (free_offset s i) i
      then free_size s i - 1 else free_size s i)" if "0 \<le> i" "i < n" for i
    using that by (simp_all add: raid6_mark_eq n_def)
  show "r \<le> free_offset (raid6_mark s) i \<and> free_size (raid6_mark s) i = m - free_offset (raid6_mark s) i"
    if "0 \<le> i" "i < n" for i using d(3) [OF that] fo [OF that] fs [OF that] by auto
  show "raid6_special n b i" if "0 \<le> i" "i < n" "r < b" "b < free_offset (raid6_mark s) i" for i b
  proof (cases "b < free_offset s i")
    case True
    then show ?thesis by (rule d(4) [OF that(1-3)])
  next
    case False
    then have "b = free_offset s i" "raid6_special n (free_offset s i) i"
      using that(4) fo [OF that(1,2)] by (auto split: if_splits)
    then show ?thesis by simp
  qed
  show "r < free_offset (raid6_mark s) i" if "0 \<le> i" "i < n" "raid6_special n r i" for i
    using d(3) [OF that(1,2)] fo [OF that(1,2)] that(3) by (cases "free_offset s i = r") auto
  show "\<exists>i. 0 \<le> i \<and> i < n \<and> \<not> raid6_special n r i \<and> free_offset (raid6_mark s) i = r"
    using d(6) fo by auto
qed

text \<open>The block chosen is a data block of row \<open>r\<close>.\<close>

lemma raid6_pick:
  fixes s :: sys
  defines "n \<equiv> disk_total_num s"
  assumes f: "raid6_filling r m s" and r: "r < m"
    and p: "pick_striped 1 (n - 1) (raid6_mark s) = (d, b, fo)"
  shows "0 \<le> d" "d < n" "b = r" "\<not> raid6_special n r d"
proof -
  note k = raid6_filling_mark [OF f, folded n_def]
  note ps = pick_striped_spec [OF p]
  obtain i where i: "0 \<le> i" "i < n" "free_offset (raid6_mark s) i = r" using k(4) by auto
  have fi: "1 \<le> free_size (raid6_mark s) i" using k(1) [OF i(1,2)] i(3) r by simp
  have z: "r \<le> free_offset (raid6_mark s) 0" using k(1) [of 0] i by simp
  have dne: "d \<noteq> -1"
  proof
    assume "d = -1"
    from ps(4) [OF this, of i] i fi z show False by simp
  qed
  note d = ps(1) [OF dne]
  then show dr: "0 \<le> d" "d < n" by auto
  have "b \<le> r" using ps(2) [OF dne, of i] i fi by simp
  moreover have "r \<le> b" using k(1) [OF dr] d by simp
  ultimately show b: "b = r" by simp
  show "\<not> raid6_special n r d" using k(3) [OF dr] d b by auto
qed

text \<open>After the block is claimed the same row is still being filled, or the next one.\<close>

lemma raid6_filling_claim:
  fixes s t :: sys
  assumes f: "raid6_filling r m s" and n: "3 \<le> disk_total_num s"
    and d: "0 \<le> d" "d < disk_total_num s" "\<not> raid6_special (disk_total_num s) r d"
      "free_offset (raid6_mark s) d = r"
    and t: "frame t = frame (claim d r 1 (raid6_mark s))"
  shows "raid6_filling r m t \<or> raid6_filling (r + 1) m t"
proof -
  define n where "n = disk_total_num s"
  note k = raid6_filling_mark [OF f, folded n_def]
  note t' = frame_eqD(1,8,9,12) [OF t, simplified, folded n_def]
  have fo: "free_offset t i = (if i = d then r + 1 else free_offset (raid6_mark s) i)" for i
    by (simp add: t')
  have fs: "free_size t i = m - free_offset t i" if "0 \<le> i" "i < n" for i
    using k(1) [OF that] d(4) by (auto simp: t')
  have sp: "raid6_special n b i" if "0 \<le> i" "i < n" "r < b" "b < free_offset t i" for i b
    using k(2) [OF that(1-3)] that fo [of i] by (auto split: if_splits)
  have hi: "r < free_offset t i" if "0 \<le> i" "i < n" "raid6_special n r i" for i
    using k(3) [OF that] d(3) that(3) fo [of i] by (auto simp: n_def split: if_splits)
  have lo: "r \<le> free_offset t i" if "0 \<le> i" "i < n" for i
    using k(1) [OF that] fo [of i] by auto
  have h: "space_list_head t = []" "0 \<le> r" using t' raid6_fillingD(1,2) [OF f] by simp_all
  show ?thesis
  proof (cases "\<exists>i. 0 \<le> i \<and> i < n \<and> \<not> raid6_special n r i \<and> free_offset t i = r")
    case True
    have "raid6_filling r m t"
      by (rule raid6_fillingI) (use h lo fs sp hi True t'(1) in auto)
    then show ?thesis ..
  next
    case False
    have up: "r + 1 \<le> free_offset t i" if "0 \<le> i" "i < n" for i
      using lo [OF that] hi [OF that] False that by (cases "raid6_special n r i") force+
    have eq: "free_offset t i = r + 1" if "0 \<le> i" "i < n" "\<not> raid6_special n (r + 1) i" for i
      using up [OF that(1,2)] sp [OF that(1,2), of "r + 1"] that(3) by force
    obtain i where i: "0 \<le> i" "i < n" "\<not> raid6_special n (r + 1) i"
      by (rule raid6_data_exists [of n "r + 1"]) (use n h in \<open>auto simp: n_def\<close>)
    have "raid6_filling (r + 1) m t"
    proof (rule raid6_fillingI, unfold t'(1))
      show "0 \<le> r + 1" using h by simp
      show "raid6_special n b i" if "0 \<le> i" "i < n" "r + 1 < b" "b < free_offset t i" for i b
        using sp that by simp
      show "\<exists>i. 0 \<le> i \<and> i < n \<and> \<not> raid6_special n (r + 1) i \<and> free_offset t i = r + 1"
        using i eq by blast
    qed (use h up fs eq in auto)
    then show ?thesis ..
  qed
qed

text \<open>
  C18: RAID 6 keeps both parities: while no block has been deleted, with row \<open>r\<close> being filled and
  blocks left, \<open>encode\<close> finds a data block of row \<open>r\<close>, stores the data there, changes only that block
  and the P and Q blocks of the row, leaves P and Q right, and either the same row or the next one is
  being filled afterwards.
\<close>

theorem raid6_encode_parity:
  fixes s :: sys and r :: int
  defines "n \<equiv> disk_total_num s" and "bs \<equiv> disk_block_size s"
  defines "p \<equiv> raid6_parity_disk n r" and "q \<equiv> raid6_code_disk n r"
  assumes ok: "array_ok m s" "raid6_filling r m s" "r < m" "3 \<le> n" "n \<le> 10"
    and par: "raid6_parity n bs (m * bs) (content s)"
    and sz: "0 < sz" "sz \<le> bs" "length buf = nat sz"
    and enc: "raid6_encode (gf_gen_tables junk field_power) buf sz s = (info, s')"
  shows "0 \<le> bi_disk_id info \<and> bi_disk_id info < n \<and> bi_disk_id info \<noteq> p \<and> bi_disk_id info \<noteq> q \<and>
    bi_block_no info = r \<and> block_of s' (bi_disk_id info) r sz = buf \<and>
    array_ok m s' \<and> raid6_parity n bs (m * bs) (content s') \<and>
    (raid6_filling r m s' \<or> raid6_filling (r + 1) m s') \<and>
    list_all (\<lambda>i. only_block (content s) (content s') i r bs) [bi_disk_id info, p, q] \<and>
    (\<forall>i. i \<notin> {bi_disk_id info, p, q} \<longrightarrow> content s' i = content s i)"
proof -
  define T where "T = gf_gen_tables junk field_power"
  have T: "gf_ok T" unfolding T_def by (rule gf_gen_tables_ok)
  have req: "round_to_block_size sz s = bs" "bs sdiv bs = 1" "0 < bs"
    using ok sz round_one_block [of s sz] by (auto simp: array_ok_def bs_def)
  obtain d b fo where pk: "pick_striped 1 (n - 1) (raid6_mark s) = (d, b, fo)" by (metis prod_cases3)
  note d = raid6_pick [OF ok(2,3), folded n_def, OF pk]
  have r0: "0 \<le> r" by (rule raid6_fillingD(2) [OF ok(2)])
  have fod: "free_offset (raid6_mark s) d = r" using pick_striped_spec(1) [OF pk] d(1,3) by simp
  have os: "pick_striped_block 1 (n - 1) (raid6_mark s) = (d, r, raid6_mark s)"
    using pk d(1,3) by (simp add: pick_striped_block_def or_space_list_def)
  have "info = \<lparr>bi_disk_id = d, bi_block_no = r\<rparr> \<and> s' = raid6_store T q p d r buf sz bs 1 (raid6_mark s)"
    using enc os d(1) unfolding raid6_encode_def Let_def n_def [symmetric] bs_def [symmetric]
      req T_def [symmetric] p_def q_def by simp
  then have e: "info = \<lparr>bi_disk_id = d, bi_block_no = r\<rparr>"
    "s' = raid6_store T q p d r buf sz bs 1 (raid6_mark s)" by simp_all
  have i: "in_array m (raid6_mark s) d r sz"
    using ok sz d r0 by (simp add: in_array_def array_ok_def n_def bs_def)
  have n2: "2 \<le> n" using ok(4) by simp
  have pq: "0 \<le> p" "p < n" "0 \<le> q" "q < n" "d \<noteq> p" "d \<noteq> q" "p \<noteq> q"
    using raid6_parity_range [OF n2 r0] raid6_disks [OF n2 r0] d(4)
    by (auto simp: p_def q_def raid6_special_def)
  have xs: "filter (\<lambda>i. i \<noteq> p \<and> i \<noteq> q) [0..n - 1] = raid6_data n r"
    by (simp add: raid6_data_def p_def q_def)
  have g: "list_all (\<lambda>i. raid6_coeff n q p i = uint (raid6_g n r i)) (filter (\<lambda>i. i \<noteq> p \<and> i \<noteq> q) [0..n - 1])"
    unfolding xs unfolding list_all_iff p_def q_def using raid6_coeff_g(1) [OF ok(4,5) r0] by blast
  note st = raid6_store_ok [OF T i, unfolded raid6_mark_fields, folded n_def bs_def, OF pq g sz(3), folded e(2)]
  have "raid6_rel n (int a div bs) (content s') a" if a: "a < nat (m * bs)" for a
  proof (cases "nat (r * bs) \<le> a \<and> a < nat (r * bs) + nat sz")
    case True
    have "int a div bs = r"
    proof -
      have "0 \<le> r * bs" using r0 req(3) by simp
      then have "r * bs \<le> int a" "int a < r * bs + bs" using True sz(1,2) by linarith+
      then show ?thesis using req(3) by (intro int_div_pos_eq [where r = "int a - r * bs"]) auto
    qed
    then show ?thesis using st(6) [of a] True unfolding xs by (simp add: raid6_rel_def p_def q_def)
  next
    case False
    have b0: "0 \<le> int a div bs" using req(3) by (simp add: pos_imp_zdiv_nonneg_iff)
    have c: "content s' i ! a = content s i ! a" if "0 \<le> i" "i < n" for i
      by (rule st(5) [OF a that]) (use False in auto)
    have "a \<in> set [0..<nat (m * bs)]" using a by simp
    with par have "raid6_rel n (int a div bs) (content s) a"
      unfolding raid6_parity_def list_all_iff by (rule bspec)
    moreover have "xsum (\<lambda>i. content s' i ! a) (raid6_data n (int a div bs)) =
        xsum (\<lambda>i. content s i ! a) (raid6_data n (int a div bs))"
      "xsum (\<lambda>i. gmul (content s' i ! a) (raid6_g n (int a div bs) i)) (raid6_data n (int a div bs)) =
        xsum (\<lambda>i. gmul (content s i ! a) (raid6_g n (int a div bs) i)) (raid6_data n (int a div bs))"
      using c by (auto intro!: xsum_cong simp: set_raid6_data)
    ultimately show ?thesis
      using c raid6_parity_range [OF n2 b0] raid6_disks [OF n2 b0] by (simp add: raid6_rel_def)
  qed
  then have "raid6_parity n bs (m * bs) (content s')" by (simp add: raid6_parity_def list_all_iff)
  moreover have "raid6_filling r m s' \<or> raid6_filling (r + 1) m s'"
    by (rule raid6_filling_claim [OF ok(2) _ d(1) _ _ fod st(1)])
      (use ok(4) d in \<open>auto simp: n_def\<close>)
  ultimately show ?thesis using d(1,2) pq st(2,3,4,7) by (auto simp: e(1))
qed

lemma raid6_filling_fresh:
  assumes "3 \<le> n"
  shows "raid6_filling 0 m (fresh_array t n k bs m)"
proof -
  obtain i where "0 \<le> i" "i < n" "\<not> raid6_special n 0 i" by (rule raid6_data_exists [OF assms, of 0]) auto
  then show ?thesis by (intro raid6_fillingI) auto
qed

theorem raid6_encode_parity_witness:
  "raid6_parity 4 4 8 (content (snd (raid6_encode (gf_gen_tables \<lparr>gflog = \<lambda>_. 0, gfilog = \<lambda>_. 0\<rparr> field_power)
     [7, 8, 9] 3 (fresh_array 6 4 4 4 2))))"
  using raid6_encode_parity [where s = "fresh_array 6 4 4 4 2" and r = 0 and m = 2 and sz = 3
      and buf = "[7, 8, 9]" and junk = "\<lparr>gflog = \<lambda>_. 0, gfilog = \<lambda>_. 0\<rparr>", OF array_ok_fresh
      raid6_filling_fresh _ _ _ _ _ _ _ surjective_pairing] raid6_parity_fresh [of 4 4 2 6 4]
  by simp

section \<open>Recovery\<close>

definition raid6_rebuilding :: "int \<Rightarrow> int \<Rightarrow> int \<Rightarrow> byte list \<Rightarrow> sys \<Rightarrow> bool" where
  "raid6_rebuilding m bs d v s \<longleftrightarrow> bs = disk_block_size s \<and> 3 \<le> disk_total_num s \<and>
     disk_total_num s \<le> 10 \<and> int (length (content s d)) = m * bs \<and>
     raid6_lost m [d] ((content s)(d := v)) s \<and>
     raid6_parity (disk_total_num s) bs (m * bs) ((content s)(d := v))"

lemma raid6_lost_write:
  assumes "raid6_lost m F v s" "frame t = frame s" "\<And>i. i \<notin> set F \<Longrightarrow> content t i = content s i"
  shows "raid6_lost m F v t"
  using assms(1,3) by (simp add: raid6_lost_def frame_eqD(1,3,10) [OF assms(2)] cong: if_cong)

interpretation r6: block_rebuild nc_readDisk nc_writeDisk content frame
  "raid6_decode (gf_gen_tables junk field_power)" raid6_rebuilding
  for junk :: gf
proof
  fix m bs d i v s and buf :: "byte list"
  assume l: "raid6_rebuilding m bs d v s"
  then have ll: "raid6_lost m [d] ((content s)(d := v)) s" and bs: "bs = disk_block_size s"
    by (auto simp: raid6_rebuilding_def)
  have d: "0 \<le> d" "d < disk_total_num s" "4 dvd bs" "0 < bs"
    using ll bs by (auto simp: raid6_lost_def)
  show g: "0 < bs \<and> m * bs < 2147483648 \<and> int (length v) = m * bs \<and>
      int (length (content s d)) = m * bs"
  proof -
    have "d \<in> set (disk_ids s)" using d by simp
    then have "int (length (((content s)(d := v)) d)) = m * disk_block_size s"
      using ll unfolding raid6_lost_def list_all_iff by blast
    then show ?thesis using l d(4) bs ll by (simp add: raid6_rebuilding_def raid6_lost_def)
  qed
  assume i: "0 \<le> i" "i < m" and b: "length buf = nat bs"
  have a: "0 \<le> i * bs" "i * bs + bs \<le> m * bs" using block_addr [of bs m i] g i by auto
  have "raid6_decode (gf_gen_tables junk field_power) d buf bs (i * bs) s =
      (bs, take (nat bs) (drop (nat (i * bs)) (((content s)(d := v)) d)), s)"
    by (rule raid6_degraded_read [OF ll]) (use l d a b bs in \<open>auto simp: raid6_rebuilding_def\<close>)
  then show "\<exists>t. raid6_decode (gf_gen_tables junk field_power) d buf bs (i * bs) s =
        (bs, take (nat bs) (drop (nat (i * bs)) v), t) \<and>
      content t = content s \<and> frame t = frame s \<and> raid6_rebuilding m bs d v t"
    using l by simp
  define t where "t = snd (nc_writeDisk d buf bs (i * bs) s)"
  have f: "frame t = frame s" and c: "content t =
      (content s)(d := overwrite (content s d) (nat (i * bs)) (take (nat bs) buf))"
    and tl: "length (content t d) = length (content s d)"
    using nc.wr_rest [of bs "i * bs" s d buf] nc.wr_cnt [of bs "i * bs" s d buf]
      nc.wr_len [of bs "i * bs" s d buf d] a g b by (auto simp: t_def)
  have cv: "(content t)(d := v) = (content s)(d := v)" "\<And>i. i \<noteq> d \<Longrightarrow> content t i = content s i"
    using c by simp_all
  show "raid6_rebuilding m bs d v (snd (nc_writeDisk d buf bs (i * bs) s))"
    using l tl raid6_lost_write [OF ll f] cv unfolding t_def [symmetric]
    by (simp add: raid6_rebuilding_def frame_eqD(1,3) [OF f] bs [symmetric])
qed

text \<open>
  Recovery in RAID 6 rebuilds a lost disk when the others are good: the replaced disk holds the
  bytes that complete the parities, no other disk has changed, and the call reports success.
\<close>

theorem raid6_recover_ok:
  assumes "raid6_rebuilding (disk_size s d) (disk_block_size s) d v s" "0 \<le> disk_size s d"
  shows "fst (raid6_recover (gf_gen_tables junk field_power) d s) = 0 \<and>
    content (snd (raid6_recover (gf_gen_tables junk field_power) d s)) = (content s)(d := v)"
proof -
  have "0 < disk_block_size s" using assms by (simp add: raid6_rebuilding_def raid6_lost_def)
  then show ?thesis
    using r6.rebuild_all(1) [OF assms, of "\<lambda>b. overwrite b 0 (zeros (nat (disk_block_size s)))"
        "malloc (heap_junk s) (nat (disk_block_size s))" junk]
    by (simp add: raid6_recover_def Let_def)
qed

theorem raid6_recover_ok_witness:
  "content (snd (raid6_recover (gf_gen_tables \<lparr>gflog = \<lambda>_. 0, gfilog = \<lambda>_. 0\<rparr> field_power) 1
     (failed_array 6 [1] 4 4 2))) 1 = zeros 8"
proof -
  let ?s = "failed_array 6 [1] 4 4 2" and ?v = "content (fresh_array 6 4 4 4 2)"
  have v: "(content ?s)(1 := zeros 8) = ?v"
    by (simp add: content_failed_array fun_eq_iff content_fresh)
  have "raid6_lost 2 [1] ?v ?s" by (rule raid6_lost_failed_array) auto
  then have "raid6_rebuilding (disk_size ?s 1) (disk_block_size ?s) 1 (zeros 8) ?s"
    unfolding raid6_rebuilding_def v using raid6_parity_fresh [of 4 4 2 6 4]
    by (simp add: content_failed_array content_fresh)
  from raid6_recover_ok [OF this] show ?thesis by simp
qed

section \<open>P and Q on fixed disks\<close>

text \<open>
  \<open>decode\<close> and \<open>recover\<close> of \<open>coding_raid6_noRotate.cc\<close> are those of \<open>coding_raid6.cc\<close>, line by line.
\<close>

definition raid6_noRotate_decode :: "gf \<Rightarrow> int \<Rightarrow> byte list \<Rightarrow> int \<Rightarrow> int \<Rightarrow> sys \<Rightarrow> int \<times> byte list \<times> sys" where
  "raid6_noRotate_decode T disk_id buf sz off s = raid6_decode T disk_id buf sz off s"

definition raid6_noRotate_recover :: "gf \<Rightarrow> int \<Rightarrow> sys \<Rightarrow> int \<times> sys" where
  "raid6_noRotate_recover T failed_disk_id s =
     (let recoversize = disk_size s failed_disk_id;
          block_size = disk_block_size s
      in (0, rebuild_blocks (raid6_noRotate_decode T) nc_writeDisk
               (\<lambda>b. overwrite b 0 (zeros (nat block_size)))
               failed_disk_id block_size [0..recoversize - 1]
               (malloc (heap_junk s) (nat block_size)) s))"

definition raid6_fixed_rel :: "int \<Rightarrow> (int \<Rightarrow> byte list) \<Rightarrow> nat \<Rightarrow> bool" where
  "raid6_fixed_rel n v a \<longleftrightarrow> v (n - 2) ! a = xsum (\<lambda>i. v i ! a) [0..n - 3] \<and>
     v (n - 1) ! a = xsum (\<lambda>i. gmul (v i ! a) (2 ^ nat (n - 3 - i))) [0..n - 3]"

definition raid6_fixed_parity :: "int \<Rightarrow> int \<Rightarrow> (int \<Rightarrow> byte list) \<Rightarrow> bool" where
  "raid6_fixed_parity n len v \<longleftrightarrow> list_all (raid6_fixed_rel n v) [0..<nat len]"

lemma upto_last_two: "3 \<le> n \<Longrightarrow> [0..n - 1] = [0..n - 3] @ [n - 2, n - 1 :: int]"
  using upto_split2 [of 0 "n - 3" "n - 1"] by (simp add: upto.simps)

lemma raid6_noRotate_count_fields [simp]:
  "disk_total_num (raid6_noRotate_count d s) = disk_total_num s"
  "data_disk_num (raid6_noRotate_count d s) = data_disk_num s"
  "disk_block_size (raid6_noRotate_count d s) = disk_block_size s"
  "disk_size (raid6_noRotate_count d s) = disk_size s"
  "disk_status (raid6_noRotate_count d s) = disk_status s"
  "dev_name (raid6_noRotate_count d s) = dev_name s"
  "devices (raid6_noRotate_count d s) = devices s"
  "space_list_head (raid6_noRotate_count d s) = space_list_head s"
  "heap_junk (raid6_noRotate_count d s) = heap_junk s"
  by (simp_all add: raid6_noRotate_count_def put_free_offset_def put_free_size_def Let_def)

lemma raid6_noRotate_count_data:
  "i < disk_total_num s - 2 \<Longrightarrow> free_offset (raid6_noRotate_count d s) i = free_offset s i \<and>
   free_size (raid6_noRotate_count d s) i = free_size s i"
  by (simp add: raid6_noRotate_count_def put_free_offset_def put_free_size_def Let_def)

lemma alloc_ok_noRotate_count:
  assumes "alloc_ok (\<lambda>d _. d < disk_total_num s - 2) m s"
  shows "alloc_ok (\<lambda>d _. d < disk_total_num s - 2) m (raid6_noRotate_count d s)"
proof -
  have "0 \<le> free_offset (raid6_noRotate_count d s) i \<and>
      free_offset (raid6_noRotate_count d s) i + free_size (raid6_noRotate_count d s) i \<le> m"
    if "0 \<le> i" "i < disk_total_num s" for i
  proof -
    have "0 \<le> free_offset s i \<and> free_offset s i + free_size s i \<le> m"
      using assms that by (simp add: alloc_ok_def list_all_iff)
    then show ?thesis
      by (auto simp: raid6_noRotate_count_def put_free_offset_def put_free_size_def Let_def)
  qed
  then show ?thesis using assms by (auto simp: alloc_ok_def list_all_iff raid6_noRotate_count_data)
qed

text \<open>
  With P and Q on the last two disks \<open>encode\<close> stores the data in a block of a data disk, changes
  only that block and the blocks of P and Q of its row, and keeps both parities, also when a deleted
  block is used again.
\<close>

theorem raid6_noRotate_encode_parity:
  fixes s :: sys
  defines "n \<equiv> disk_total_num s" and "bs \<equiv> disk_block_size s"
  assumes ok: "array_ok m s" "alloc_ok (\<lambda>d _. d < n - 2) m s" "3 \<le> n" "n \<le> 10"
    and par: "raid6_fixed_parity n (m * bs) (content s)"
    and sz: "0 < sz" "sz \<le> bs" "length buf = nat sz"
    and enc: "raid6_noRotate_encode (gf_gen_tables junk field_power) buf sz s = (info, s')"
      "bi_disk_id info \<noteq> -1"
  shows "0 \<le> bi_disk_id info \<and> bi_disk_id info < n - 2 \<and>
    block_of s' (bi_disk_id info) (bi_block_no info) sz = buf \<and>
    array_ok m s' \<and> alloc_ok (\<lambda>d _. d < n - 2) m s' \<and> raid6_fixed_parity n (m * bs) (content s') \<and>
    list_all (\<lambda>i. only_block (content s) (content s') i (bi_block_no info) bs)
      [bi_disk_id info, n - 2, n - 1] \<and>
    (\<forall>i. i \<notin> {bi_disk_id info, n - 2, n - 1} \<longrightarrow> content s' i = content s i)"
proof -
  let ?D = "\<lambda>d (_ :: int). d < n - 2"
  define T where "T = gf_gen_tables junk field_power"
  have T: "gf_ok T" unfolding T_def by (rule gf_gen_tables_ok)
  have req: "round_to_block_size sz s = bs" "bs sdiv bs = 1" "0 < bs"
    using ok sz round_one_block [of s sz] by (auto simp: array_ok_def bs_def)
  obtain d0 b0 fo where pk: "pick_striped 1 (n - 3) s = (d0, b0, fo)" by (metis prod_cases3)
  let ?k = "raid6_noRotate_count d0 s"
  obtain d b s1 where o: "or_space_list (d0, b0) ?k = (d, b, s1)" by (metis prod_cases3)
  note f = or_space_list_fields [OF o, simplified, folded n_def bs_def]
  have ck: "content ?k = content s" by (rule content_cong) simp_all
  have cases: "(info, s') = (if d = -1 then (\<lparr>bi_disk_id = d, bi_block_no = b\<rparr>, s1)
      else (\<lparr>bi_disk_id = d, bi_block_no = b\<rparr>, raid6_store T (n - 1) (n - 2) d b buf sz bs 1 s1))"
    using enc(1) pk o unfolding raid6_noRotate_encode_def Let_def n_def [symmetric] bs_def [symmetric]
      req T_def [symmetric] by simp
  then have dne: "d \<noteq> -1" using enc(2) by auto
  have d0: "d0 \<noteq> -1 \<Longrightarrow> 0 \<le> d0 \<and> d0 < disk_total_num ?k \<and> 1 \<le> free_size ?k d0 \<and>
      b0 = free_offset ?k d0 \<and> ?D d0 b0"
    using pick_striped_spec(1) [OF pk] raid6_noRotate_count_data [of d0 s d0] by (auto simp: n_def)
  have al: "alloc_ok ?D m ?k" using alloc_ok_noRotate_count ok(2) by (simp add: n_def)
  note c = alloc_ok_claim [OF al o dne d0, simplified, folded n_def]
  have e: "info = \<lparr>bi_disk_id = d, bi_block_no = b\<rparr>"
    "s' = raid6_store T (n - 1) (n - 2) d b buf sz bs 1 s1" using cases dne by simp_all
  have s1: "disk_total_num s1 = n" "disk_block_size s1 = bs" "content s1 = content s"
    using f ck by simp_all
  have "array_ok m ?k = array_ok m s" by (simp add: array_ok_def ck)
  then have a1: "array_ok m s1" using ok(1) array_ok_space [OF o] by simp
  have i: "in_array m s1 d b sz" using s1 a1 sz c by (simp add: in_array_def)
  have g: "list_all (\<lambda>i. raid6_coeff n (n - 1) (n - 2) i = uint (2 ^ nat (n - 3 - i) :: byte))
      (filter (\<lambda>i. i \<noteq> n - 2 \<and> i \<noteq> n - 1) [0..n - 1])"
    using coefficient_byte(1) ok(3,4)
    by (auto simp: list_all_iff raid6_coeff_def raid6_exponent_def Let_def)
  have xs: "filter (\<lambda>i. i \<noteq> n - 2 \<and> i \<noteq> n - 1) [0..n - 1] = [0..n - 3]"
    unfolding upto_last_two [OF ok(3)] by (simp add: filter_id_conv)
  have pq: "0 \<le> n - 2" "n - 2 < n" "0 \<le> n - 1" "n - 1 < n" "d \<noteq> n - 2" "d \<noteq> n - 1" "n - 2 \<noteq> n - 1"
    using ok(3) c by auto
  note st = raid6_store_ok [OF T i, unfolded s1, OF pq g sz(3), folded e(2)]
  have "raid6_fixed_rel n (content s') a" if a: "a < nat (m * bs)" for a
  proof (cases "nat (b * bs) \<le> a \<and> a < nat (b * bs) + nat sz")
    case True
    then show ?thesis using st(6) [of a] unfolding xs by (simp add: raid6_fixed_rel_def)
  next
    case False
    have cc: "content s' i ! a = content s i ! a" if "0 \<le> i" "i < n" for i
      by (rule st(5) [OF a that]) (use False in auto)
    have "xsum (\<lambda>i. content s' i ! a) [0..n - 3] = xsum (\<lambda>i. content s i ! a) [0..n - 3]"
      "xsum (\<lambda>i. gmul (content s' i ! a) (2 ^ nat (n - 3 - i))) [0..n - 3] =
       xsum (\<lambda>i. gmul (content s i ! a) (2 ^ nat (n - 3 - i))) [0..n - 3]"
      using cc by (auto intro!: xsum_cong)
    then show ?thesis
      using par a cc ok(3) by (simp add: raid6_fixed_parity_def raid6_fixed_rel_def list_all_iff)
  qed
  then have "raid6_fixed_parity n (m * bs) (content s')"
    by (simp add: raid6_fixed_parity_def list_all_iff)
  then show ?thesis using c pq st(2,3,4,7) alloc_ok_frame [OF st(1)] by (auto simp: e(1))
qed

lemma raid6_fixed_parity_fresh:
  assumes "3 \<le> n"
  shows "raid6_fixed_parity n (m * bs) (content (fresh_array t n k bs m))"
proof -
  let ?v = "content (fresh_array t n k bs m)"
  have z: "?v i ! a = 0" if "0 \<le> i" "i < n" "a < nat (m * bs)" for i a
    using that by (simp add: content_fresh)
  have "raid6_fixed_rel n ?v a" if "a < nat (m * bs)" for a
  proof -
    have "xsum (\<lambda>i. ?v i ! a) [0..n - 3] = xsum (\<lambda>_. 0) [0..n - 3]"
      "xsum (\<lambda>i. gmul (?v i ! a) (2 ^ nat (n - 3 - i))) [0..n - 3] = xsum (\<lambda>_. 0) [0..n - 3]"
      by (rule xsum_cong [OF refl]; use z that in \<open>simp add: gmul_0\<close>)+
    then show ?thesis using z that assms by (simp add: raid6_fixed_rel_def)
  qed
  then show ?thesis by (simp add: raid6_fixed_parity_def list_all_iff)
qed

theorem raid6_noRotate_encode_parity_witness:
  "raid6_fixed_parity 4 8 (content (snd (raid6_noRotate_encode
     (gf_gen_tables \<lparr>gflog = \<lambda>_. 0, gfilog = \<lambda>_. 0\<rparr> field_power) [7, 8, 9] 3 (fresh_array 6 4 4 4 2))))"
proof -
  let ?s = "fresh_array 6 4 4 4 2" and ?T = "gf_gen_tables \<lparr>gflog = \<lambda>_. 0, gfilog = \<lambda>_. 0\<rparr> field_power"
  have e: "raid6_noRotate_encode ?T [7, 8, 9] 3 ?s =
      (\<lparr>bi_disk_id = 0, bi_block_no = 0\<rparr>, snd (raid6_noRotate_encode ?T [7, 8, 9] 3 ?s))"
    by (simp add: raid6_noRotate_encode_def round_to_block_size_def pick_striped_def pick_step_def
        or_space_list_def upto.simps Let_def)
  show ?thesis
    using raid6_noRotate_encode_parity [OF array_ok_fresh alloc_ok_fresh _ _ _ _ _ _ e]
      raid6_fixed_parity_fresh [of 4 2 4 6 4] by simp
qed

text \<open>
  C20: Its \<open>decode\<close> still looks for P and Q where the rotating layout has them: for a lost data disk
  that is not at the place of Q in the rotating layout, a byte of the result is right exactly when
  the disk at that place holds the same byte as Q. So the rows of which the number is a multiple of
  the number of disks are read back, the others are in general not, and the call reports success.
\<close>

theorem raid6_noRotate_read_iff:
  fixes s :: sys and off :: int
  defines "n \<equiv> disk_total_num s" and "bs \<equiv> disk_block_size s"
  defines "q \<equiv> raid6_code_disk n (off div bs)"
  assumes l: "raid6_lost m [d] v s" and n: "3 \<le> n" and d: "d < n - 2" "d \<noteq> q"
    and par: "raid6_fixed_parity n (m * bs) v"
    and rng: "0 < sz" "4 dvd sz" "0 \<le> off" "off + sz \<le> m * bs" and len: "length buf = nat sz"
  shows "\<exists>t. raid6_noRotate_decode T d buf sz off s = (sz, t, s) \<and> length t = nat sz \<and>
    (\<forall>j < nat sz. t ! j = v d ! (nat off + j) \<longleftrightarrow> v q ! (nat off + j) = v (n - 1) ! (nat off + j))"
proof -
  have bs: "0 < bs" using l(1) by (simp add: raid6_lost_def bs_def)
  have b: "off sdiv bs = off div bs" "0 \<le> off div bs"
    using bs rng(3) by (simp_all add: pos_imp_zdiv_nonneg_iff)
  have q: "0 \<le> q" "q < n" using raid6_disks [of n "off div bs"] n b by (auto simp: q_def)
  have d0: "0 \<le> d" using l by (simp add: raid6_lost_def)
  have r: "readable s v sz off i" if "i \<in> set [0..n - 1]" "i \<notin> set [d, q]" for i
    using raid6_lost_readable [OF l, of i] that rng by (auto simp: n_def bs_def)
  let ?f = "\<lambda>j i. v i ! (nat off + j)"
  let ?t = "map (\<lambda>j. zeros (nat sz) ! j XOR xsum (?f j) (filter (\<lambda>i. i \<notin> set [d, q]) [0..n - 1])) [0..<nat sz]"
  obtain u where u: "raid6_xor_ints [d, q] sz off [0..n - 1] (zeros (nat sz)) (zeros (nat sz)) s =
      (True, u, ?t, s)"
    using raid6_xor_ints_ok [OF r rng(2) length_zeros length_zeros] by blast
  have z: "overwrite buf 0 (zeros (nat sz)) = zeros (nat sz)" using len by (simp add: overwrite_def)
  note dec = raid6_decode_def [of T d buf sz off s, unfolded Let_def, folded n_def bs_def,
      unfolded b(1) z, folded q_def]
  have st: "disk_status s d = 1" "int (length (filter (\<lambda>i. disk_status s i = 1) [0..n - 1])) = 1"
    using l raid6_lost_count [OF l] d d0 by (auto simp: raid6_lost_def list_all_iff n_def)
  have "raid6_decode T d buf sz off s = (sz, ?t, s)"
    unfolding dec raid6_decode_one_def n_def [symmetric] u using st d by simp
  moreover have "?t ! j = ?f j d \<longleftrightarrow> ?f j q = ?f j (n - 1)" if j: "j < nat sz" for j
  proof -
    have "nat off + j < nat (m * bs)" using j rng by linarith
    then have rel: "raid6_fixed_rel n v (nat off + j)"
      using par by (simp add: raid6_fixed_parity_def list_all_iff)
    have "xsum (?f j) [0..n - 1] = ?f j (n - 1)"
      unfolding upto_last_two [OF n] using rel by (simp add: raid6_fixed_rel_def)
    moreover have "xsum (?f j) (filter (\<lambda>i. i \<noteq> d \<and> i \<noteq> q) [0..n - 1]) =
        ?f j d XOR ?f j q XOR xsum (?f j) [0..n - 1]"
      by (rule xsum_without_two) (use d d0 q in auto)
    ultimately have eq: "?t ! j = ?f j d XOR (?f j q XOR ?f j (n - 1))" using j by (simp add: xor.assoc)
    show ?thesis unfolding eq using xor_eq_self [of "?f j d" "?f j q XOR ?f j (n - 1)"]
      by (simp add: xor_eq_iff)
  qed
  ultimately show ?thesis by (auto simp: raid6_noRotate_decode_def)
qed

theorem raid6_noRotate_read_iff_witness:
  "\<exists>t. raid6_noRotate_decode (gf_gen_tables \<lparr>gflog = \<lambda>_. 0, gfilog = \<lambda>_. 0\<rparr> field_power) 0 [1, 1, 1, 1] 4 4
    (failed_array 6 [0] 4 4 2) = (4, t, failed_array 6 [0] 4 4 2) \<and> length t = 4"
  using raid6_noRotate_read_iff [where s = "failed_array 6 [0] 4 4 2" and off = 4 and m = 2 and sz = 4
      and d = 0 and v = "content (fresh_array 6 4 4 4 2)" and buf = "[1, 1, 1, 1]"
      and T = "gf_gen_tables \<lparr>gflog = \<lambda>_. 0, gfilog = \<lambda>_. 0\<rparr> field_power"]
    raid6_fixed_parity_fresh [of 4 2 4 6 4] raid6_lost_failed_array [of 4 2 "[0]" 4 6]
  by (auto simp: raid6_code_disk_def)

end
