(* ===== verification/CodingLayer.thy ===== *)
theory CodingLayer
  imports CodingBasic CodingRaid45 Evenodd Rdp Mdr1 Raid6Write
begin

text \<open>
  The coding layer as the file system sees it: one of the coding classes, chosen from
  \<open>disk_raid_type\<close> by \<open>initializeCodingLayer\<close> of \<open>ncfs.cc\<close>, and the calls through its virtual
  methods. The objects of RAID 6 carry the tables of the field, that of MDR its matrices and lists; the
  other classes have no state of their own.
\<close>

datatype coding_layer =
    Coding4Raid0 | Coding4Raid1 | Coding4Raid4 | Coding4Raid5 | Coding4Raid6 gf | Coding4Jbod
  | Coding4Mdr1 mdr1 | Coding4Raid6noRotate gf | Coding4Evenodd | Coding4Rdp

text \<open>
  The codes 13, 130 and 1000 belong to the classes that are not part of this model; for them and for
  an unknown code, where the pointer stays null, there is no value. The tables of the field are
  allocated without being cleared: \<open>junk\<close> is what they hold before.
\<close>

definition initializeCodingLayer :: "gf \<Rightarrow> sys \<Rightarrow> coding_layer option" where
  "initializeCodingLayer junk s = (let t = disk_raid_type s in
     if t = 0 then Some Coding4Raid0
     else if t = 1 then Some Coding4Raid1
     else if t = 4 then Some Coding4Raid4
     else if t = 5 then Some Coding4Raid5
     else if t = 6 then Some (Coding4Raid6 (gf_gen_tables junk field_power))
     else if t = 100 then Some Coding4Jbod
     else if t = 61 then map_option Coding4Mdr1 (mdr1_new s)
     else if t = 62 then Some (Coding4Raid6noRotate (gf_gen_tables junk field_power))
     else if t = 63 then Some Coding4Evenodd
     else if t = 64 then Some Coding4Rdp
     else None)"

text \<open>The virtual calls; \<open>None\<close> when the process calls \<open>exit\<close> inside.\<close>

definition coding_encode :: "coding_layer \<Rightarrow> byte list \<Rightarrow> int \<Rightarrow> sys \<Rightarrow>
    (data_block_info \<times> coding_layer \<times> sys) option" where
  "coding_encode L buf sz s =
     (let ret = (\<lambda>(r, s). Some (r, L, s)) in case L of
        Coding4Raid0 \<Rightarrow> ret (raid0_encode buf sz s)
      | Coding4Raid1 \<Rightarrow> ret (raid1_encode buf sz s)
      | Coding4Raid4 \<Rightarrow> ret (raid4_encode buf sz s)
      | Coding4Raid5 \<Rightarrow> ret (raid5_encode buf sz s)
      | Coding4Raid6 T \<Rightarrow> ret (raid6_encode T buf sz s)
      | Coding4Jbod \<Rightarrow> ret (jbod_encode buf sz s)
      | Coding4Mdr1 ob \<Rightarrow> ret (mdr1_encode buf sz ob s)
      | Coding4Raid6noRotate T \<Rightarrow> ret (raid6_noRotate_encode T buf sz s)
      | Coding4Evenodd \<Rightarrow> ret (evenodd_encode buf sz s)
      | Coding4Rdp \<Rightarrow> ret (rdp_encode buf sz s))"

definition coding_decode :: "coding_layer \<Rightarrow> int \<Rightarrow> byte list \<Rightarrow> int \<Rightarrow> int \<Rightarrow> sys \<Rightarrow>
    (int \<times> byte list \<times> coding_layer \<times> sys) option" where
  "coding_decode L disk_id buf sz offset s =
     (let ret = (\<lambda>(retstat, buf, s). Some (retstat, buf, L, s)) in case L of
        Coding4Raid0 \<Rightarrow> ret (raid0_decode disk_id buf sz offset s)
      | Coding4Raid1 \<Rightarrow> ret (raid1_decode disk_id buf sz offset s)
      | Coding4Raid4 \<Rightarrow> ret (raid4_decode disk_id buf sz offset s)
      | Coding4Raid5 \<Rightarrow> ret (raid5_decode disk_id buf sz offset s)
      | Coding4Raid6 T \<Rightarrow> ret (raid6_decode T disk_id buf sz offset s)
      | Coding4Jbod \<Rightarrow> ret (jbod_decode disk_id buf sz offset s)
      | Coding4Mdr1 ob \<Rightarrow> map_option (\<lambda>(retstat, buf, ob, s). (retstat, buf, Coding4Mdr1 ob, s))
          (mdr1_decode disk_id buf sz offset ob s)
      | Coding4Raid6noRotate T \<Rightarrow> ret (raid6_noRotate_decode T disk_id buf sz offset s)
      | Coding4Evenodd \<Rightarrow> ret (evenodd_decode disk_id buf sz offset s)
      | Coding4Rdp \<Rightarrow> ret (rdp_decode disk_id buf sz offset s))"

definition coding_recover :: "coding_layer \<Rightarrow> int \<Rightarrow> sys \<Rightarrow> (int \<times> coding_layer \<times> sys) option" where
  "coding_recover L failed_disk_id s =
     (let ret = (\<lambda>(retstat, s). Some (retstat, L, s)) in case L of
        Coding4Raid0 \<Rightarrow> ret (raid0_recover failed_disk_id s)
      | Coding4Raid1 \<Rightarrow> ret (raid1_recover failed_disk_id s)
      | Coding4Raid4 \<Rightarrow> ret (raid4_recover failed_disk_id s)
      | Coding4Raid5 \<Rightarrow> ret (raid5_recover failed_disk_id s)
      | Coding4Raid6 T \<Rightarrow> ret (raid6_recover T failed_disk_id s)
      | Coding4Jbod \<Rightarrow> ret (jbod_recover failed_disk_id s)
      | Coding4Mdr1 ob \<Rightarrow> map_option (\<lambda>(retstat, ob, s). (retstat, Coding4Mdr1 ob, s))
          (mdr1_recover failed_disk_id ob s)
      | Coding4Raid6noRotate T \<Rightarrow> ret (raid6_noRotate_recover T failed_disk_id s)
      | Coding4Evenodd \<Rightarrow> ret (evenodd_recover failed_disk_id s)
      | Coding4Rdp \<Rightarrow> ret (rdp_recover failed_disk_id s))"

end
