(* ===== verification/Config.thy ===== *)
theory Config
  imports NcfsState
begin

text \<open>
  The configuration layer, \<open>ConfigLayer\<close> of \<open>config/config.cc\<close>, over the document tree, and
  \<open>readSystemConfig\<close> of \<open>filesystem_utils.cc\<close>. The operations on a node
  (\<open>FirstChild\<close>, \<open>GetText\<close>, \<open>ReplaceChild\<close>) are those of \<open>config/tinyxml.cc\<close>; reading
  the file \<open>config.xml\<close> into a tree is not modelled. A null pointer that the code follows is
  \<open>None\<close>: the process dies.
\<close>

section \<open>Numbers as text\<close>

text \<open>\<open>sprintf\<close> with \<open>%d\<close>, and \<open>atol\<close> and \<open>atoi\<close> of the C library: white space, a sign, digits.\<close>

definition digit_char :: "nat \<Rightarrow> char" where
  "digit_char d = char_of (48 + d)"

fun show_nat :: "nat \<Rightarrow> string" where
  "show_nat n = (if n < 10 then [digit_char n] else show_nat (n div 10) @ [digit_char (n mod 10)])"

declare show_nat.simps [simp del]

definition show_int :: "int \<Rightarrow> string" where
  "show_int i = (if i < 0 then CHR ''-'' # show_nat (nat (- i)) else show_nat (nat i))"

definition is_digit :: "char \<Rightarrow> bool" where
  "is_digit c \<longleftrightarrow> 48 \<le> (of_char c :: nat) \<and> (of_char c :: nat) \<le> 57"

definition is_space :: "char \<Rightarrow> bool" where
  "is_space c \<longleftrightarrow> (of_char c :: nat) = 32 \<or> (9 \<le> (of_char c :: nat) \<and> (of_char c :: nat) \<le> 13)"

definition digits_value :: "string \<Rightarrow> int" where
  "digits_value cs = foldl (\<lambda>v c. 10 * v + (of_char c - 48)) 0 (takeWhile is_digit cs)"

definition parse_int :: "string \<Rightarrow> int" where
  "parse_int cs = (case dropWhile is_space cs of
       [] \<Rightarrow> 0
     | c # ds \<Rightarrow> if c = CHR ''-'' then - digits_value ds
                 else if c = CHR ''+'' then digits_value ds else digits_value (c # ds))"

definition atol :: "string \<Rightarrow> int" where
  "atol cs = max (- (2 ^ 63)) (min (2 ^ 63 - 1) (parse_int cs))"

definition atoi :: "string \<Rightarrow> int" where
  "atoi cs = i32 (atol cs)"

lemma of_digit_char: "d < 10 \<Longrightarrow> (of_char (digit_char d) :: nat) = 48 + d"
  by (simp add: digit_char_def)

lemma of_digit_char_int: "d < 10 \<Longrightarrow> (of_char (digit_char d) :: int) = 48 + int d"
  using of_digit_char [of d] by (metis of_nat_add of_nat_numeral of_nat_of_char)

lemma is_digit_char: "d < 10 \<Longrightarrow> is_digit (digit_char d)"
  by (simp add: is_digit_def of_digit_char)

lemma show_nat_digits: "list_all is_digit (show_nat n)"
  by (induction n rule: show_nat.induct) (subst show_nat.simps, simp add: is_digit_char)

lemma show_nat_value: "foldl (\<lambda>v c. 10 * v + (of_char c - 48)) 0 (show_nat n) = int n"
proof (induction n rule: show_nat.induct)
  case (1 n)
  show ?case
  proof (cases "n < 10")
    case True
    then show ?thesis by (subst show_nat.simps) (simp add: of_digit_char_int)
  next
    case False
    have "int n = 10 * int (n div 10) + int (n mod 10)"
      by (metis mult_div_mod_eq of_nat_add of_nat_mult of_nat_numeral)
    then show ?thesis using False 1 by (subst show_nat.simps) (simp add: of_digit_char_int)
  qed
qed

lemma digits_value_show: "digits_value (show_nat n) = int n"
proof -
  have "takeWhile is_digit (show_nat n) = show_nat n"
    using show_nat_digits [of n] by (simp add: takeWhile_eq_all_conv list_all_iff)
  then show ?thesis by (simp only: digits_value_def show_nat_value)
qed

lemma show_nat_head:
  obtains c cs where "show_nat n = c # cs" "is_digit c"
proof (cases "show_nat n")
  case Nil
  then show ?thesis by (subst (asm) show_nat.simps) (simp split: if_splits)
next
  case (Cons c cs)
  then show ?thesis using that show_nat_digits [of n] by simp
qed

lemma is_digit_not: "is_digit c \<Longrightarrow> \<not> is_space c \<and> c \<noteq> CHR ''-'' \<and> c \<noteq> CHR ''+''"
  by (auto simp: is_digit_def is_space_def)

lemma parse_show: "parse_int (show_int i) = i"
proof (cases "i < 0")
  case True
  have "\<not> is_space (CHR ''-'')" by (simp add: is_space_def)
  then show ?thesis using True by (simp add: parse_int_def show_int_def digits_value_show)
next
  case False
  obtain c cs where c: "show_nat (nat i) = c # cs" "is_digit c" by (rule show_nat_head)
  then show ?thesis using False is_digit_not [OF c(2)] digits_value_show [of "nat i"]
    by (simp add: parse_int_def show_int_def)
qed

lemma atoi_show: "- (2 ^ 31) \<le> i \<Longrightarrow> i < 2 ^ 31 \<Longrightarrow> atoi (show_int i) = i"
  by (simp add: atoi_def atol_def parse_show i32_id)

section \<open>The document tree\<close>

datatype xml_node = Elem string "xml_node list" | Txt string

fun node_value :: "xml_node \<Rightarrow> string" where
  "node_value (Elem t ks) = t"
| "node_value (Txt t) = t"

fun node_kids :: "xml_node \<Rightarrow> xml_node list" where
  "node_kids (Elem t ks) = ks"
| "node_kids (Txt t) = []"

fun ToElement :: "xml_node \<Rightarrow> xml_node option" where
  "ToElement (Elem t ks) = Some (Elem t ks)"
| "ToElement (Txt t) = None"

definition FirstChild :: "string \<Rightarrow> xml_node \<Rightarrow> xml_node option" where
  "FirstChild v n = List.find (\<lambda>c. node_value c = v) (node_kids n)"

definition GetText :: "xml_node \<Rightarrow> string option" where
  "GetText n = (case node_kids n of Txt t # ks \<Rightarrow> Some t | _ \<Rightarrow> None)"

text \<open>\<open>ReplaceChild\<close> of the first child, if there is one.\<close>

fun ReplaceChild :: "xml_node \<Rightarrow> xml_node \<Rightarrow> xml_node" where
  "ReplaceChild new (Elem t (k # ks)) = Elem t (new # ks)"
| "ReplaceChild new n = n"

section \<open>ConfigLayer\<close>

text \<open>The names \<open>strtok\<close> cuts a property tree into: the pieces between \<open>>\<close>, empty ones left out.\<close>

fun strtok :: "string \<Rightarrow> string \<Rightarrow> string list" where
  "strtok acc [] = (if acc = [] then [] else [acc])"
| "strtok acc (c # cs) =
     (if c = CHR ''>'' then (if acc = [] then strtok [] cs else acc # strtok [] cs)
      else strtok (acc @ [c]) cs)"

fun advance :: "string list \<Rightarrow> xml_node option \<Rightarrow> xml_node option" where
  "advance [] e = e"
| "advance (name # names) e =
     (case Option.bind (Option.bind e (FirstChild name)) ToElement of
        None \<Rightarrow> None
      | Some n \<Rightarrow> advance names (Some n))"

definition advanceToElement :: "string \<Rightarrow> xml_node option \<Rightarrow> xml_node option" where
  "advanceToElement propertyTree e = advance (strtok [] propertyTree) e"

definition getConfigString :: "string \<Rightarrow> xml_node option \<Rightarrow> string option" where
  "getConfigString p e = Option.bind (advanceToElement p e) GetText"

definition getConfigLong :: "string \<Rightarrow> xml_node option \<Rightarrow> int" where
  "getConfigLong p e = (case getConfigString p e of None \<Rightarrow> -1 | Some s \<Rightarrow> atol s)"

definition getConfigInt :: "string \<Rightarrow> xml_node option \<Rightarrow> int" where
  "getConfigInt p e = (case getConfigString p e of None \<Rightarrow> -1 | Some s \<Rightarrow> atoi s)"

definition getConfigBool :: "string \<Rightarrow> xml_node option \<Rightarrow> bool" where
  "getConfigBool p e = (case getConfigString p e of None \<Rightarrow> False | Some s \<Rightarrow> s = ''true'')"

text \<open>
  \<open>setConfigString\<close> changes the node it finds in place: \<open>change_at\<close> is the tree after that. When the
  element is missing the code calls a method of the null pointer.
\<close>

fun change_kid :: "string \<Rightarrow> xml_node \<Rightarrow> xml_node list \<Rightarrow> xml_node list" where
  "change_kid v new [] = []"
| "change_kid v new (k # ks) = (if node_value k = v then new # ks else k # change_kid v new ks)"

fun change_at :: "string list \<Rightarrow> xml_node \<Rightarrow> xml_node \<Rightarrow> xml_node" where
  "change_at [] new e = new"
| "change_at (name # names) new (Txt t) = Txt t"
| "change_at (name # names) new (Elem t ks) =
     (case List.find (\<lambda>c. node_value c = name) ks of
        None \<Rightarrow> Elem t ks
      | Some k \<Rightarrow> Elem t (change_kid name (change_at names new k) ks))"

definition setConfigString :: "string \<Rightarrow> string \<Rightarrow> xml_node option \<Rightarrow> xml_node option" where
  "setConfigString p text e = (case advanceToElement p e of
       None \<Rightarrow> None
     | Some n \<Rightarrow> map_option (change_at (strtok [] p) (ReplaceChild (Txt text) n)) e)"

definition setConfigLong :: "string \<Rightarrow> int \<Rightarrow> xml_node option \<Rightarrow> xml_node option" where
  "setConfigLong p v e = setConfigString p (show_int v) e"

definition setConfigInt :: "string \<Rightarrow> int \<Rightarrow> xml_node option \<Rightarrow> xml_node option" where
  "setConfigInt p v e = setConfigString p (show_int v) e"

definition setConfigBool :: "string \<Rightarrow> bool \<Rightarrow> xml_node option \<Rightarrow> xml_node option" where
  "setConfigBool p b e = setConfigString p (if b then ''true'' else ''false'') e"

lemma find_change_kid:
  "List.find (\<lambda>c. node_value c = v) ks = Some k \<Longrightarrow> node_value new = v \<Longrightarrow>
   List.find (\<lambda>c. node_value c = v) (change_kid v new ks) = Some new"
  by (induction ks) (auto split: if_splits)

lemma find_value: "List.find (\<lambda>c. node_value c = v) ks = Some k \<Longrightarrow> node_value k = v"
  by (auto simp: find_Some_iff)

lemma ToElement_Some: "ToElement k = Some n \<longleftrightarrow> (\<exists>t ks. k = Elem t ks \<and> n = k)"
  by (cases k) auto

lemma ReplaceChild_value: "node_value (ReplaceChild new n) = node_value n"
  by (cases "(new, n)" rule: ReplaceChild.cases) auto

lemma ToElement_ReplaceChild: "ToElement (ReplaceChild new n) = map_option (ReplaceChild new) (ToElement n)"
  by (cases "(new, n)" rule: ReplaceChild.cases) auto

lemma advance_value:
  assumes "advance names (Some e) = Some n" "ToElement e \<noteq> None" "node_value m = node_value n" "ToElement m = Some m"
  shows "node_value (change_at names m e) = node_value e \<and>
    ToElement (change_at names m e) = Some (change_at names m e) \<and>
    advance names (Some (change_at names m e)) = Some m"
  using assms
proof (induction names arbitrary: e)
  case Nil
  then show ?case by simp
next
  case (Cons name names)
  then obtain t ks where e: "e = Elem t ks" by (cases e) auto
  obtain k where k: "List.find (\<lambda>c. node_value c = name) ks = Some k" "ToElement k = Some k"
    and a: "advance names (Some k) = Some n"
    using Cons.prems(1) unfolding e
    by (auto simp: FirstChild_def ToElement_Some split: option.splits bind_splits)
  have IH: "node_value (change_at names m k) = node_value k"
    "ToElement (change_at names m k) = Some (change_at names m k)"
    "advance names (Some (change_at names m k)) = Some m"
    using Cons.IH [OF a] k(2) Cons.prems(3,4) by auto
  have "node_value (change_at names m k) = name" using IH(1) find_value [OF k(1)] by simp
  from find_change_kid [OF k(1) this] show ?case using IH k(1) by (simp add: e FirstChild_def)
qed


text \<open>
  A setting is read back as it was set: when the element a property tree names exists and holds a
  text, \<open>setConfigInt\<close> succeeds, and \<open>getConfigInt\<close> of the same property tree returns every 32-bit
  number that was set, through the decimal text in between.
\<close>

theorem config_int_roundtrip:
  assumes "getConfigString p (Some e) = Some old" "ToElement e = Some e"
    and "- (2 ^ 31) \<le> v" "v < 2 ^ 31"
  shows "\<exists>e'. setConfigInt p v (Some e) = Some e' \<and> getConfigInt p (Some e') = v"
proof -
  let ?t = "show_int v"
  obtain n where n: "advance (strtok [] p) (Some e) = Some n" "GetText n = Some old"
    using assms(1) by (auto simp: getConfigString_def advanceToElement_def split: bind_splits)
  then obtain t k ks where k: "n = Elem t (k # ks)"
    by (cases n) (auto simp: GetText_def split: list.splits)
  let ?m = "ReplaceChild (Txt ?t) n"
  have "advance (strtok [] p) (Some (change_at (strtok [] p) ?m e)) = Some ?m"
    using advance_value [OF n(1), of ?m] assms(2) k by simp
  moreover have "GetText ?m = Some ?t" by (simp add: k GetText_def)
  ultimately show ?thesis using n assms(3,4)
    by (simp add: setConfigInt_def setConfigString_def getConfigInt_def getConfigString_def
        advanceToElement_def atoi_show)
qed

theorem config_int_roundtrip_witness:
  "\<exists>e'. setConfigInt ''A>B'' (-20) (Some (Elem ''R'' [Elem ''A'' [Elem ''B'' [Txt ''7'']]])) = Some e'
     \<and> getConfigInt ''A>B'' (Some e') = -20"
  by (rule config_int_roundtrip [where old = "''7''"])
    (simp_all add: getConfigString_def advanceToElement_def FirstChild_def GetText_def)

section \<open>The configuration of the file system\<close>

text \<open>
  \<open>readSystemConfig\<close>. The settings \<open>NoCache\<close>, \<open>NoGui\<close>, \<open>Experiment\<close> and \<open>WValue\<close> and
  the addresses of the nodes go to fields the model leaves out. \<open>strncpy\<close> from a missing device name or
  address follows the null pointer.
\<close>

definition disk_key :: "int \<Rightarrow> string \<Rightarrow> string" where
  "disk_key i field = ''FileSystem>Disk>DiskSetting>Disk'' @ show_int (i + 1) @ ''>'' @ field"

definition read_disk_config :: "xml_node option \<Rightarrow> int \<Rightarrow> sys \<Rightarrow> sys option" where
  "read_disk_config cfg i s =
     (case (getConfigString (disk_key i ''DevName'') cfg, getConfigString (disk_key i ''IPaddr'') cfg) of
        (Some devNameTemp, Some ipAddrTemp) \<Rightarrow>
          let s = s\<lparr>dev_name := (dev_name s)(i := devNameTemp)\<rparr>;
              s = s\<lparr>disk_size := (disk_size s)(i := getConfigInt (disk_key i ''TotalSize'') cfg)\<rparr>;
              s = put_free_offset i (i32 (getConfigLong (disk_key i ''FreeOffset'') cfg)) s;
              s = put_free_size i (i32 (getConfigLong (disk_key i ''FreeSize'') cfg)) s
          in Some s
      | _ \<Rightarrow> None)"

fun read_disks_config :: "xml_node option \<Rightarrow> int list \<Rightarrow> sys \<Rightarrow> sys option" where
  "read_disks_config cfg [] s = Some s"
| "read_disks_config cfg (i # js) s = Option.bind (read_disk_config cfg i s) (read_disks_config cfg js)"

definition readSystemConfig :: "xml_node option \<Rightarrow> sys \<Rightarrow> sys option" where
  "readSystemConfig cfg s =
     (let s = s\<lparr>disk_total_num := getConfigInt ''FileSystem>Disk>TotalDiskNumber'' cfg\<rparr>;
          s = s\<lparr>data_disk_num := getConfigInt ''FileSystem>Disk>DataDiskNumber'' cfg\<rparr>;
          s = s\<lparr>disk_block_size := i32 (getConfigLong ''FileSystem>Disk>BlockSize'' cfg)\<rparr>;
          s = s\<lparr>disk_raid_type := getConfigInt ''FileSystem>Disk>RaidType'' cfg\<rparr>
      in read_disks_config cfg (disk_ids s) s)"

text \<open>Reading the configuration touches neither the list of deleted blocks nor the devices.\<close>

lemma read_disks_config_fields:
  "read_disks_config cfg is s = Some t \<Longrightarrow>
   disk_total_num t = disk_total_num s \<and> disk_block_size t = disk_block_size s \<and>
   disk_raid_type t = disk_raid_type s \<and> data_disk_num t = data_disk_num s \<and>
   space_list_head t = space_list_head s \<and> space_list_num t = space_list_num s \<and>
   devices t = devices s \<and> heap_junk t = heap_junk s \<and> stack_junk t = stack_junk s"
proof (induction "is" arbitrary: s)
  case Nil
  then show ?case by simp
next
  case (Cons i js)
  then obtain u where u: "read_disk_config cfg i s = Some u" "read_disks_config cfg js u = Some t"
    by (auto split: bind_splits)
  have "disk_total_num u = disk_total_num s \<and> disk_block_size u = disk_block_size s \<and>
   disk_raid_type u = disk_raid_type s \<and> data_disk_num u = data_disk_num s \<and>
   space_list_head u = space_list_head s \<and> space_list_num u = space_list_num s \<and>
   devices u = devices s \<and> heap_junk u = heap_junk s \<and> stack_junk u = stack_junk s"
    using u(1) by (auto simp: read_disk_config_def Let_def put_free_offset_def put_free_size_def
        split: option.splits)
  then show ?case using Cons.IH [OF u(2)] by simp
qed

lemma readSystemConfig_fields:
  assumes "readSystemConfig cfg s = Some t"
  shows "space_list_head t = space_list_head s" "space_list_num t = space_list_num s"
    "devices t = devices s" "heap_junk t = heap_junk s"
  using assms read_disks_config_fields unfolding readSystemConfig_def Let_def by fastforce+

end
