(* ===== verification/Metadata.thy ===== *)
theory Metadata
  imports Config FsUtils
begin

text \<open>
  What survives an unmount: \<open>ncfs_destroy\<close> of \<open>ncfs.cc\<close> writes the allocation tables and the list
  of deleted blocks to the file \<open>raid_metadata\<close>, and \<open>main\<close> reads them back with
  \<open>get_raid_metadata\<close> of \<open>filesystem_utils.cc\<close>. A file is the list of its bytes; a
  \<open>pwrite\<close> behind the end fills the gap with zeros.
\<close>

section \<open>Integers and records in a file\<close>

text \<open>The four bytes of an \<open>int\<close>, the least significant first, as the machine stores it.\<close>

definition bytes_of_int :: "int \<Rightarrow> byte list" where
  "bytes_of_int v = map (\<lambda>i. word_of_int (v div 256 ^ i)) [0, 1, 2, 3]"

definition int_of_bytes :: "byte list \<Rightarrow> int" where
  "int_of_bytes b = i32 (uint (b ! 0) + 256 * (uint (b ! 1) + 256 * (uint (b ! 2) + 256 * uint (b ! 3))))"

definition metadata_bytes :: "raid_metadata \<Rightarrow> byte list" where
  "metadata_bytes m = bytes_of_int (md_disk_id m) @ bytes_of_int (md_free_offset m) @ bytes_of_int (md_free_size m)"

definition bytes_metadata :: "byte list \<Rightarrow> raid_metadata" where
  "bytes_metadata b = \<lparr>md_disk_id = int_of_bytes b, md_free_offset = int_of_bytes (drop 4 b),
     md_free_size = int_of_bytes (drop 8 b)\<rparr>"

definition node_bytes :: "space_node \<Rightarrow> byte list" where
  "node_bytes x = bytes_of_int (fst x) @ bytes_of_int (snd x)"

definition bytes_node :: "byte list \<Rightarrow> space_node" where
  "bytes_node b = (int_of_bytes b, int_of_bytes (drop 4 b))"

lemma length_bytes_of_int [simp]: "length (bytes_of_int v) = 4"
  by (simp add: bytes_of_int_def)

lemma length_metadata_bytes [simp]: "length (metadata_bytes m) = 12"
  by (simp add: metadata_bytes_def)

lemma length_node_bytes [simp]: "length (node_bytes x) = 8"
  by (simp add: node_bytes_def)

lemma int_of_bytes_of_int: "int_of_bytes (bytes_of_int v @ r) = i32 v"
proof -
  have u: "uint (word_of_int x :: byte) = x mod 256" for x
    by (simp add: uint_word_of_int)
  have d: "v div 65536 = v div 256 div 256" "v div 16777216 = v div 256 div 256 div 256"
    by (simp_all add: zdiv_zmult2_eq [symmetric])
  have m: "x mod 256 + 256 * (x div 256) = x" for x :: int by simp
  let ?s = "v mod 256 + 256 * (v div 256 mod 256 + 256 * (v div 256 div 256 mod 256 +
    256 * (v div 256 div 256 div 256 mod 256)))"
  let ?q = "v div 256 div 256 div 256 div 256"
  have lin: "v = r0 + 256 * b1 \<Longrightarrow> b1 = r1 + 256 * b2 \<Longrightarrow> b2 = r2 + 256 * b3 \<Longrightarrow> b3 = r3 + 256 * b4 \<Longrightarrow>
      r0 + 256 * (r1 + 256 * (r2 + 256 * r3)) = v - b4 * 4294967296" for r0 b1 r1 b2 r2 b3 r3 b4
    by simp
  have "?s = v - ?q * 4294967296"
    by (rule lin [OF m [symmetric] m [symmetric] m [symmetric] m [symmetric]])
  then have "?s + 2147483648 = (v + 2147483648) + (- ?q) * 4294967296" by simp
  then have "(?s + 2147483648) mod 4294967296 = (v + 2147483648) mod 4294967296"
    by (simp only: mod_mult_self1)
  then have "i32 ?s = i32 v" unfolding i32_def by (simp only:)
  then show ?thesis by (simp add: int_of_bytes_def bytes_of_int_def u d)
qed

lemma i32_i32: "i32 (i32 x) = i32 x"
  using i32_range [of x] by (simp add: i32_id)

lemma bytes_metadata_bytes:
  "bytes_metadata (metadata_bytes m) =
    \<lparr>md_disk_id = i32 (md_disk_id m), md_free_offset = i32 (md_free_offset m),
     md_free_size = i32 (md_free_size m)\<rparr>"
proof -
  have e: "metadata_bytes m = bytes_of_int (md_disk_id m) @ bytes_of_int (md_free_offset m) @ bytes_of_int (md_free_size m) @ []"
    by (simp add: metadata_bytes_def)
  show ?thesis unfolding e bytes_metadata_def by (simp add: int_of_bytes_of_int del: append_Nil2)
qed

lemma bytes_node_bytes: "bytes_node (node_bytes x) = (i32 (fst x), i32 (snd x))"
  using int_of_bytes_of_int [of "snd x" "[]"] by (simp add: bytes_node_def node_bytes_def int_of_bytes_of_int)

section \<open>Files\<close>

type_synonym file_data = "byte list"

definition file_pread :: "file_data \<Rightarrow> nat \<Rightarrow> nat \<Rightarrow> byte list" where
  "file_pread f n off = take n (drop off f)"

definition file_pwrite :: "file_data \<Rightarrow> byte list \<Rightarrow> nat \<Rightarrow> file_data" where
  "file_pwrite f d off = overwrite (f @ zeros (off - length f)) off d"

lemma pread_pwrite: "file_pread (file_pwrite f d off) (length d) off = d"
proof -
  have l: "off \<le> length (f @ zeros (off - length f))" by simp
  then show ?thesis by (simp add: file_pread_def file_pwrite_def overwrite_def min_def)
qed

text \<open>A write leaves what lies before it, and what it covers is there.\<close>

lemma length_pwrite: "length (file_pwrite f d off) = max (length f) (off + length d)"
  by (auto simp: file_pwrite_def overwrite_def)

lemma nth_pwrite:
  assumes "a < length (file_pwrite f d off)"
  shows "file_pwrite f d off ! a =
    (if off \<le> a \<and> a < off + length d then d ! (a - off) else if a < length f then f ! a else 0)"
  using assms by (auto simp: file_pwrite_def overwrite_def nth_append min_def)

lemma pread_pwrite_other:
  assumes "off' + n \<le> off \<or> off + length d \<le> off'" "off' + n \<le> length f"
  shows "file_pread (file_pwrite f d off) n off' = file_pread f n off'"
proof -
  have l: "off' + n \<le> length (file_pwrite f d off)" using assms by (auto simp: length_pwrite)
  show ?thesis
  proof (rule nth_equalityI)
    show "length (file_pread (file_pwrite f d off) n off') = length (file_pread f n off')"
      using l assms by (simp add: file_pread_def)
  next
    fix i assume "i < length (file_pread (file_pwrite f d off) n off')"
    then have i: "i < n" by (simp add: file_pread_def)
    then have "file_pwrite f d off ! (off' + i) = f ! (off' + i)"
      using l assms by (subst nth_pwrite) auto
    then show "file_pread (file_pwrite f d off) n off' ! i = file_pread f n off' ! i"
      using i l assms by (simp add: file_pread_def)
  qed
qed

text \<open>A record of a file: the bytes at an offset, all of them inside the file.\<close>

definition holds_at :: "file_data \<Rightarrow> nat \<Rightarrow> byte list \<Rightarrow> bool" where
  "holds_at f off d \<longleftrightarrow> off + length d \<le> length f \<and> file_pread f (length d) off = d"

lemma holds_at_pwrite: "holds_at (file_pwrite f d off) off d"
  by (simp add: holds_at_def pread_pwrite length_pwrite)

lemma holds_at_other:
  assumes "holds_at f off' e" "off' + length e \<le> off \<or> off + length d \<le> off'"
  shows "holds_at (file_pwrite f d off) off' e"
  using assms pread_pwrite_other [of off' "length e" off d f] by (auto simp: holds_at_def length_pwrite)

text \<open>A run of records of one width, written one after the other.\<close>

definition write_run :: "(nat \<Rightarrow> byte list) \<Rightarrow> nat \<Rightarrow> nat \<Rightarrow> nat \<Rightarrow> file_data \<Rightarrow> file_data" where
  "write_run g base w n f = foldl (\<lambda>f i. file_pwrite f (g i) (base + w * i)) f [0..<n]"

lemma write_run_Suc:
  "write_run g base w (Suc n) f = file_pwrite (write_run g base w n f) (g n) (base + w * n)"
  by (simp add: write_run_def)

lemma write_run_holds:
  assumes "\<And>i. length (g i) = w" "i < n"
  shows "holds_at (write_run g base w n f) (base + w * i) (g i)"
  using assms(2)
proof (induction n)
  case 0
  then show ?case by simp
next
  case (Suc n)
  show ?case
  proof (cases "i = n")
    case True
    then show ?thesis by (simp add: write_run_Suc holds_at_pwrite)
  next
    case False
    then have i: "i < n" using Suc.prems by simp
    have "w * i + w \<le> w * n" using mult_le_mono2 [of "Suc i" n w] i by simp
    then show ?thesis using Suc.IH [OF i] by (simp add: write_run_Suc holds_at_other assms(1))
  qed
qed

lemma write_run_other:
  assumes "\<And>i. length (g i) = w" "holds_at f off e" "off + length e \<le> base"
  shows "holds_at (write_run g base w n f) off e"
proof (induction n)
  case 0
  then show ?case using assms by (simp add: write_run_def)
next
  case (Suc n)
  then show ?case using assms(3) by (auto simp: write_run_Suc intro!: holds_at_other)
qed


section \<open>Unmount\<close>

text \<open>
  \<open>ncfs_destroy\<close>: \<open>open\<close> has neither \<open>O_CREAT\<close> nor \<open>O_TRUNC\<close>, so without the file nothing is
  written, and the bytes of a longer file stay behind. An offset is computed as \<open>size_t\<close> and stored
  in an \<open>int\<close>; a negative one makes \<open>pwrite\<close> fail.
\<close>

definition file_write :: "byte list \<Rightarrow> int \<Rightarrow> file_data \<Rightarrow> file_data" where
  "file_write d offset f = (if offset < 0 then f else file_pwrite f d (nat offset))"

definition write_metadata :: "sys \<Rightarrow> file_data \<Rightarrow> file_data" where
  "write_metadata s f = foldl (\<lambda>f i. file_write (metadata_bytes
       \<lparr>md_disk_id = i, md_free_offset = i32 (free_offset s i * disk_block_size s),
        md_free_size = i32 (free_size s i * disk_block_size s)\<rparr>) (i32 (12 * (i + 1))) f) f (disk_ids s)"

definition write_space_list :: "int \<Rightarrow> sys \<Rightarrow> file_data \<Rightarrow> file_data" where
  "write_space_list offset_space s f =
     (let nodes = take (nat (space_list_num s)) (space_list_head s)
      in foldl (\<lambda>f i. file_write (node_bytes (nodes ! nat i)) (i32 (offset_space + 8 * (i + 1))) f)
           f [0..int (length nodes) - 1])"

definition ncfs_destroy :: "sys \<Rightarrow> file_data option \<Rightarrow> file_data option" where
  "ncfs_destroy s raid_metadata = (case raid_metadata of
       None \<Rightarrow> None
     | Some f \<Rightarrow>
         let f = file_write (bytes_of_int 123) 0 f;
             f = write_metadata s f;
             offset_space = i32 (12 * (disk_total_num s + 1));
             f = file_write (bytes_of_int (space_list_num s)) offset_space f
         in Some (write_space_list offset_space s f))"

section \<open>Mount\<close>

text \<open>
  \<open>pread\<close> into a variable of the caller: the number of bytes read and the contents of the variable,
  which keeps its old bytes where the file ends. \<open>read_metadata\<close> and \<open>read_space_list\<close> are the
  two loops of \<open>get_raid_metadata\<close>; the variables they read into are not initialised.
\<close>

definition file_read :: "byte list \<Rightarrow> int \<Rightarrow> file_data \<Rightarrow> int \<times> byte list" where
  "file_read var offset f =
     (if offset < 0 then (-1, var)
      else let d = file_pread f (length var) (nat offset) in (int (length d), overwrite var 0 d))"

fun read_metadata :: "file_data \<Rightarrow> int list \<Rightarrow> byte list \<Rightarrow> sys \<Rightarrow> sys" where
  "read_metadata f [] var s = s"
| "read_metadata f (i # is) var s =
     (let (retstat, var) = file_read var (i32 (12 * (i + 1))) f;
          m = bytes_metadata var;
          s = (if 0 < retstat
               then put_free_size (md_disk_id m) (md_free_size m)
                      (put_free_offset (md_disk_id m) (md_free_offset m) s)
               else s)
      in read_metadata f is var s)"

fun read_space_list :: "file_data \<Rightarrow> int \<Rightarrow> int list \<Rightarrow> int \<Rightarrow> byte list \<Rightarrow> space_node list" where
  "read_space_list f offset_space [] retstat var = []"
| "read_space_list f offset_space (i # is) retstat var =
     (if 0 < retstat then
        let (retstat, var) = file_read var (i32 (offset_space + 8 * (i + 1))) f
        in bytes_node var # read_space_list f offset_space is retstat var
      else [])"

text \<open>The new nodes are chained behind the head of the list, or become the list.\<close>

definition get_raid_metadata :: "file_data option \<Rightarrow> sys \<Rightarrow> sys" where
  "get_raid_metadata raid_metadata s = (case raid_metadata of
       None \<Rightarrow> s
     | Some f \<Rightarrow>
         let (retstat, magic_no) = file_read (bytes_of_int 0) 0 f in
         if int_of_bytes magic_no \<noteq> 123 then s
         else
           let s = read_metadata f (disk_ids s) (malloc (heap_junk s) 12) s;
               offset_space = i32 (12 * (disk_total_num s + 1));
               (retstat, num) = file_read (malloc (heap_junk s) 4) offset_space f;
               s = s\<lparr>space_list_num := int_of_bytes num\<rparr>;
               nodes = read_space_list f offset_space [0..space_list_num s - 1] retstat
                         (malloc (heap_junk s) 8)
           in s\<lparr>space_list_head := (if nodes = [] then space_list_head s
                  else if space_list_head s = [] then nodes
                  else hd (space_list_head s) # nodes)\<rparr>)"

text \<open>The body of the loop of \<open>main\<close> that divides the tables by the block size.\<close>

definition scale_step :: "sys \<Rightarrow> int \<Rightarrow> sys" where
  "scale_step s j = (let s = put_free_offset j (free_offset s j sdiv disk_block_size s) s;
       s = put_free_size j (free_size s j sdiv disk_block_size s) s
   in s\<lparr>disk_size := (disk_size s)(j := disk_size s j sdiv disk_block_size s)\<rparr>)"

text \<open>
  \<open>main\<close>, from the configuration to the operation mode. \<open>disk_size\<close>, \<open>free_offset\<close> and
  \<open>free_size\<close> are bytes until the division by the block size.
\<close>

definition main_mount :: "xml_node option \<Rightarrow> file_data option \<Rightarrow> sys \<Rightarrow> sys option" where
  "main_mount cfg raid_metadata s =
     (let s = s\<lparr>process_state := 0, space_list_num := 0, space_list_head := []\<rparr>
      in case readSystemConfig cfg s of
           None \<Rightarrow> None
         | Some s \<Rightarrow>
             let s = get_raid_metadata raid_metadata s;
                 s = foldl scale_step s (disk_ids s)
             in Some (get_operation_mode (get_disk_status s)))"


section \<open>What is mounted is what was unmounted\<close>

lemma foldl_run:
  assumes "\<And>i. 0 \<le> i \<Longrightarrow> i < int n \<Longrightarrow> h i = int base + int w * i" "\<And>i. 0 \<le> i \<Longrightarrow> d i = g (nat i)"
  shows "foldl (\<lambda>f i. file_write (d i) (h i) f) f [0..int n - 1] = write_run g base w n f"
  using assms(1)
proof (induction n)
  case 0
  then show ?case by (simp add: write_run_def)
next
  case (Suc n)
  have u: "[0..int (Suc n) - 1] = [0..int n - 1] @ [int n]" by (simp add: upto_rec2)
  have h: "h (int n) = int (base + w * n)" using Suc.prems [of "int n"] by simp
  have "foldl (\<lambda>f i. file_write (d i) (h i) f) f [0..int n - 1] = write_run g base w n f"
    using Suc by simp
  moreover have "file_write (d (int n)) (h (int n)) x = file_pwrite x (g n) (base + w * n)" for x
    unfolding h file_write_def by (simp only: nat_int assms(2) of_nat_0_le_iff of_nat_less_0_iff if_False)
  ultimately show ?case unfolding u write_run_Suc by simp
qed

definition disk_entry :: "sys \<Rightarrow> nat \<Rightarrow> byte list" where
  "disk_entry s i = metadata_bytes
     \<lparr>md_disk_id = int i, md_free_offset = i32 (free_offset s (int i) * disk_block_size s),
      md_free_size = i32 (free_size s (int i) * disk_block_size s)\<rparr>"

lemma length_disk_entry [simp]: "length (disk_entry s i) = 12"
  by (simp add: disk_entry_def)

text \<open>The file after an unmount: the magic number and every record are where they belong.\<close>

lemma destroy_holds:
  assumes "0 \<le> disk_total_num s" "space_list_num s = int (length (space_list_head s))"
    and "12 * (disk_total_num s + 1) + 8 * (space_list_num s + 1) < 2 ^ 31"
  defines "sp \<equiv> nat (12 * (disk_total_num s + 1))"
  shows "\<exists>g. ncfs_destroy s (Some f) = Some g \<and> holds_at g 0 (bytes_of_int 123) \<and>
    (\<forall>i < nat (disk_total_num s). holds_at g (12 * (i + 1)) (disk_entry s i)) \<and>
    holds_at g sp (bytes_of_int (space_list_num s)) \<and>
    (\<forall>i < length (space_list_head s). holds_at g (sp + 8 * (i + 1)) (node_bytes (space_list_head s ! i)))"
proof -
  let ?n = "nat (disk_total_num s)" and ?m = "length (space_list_head s)"
  let ?node = "\<lambda>i. node_bytes (space_list_head s ! i)"
  define f1 where "f1 = file_pwrite f (bytes_of_int 123) 0"
  define f2 where "f2 = write_run (disk_entry s) 12 12 ?n f1"
  define f3 where "f3 = file_pwrite f2 (bytes_of_int (space_list_num s)) sp"
  define f4 where "f4 = write_run ?node (sp + 8) 8 ?m f3"
  have n: "disk_ids s = [0..int ?n - 1]" using assms(1) by simp
  have "write_metadata s f1 = write_run (disk_entry s) 12 12 ?n f1"
    unfolding write_metadata_def n
    by (rule foldl_run) (use assms in \<open>auto simp: disk_entry_def i32_id\<close>)
  moreover have sp: "i32 (12 * (disk_total_num s + 1)) = int sp"
    using assms by (auto simp: sp_def i32_id)
  moreover have "write_space_list (int sp) s f3 = f4"
    unfolding write_space_list_def Let_def f4_def
    using assms by (auto simp: sp_def i32_id intro!: foldl_run)
  ultimately have "ncfs_destroy s (Some f) = Some f4"
    by (simp add: ncfs_destroy_def file_write_def f1_def f2_def f3_def Let_def)
  moreover have "holds_at f1 0 (bytes_of_int 123)" by (simp add: f1_def holds_at_pwrite)
  then have "holds_at f2 0 (bytes_of_int 123)" unfolding f2_def by (intro write_run_other) auto
  then have "holds_at f3 0 (bytes_of_int 123)" unfolding f3_def by (rule holds_at_other) (use assms(1) in \<open>auto simp: sp_def\<close>)
  then have "holds_at f4 0 (bytes_of_int 123)" unfolding f4_def by (intro write_run_other) auto
  moreover have "holds_at f4 (12 * (i + 1)) (disk_entry s i)" if i: "i < ?n" for i
  proof -
    have "holds_at f2 (12 + 12 * i) (disk_entry s i)"
      unfolding f2_def by (rule write_run_holds) (use i in auto)
    then have "holds_at f3 (12 + 12 * i) (disk_entry s i)"
      unfolding f3_def by (rule holds_at_other) (use i in \<open>auto simp: sp_def\<close>)
    then have "holds_at f4 (12 + 12 * i) (disk_entry s i)"
      unfolding f4_def by (intro write_run_other) (use i in \<open>auto simp: sp_def\<close>)
    then show ?thesis by simp
  qed
  moreover have "holds_at f3 sp (bytes_of_int (space_list_num s))" by (simp add: f3_def holds_at_pwrite)
  then have "holds_at f4 sp (bytes_of_int (space_list_num s))"
    unfolding f4_def by (intro write_run_other) auto
  moreover have "holds_at f4 (sp + 8 * (i + 1)) (?node i)" if "i < ?m" for i
  proof -
    have "holds_at f4 (sp + 8 + 8 * i) (?node i)"
      unfolding f4_def by (rule write_run_holds) (use that in auto)
    then show ?thesis by (simp add: add.assoc)
  qed
  ultimately show ?thesis by blast
qed


text \<open>Reading such a file back.\<close>

lemma file_read_holds:
  assumes "holds_at f off d" "length var = length d"
  shows "file_read var (int off) f = (int (length d), d)"
  using assms by (auto simp: holds_at_def file_read_def Let_def overwrite_def file_pread_def)

lemma read_metadata_ok:
  assumes "list_all (\<lambda>i. 0 \<le> i \<and> 12 * (i + 1) < 2 ^ 31 \<and> holds_at f (nat (12 * (i + 1)))
      (metadata_bytes \<lparr>md_disk_id = i, md_free_offset = i32 (fo i), md_free_size = i32 (fs i)\<rparr>)) is"
    and "length var = 12"
  shows "read_metadata f is var s =
    s\<lparr>free_offset := (\<lambda>i. if i \<in> set is then i32 (fo i) else free_offset s i),
      free_size := (\<lambda>i. if i \<in> set is then i32 (fs i) else free_size s i)\<rparr>"
  using assms
proof (induction "is" arbitrary: s var)
  case Nil
  then show ?case by simp
next
  case (Cons i js)
  let ?d = "metadata_bytes \<lparr>md_disk_id = i, md_free_offset = i32 (fo i), md_free_size = i32 (fs i)\<rparr>"
  have i: "i32 i = i" "i32 (12 * (i + 1)) = int (nat (12 * (i + 1)))"
    using Cons.prems by (auto simp: i32_id)
  have r: "file_read var (int (nat (12 * (i + 1)))) f = (int (length ?d), ?d)"
    by (rule file_read_holds) (use Cons.prems in auto)
  then have e: "read_metadata f (i # js) var s = read_metadata f js ?d
      (put_free_size i (i32 (fs i)) (put_free_offset i (i32 (fo i)) s))"
    unfolding read_metadata.simps i(2) r by (simp add: bytes_metadata_bytes i32_i32 i(1))
  show ?case unfolding e by (subst Cons.IH)
    (use Cons.prems in \<open>auto simp: put_free_offset_def put_free_size_def fun_eq_iff\<close>)
qed

lemma read_space_list_ok:
  assumes "\<And>i. i < length xs \<Longrightarrow> holds_at f (sp + 8 * (i + k + 1)) (node_bytes (xs ! i))"
    and "list_all (\<lambda>x. i32 (fst x) = fst x \<and> i32 (snd x) = snd x) xs"
    and "sp + 8 * (k + length xs + 1) < 2 ^ 31" "0 < retstat" "length var = 8"
  shows "read_space_list f (int sp) [int k..int (k + length xs) - 1] retstat var = xs"
  using assms
proof (induction xs arbitrary: k retstat var)
  case Nil
  then show ?case by simp
next
  case (Cons x xs)
  have u: "[int k..int (k + length (x # xs)) - 1] = int k # [int (Suc k)..int (Suc k + length xs) - 1]"
    by (simp add: upto_rec1 add.commute)
  have h: "holds_at f (sp + 8 * (k + 1)) (node_bytes x)" using Cons.prems(1) [of 0] by simp
  have a: "i32 (int sp + 8 * (int k + 1)) = int (sp + 8 * (k + 1))"
    using Cons.prems(3) by (simp add: i32_id)
  have r: "file_read var (int (sp + 8 * (k + 1))) f = (8, node_bytes x)"
    using file_read_holds [OF h, of var] Cons.prems(5) by simp
  have "read_space_list f (int sp) [int (Suc k)..int (Suc k + length xs) - 1] 8 (node_bytes x) = xs"
  proof (rule Cons.IH)
    fix i assume "i < length xs"
    then show "holds_at f (sp + 8 * (i + Suc k + 1)) (node_bytes (xs ! i))"
      using Cons.prems(1) [of "Suc i"] by simp
  qed (use Cons.prems in auto)
  then show ?case unfolding u using Cons.prems(2,4)
    by (simp only: read_space_list.simps a r if_True Let_def prod.case bytes_node_bytes) simp
qed


lemma scale_fold:
  assumes "distinct js"
  shows "foldl scale_step s js = s\<lparr>
     free_offset := (\<lambda>j. if j \<in> set js then free_offset s j sdiv disk_block_size s else free_offset s j),
     free_size := (\<lambda>j. if j \<in> set js then free_size s j sdiv disk_block_size s else free_size s j),
     disk_size := (\<lambda>j. if j \<in> set js then disk_size s j sdiv disk_block_size s else disk_size s j)\<rparr>"
  using assms
proof (induction js arbitrary: s)
  case Nil
  then show ?case by simp
next
  case (Cons j js)
  then show ?case
    by (simp add: scale_step_def Let_def put_free_offset_def put_free_size_def fun_eq_iff)
qed

lemma get_disk_status_fields:
  "free_offset (get_disk_status s) = free_offset s" "free_size (get_disk_status s) = free_size s"
  "space_list_head (get_disk_status s) = space_list_head s"
  "space_list_num (get_disk_status s) = space_list_num s" "disk_size (get_disk_status s) = disk_size s"
proof -
  let ?t = "\<lambda>s is. foldl (\<lambda>s i. s\<lparr>disk_status := (disk_status s)
       (i := if devices s (dev_name s i) \<noteq> None then 0 else 1)\<rparr>) s is"
  have "free_offset (?t s is) = free_offset s \<and> free_size (?t s is) = free_size s \<and>
      space_list_head (?t s is) = space_list_head s \<and>
      space_list_num (?t s is) = space_list_num s \<and> disk_size (?t s is) = disk_size s" for "is"
    by (induction "is" arbitrary: s) simp_all
  then show "free_offset (get_disk_status s) = free_offset s" "free_size (get_disk_status s) = free_size s"
    "space_list_head (get_disk_status s) = space_list_head s"
    "space_list_num (get_disk_status s) = space_list_num s" "disk_size (get_disk_status s) = disk_size s"
    unfolding get_disk_status_def by simp_all
qed

lemma get_operation_mode_fields:
  "free_offset (get_operation_mode s) = free_offset s" "free_size (get_operation_mode s) = free_size s"
  "space_list_head (get_operation_mode s) = space_list_head s"
  "space_list_num (get_operation_mode s) = space_list_num s"
  by (simp_all add: get_operation_mode_def)

lemma get_raid_metadata_ok:
  assumes "0 \<le> disk_total_num s" "space_list_num s = int (length (space_list_head s))"
    and "12 * (disk_total_num s + 1) + 8 * (space_list_num s + 1) < 2 ^ 31"
    and "list_all (\<lambda>x. i32 (fst x) = fst x \<and> i32 (snd x) = snd x) (space_list_head s)"
    and "disk_total_num t = disk_total_num s" "space_list_head t = []"
  shows "get_raid_metadata (ncfs_destroy s (Some f)) t =
    t\<lparr>free_offset := (\<lambda>i. if i \<in> set (disk_ids s) then i32 (free_offset s i * disk_block_size s) else free_offset t i),
      free_size := (\<lambda>i. if i \<in> set (disk_ids s) then i32 (free_size s i * disk_block_size s) else free_size t i),
      space_list_num := space_list_num s, space_list_head := space_list_head s\<rparr>"
proof -
  define sp where "sp = nat (12 * (disk_total_num s + 1))"
  obtain g where g: "ncfs_destroy s (Some f) = Some g" "holds_at g 0 (bytes_of_int 123)"
    "\<And>i. i < nat (disk_total_num s) \<Longrightarrow> holds_at g (12 * (i + 1)) (disk_entry s i)"
    "holds_at g sp (bytes_of_int (space_list_num s))"
    "\<And>i. i < length (space_list_head s) \<Longrightarrow> holds_at g (sp + 8 * (i + 1)) (node_bytes (space_list_head s ! i))"
    using destroy_holds [OF assms(1-3), of f] unfolding sp_def by blast
  have sp: "i32 (12 * (disk_total_num s + 1)) = int sp" using assms(1-3) by (auto simp: sp_def i32_id)
  have m: "file_read (bytes_of_int 0) 0 g = (4, bytes_of_int 123)"
    using file_read_holds [OF g(2), of "bytes_of_int 0"] by simp
  have b: "int_of_bytes (bytes_of_int v) = i32 v" for v using int_of_bytes_of_int [of v "[]"] by simp
  have num: "file_read (malloc (heap_junk u) 4) (int sp) g = (4, bytes_of_int (space_list_num s))" for u :: sys
    using file_read_holds [OF g(4), of "malloc (heap_junk u) 4"] by simp
  have "list_all (\<lambda>i. 0 \<le> i \<and> 12 * (i + 1) < 2 ^ 31 \<and> holds_at g (nat (12 * (i + 1))) (metadata_bytes
      \<lparr>md_disk_id = i, md_free_offset = i32 (free_offset s i * disk_block_size s),
       md_free_size = i32 (free_size s i * disk_block_size s)\<rparr>)) (disk_ids s)"
    unfolding list_all_iff
  proof
    fix i assume "i \<in> set (disk_ids s)"
    then have i: "0 \<le> i" "i < disk_total_num s" by auto
    then have e: "nat (12 * (i + 1)) = 12 * (nat i + 1)" by (simp add: nat_add_distrib nat_mult_distrib)
    have "holds_at g (12 * (nat i + 1)) (disk_entry s (nat i))" using g(3) [of "nat i"] i by simp
    then show "0 \<le> i \<and> 12 * (i + 1) < 2 ^ 31 \<and> holds_at g (nat (12 * (i + 1))) (metadata_bytes
      \<lparr>md_disk_id = i, md_free_offset = i32 (free_offset s i * disk_block_size s),
       md_free_size = i32 (free_size s i * disk_block_size s)\<rparr>)"
      using i assms(2,3) unfolding e disk_entry_def by simp
  qed
  note r = read_metadata_ok [OF this, of "malloc (heap_junk t) 12" t, simplified length_malloc]
  have n: "i32 (space_list_num s) = space_list_num s" using assms(1-3) by (intro i32_id) auto
  have "read_space_list g (int sp) [0..space_list_num s - 1] 4 (malloc (heap_junk u) 8) = space_list_head s" for u :: sys
    using read_space_list_ok [of "space_list_head s" g sp 0 4 "malloc (heap_junk u) 8"] g(5) assms(1-4)
    by (simp add: sp_def)
  then show ?thesis unfolding g(1) get_raid_metadata_def
    by (simp add: m b i32_id r sp [simplified] assms(5,6) num n Let_def)
qed

lemma remount_ok:
  assumes "0 \<le> disk_total_num s" "space_list_num s = int (length (space_list_head s))"
    and "12 * (disk_total_num s + 1) + 8 * (space_list_num s + 1) < 2 ^ 31"
    and "list_all (\<lambda>x. i32 (fst x) = fst x \<and> i32 (snd x) = snd x) (space_list_head s)"
    and "readSystemConfig cfg (z\<lparr>process_state := 0, space_list_num := 0, space_list_head := []\<rparr>) = Some t"
    and "disk_total_num t = disk_total_num s" "disk_block_size t = disk_block_size s"
  shows "\<exists>u. main_mount cfg (ncfs_destroy s (Some f)) z = Some u \<and>
    space_list_head u = space_list_head s \<and> space_list_num u = space_list_num s \<and>
    list_all (\<lambda>d. free_offset u d = i32 (free_offset s d * disk_block_size s) sdiv disk_block_size s \<and>
      free_size u d = i32 (free_size s d * disk_block_size s) sdiv disk_block_size s) (disk_ids s)"
proof -
  have h: "space_list_head t = []" using readSystemConfig_fields(1) [OF assms(5)] by simp
  note r = get_raid_metadata_ok [OF assms(1-4,6) h, of f]
  show ?thesis
    unfolding main_mount_def Let_def assms(5) option.case r
    by (simp add: scale_fold get_disk_status_fields get_operation_mode_fields assms(6,7) list_all_iff)
qed


text \<open>
  C4: What is mounted is what was unmounted: whatever the file \<open>raid_metadata\<close> held before, after
  \<open>ncfs_destroy\<close> and a mount with a configuration of as many disks, the list of deleted blocks is the
  one of the unmounted file system, and each disk's table entries are those of the unmounted one,
  carried through a 32-bit number of bytes.
\<close>

theorem remount_restores:
  assumes "0 \<le> disk_total_num s" "space_list_num s = int (length (space_list_head s))"
    and "12 * (disk_total_num s + 1) + 8 * (space_list_num s + 1) < 2 ^ 31"
    and "list_all (\<lambda>x. i32 (fst x) = fst x \<and> i32 (snd x) = snd x) (space_list_head s)"
    and "readSystemConfig cfg (z\<lparr>process_state := 0, space_list_num := 0, space_list_head := []\<rparr>) = Some t"
    and "disk_total_num t = disk_total_num s" "disk_block_size t = disk_block_size s"
  shows "\<exists>u. main_mount cfg (ncfs_destroy s (Some f)) z = Some u \<and>
    space_list_head u = space_list_head s \<and> space_list_num u = space_list_num s \<and>
    list_all (\<lambda>d. free_offset u d = i32 (free_offset s d * disk_block_size s) sdiv disk_block_size s \<and>
      free_size u d = i32 (free_size s d * disk_block_size s) sdiv disk_block_size s) (disk_ids s)"
  by (rule remount_ok [OF assms])

definition sample_config :: "xml_node option" where
  "sample_config = (let v = \<lambda>tag x. Elem tag [Txt x];
       d = \<lambda>tag dev. Elem tag [v ''DevName'' dev, v ''TotalSize'' ''80'', v ''FreeOffset'' ''0'',
             v ''FreeSize'' ''80'', v ''IPaddr'' ''127.0.0.1'']
     in Some (Elem ''NcfsConfig'' [Elem ''FileSystem'' [Elem ''Disk'' [v ''TotalDiskNumber'' ''2'',
          v ''DataDiskNumber'' ''1'', v ''BlockSize'' ''4'', v ''RaidType'' ''1'',
          Elem ''DiskSetting'' [d ''Disk1'' ''a'', d ''Disk2'' ''b'']]]]))"

lemma sample_config_ok:
  obtains t where "readSystemConfig sample_config
      (zero_state\<lparr>process_state := 0, space_list_num := 0, space_list_head := []\<rparr>) = Some t"
    "disk_total_num t = 2" "disk_block_size t = 4"
proof -
  let ?z = "zero_state\<lparr>process_state := 0, space_list_num := 0, space_list_head := []\<rparr>"
  have d: "digit_char (Suc 0) = CHR ''1''" "digit_char 2 = CHR ''2''" by code_simp+
  have k: "show_int 1 = ''1''" "show_int 2 = ''2''"
    by (simp_all add: show_int_def show_nat.simps d)
  have "\<exists>t. readSystemConfig sample_config ?z = Some t \<and> disk_total_num t = 2 \<and> disk_block_size t = 4"
    by (simp add: readSystemConfig_def sample_config_def read_disk_config_def disk_key_def k Let_def
        getConfigString_def getConfigInt_def getConfigLong_def advanceToElement_def FirstChild_def GetText_def
        atoi_def atol_def parse_int_def digits_value_def is_digit_def is_space_def i32_id
        upto_rec1 put_free_offset_def put_free_size_def)
  then show ?thesis using that by blast
qed

theorem remount_restores_witness:
  "\<exists>u. main_mount sample_config (ncfs_destroy
      ((fresh_array 1 2 1 4 20)\<lparr>free_offset := (\<lambda>_. 3), space_list_num := 1, space_list_head := [(0, 2)]\<rparr>)
      (Some [1])) zero_state = Some u \<and> space_list_head u = [(0, 2)] \<and> free_offset u 1 = 3"
proof -
  let ?s = "(fresh_array 1 2 1 4 20)\<lparr>free_offset := (\<lambda>_. 3), space_list_num := 1, space_list_head := [(0, 2)]\<rparr>"
  obtain t where t: "readSystemConfig sample_config
      (zero_state\<lparr>process_state := 0, space_list_num := 0, space_list_head := []\<rparr>) = Some t"
    "disk_total_num t = 2" "disk_block_size t = 4" by (rule sample_config_ok)
  have "\<exists>u. main_mount sample_config (ncfs_destroy ?s (Some [1])) zero_state = Some u \<and>
    space_list_head u = space_list_head ?s \<and> space_list_num u = space_list_num ?s \<and>
    list_all (\<lambda>d. free_offset u d = i32 (free_offset ?s d * disk_block_size ?s) sdiv disk_block_size ?s \<and>
      free_size u d = i32 (free_size ?s d * disk_block_size ?s) sdiv disk_block_size ?s) (disk_ids ?s)"
    by (rule remount_restores [where t = t])
      (use t in \<open>simp_all add: fresh_array_def zero_state_def i32_id\<close>)
  then show ?thesis by (auto simp: fresh_array_def zero_state_def i32_id upto_rec1)
qed

text \<open>A number of blocks survives as a 32-bit number of bytes only below 2 GiB.\<close>

lemma i32_sdiv_iff:
  fixes x b :: int
  assumes "0 < b" "b < 2 ^ 31"
  shows "i32 (x * b) sdiv b = x \<longleftrightarrow> - (2 ^ 31) \<le> x * b \<and> x * b < 2 ^ 31"
proof -
  let ?b = b and ?x = x
  let ?y = "i32 (?x * ?b)"
  obtain k where k: "?y = ?x * ?b + k * 2 ^ 32"
  proof
    show "?y = ?x * ?b + - ((?x * ?b + 2147483648) div 4294967296) * 2 ^ 32"
      unfolding i32_def by (simp add: minus_div_mult_eq_mod [symmetric])
  qed
  have r: "?y = ?y sdiv ?b * ?b + ?y smod ?b" using sdiv_mult_smod_eq [of ?y ?b] by simp
  have "\<bar>?y smod ?b\<bar> < ?b"
    using assms(1) by (cases "0 \<le> ?y") (simp_all add: smod_neg)
  then have "?y = ?x * ?b" if "?y sdiv ?b = ?x"
  proof -
    have e: "k * 2 ^ 32 = ?y smod ?b" using r k that by simp
    then have "\<bar>k * 2 ^ 32\<bar> < 2 ^ 31" using assms(2) \<open>\<bar>?y smod ?b\<bar> < ?b\<close> by simp
    then have "k = 0" by simp
    then show ?thesis using k by simp
  qed
  moreover have "?y sdiv ?b = ?x" if "?y = ?x * ?b"
  proof (cases "0 \<le> ?x")
    case True
    then show ?thesis unfolding that using assms(1) by simp
  next
    case False
    then have "\<bar>?x * ?b\<bar> = (- ?x) * ?b" "sgn ?x = -1" using assms(1) by (simp_all add: abs_mult)
    then have "?x * ?b sdiv ?b = - ((- ?x) * ?b div ?b)"
      using assms(1) by (simp only: signed_divide_int_def sgn_mult) simp
    moreover have "(- ?x) * ?b div ?b = - ?x" using assms(1) by (intro nonzero_mult_div_cancel_right) simp
    ultimately show ?thesis unfolding that by simp
  qed
  moreover have "?y = ?x * ?b \<longleftrightarrow> - (2 ^ 31) \<le> ?x * ?b \<and> ?x * ?b < 2 ^ 31"
    using i32_range [of "?x * ?b"] i32_id [of "?x * ?b"] by auto
  ultimately show ?thesis by blast
qed

text \<open>
  C37: The number of bytes bounds what survives: a disk's \<open>free_offset\<close> is the same after the remount
  exactly when the number of bytes it stands for is in the range of a C \<open>int\<close>, below 2 GiB.
\<close>

theorem remount_offset_iff:
  assumes "0 \<le> disk_total_num s" "space_list_num s = int (length (space_list_head s))"
    and "12 * (disk_total_num s + 1) + 8 * (space_list_num s + 1) < 2 ^ 31"
    and "list_all (\<lambda>x. i32 (fst x) = fst x \<and> i32 (snd x) = snd x) (space_list_head s)"
    and "readSystemConfig cfg (z\<lparr>process_state := 0, space_list_num := 0, space_list_head := []\<rparr>) = Some t"
    and "disk_total_num t = disk_total_num s" "disk_block_size t = disk_block_size s"
    and "0 < disk_block_size s" "disk_block_size s < 2 ^ 31" "0 \<le> d" "d < disk_total_num s"
  shows "\<exists>u. main_mount cfg (ncfs_destroy s (Some f)) z = Some u \<and>
    (free_offset u d = free_offset s d \<longleftrightarrow>
      - (2 ^ 31) \<le> free_offset s d * disk_block_size s \<and> free_offset s d * disk_block_size s < 2 ^ 31)"
proof -
  obtain u where u: "main_mount cfg (ncfs_destroy s (Some f)) z = Some u"
    "list_all (\<lambda>d. free_offset u d = i32 (free_offset s d * disk_block_size s) sdiv disk_block_size s \<and>
      free_size u d = i32 (free_size s d * disk_block_size s) sdiv disk_block_size s) (disk_ids s)"
    using remount_ok [OF assms(1-7)] by blast
  then have "free_offset u d = i32 (free_offset s d * disk_block_size s) sdiv disk_block_size s"
    using assms(10,11) by (simp add: list_all_iff)
  then show ?thesis using u(1) i32_sdiv_iff [OF assms(8,9), of "free_offset s d"] by simp
qed

theorem remount_offset_iff_witness:
  "\<exists>u. main_mount sample_config (ncfs_destroy ((fresh_array 1 2 1 4 20)\<lparr>free_offset := (\<lambda>_. 2 ^ 29)\<rparr>)
      (Some [1])) zero_state = Some u \<and> free_offset u 1 \<noteq> 2 ^ 29"
proof -
  let ?s = "(fresh_array 1 2 1 4 20)\<lparr>free_offset := (\<lambda>_. 2 ^ 29)\<rparr>"
  obtain t where t: "readSystemConfig sample_config
      (zero_state\<lparr>process_state := 0, space_list_num := 0, space_list_head := []\<rparr>) = Some t"
    "disk_total_num t = 2" "disk_block_size t = 4" by (rule sample_config_ok)
  have "\<exists>u. main_mount sample_config (ncfs_destroy ?s (Some [1])) zero_state = Some u \<and>
    (free_offset u 1 = free_offset ?s 1 \<longleftrightarrow>
      - (2 ^ 31) \<le> free_offset ?s 1 * disk_block_size ?s \<and> free_offset ?s 1 * disk_block_size ?s < 2 ^ 31)"
    by (rule remount_offset_iff [where t = t])
      (use t in \<open>simp_all add: fresh_array_def zero_state_def\<close>)
  then show ?thesis by (auto simp: fresh_array_def zero_state_def)
qed

end
