(* ===== verification/FileLayer.thy ===== *)
theory FileLayer
  imports CodingLayer Metadata "HOL-Library.Monad_Syntax"
begin

text \<open>
  The file system itself: the handlers of \<open>ncfs.cc\<close> that touch file data, and the file half of
  \<open>NoCache\<close> (\<open>no_cache.cc\<close>). Every file of the mounted file system is a file of the directory
  \<open>rootdir\<close> of the host that holds no data, only the size of the file and, for each block, the disk and
  the block number \<open>encode\<close> reported. The value \<open>None\<close> means that the process has ended: \<open>exit\<close>
  after a failed \<open>open\<close>, or an access through a bad pointer.
\<close>

section \<open>The state\<close>

text \<open>
  \<open>hfiles\<close> are the files of the host that can be opened, by their full path, \<open>fileInfoPath\<close> is the table
  of \<open>NoCache\<close> from descriptors to paths, and the fields from \<open>usebigblock\<close> on are the globals of
  \<open>ncfs.cc\<close> for blocks larger than 4096 bytes. Paths are shorter than \<open>PATH_MAX\<close>, and descriptors are
  less than \<open>FILE_MAX\<close>. \<open>errno\<close> is whatever the C library left there.
\<close>

record fsys =
  nc :: sys
  coding :: coding_layer
  rootdir :: string
  hfiles :: "string \<Rightarrow> file_data option"
  fileInfoPath :: "int \<Rightarrow> string"
  usebigblock :: int
  bigblocksize :: int
  sysblocksize :: int
  bigtempbuf :: "byte list"
  bigtempbuf_maxcount :: int
  bigtempbuf_counter :: int
  errno :: int

definition size_t :: "int \<Rightarrow> int" where
  "size_t x = x mod 2 ^ 64"

definition ENOSPC :: int where "ENOSPC = 28"

definition FATALERROR :: int where "FATALERROR = -3"

text \<open>\<open>ncfs_init\<close>; the coding layer is the one \<open>initializeCodingLayer\<close> chooses.\<close>

definition ncfs_init :: "gf \<Rightarrow> string \<Rightarrow> (string \<Rightarrow> file_data option) \<Rightarrow> sys \<Rightarrow> fsys option" where
  "ncfs_init gf_junk root host s =
     (let bbs = disk_block_size s; sbs = 4096; big = (if bbs > sbs then 1 else 0)
      in map_option (\<lambda>L. \<lparr>nc = s, coding = L, rootdir = root, hfiles = host, fileInfoPath = (\<lambda>_. []),
           usebigblock = big, bigblocksize = bbs, sysblocksize = sbs,
           bigtempbuf = (if big = 1 then zeros (nat bbs) else []),
           bigtempbuf_maxcount = (if big = 1 then bbs sdiv sbs else 0),
           bigtempbuf_counter = (if big = 1 then bbs sdiv sbs else 0), errno = 0\<rparr>)
         (initializeCodingLayer gf_junk s))"

definition ncfs_fullpath :: "string \<Rightarrow> fsys \<Rightarrow> string" where
  "ncfs_fullpath path s = rootdir s @ path"

section \<open>The block addresses of a file\<close>

definition createFileInfo :: "string \<Rightarrow> int \<Rightarrow> fsys \<Rightarrow> fsys" where
  "createFileInfo path fid s = s\<lparr>fileInfoPath := (fileInfoPath s)(fid := path)\<rparr>"

definition destroyFileInfo :: "int \<Rightarrow> fsys \<Rightarrow> fsys" where
  "destroyFileInfo fid s = s\<lparr>fileInfoPath := (fileInfoPath s)(fid := [])\<rparr>"

definition searchFileInfo :: "string \<Rightarrow> fsys \<Rightarrow> int" where
  "searchFileInfo path s =
     (case filter (\<lambda>i. fileInfoPath s i = path) [0..1023] of [] \<Rightarrow> -2 | i # is \<Rightarrow> i)"

definition readFileInfo :: "int \<Rightarrow> byte list \<Rightarrow> int \<Rightarrow> fsys \<Rightarrow> (int \<times> byte list) option" where
  "readFileInfo fid buf offset s = (case hfiles s (fileInfoPath s fid) of
       None \<Rightarrow> None
     | Some f \<Rightarrow> Some (file_read buf offset f))"

text \<open>
  \<open>writeFileInfo\<close> opens with \<open>O_CREAT\<close>, so a file that is gone comes back empty; the empty path
  cannot be opened.
\<close>

definition writeFileInfo :: "int \<Rightarrow> byte list \<Rightarrow> int \<Rightarrow> fsys \<Rightarrow> (int \<times> fsys) option" where
  "writeFileInfo fid buf offset s = (let path = fileInfoPath s fid in
     if path = [] then None
     else let f = (case hfiles s path of None \<Rightarrow> [] | Some f \<Rightarrow> f) in
       if offset < 0 then Some (-1, s\<lparr>hfiles := (hfiles s)(path := Some f)\<rparr>)
       else Some (int (length buf),
              s\<lparr>hfiles := (hfiles s)(path := Some (file_pwrite f buf (nat offset)))\<rparr>))"

text \<open>The info of block \<open>i\<close>, read into a cleared structure.\<close>

definition read_block_info :: "int \<Rightarrow> int \<Rightarrow> fsys \<Rightarrow> (int \<times> data_block_info) option" where
  "read_block_info fid i s = do {
     (retstat, b) \<leftarrow> readFileInfo fid (zeros 8) ((i + 1) * 8) s;
     let x = bytes_node b in Some (retstat, \<lparr>bi_disk_id = fst x, bi_block_no = snd x\<rparr>)}"

definition info_bytes :: "data_block_info \<Rightarrow> byte list" where
  "info_bytes x = node_bytes (bi_disk_id x, bi_block_no x)"

section \<open>Calls of the coding layer\<close>

definition encode :: "byte list \<Rightarrow> int \<Rightarrow> fsys \<Rightarrow> (data_block_info \<times> fsys) option" where
  "encode buf sz s = do {
     (r, L, t) \<leftarrow> coding_encode (coding s) buf sz (nc s);
     Some (r, s\<lparr>coding := L, nc := t\<rparr>)}"

text \<open>
  \<open>decode\<close> into the caller's buffer from byte \<open>at\<close> on. The call gets the \<open>n\<close> bytes that lie there; when
  the buffer is shorter it is the memory behind the buffer that is overwritten, and the list grows.
\<close>

definition decode_at :: "int \<Rightarrow> byte list \<Rightarrow> nat \<Rightarrow> int \<Rightarrow> int \<Rightarrow> fsys \<Rightarrow>
    (int \<times> byte list \<times> fsys) option" where
  "decode_at disk_id buf at n offset s =
     (let region = map (\<lambda>j. peek (heap_junk (nc s)) buf (at + j)) [0..<nat n] in do {
        (retstat, region, L, t) \<leftarrow> coding_decode (coding s) disk_id region n offset (nc s);
        Some (retstat, overwrite buf at region, s\<lparr>coding := L, nc := t\<rparr>)})"

section \<open>Reading\<close>

text \<open>
  The loop over the blocks between the first and the last one; its result is an error code the caller
  returns with, or nothing.
\<close>

fun read_middle :: "int \<Rightarrow> int \<Rightarrow> int \<Rightarrow> int list \<Rightarrow> int \<Rightarrow> byte list \<Rightarrow> fsys \<Rightarrow>
    (int option \<times> byte list \<times> fsys) option" where
  "read_middle fid deployblocksize startBlockOffset [] count buf s = Some (None, buf, s)"
| "read_middle fid deployblocksize startBlockOffset (i # is) count buf s = do {
     (retstat, blockInfo) \<leftarrow> read_block_info fid i s;
     if retstat < 0 then Some (Some FATALERROR, buf, s)
     else do {
       (retstat, buf, s) \<leftarrow> decode_at (bi_disk_id blockInfo) buf
          (nat (startBlockOffset + count * deployblocksize)) deployblocksize
          (i32 (bi_block_no blockInfo * deployblocksize)) s;
       if retstat < 0 then Some (Some FATALERROR, buf, s)
       else read_middle fid deployblocksize startBlockOffset is (count + 1) buf s}}"

text \<open>The result is the number of bytes the caller is told, or an error code, with the buffer.\<close>

definition readFileCache :: "int \<Rightarrow> byte list \<Rightarrow> int \<Rightarrow> int \<Rightarrow> fsys \<Rightarrow> (int \<times> byte list \<times> fsys) option" where
  "readFileCache fid buf sz offset s =
     (let deployblocksize = disk_block_size (nc s);
          startBlock = offset sdiv deployblocksize
      in do {
        (retstat, blockInfo) \<leftarrow> read_block_info fid startBlock s;
        if retstat < 0 then Some (FATALERROR, buf, s)
        else let copySize = deployblocksize - offset smod deployblocksize;
                 readOffset = deployblocksize - copySize in do {
          (retstat, buf, s) \<leftarrow> decode_at (bi_disk_id blockInfo) buf 0 copySize
             (i32 (bi_block_no blockInfo * deployblocksize) + readOffset) s;
          if retstat < 0 then Some (FATALERROR, buf, s)
          else let startBlockOffset = retstat;
                   finishedSize = retstat;
                   endBlock = (offset + sz) sdiv deployblocksize;
                   endBlock = (if (offset + sz) smod deployblocksize = 0 then endBlock - 1 else endBlock)
          in if endBlock \<le> startBlock then Some (finishedSize, buf, s)
          else do {
            (r, buf, s) \<leftarrow> read_middle fid deployblocksize startBlockOffset [startBlock + 1..endBlock - 1] 0 buf s;
            case r of
              Some e \<Rightarrow> Some (e, buf, s)
            | None \<Rightarrow> do {
                (retstat, blockInfo) \<leftarrow> read_block_info fid endBlock s;
                if retstat < 0 then Some (FATALERROR, buf, s)
                else let copySize = (offset + sz) smod deployblocksize;
                         copySize = (if copySize = 0 then deployblocksize else copySize) in do {
                  (retstat, buf, s) \<leftarrow> decode_at (bi_disk_id blockInfo) buf (nat (sz - copySize)) copySize
                     (i32 (bi_block_no blockInfo * deployblocksize)) s;
                  if retstat < 0 then Some (FATALERROR, buf, s)
                  else Some (finishedSize + retstat, buf, s)}}}}})"


text \<open>
  \<open>ncfs_read\<close>. The number of bytes is a \<open>size_t\<close>: an error code is a huge number and becomes the
  size asked for. With large blocks the data goes through a buffer of one block, and \<open>memcpy\<close> with the
  huge number of a negated \<open>errno\<close> ends the process.
\<close>

definition ncfs_read :: "string \<Rightarrow> byte list \<Rightarrow> int \<Rightarrow> int \<Rightarrow> int \<Rightarrow> fsys \<Rightarrow>
    (int \<times> byte list \<times> fsys) option" where
  "ncfs_read path buf sz offset fh s =
     (if operation_mode (nc s) = 2 then Some (-1, buf, s)
      else let junk = heap_junk (nc s) in
        if usebigblock s = 1 then
          let bigreadbuf = overwrite (malloc junk (nat (bigblocksize s))) 0 (zeros (nat (bigblocksize s)));
              deployblocksize = (if sz < size_t (bigblocksize s) then sz else bigblocksize s)
          in do {
            (ret, bigreadbuf, s) \<leftarrow> readFileCache fh bigreadbuf deployblocksize offset s;
            let ret = size_t ret;
                ret = (if ret > size_t deployblocksize then size_t deployblocksize else ret);
                ret = (if ret > sz then sz else ret);
                n = nat ret
            in if ret = 0 then
                 (if errno s = 0 then Some (0, buf, s) else None)
               else Some (ret, overwrite buf 0 (map (peek junk bigreadbuf) [0..<n]), s)}
        else do {
          (ret, buf, s) \<leftarrow> readFileCache fh buf sz offset s;
          let ret = size_t ret in
          if ret = 0 then Some (- errno s, buf, s)
          else Some (if ret > sz then sz else ret, buf, s)})"


section \<open>Writing\<close>

text \<open>The new size and the address of a block go to the file; the result is that of the second call.\<close>

definition put_block_info :: "int \<Rightarrow> int \<Rightarrow> int \<Rightarrow> data_block_info \<Rightarrow> fsys \<Rightarrow> (int \<times> fsys) option" where
  "put_block_info fh file_size addr_offset temp_block_info s = do {
     (retstat, s) \<leftarrow> writeFileInfo fh (bytes_of_int file_size) 0 s;
     writeFileInfo fh (info_bytes temp_block_info) addr_offset s}"

definition addr_offset :: "int \<Rightarrow> int \<Rightarrow> int" where
  "addr_offset offset bs = i32 ((i32 (offset sdiv bs) + 1) * 8)"

text \<open>
  The loop of \<open>ncfs_write\<close> over the blocks of one call. A result on the left is the value the handler
  returns at once, one on the right the status it goes on with. The loop need not end: it is an option,
  and without an end there is no value.
\<close>

partial_function (option) write_blocks ::
  "int \<Rightarrow> byte list \<Rightarrow> int \<Rightarrow> int \<Rightarrow> int \<Rightarrow> byte list \<Rightarrow> int \<Rightarrow> fsys \<Rightarrow> ((int + int) \<times> fsys) option"
where
  "write_blocks fh buf sz size_to_write temp_offset temp_buf retstat s =
     (if size_to_write = 0 then Some (Inr retstat, s)
      else let block_size = disk_block_size (nc s);
               temp_size = (if size_to_write \<le> size_t block_size then size_to_write else size_t block_size);
               size_to_write = size_to_write - temp_size;
               chunk = take (nat temp_size) (drop (nat (sz - size_to_write - temp_size)) buf);
               temp_buf = overwrite temp_buf 0 chunk
           in do {
             (temp_block_info, s) \<leftarrow> encode temp_buf temp_size s;
             if bi_disk_id temp_block_info = -1 then Some (Inl (- ENOSPC), s)
             else do {
               (retstat, s) \<leftarrow> put_block_info fh (i32 (temp_offset + temp_size))
                  (addr_offset temp_offset block_size) temp_block_info s;
               write_blocks fh buf sz size_to_write (temp_offset + temp_size) temp_buf retstat s}})"

text \<open>
  With blocks of more than 4096 bytes the data is collected in one buffer for all files, 4096 bytes at
  a time, and encoded when it is full.
\<close>

definition fill_bigtempbuf :: "byte list \<Rightarrow> fsys \<Rightarrow> fsys" where
  "fill_bigtempbuf chunk s =
     s\<lparr>bigtempbuf := overwrite (bigtempbuf s)
         (nat ((bigtempbuf_maxcount s - bigtempbuf_counter s) * sysblocksize s)) chunk,
       bigtempbuf_counter := bigtempbuf_counter s - 1\<rparr>"

definition reset_bigtempbuf :: "fsys \<Rightarrow> fsys" where
  "reset_bigtempbuf s = s\<lparr>bigtempbuf := overwrite (bigtempbuf s) 0 (zeros (nat (bigblocksize s))),
     bigtempbuf_counter := bigtempbuf_maxcount s\<rparr>"

partial_function (option) write_big ::
  "int \<Rightarrow> byte list \<Rightarrow> int \<Rightarrow> int \<Rightarrow> int \<Rightarrow> int \<Rightarrow> fsys \<Rightarrow> ((int + int) \<times> fsys) option"
where
  "write_big fh buf sz size_to_write temp_offset retstat s =
     (if size_to_write = 0 then Some (Inr retstat, s)
      else let temp_size = (if size_to_write \<le> size_t (sysblocksize s) then size_to_write
                            else size_t (sysblocksize s));
               size_to_write = size_to_write - temp_size;
               s = fill_bigtempbuf (take (nat temp_size) (drop (nat (sz - size_to_write - temp_size)) buf)) s
           in if bigtempbuf_counter s \<le> 0 then
                let temp_size = (bigtempbuf_maxcount s - 1) * sysblocksize s + temp_size in do {
                  (temp_block_info, s) \<leftarrow> encode (bigtempbuf s) temp_size s;
                  if bi_disk_id temp_block_info = -1 then Some (Inl (- ENOSPC), s)
                  else do {
                    (retstat, s) \<leftarrow> put_block_info fh (i32 (temp_offset + temp_size))
                       (addr_offset temp_offset (bigblocksize s)) temp_block_info s;
                    write_big fh buf sz size_to_write (temp_offset + temp_size) retstat
                      (reset_bigtempbuf s)}}
              else write_big fh buf sz size_to_write temp_offset retstat s)"

text \<open>The four ways through \<open>ncfs_write\<close>: large blocks or not, one piece or several.\<close>

definition write_big_single :: "int \<Rightarrow> byte list \<Rightarrow> int \<Rightarrow> int \<Rightarrow> fsys \<Rightarrow> ((int + int) \<times> fsys) option" where
  "write_big_single fh buf sz offset s =
     (let s = fill_bigtempbuf (take (nat sz) buf) s
      in if bigtempbuf_counter s \<le> 0 then
           let temp_size = (bigtempbuf_maxcount s - 1) * sysblocksize s + sz in do {
             (temp_block_info, s) \<leftarrow> encode (bigtempbuf s) temp_size s;
             if bi_disk_id temp_block_info = -1 then Some (Inl (- ENOSPC), s)
             else do {
               (retstat, s) \<leftarrow> put_block_info fh
                  (i32 (offset + temp_size - (bigblocksize s - sysblocksize s)))
                  (addr_offset offset (bigblocksize s)) temp_block_info s;
               Some (Inr retstat, reset_bigtempbuf s)}}
         else Some (Inr 0, s))"

definition write_single :: "int \<Rightarrow> byte list \<Rightarrow> int \<Rightarrow> int \<Rightarrow> fsys \<Rightarrow> ((int + int) \<times> fsys) option" where
  "write_single fh buf sz offset s = do {
     (temp_block_info, s) \<leftarrow> encode buf sz s;
     if bi_disk_id temp_block_info = -1 then Some (Inl (- ENOSPC), s)
     else do {
       (retstat, s) \<leftarrow> put_block_info fh (i32 (offset + sz))
          (addr_offset offset (disk_block_size (nc s))) temp_block_info s;
       Some (Inr retstat, s)}}"

definition ncfs_write :: "string \<Rightarrow> byte list \<Rightarrow> int \<Rightarrow> int \<Rightarrow> int \<Rightarrow> fsys \<Rightarrow> (int \<times> fsys) option" where
  "ncfs_write path buf sz offset fh s =
     (if operation_mode (nc s) = 1 then Some (-1, s)
      else if operation_mode (nc s) = 2 then Some (-1, s)
      else do {
        (r, s) \<leftarrow>
          (if usebigblock s = 1 then
             if sz \<le> size_t (sysblocksize s) then write_big_single fh buf sz offset s
             else write_big fh buf sz sz offset 0 s
           else if sz \<le> size_t (disk_block_size (nc s)) then write_single fh buf sz offset s
           else write_blocks fh buf sz sz offset (malloc (heap_junk (nc s)) (nat (sysblocksize s))) 0 s);
        case r of
          Inl code \<Rightarrow> Some (code, s)
        | Inr retstat \<Rightarrow> Some (if retstat < 0 then - errno s else sz, s)})"

section \<open>Opening, closing, deleting\<close>

text \<open>
  \<open>fd\<close> is what \<open>open\<close> or \<open>creat\<close> of the host returned; it is negative exactly when the file cannot be
  opened. \<open>ncfs_open\<close> forgets the error: it returns 0 in any case.
\<close>

definition ncfs_open :: "string \<Rightarrow> int \<Rightarrow> fsys \<Rightarrow> int \<times> fsys" where
  "ncfs_open path fd s = (0, createFileInfo (ncfs_fullpath path s) fd s)"

definition ncfs_create :: "string \<Rightarrow> int \<Rightarrow> fsys \<Rightarrow> int \<times> fsys" where
  "ncfs_create path fd s =
     (let fpath = ncfs_fullpath path s;
          s = (if fd < 0 then s else s\<lparr>hfiles := (hfiles s)(fpath := Some [])\<rparr>)
      in (if fd < 0 then - errno s else 0, createFileInfo fpath fd s))"

definition ncfs_release :: "int \<Rightarrow> fsys \<Rightarrow> int \<times> fsys" where
  "ncfs_release fh s = (0, destroyFileInfo fh s)"

text \<open>\<open>ncfs_fgetattr\<close> and \<open>ncfs_getattr\<close>: the size they report; what a file shorter than four bytes
  leaves in the local variable is not initialised.\<close>

definition ncfs_fgetattr :: "string \<Rightarrow> int \<Rightarrow> fsys \<Rightarrow> (int \<times> fsys) option" where
  "ncfs_fgetattr path fh s =
     (let fpath = ncfs_fullpath path s;
          s = (if searchFileInfo fpath s < 0 then createFileInfo fpath fh s else s)
      in do {
        (retstat2, v) \<leftarrow> readFileInfo fh (malloc (heap_junk (nc s)) 4) 0 s;
        Some (int_of_bytes v, s)})"

definition ncfs_getattr :: "string \<Rightarrow> fsys \<Rightarrow> int option" where
  "ncfs_getattr path s =
     (let fpath = ncfs_fullpath path s;
          filefd = searchFileInfo fpath s;
          var = malloc (heap_junk (nc s)) 4
      in if filefd < 0 then
           Some (int_of_bytes (case hfiles s fpath of None \<Rightarrow> var | Some f \<Rightarrow> snd (file_read var 0 f)))
         else do {(retstat2, v) \<leftarrow> readFileInfo filefd var 0 s; Some (int_of_bytes v)})"

text \<open>
  \<open>ncfs_unlink\<close>: the blocks of the file go to the list of deleted blocks. When the file cannot be opened
  \<open>readFileInfo\<close> ends the process.
\<close>

fun free_blocks :: "int \<Rightarrow> int list \<Rightarrow> byte list \<Rightarrow> fsys \<Rightarrow> fsys option" where
  "free_blocks filefd [] temp_info s = Some s"
| "free_blocks filefd (i # is) temp_info s = do {
     (retstat2, temp_info) \<leftarrow> readFileInfo filefd temp_info (i32 (8 * (i + 1))) s;
     let x = bytes_node temp_info;
         (num, t) = space_list_add (fst x) (snd x) (nc s)
     in free_blocks filefd is temp_info (s\<lparr>nc := t\<rparr>)}"

definition ncfs_unlink :: "string \<Rightarrow> int \<Rightarrow> fsys \<Rightarrow> (int \<times> fsys) option" where
  "ncfs_unlink path filefd s =
     (let fpath = ncfs_fullpath path s;
          junk = heap_junk (nc s);
          s = createFileInfo fpath filefd s
      in do {
        (retstat2, v) \<leftarrow> readFileInfo filefd (malloc junk 4) 0 s;
        let file_size = int_of_bytes v;
            bs = disk_block_size (nc s);
            file_block_num = file_size sdiv bs;
            file_block_num = (if file_size smod bs > 0 then file_block_num + 1 else file_block_num)
        in do {
          s \<leftarrow> free_blocks filefd [0..file_block_num - 1] (malloc junk 8) s;
          Some (0, s\<lparr>hfiles := (hfiles s)(fpath := None)\<rparr>)}})"

end
