(* ===== verification/BlockCode.thy ===== *)
theory BlockCode
  imports CodingLayer
begin

text \<open>
  What the file system needs of a coding class: blocks that read back what is stored in them
  (\<open>block_reader\<close>), and an \<open>encode\<close> that stores into a block nobody uses and leaves the others
  alone (\<open>block_code\<close>). RAID 0 and RAID 5 keep the contract as long as no file has been deleted, and the
  blocks of RAID 5 can also be read when a disk is lost. Reusing a deleted block sets the offset of the
  disk back, after which a later choice may hit a block in use: with a list of deleted blocks that is not
  empty the contract does not hold.
\<close>

section \<open>The contract\<close>

text \<open>
  \<open>room s\<close> counts the blocks data can still go to: a call takes one, and is refused only when there is
  none.
\<close>

text \<open>\<open>stored s d b x\<close>: in state \<open>s\<close> the block \<open>b\<close> of disk \<open>d\<close> reads as \<open>x\<close>, lost disks included.\<close>

locale block_reader =
  fixes L :: coding_layer
    and dec :: "int \<Rightarrow> byte list \<Rightarrow> int \<Rightarrow> int \<Rightarrow> sys \<Rightarrow> int \<times> byte list \<times> sys"
    and stored :: "sys \<Rightarrow> int \<Rightarrow> int \<Rightarrow> byte list \<Rightarrow> bool"
  assumes layer_dec: "coding_decode L d buf n off s =
      (let (retstat, buf, s) = dec d buf n off s in Some (retstat, buf, L, s))"
    and dec_ok: "\<lbrakk>stored s d b x; 0 < n; 0 \<le> off; off + n \<le> disk_block_size s; 4 dvd n; length buf = nat n\<rbrakk> \<Longrightarrow>
      dec d buf n (i32 (b * disk_block_size s) + off) s = (n, take (nat n) (drop (nat off) x), s)"
    and stored_len: "stored s d b x \<Longrightarrow> int (length x) = disk_block_size s"
begin

lemma layer_dec_ok:
  assumes "stored s d b x" "0 < n" "0 \<le> off" "off + n \<le> disk_block_size s" "4 dvd n" "length buf = nat n"
  shows "coding_decode L d buf n (i32 (b * disk_block_size s) + off) s =
    Some (n, take (nat n) (drop (nat off) x), L, s)"
  by (simp add: layer_dec dec_ok [OF assms])

end

locale block_code = block_reader +
  fixes enc :: "byte list \<Rightarrow> int \<Rightarrow> sys \<Rightarrow> data_block_info \<times> sys"
    and inv :: "sys \<Rightarrow> bool"
    and used :: "sys \<Rightarrow> int \<Rightarrow> int \<Rightarrow> bool"
    and room :: "sys \<Rightarrow> nat"
  assumes layer_enc: "coding_encode L buf sz s = (let (r, s) = enc buf sz s in Some (r, L, s))"
    and enc_ok: "\<lbrakk>inv s; 0 < sz; sz \<le> disk_block_size s; nat sz \<le> length buf; enc buf sz s = (r, s');
        bi_disk_id r \<noteq> -1\<rbrakk> \<Longrightarrow>
      inv s' \<and> disk_block_size s' = disk_block_size s \<and> \<not> used s (bi_disk_id r) (bi_block_no r) \<and>
      used s' (bi_disk_id r) (bi_block_no r) \<and>
      (\<exists>x. stored s' (bi_disk_id r) (bi_block_no r) x \<and> take (nat sz) x = take (nat sz) buf)"
    and enc_keep: "\<lbrakk>inv s; 0 < sz; sz \<le> disk_block_size s; nat sz \<le> length buf; enc buf sz s = (r, s');
        used s d b; stored s d b x\<rbrakk> \<Longrightarrow> used s' d b \<and> stored s' d b x"
    and enc_full: "\<lbrakk>inv s; 0 < sz; sz \<le> disk_block_size s; nat sz \<le> length buf; enc buf sz s = (r, s');
        bi_disk_id r = -1\<rbrakk> \<Longrightarrow> inv s' \<and> disk_block_size s' = disk_block_size s"
    and enc_room: "\<lbrakk>inv s; 0 < sz; sz \<le> disk_block_size s; nat sz \<le> length buf; enc buf sz s = (r, s')\<rbrakk> \<Longrightarrow>
      (if bi_disk_id r = -1 then room s = 0 else room s = Suc (room s'))"
    and inv_mode: "inv s \<Longrightarrow> operation_mode s = 0"
    and inv_block: "inv s \<Longrightarrow> 0 < disk_block_size s"
    and enc_range: "\<lbrakk>inv s; used s d b\<rbrakk> \<Longrightarrow> 0 \<le> d \<and> d < 2147483648 \<and> 0 \<le> b \<and> b < 2147483648"

section \<open>Blocks that have been taken\<close>

definition taken :: "sys \<Rightarrow> int \<Rightarrow> int \<Rightarrow> bool" where
  "taken s d b \<longleftrightarrow> 0 \<le> d \<and> d < disk_total_num s \<and> 0 \<le> b \<and> b < free_offset s d \<and> b < disk_size s 0"

lemma take_drop_take:
  "off + n \<le> m \<Longrightarrow> take n (drop off (take m xs)) = take n (drop off xs)"
  by (simp add: take_drop min_def)

lemma read_part:
  assumes "in_array m s d b (disk_block_size s)" "0 < n" "0 \<le> off" "off + n \<le> disk_block_size s"
  shows "take (nat n) (drop (nat (i32 (b * disk_block_size s) + off)) (content s d)) =
    take (nat n) (drop (nat off) (block_of s d b (disk_block_size s)))"
proof -
  note a = array_addr [OF assms(1)]
  have d: "nat (b * disk_block_size s + off) = nat (b * disk_block_size s) + nat off"
    using a assms by (simp add: nat_add_distrib)
  have "nat off + nat n \<le> nat (disk_block_size s)" using assms by linarith
  then show ?thesis unfolding block_of_def a(1) d by (simp add: take_drop_take drop_drop add.commute)
qed

lemma part_in_disk:
  assumes "in_array m s d b (disk_block_size s)" "0 < n" "0 \<le> off" "off + n \<le> disk_block_size s"
  shows "0 \<le> i32 (b * disk_block_size s) + off"
    "i32 (b * disk_block_size s) + off + n \<le> int (length (content s d))"
    "i32 (b * disk_block_size s) + off + n \<le> m * disk_block_size s"
proof -
  note a = array_addr [OF assms(1)]
  show "0 \<le> i32 (b * disk_block_size s) + off"
    "i32 (b * disk_block_size s) + off + n \<le> int (length (content s d))"
    using a assms by auto
  moreover have "int (length (content s d)) = m * disk_block_size s"
    using assms(1) by (auto simp: in_array_def array_ok_def list_all_iff)
  ultimately show "i32 (b * disk_block_size s) + off + n \<le> m * disk_block_size s" by simp
qed

text \<open>A block other than the one that changed.\<close>

lemma nat_block_le: "0 \<le> x \<Longrightarrow> 0 \<le> y \<Longrightarrow> x + y \<le> z \<Longrightarrow> nat x + nat y \<le> nat z"
  by linarith

lemma block_other:
  assumes "only_block (content s) (content s') d b bs" "b' \<noteq> b" "0 \<le> b" "0 \<le> b'" "0 < bs"
    "disk_block_size s = bs" "disk_block_size s' = bs"
  shows "block_of s' d b' bs = block_of s d b' bs"
proof -
  have l: "length (content s' d) = length (content s d)"
    and c: "\<And>a. a < length (content s d) \<Longrightarrow> \<not> (nat (b * bs) \<le> a \<and> a < nat (b * bs) + nat bs) \<Longrightarrow>
      content s' d ! a = content s d ! a"
    using assms(1) by (auto simp: only_block_def list_all_iff)
  have dis: "nat (b' * bs) + nat bs \<le> nat (b * bs) \<or> nat (b * bs) + nat bs \<le> nat (b' * bs)"
  proof (cases "b' < b")
    case True
    have "(b' + 1) * bs \<le> b * bs" using True assms(5) by (intro mult_right_mono) auto
    then show ?thesis using assms(3-5) by (intro disjI1 nat_block_le) (auto simp: distrib_right)
  next
    case False
    have "(b + 1) * bs \<le> b' * bs" using False assms(2,5) by (intro mult_right_mono) auto
    then show ?thesis using assms(3-5) by (intro disjI2 nat_block_le) (auto simp: distrib_right)
  qed
  show ?thesis
  proof (rule nth_equalityI)
    show "length (block_of s' d b' bs) = length (block_of s d b' bs)"
      by (simp add: block_of_def l assms(6,7))
  next
    fix i assume "i < length (block_of s' d b' bs)"
    then have i: "i < nat bs" "nat (b' * bs) + i < length (content s d)"
      by (auto simp: block_of_def l assms(7))
    have "content s' d ! (nat (b' * bs) + i) = content s d ! (nat (b' * bs) + i)"
      by (rule c) (use i dis in auto)
    then show "block_of s' d b' bs ! i = block_of s d b' bs ! i"
      using i by (simp add: block_of_def l assms(6,7))
  qed
qed

lemma array_range: "array_ok m s \<Longrightarrow> 0 \<le> b \<Longrightarrow> b < m \<Longrightarrow> b < 2147483648"
proof -
  assume a: "array_ok m s" "0 \<le> b" "b < m"
  then have "m * 1 \<le> m * disk_block_size s" by (intro mult_left_mono) (auto simp: array_ok_def)
  moreover have "m * disk_block_size s < 2147483648" using a by (simp add: array_ok_def)
  ultimately show "b < 2147483648" using a by linarith
qed

text \<open>
  Without deleted blocks the free area of a disk is what lies behind its offset. All disks have the size
  of disk 0, or a disk behind a full disk 0 would never be chosen.
\<close>

definition tight :: "sys \<Rightarrow> bool" where
  "tight s \<longleftrightarrow> list_all (\<lambda>i. free_offset s i + free_size s i = disk_size s 0) (disk_ids s)"

definition room_of :: "(int \<Rightarrow> int \<Rightarrow> bool) \<Rightarrow> sys \<Rightarrow> nat" where
  "room_of data s =
     sum_list (map (\<lambda>i. length (filter (data i) [free_offset s i..disk_size s 0 - 1])) (disk_ids s))"

lemma pick_none_full:
  assumes "tight s" "pick_striped 1 (disk_total_num s - 1) s = (-1, b, fo)" "0 \<le> i" "i < disk_total_num s"
  shows "disk_size s 0 \<le> free_offset s i"
proof -
  note p = pick_striped_spec(4) [OF assms(2) refl]
  have t: "free_offset s j + free_size s j = disk_size s 0" if "0 \<le> j" "j < disk_total_num s" for j
    using assms(1) that by (simp add: tight_def list_all_iff)
  have "\<not> 1 \<le> free_size s 0" using p [of 0] assms(3,4) by auto
  then have "disk_size s 0 \<le> free_offset s 0" using t [of 0] assms(3,4) by linarith
  moreover have "1 \<le> free_size s i \<Longrightarrow> free_offset s 0 < free_offset s i" using p [of i] assms(3,4) by simp
  ultimately show ?thesis using t [OF assms(3,4)] by linarith
qed

lemma room_of_full:
  assumes "\<And>i. 0 \<le> i \<Longrightarrow> i < disk_total_num s \<Longrightarrow> disk_size s 0 \<le> free_offset s i"
  shows "room_of data s = 0"
proof -
  have "[free_offset s i..disk_size s 0 - 1] = []" if "i \<in> set (disk_ids s)" for i
    using assms [of i] that by simp
  then have "map (\<lambda>i. length (filter (data i) [free_offset s i..disk_size s 0 - 1])) (disk_ids s) =
      map (\<lambda>_. 0) (disk_ids s)" by (intro map_cong refl) simp
  then show ?thesis unfolding room_of_def by simp
qed

lemma sum_list_update_one:
  fixes f g :: "int \<Rightarrow> nat"
  assumes "distinct xs" "d \<in> set xs" "f d = Suc (g d)" "\<And>i. i \<noteq> d \<Longrightarrow> f i = g i"
  shows "sum_list (map f xs) = Suc (sum_list (map g xs))"
  using assms(1,2)
proof (induction xs)
  case (Cons x xs)
  show ?case
  proof (cases "x = d")
    case True
    then have "d \<notin> set xs" using Cons.prems(1) by simp
    then have "map f xs = map g xs" by (intro map_cong refl assms(4)) blast
    then have "sum_list (map f xs) = sum_list (map g xs)" by (rule arg_cong)
    then show ?thesis using True assms(3) by simp
  next
    case False
    then show ?thesis using Cons assms(4) by simp
  qed
qed simp

text \<open>A call reads the bytes it writes and no others of the caller's buffer.\<close>

lemma nc_writeDisk_cong:
  assumes "\<And>j. j < nat sz \<Longrightarrow> peek (heap_junk s) u j = peek (heap_junk s) v j"
  shows "nc_writeDisk d u sz a s = nc_writeDisk d v sz a s"
proof -
  have m: "map (peek (heap_junk s) u) [0..<min (nat sz) k] = map (peek (heap_junk s) v) [0..<min (nat sz) k]" for k
    using assms by auto
  have "pwrite (heap_junk s) dv u sz a = pwrite (heap_junk s) dv v sz a" for dv
    unfolding pwrite_def Let_def m ..
  then show ?thesis by (simp add: nc_writeDisk_def DiskWrite_def cong: option.case_cong)
qed

lemma nc_writeDisk_take:
  "nat sz \<le> length buf \<Longrightarrow> nc_writeDisk d (take (nat sz) buf) sz a s = nc_writeDisk d buf sz a s"
  by (rule nc_writeDisk_cong) simp

section \<open>RAID 0\<close>

definition raid0_inv :: "sys \<Rightarrow> bool" where
  "raid0_inv s \<longleftrightarrow> array_ok (disk_size s 0) s \<and> alloc_ok (\<lambda>_ _. True) (disk_size s 0) s \<and>
     space_list_head s = [] \<and> operation_mode s = 0 \<and> 1 \<le> disk_total_num s \<and> disk_total_num s < 2 ^ 31 \<and>
     tight s"

definition raid0_stored :: "sys \<Rightarrow> int \<Rightarrow> int \<Rightarrow> byte list \<Rightarrow> bool" where
  "raid0_stored s d b x \<longleftrightarrow> raid0_inv s \<and> taken s d b \<and> x = block_of s d b (disk_block_size s)"

lemma raid0_in_array:
  "raid0_inv s \<Longrightarrow> taken s d b \<Longrightarrow> in_array (disk_size s 0) s d b (disk_block_size s)"
  by (simp add: raid0_inv_def taken_def in_array_def) (simp add: array_ok_def)

lemma raid0_part:
  assumes "raid0_inv s" "taken s d b" "0 < n" "0 \<le> off" "off + n \<le> disk_block_size s" "length buf = nat n"
  shows "raid0_decode d buf n (i32 (b * disk_block_size s) + off) s =
    (n, take (nat n) (drop (nat off) (block_of s d b (disk_block_size s))), s)"
proof -
  note i = raid0_in_array [OF assms(1,2)]
  have "disk_status s d = 0" using i by (simp add: in_array_def array_ok_def list_all_iff)
  then show ?thesis
    using nc.rd_buf [OF assms(3) part_in_disk(1,2) [OF i assms(3-5)] assms(6)] read_part [OF i assms(3-5)]
    by (simp add: raid0_decode_def)
qed


lemma raid0_encode_take:
  "nat sz \<le> length buf \<Longrightarrow> raid0_encode (take (nat sz) buf) sz s = raid0_encode buf sz s"
  by (simp add: raid0_encode_def nc_writeDisk_take cong: if_cong)

lemma frame_claim_fields:
  assumes "frame s' = frame (claim d b 1 s)"
  shows "free_offset s' = (free_offset s)(d := b + 1)"
    "free_size s' = (free_size s)(d := free_size s d - 1)" "disk_total_num s' = disk_total_num s"
    "disk_size s' = disk_size s" "disk_block_size s' = disk_block_size s"
    "operation_mode s' = operation_mode s" "space_list_head s' = space_list_head s"
    "disk_raid_type s' = disk_raid_type s" "disk_status s' = disk_status s"
  using frame_eqD [OF assms] by (simp_all add: claim_def put_free_offset_def put_free_size_def)

lemma tight_claim:
  assumes "tight s" "frame s' = frame (claim d (free_offset s d) 1 s)"
  shows "tight s'"
  using assms(1) unfolding tight_def frame_claim_fields [OF assms(2)] by (auto simp: list_all_iff)

lemma room_of_claim:
  assumes "frame s' = frame (claim d b 1 s)" "b = free_offset s d" "b < disk_size s 0" "data d b"
    and "0 \<le> d" "d < disk_total_num s"
  shows "room_of data s = Suc (room_of data s')"
  unfolding room_of_def frame_claim_fields [OF assms(1)]
proof (rule sum_list_update_one)
  show "length (filter (data d) [free_offset s d..disk_size s 0 - 1]) =
      Suc (length (filter (data d) [((free_offset s)(d := b + 1)) d..disk_size s 0 - 1]))"
    using assms(2-4) upto_rec1 [of b "disk_size s 0 - 1"] by simp
qed (use assms(5,6) in auto)

text \<open>Without deleted blocks the block is the first free one of the disk.\<close>

lemma raid0_encode_ok:
  assumes "raid0_inv s" "0 < sz" "sz \<le> disk_block_size s" "nat sz \<le> length buf"
    and "raid0_encode buf sz s = (r, s')"
  defines "d \<equiv> bi_disk_id r" and "b \<equiv> bi_block_no r"
  shows "d = -1 \<Longrightarrow> s' = s \<and> room_of (\<lambda>_ _. True) s = 0"
    and "d \<noteq> -1 \<Longrightarrow> 0 \<le> d \<and> d < disk_total_num s \<and> b = free_offset s d \<and> raid0_inv s' \<and>
      frame s' = frame (claim d b 1 s) \<and> in_array (disk_size s 0) s' d b sz \<and>
      block_of s' d b sz = take (nat sz) buf \<and> only_block (content s) (content s') d b (disk_block_size s) \<and>
      (\<forall>i. i \<noteq> d \<longrightarrow> content s' i = content s i)"
proof -
  let ?m = "disk_size s 0" and ?buf = "take (nat sz) buf"
  have inv: "array_ok ?m s" "alloc_ok (\<lambda>_ _. True) ?m s" "space_list_head s = []" "operation_mode s = 0"
    "1 \<le> disk_total_num s" "disk_total_num s < 2 ^ 31" "tight s" using assms(1) by (simp_all add: raid0_inv_def)
  have req: "round_to_block_size sz s sdiv disk_block_size s = 1"
    using inv(1) assms(2,3) round_one_block [of s sz] by (simp add: array_ok_def)
  obtain d0 b0 fo where p: "pick_striped 1 (disk_total_num s - 1) s = (d0, b0, fo)" by (metis prod_cases3)
  have o: "or_space_list (d0, b0) s = (d0, b0, s)" using inv(3) by (simp add: or_space_list_def)
  have e: "raid0_encode ?buf sz s = (r, s')" using assms(4,5) by (simp add: raid0_encode_take)
  have r: "r = \<lparr>bi_disk_id = d0, bi_block_no = b0\<rparr>"
    and s': "s' = (if d0 = -1 then s
      else claim d0 b0 1 (snd (nc_writeDisk d0 ?buf sz (i32 (b0 * disk_block_size s)) s)))"
    using e req p o by (auto simp: raid0_encode_def pick_striped_block_def Let_def split: if_splits prod.splits)
  have d: "d = d0" "b = b0" by (simp_all add: d_def b_def r)
  show "d = -1 \<Longrightarrow> s' = s \<and> room_of (\<lambda>_ _. True) s = 0"
    using s' d p pick_none_full [OF inv(7)] by (auto intro!: room_of_full)
  assume n: "d \<noteq> -1"
  have sp: "0 \<le> d0 \<and> d0 < disk_total_num s \<and> 1 \<le> free_size s d0 \<and> b0 = free_offset s d0"
    using pick_striped_spec(1) [OF p] n d by auto
  have l: "length ?buf = nat sz" using assms(4) by simp
  have s2: "s' = claim d0 b0 1 (snd (nc_writeDisk d0 ?buf sz (i32 (b0 * disk_block_size s)) s))"
    using s' d n by simp
  note st = store_chosen [OF inv(1,2) assms(2,3) l o n [unfolded d] sp, folded s2]
  have i: "in_array ?m s d0 b0 sz"
    using alloc_ok_claim(1-4) [OF inv(2) o n [unfolded d]] sp inv(1) assms(2,3) by (auto simp: in_array_def)
  have fr: "frame s' = frame (claim d0 b0 1 s)"
    unfolding s2 by (rule frame_claim, rule array_write(2) [OF i]) (simp only: l)
  note f = frame_eqD [OF fr]
  have "disk_size s' = disk_size s" "space_list_head s' = []" "operation_mode s' = 0"
    "disk_total_num s' = disk_total_num s"
    using f inv(3,4) by (simp_all add: claim_def put_free_offset_def put_free_size_def)
  moreover have "tight s'" by (rule tight_claim [OF inv(7)]) (use fr sp in simp)
  ultimately have "raid0_inv s'" unfolding raid0_inv_def using st(1,2) inv(5,6) by simp
  then show "0 \<le> d \<and> d < disk_total_num s \<and> b = free_offset s d \<and> raid0_inv s' \<and>
      frame s' = frame (claim d b 1 s) \<and> in_array (disk_size s 0) s' d b sz \<and>
      block_of s' d b sz = take (nat sz) buf \<and> only_block (content s) (content s') d b (disk_block_size s) \<and>
      (\<forall>i. i \<noteq> d \<longrightarrow> content s' i = content s i)"
    unfolding d using sp fr st(3-6) by blast
qed


lemma taken_claim:
  assumes "frame s' = frame (claim d b 1 s)" "b = free_offset s d"
  shows "taken s' i j \<longleftrightarrow> taken s i j \<or>
    (i = d \<and> j = b \<and> 0 \<le> d \<and> d < disk_total_num s \<and> 0 \<le> b \<and> b < disk_size s 0)"
  unfolding taken_def frame_claim_fields [OF assms(1)] using assms(2) by auto

lemma raid0_enc:
  assumes "raid0_inv s" "0 < sz" "sz \<le> disk_block_size s" "nat sz \<le> length buf"
    and "raid0_encode buf sz s = (r, s')" "bi_disk_id r \<noteq> -1"
  shows "raid0_inv s' \<and> disk_block_size s' = disk_block_size s \<and>
      \<not> taken s (bi_disk_id r) (bi_block_no r) \<and> taken s' (bi_disk_id r) (bi_block_no r) \<and>
      (\<exists>x. raid0_stored s' (bi_disk_id r) (bi_block_no r) x \<and> take (nat sz) x = take (nat sz) buf)"
proof -
  let ?d = "bi_disk_id r" and ?b = "bi_block_no r"
  note k = raid0_encode_ok(2) [OF assms]
  have i: "in_array (disk_size s 0) s' ?d ?b sz" and fr: "frame s' = frame (claim ?d ?b 1 s)"
    and b: "?b = free_offset s ?d" and inv: "raid0_inv s'"
    and blk: "block_of s' ?d ?b sz = take (nat sz) buf" using k by auto
  note f = frame_claim_fields [OF fr]
  have t: "taken s' ?d ?b" using i f k by (auto simp: taken_def in_array_def)
  have "nat sz \<le> nat (disk_block_size s')" using assms(2,3) f by simp
  then have "take (nat sz) (block_of s' ?d ?b (disk_block_size s')) = block_of s' ?d ?b sz"
    by (simp add: block_of_def min_def)
  then show ?thesis using inv f t b blk by (auto simp: raid0_stored_def taken_def)
qed

lemma raid0_keep:
  assumes "raid0_inv s" "0 < sz" "sz \<le> disk_block_size s" "nat sz \<le> length buf"
    and "raid0_encode buf sz s = (r, s')" "taken s d b" "raid0_stored s d b x"
  shows "taken s' d b \<and> raid0_stored s' d b x"
proof (cases "bi_disk_id r = -1")
  case True
  then show ?thesis using raid0_encode_ok(1) [OF assms(1-5) True] assms(6,7) by simp
next
  case False
  note k = raid0_encode_ok(2) [OF assms(1-5) False]
  have fr: "frame s' = frame (claim (bi_disk_id r) (bi_block_no r) 1 s)" using k by simp
  note f = frame_claim_fields [OF fr]
  have t: "taken s' d b" using k assms(6) taken_claim [OF fr] by blast
  have bs: "0 < disk_block_size s" using assms(2,3) by linarith
  have "block_of s' d b (disk_block_size s) = block_of s d b (disk_block_size s)"
  proof (cases "d = bi_disk_id r")
    case True
    have "b < bi_block_no r" "0 \<le> b" using k assms(6) True by (auto simp: taken_def)
    then show ?thesis unfolding True using k bs f
      by (intro block_other [of s s' "bi_disk_id r" "bi_block_no r"]) auto
  next
    case False
    then show ?thesis using k f by (simp add: block_of_def)
  qed
  then show ?thesis using t k assms(7) f by (simp add: raid0_stored_def)
qed

lemma raid0_room:
  assumes "raid0_inv s" "0 < sz" "sz \<le> disk_block_size s" "nat sz \<le> length buf" "raid0_encode buf sz s = (r, s')"
  shows "if bi_disk_id r = -1 then room_of (\<lambda>_ _. True) s = 0
    else room_of (\<lambda>_ _. True) s = Suc (room_of (\<lambda>_ _. True) s')"
proof (cases "bi_disk_id r = -1")
  case True
  then show ?thesis using raid0_encode_ok(1) [OF assms True] by simp
next
  case False
  note k = raid0_encode_ok(2) [OF assms False]
  have fr: "frame s' = frame (claim (bi_disk_id r) (bi_block_no r) 1 s)" and b: "bi_block_no r < disk_size s 0"
    using k by (auto simp: in_array_def)
  show ?thesis using False k room_of_claim [OF fr _ b, of "\<lambda>_ _. True"] by simp
qed

interpretation raid0: block_code Coding4Raid0 raid0_decode raid0_stored raid0_encode raid0_inv taken
  "room_of (\<lambda>_ _. True)"
proof
  fix s :: sys and d b n off sz :: int and x buf :: "byte list" and r and s' :: sys
  show "coding_decode Coding4Raid0 d buf n off s =
      (let (retstat, buf, s) = raid0_decode d buf n off s in Some (retstat, buf, Coding4Raid0, s))"
    by (simp add: coding_decode_def)
  show "coding_encode Coding4Raid0 buf sz s = (let (r, s) = raid0_encode buf sz s in Some (r, Coding4Raid0, s))"
    by (simp add: coding_encode_def)
  show "raid0_stored s d b x \<Longrightarrow> int (length x) = disk_block_size s"
    using length_block_of [OF raid0_in_array] raid0_in_array [of s d b]
    by (auto simp: raid0_stored_def in_array_def)
  show "raid0_stored s d b x \<Longrightarrow> 0 < n \<Longrightarrow> 0 \<le> off \<Longrightarrow> off + n \<le> disk_block_size s \<Longrightarrow> 4 dvd n \<Longrightarrow>
      length buf = nat n \<Longrightarrow> raid0_decode d buf n (i32 (b * disk_block_size s) + off) s =
        (n, take (nat n) (drop (nat off) x), s)"
    using raid0_part [of s d b n off buf] by (simp add: raid0_stored_def)
  show "raid0_inv s \<Longrightarrow> 0 < sz \<Longrightarrow> sz \<le> disk_block_size s \<Longrightarrow> nat sz \<le> length buf \<Longrightarrow>
      raid0_encode buf sz s = (r, s') \<Longrightarrow>
      if bi_disk_id r = -1 then room_of (\<lambda>_ _. True) s = 0
      else room_of (\<lambda>_ _. True) s = Suc (room_of (\<lambda>_ _. True) s')"
    by (rule raid0_room)
  show "raid0_inv s \<Longrightarrow> operation_mode s = 0" by (simp add: raid0_inv_def)
  show "raid0_inv s \<Longrightarrow> 0 < disk_block_size s" by (simp add: raid0_inv_def array_ok_def)
  show "raid0_inv s \<Longrightarrow> taken s d b \<Longrightarrow> 0 \<le> d \<and> d < 2147483648 \<and> 0 \<le> b \<and> b < 2147483648"
    using array_range [of "disk_size s 0" s b] by (auto simp: raid0_inv_def taken_def)
  show "raid0_inv s \<Longrightarrow> 0 < sz \<Longrightarrow> sz \<le> disk_block_size s \<Longrightarrow> nat sz \<le> length buf \<Longrightarrow>
      raid0_encode buf sz s = (r, s') \<Longrightarrow> bi_disk_id r = -1 \<Longrightarrow>
      raid0_inv s' \<and> disk_block_size s' = disk_block_size s"
    using raid0_encode_ok(1) [of s sz buf r s'] by simp
qed (use raid0_enc raid0_keep in blast)+


section \<open>RAID 5\<close>

definition raid5_inv :: "sys \<Rightarrow> bool" where
  "raid5_inv s \<longleftrightarrow> array_ok (disk_size s 0) s \<and>
     alloc_ok (\<lambda>d b. d \<noteq> raid5_parity_disk (disk_total_num s) b) (disk_size s 0) s \<and>
     xor_parity (disk_total_num s) (nat (disk_size s 0 * disk_block_size s)) (content s) \<and>
     space_list_head s = [] \<and> operation_mode s = 0 \<and> disk_raid_type s = 5 \<and>
     2 \<le> disk_total_num s \<and> disk_total_num s < 2 ^ 31 \<and> tight s"

definition raid5_taken :: "sys \<Rightarrow> int \<Rightarrow> int \<Rightarrow> bool" where
  "raid5_taken s d b \<longleftrightarrow> taken s d b \<and> d \<noteq> raid5_parity_disk (disk_total_num s) b"

text \<open>A block can be read in the healthy array and in the array that has lost one disk since.\<close>

definition raid5_stored :: "sys \<Rightarrow> int \<Rightarrow> int \<Rightarrow> byte list \<Rightarrow> bool" where
  "raid5_stored s d b x \<longleftrightarrow> (\<exists>s0. raid5_inv s0 \<and> raid5_taken s0 d b \<and>
     x = block_of s0 d b (disk_block_size s0) \<and>
     (s = s0 \<or> (\<exists>f. 0 \<le> f \<and> f < disk_total_num s0 \<and> s = fail_disk f s0)))"

lemma raid5_in_array:
  "raid5_inv s \<Longrightarrow> taken s d b \<Longrightarrow> in_array (disk_size s 0) s d b (disk_block_size s)"
  by (simp add: raid5_inv_def taken_def in_array_def) (simp add: array_ok_def)

lemma fail_disk_fields:
  assumes "0 \<le> f" "f < disk_total_num s"
  shows "disk_total_num (fail_disk f s) = disk_total_num s"
    "disk_block_size (fail_disk f s) = disk_block_size s" "disk_status (fail_disk f s) f = 1"
  using set_device_status_1 [of f "put_device (dev_name s f) None s"] assms
  by (simp_all add: fail_disk_def)

lemma raid5_stored_healthy:
  assumes "raid5_inv s"
  shows "raid5_stored s d b x \<longleftrightarrow> raid5_taken s d b \<and> x = block_of s d b (disk_block_size s)"
proof -
  have "s \<noteq> fail_disk f s0" if "0 \<le> f" "f < disk_total_num s0" for f s0
  proof
    assume e: "s = fail_disk f s0"
    then have "disk_status s f = 1" "f < disk_total_num s" using fail_disk_fields [OF that] that by auto
    then show False using assms that(1) by (auto simp: raid5_inv_def array_ok_def list_all_iff)
  qed
  then show ?thesis using assms by (auto simp: raid5_stored_def)
qed

lemma raid5_dec:
  assumes "raid5_stored s d b x" "0 < n" "0 \<le> off" "off + n \<le> disk_block_size s" "4 dvd n" "length buf = nat n"
  shows "raid5_decode d buf n (i32 (b * disk_block_size s) + off) s = (n, take (nat n) (drop (nat off) x), s)"
proof -
  obtain s0 where s0: "raid5_inv s0" "raid5_taken s0 d b" "x = block_of s0 d b (disk_block_size s0)"
    "s = s0 \<or> (\<exists>f. 0 \<le> f \<and> f < disk_total_num s0 \<and> s = fail_disk f s0)"
    using assms(1) by (auto simp: raid5_stored_def)
  have bs: "disk_block_size s = disk_block_size s0" using s0(4) fail_disk_fields by auto
  have t: "taken s0 d b" using s0(2) by (simp add: raid5_taken_def)
  note i = raid5_in_array [OF s0(1) t]
  have o: "off + n \<le> disk_block_size s0" using assms(4) bs by simp
  note r = read_part [OF i assms(2,3) o] and p = part_in_disk [OF i assms(2,3) o]
  have st: "disk_status s0 d = 0" "0 \<le> d" "d < disk_total_num s0"
    using i by (simp_all add: in_array_def array_ok_def list_all_iff)
  show ?thesis
    using s0(4)
  proof
    assume "s = s0"
    then show ?thesis using nc.rd_buf [OF assms(2) p(1,2) assms(6)] r st s0(3)
      by (simp add: raid5_decode_def)
  next
    assume "\<exists>f. 0 \<le> f \<and> f < disk_total_num s0 \<and> s = fail_disk f s0"
    then obtain f where f: "0 \<le> f" "f < disk_total_num s0" "s = fail_disk f s0" by blast
    have ok: "array_ok (disk_size s0 0) s0"
      "xor_parity (disk_total_num s0) (nat (disk_size s0 0 * disk_block_size s0)) (content s0)"
      using s0(1) by (simp_all add: raid5_inv_def)
    show ?thesis
      using raid5_decode_failed [OF ok f(1,2) st(2,3) assms(2) p(1,3) assms(6)] assms(5) r
      unfolding f(3) fail_disk_fields(2) [OF f(1,2)] s0(3) by (simp split: if_splits)
  qed
qed

lemma nth_or_junk_xor:
  "peek junk (xor_ints jk n dst src) j = (if j < length dst then
     (if j < 4 * (n div 4) then dst ! j XOR peek jk src j else dst ! j) else junk j)"
  by (simp add: peek_def xor_ints_def nth_xor_into)

lemma raid5_encode_take:
  assumes "nat sz \<le> length buf"
  shows "raid5_encode (take (nat sz) buf) sz s = raid5_encode buf sz s"
proof -
  have p: "peek jk (take (nat sz) buf) j = peek jk buf j" if "j < nat sz" for jk j
    using assms that by simp
  have w: "nc_writeDisk d (xor_ints jk n (xor_ints jk n u (take (nat sz) buf)) v) sz a t =
      nc_writeDisk d (xor_ints jk n (xor_ints jk n u buf) v) sz a t" for d jk n u v a t
    by (rule nc_writeDisk_cong) (simp add: nth_or_junk_xor p, simp add: xor_ints_def nth_xor_into p)
  show ?thesis unfolding raid5_encode_def Let_def nc_writeDisk_take [OF assms] w ..
qed


text \<open>After the step over the parity blocks the array is in order and the same blocks are in use.\<close>

lemma raid5_mark_mono: "free_offset s i \<le> free_offset (raid5_mark s) i"
  by (simp add: raid5_mark_eq)

lemma raid5_mark_rest:
  "operation_mode (raid5_mark s) = operation_mode s" "disk_raid_type (raid5_mark s) = disk_raid_type s"
  by (simp_all add: raid5_mark_eq)

lemma tight_mark: "tight s \<Longrightarrow> tight (raid5_mark s)"
  by (simp add: tight_def list_all_iff raid5_mark_eq)

lemma raid5_inv_mark: "raid5_inv s \<Longrightarrow> raid5_inv (raid5_mark s)"
  by (simp add: raid5_inv_def alloc_ok_mark raid5_mark_rest tight_mark)

definition raid5_room :: "sys \<Rightarrow> nat" where
  "raid5_room s = room_of (\<lambda>d b. d \<noteq> raid5_parity_disk (disk_total_num s) b) s"

lemma raid5_room_mark:
  assumes "alloc_ok data m s"
  shows "raid5_room (raid5_mark s) = raid5_room s"
proof -
  let ?P = "\<lambda>d b. d \<noteq> raid5_parity_disk (disk_total_num s) b"
  have "filter (?P i) [free_offset (raid5_mark s) i..disk_size s 0 - 1] =
      filter (?P i) [free_offset s i..disk_size s 0 - 1]" if i: "i \<in> set (disk_ids s)" for i
  proof (cases "raid5_at_parity s i \<and> free_offset s i \<le> disk_size s 0 - 1")
    case True
    have "0 \<le> free_offset s i" using assms i by (auto simp: alloc_ok_def list_all_iff)
    then have "\<not> ?P i (free_offset s i)" using True i by (simp add: raid5_at_parity_def raid5_parity_disk_def)
    then show ?thesis using True i upto_rec1 [of "free_offset s i" "disk_size s 0 - 1"] by (simp add: raid5_mark_eq)
  next
    case False
    then show ?thesis using i by (auto simp: raid5_mark_eq)
  qed
  then have "map (\<lambda>i. length (filter (?P i) [free_offset (raid5_mark s) i..disk_size s 0 - 1])) (disk_ids s) =
      map (\<lambda>i. length (filter (?P i) [free_offset s i..disk_size s 0 - 1])) (disk_ids s)"
    by (intro map_cong refl) simp
  then show ?thesis unfolding raid5_room_def room_of_def raid5_mark_fields by (rule arg_cong [of _ _ sum_list])
qed

lemma taken_mark: "taken s d b \<Longrightarrow> taken (raid5_mark s) d b"
  using raid5_mark_mono [of s d] by (simp add: taken_def)

lemma raid5_encode_full:
  assumes "raid5_inv s" "0 < sz" "sz \<le> disk_block_size s" "raid5_encode buf sz s = (r, s')" "bi_disk_id r = -1"
  shows "s' = raid5_mark s \<and> raid5_room s = 0"
proof -
  have inv: "array_ok (disk_size s 0) s" "space_list_head s = []" "tight (raid5_mark s)"
    "alloc_ok (\<lambda>d b. d \<noteq> raid5_parity_disk (disk_total_num s) b) (disk_size s 0) s"
    using assms(1) tight_mark by (simp_all add: raid5_inv_def)
  have req: "round_to_block_size sz s sdiv disk_block_size s = 1"
    using inv(1) assms(2,3) round_one_block [of s sz] by (simp add: array_ok_def)
  obtain d0 b0 fo where p: "pick_striped 1 (disk_total_num s - 1) (raid5_mark s) = (d0, b0, fo)"
    by (metis prod_cases3)
  have o: "or_space_list (d0, b0) (raid5_mark s) = (d0, b0, raid5_mark s)"
    using inv(2) by (simp add: or_space_list_def)
  have e: "s' = raid5_mark s \<and> d0 = -1" using assms(4,5) req p o
    by (auto simp: raid5_encode_def pick_striped_block_def Let_def split: if_splits prod.splits)
  then have "raid5_room (raid5_mark s) = 0"
    unfolding raid5_room_def using pick_none_full [OF inv(3)] p by (intro room_of_full) simp
  then show ?thesis using e raid5_room_mark [OF inv(4)] by simp
qed

lemma raid5_enc_facts:
  assumes "raid5_inv s" "0 < sz" "sz \<le> disk_block_size s" "nat sz \<le> length buf"
    and "raid5_encode buf sz s = (r, s')" "bi_disk_id r \<noteq> -1"
  defines "d \<equiv> bi_disk_id r" and "b \<equiv> bi_block_no r" and "n \<equiv> disk_total_num s"
  shows "raid5_inv s'" "frame s' = frame (claim d b 1 (raid5_mark s))"
    "b = free_offset (raid5_mark s) d \<and> 0 \<le> b \<and> b < disk_size s 0" "0 \<le> d" "d < n" "d \<noteq> raid5_parity_disk n b" "block_of s' d b sz = take (nat sz) buf"
    "only_block (content s) (content s') d b (disk_block_size s)"
    "only_block (content s) (content s') (raid5_parity_disk n b) b (disk_block_size s)"
    "\<And>i. i \<noteq> d \<Longrightarrow> i \<noteq> raid5_parity_disk n b \<Longrightarrow> content s' i = content s i"
proof -
  let ?m = "disk_size s 0"
  have inv: "array_ok ?m s" "alloc_ok (\<lambda>d b. d \<noteq> raid5_parity_disk (disk_total_num s) b) ?m s"
    "2 \<le> disk_total_num s" "xor_parity (disk_total_num s) (nat (?m * disk_block_size s)) (content s)"
    "space_list_head s = []" "operation_mode s = 0" "disk_raid_type s = 5" "disk_total_num s < 2 ^ 31" "tight s"
    using assms(1) by (simp_all add: raid5_inv_def)
  have e: "raid5_encode (take (nat sz) buf) sz s = (r, s')" "length (take (nat sz) buf) = nat sz"
    using assms(4,5) by (simp_all add: raid5_encode_take)
  note k = raid5_encode_ok [OF inv(1-4) assms(2,3) e(2,1) assms(6), folded d_def b_def n_def]
  show fr: "frame s' = frame (claim d b 1 (raid5_mark s))" 
    and "b = free_offset (raid5_mark s) d \<and> 0 \<le> b \<and> b < disk_size s 0"
    using k inv(5) by auto
  note f = frame_claim_fields [OF fr]
  have "tight s'" by (rule tight_claim [OF tight_mark [OF inv(9)]]) (use k inv(5) fr in auto)
  then show "raid5_inv s'"
    using k inv(3,5-8) f raid5_mark_rest [of s] by (simp add: raid5_inv_def n_def)
  show "0 \<le> d" "d < n" "d \<noteq> raid5_parity_disk n b" "block_of s' d b sz = take (nat sz) buf"
    "only_block (content s) (content s') d b (disk_block_size s)"
    "only_block (content s) (content s') (raid5_parity_disk n b) b (disk_block_size s)"
    "\<And>i. i \<noteq> d \<Longrightarrow> i \<noteq> raid5_parity_disk n b \<Longrightarrow> content s' i = content s i"
    using k by blast+
qed

lemma raid5_enc:
  assumes "raid5_inv s" "0 < sz" "sz \<le> disk_block_size s" "nat sz \<le> length buf"
    and "raid5_encode buf sz s = (r, s')" "bi_disk_id r \<noteq> -1"
  shows "raid5_inv s' \<and> disk_block_size s' = disk_block_size s \<and>
      \<not> raid5_taken s (bi_disk_id r) (bi_block_no r) \<and> raid5_taken s' (bi_disk_id r) (bi_block_no r) \<and>
      (\<exists>x. raid5_stored s' (bi_disk_id r) (bi_block_no r) x \<and> take (nat sz) x = take (nat sz) buf)"
proof -
  let ?d = "bi_disk_id r" and ?b = "bi_block_no r"
  note k = raid5_enc_facts [OF assms]
  note f = frame_claim_fields [OF k(2)]
  have a: "alloc_ok (\<lambda>d b. d \<noteq> raid5_parity_disk (disk_total_num s') b) (disk_size s' 0) s'"
    using k(1) by (simp add: raid5_inv_def)
  have t: "taken s' ?d ?b" using k(3-5) f by (simp add: taken_def)
  have "\<not> taken s ?d ?b" using raid5_mark_mono [of s ?d] k(3) by (auto simp: taken_def)
  moreover have "nat sz \<le> nat (disk_block_size s')" using assms(2,3) f by simp
  then have "take (nat sz) (block_of s' ?d ?b (disk_block_size s')) = take (nat sz) buf"
    using k(7) by (simp add: block_of_def min_def)
  ultimately show ?thesis using k(1,6) f t
    by (auto simp: raid5_stored_healthy raid5_taken_def)
qed

lemma raid5_keep:
  assumes "raid5_inv s" "0 < sz" "sz \<le> disk_block_size s" "nat sz \<le> length buf"
    and "raid5_encode buf sz s = (r, s')" "raid5_taken s d b" "raid5_stored s d b x"
  shows "raid5_taken s' d b \<and> raid5_stored s' d b x"
proof (cases "bi_disk_id r = -1")
  case True
  have m: "s' = raid5_mark s" using raid5_encode_full [OF assms(1-3,5) True] by simp
  show ?thesis using assms(6,7) raid5_inv_mark [OF assms(1)] assms(1) unfolding m
    by (simp add: raid5_stored_healthy raid5_taken_def taken_mark block_of_def)
next
  case False
  let ?d = "bi_disk_id r" and ?b = "bi_block_no r" and ?n = "disk_total_num s"
  note k = raid5_enc_facts [OF assms(1-5) False]
  note f = frame_claim_fields [OF k(2)]
  have t: "taken (raid5_mark s) d b" and d: "d \<noteq> raid5_parity_disk ?n b" and b0: "0 \<le> b"
    using assms(6) taken_mark by (auto simp: raid5_taken_def taken_def)
  have t': "taken s' d b" using taken_claim [OF k(2)] k(3) t by blast
  have bs: "0 < disk_block_size s" using assms(2,3) by linarith
  have b1: "0 \<le> ?b" using k(3) by simp
  have "block_of s' d b (disk_block_size s) = block_of s d b (disk_block_size s)"
  proof (cases "b = ?b")
    case True
    then have "d \<noteq> ?d" using t k(3) by (auto simp: taken_def)
    then have "content s' d = content s d" using k(10) d True by simp
    then show ?thesis using f by (simp add: block_of_def)
  next
    case ne: False
    show ?thesis
    proof (cases "d = ?d \<or> d = raid5_parity_disk ?n ?b")
      case True
      then have "only_block (content s) (content s') d ?b (disk_block_size s)" using k(8,9) by auto
      then show ?thesis by (rule block_other) (use ne b0 b1 bs f in auto)
    next
      case False
      then show ?thesis using k(10) f by (simp add: block_of_def)
    qed
  qed
  then show ?thesis using t' d k(1) assms(1,7) f by (simp add: raid5_stored_healthy raid5_taken_def)
qed


lemma raid5_room_step:
  assumes "raid5_inv s" "0 < sz" "sz \<le> disk_block_size s" "nat sz \<le> length buf" "raid5_encode buf sz s = (r, s')"
  shows "if bi_disk_id r = -1 then raid5_room s = 0 else raid5_room s = Suc (raid5_room s')"
proof (cases "bi_disk_id r = -1")
  case True
  then show ?thesis using raid5_encode_full [OF assms(1-3,5) True] by simp
next
  case False
  note k = raid5_enc_facts [OF assms False]
  have a: "alloc_ok (\<lambda>d b. d \<noteq> raid5_parity_disk (disk_total_num s) b) (disk_size s 0) s"
    using assms(1) by (simp add: raid5_inv_def)
  have "raid5_room (raid5_mark s) = Suc (raid5_room s')"
    unfolding raid5_room_def frame_claim_fields [OF k(2)]
    by (rule room_of_claim [OF k(2)]) (use k(3-6) in auto)
  then show ?thesis using False raid5_room_mark [OF a] by simp
qed

interpretation raid5: block_code Coding4Raid5 raid5_decode raid5_stored raid5_encode raid5_inv raid5_taken
  raid5_room
proof
  fix s :: sys and d b n off sz :: int and x buf :: "byte list" and r and s' :: sys
  show "coding_decode Coding4Raid5 d buf n off s =
      (let (retstat, buf, s) = raid5_decode d buf n off s in Some (retstat, buf, Coding4Raid5, s))"
    by (simp add: coding_decode_def)
  show "coding_encode Coding4Raid5 buf sz s = (let (r, s) = raid5_encode buf sz s in Some (r, Coding4Raid5, s))"
    by (simp add: coding_encode_def)
  show "int (length x) = disk_block_size s" if st: "raid5_stored s d b x"
  proof -
    obtain s0 where s0: "raid5_inv s0" "taken s0 d b" "x = block_of s0 d b (disk_block_size s0)"
      "disk_block_size s = disk_block_size s0"
      using st fail_disk_fields(2) by (auto simp: raid5_stored_def raid5_taken_def)
    then show ?thesis using length_block_of [OF raid5_in_array [OF s0(1,2)]] raid5_in_array [OF s0(1,2)]
      by (auto simp: in_array_def)
  qed
  show "raid5_stored s d b x \<Longrightarrow> 0 < n \<Longrightarrow> 0 \<le> off \<Longrightarrow> off + n \<le> disk_block_size s \<Longrightarrow> 4 dvd n \<Longrightarrow>
      length buf = nat n \<Longrightarrow> raid5_decode d buf n (i32 (b * disk_block_size s) + off) s =
        (n, take (nat n) (drop (nat off) x), s)"
    by (rule raid5_dec)
  show "raid5_inv s \<Longrightarrow> 0 < sz \<Longrightarrow> sz \<le> disk_block_size s \<Longrightarrow> nat sz \<le> length buf \<Longrightarrow>
      raid5_encode buf sz s = (r, s') \<Longrightarrow>
      if bi_disk_id r = -1 then raid5_room s = 0 else raid5_room s = Suc (raid5_room s')"
    by (rule raid5_room_step)
  show "raid5_inv s \<Longrightarrow> operation_mode s = 0" by (simp add: raid5_inv_def)
  show "raid5_inv s \<Longrightarrow> 0 < disk_block_size s" by (simp add: raid5_inv_def array_ok_def)
  show "raid5_inv s \<Longrightarrow> raid5_taken s d b \<Longrightarrow> 0 \<le> d \<and> d < 2147483648 \<and> 0 \<le> b \<and> b < 2147483648"
    using array_range [of "disk_size s 0" s b] by (auto simp: raid5_inv_def raid5_taken_def taken_def)
  show "raid5_inv s \<Longrightarrow> 0 < sz \<Longrightarrow> sz \<le> disk_block_size s \<Longrightarrow> nat sz \<le> length buf \<Longrightarrow>
      raid5_encode buf sz s = (r, s') \<Longrightarrow> bi_disk_id r = -1 \<Longrightarrow>
      raid5_inv s' \<and> disk_block_size s' = disk_block_size s"
    using raid5_encode_full [of s sz buf r s'] raid5_inv_mark [of s] by simp
qed (use raid5_enc raid5_keep in blast)+

end
