(* ===== verification/FileRead.thy ===== *)
theory FileRead
  imports FileLayer BlockCode
begin

text \<open>
  Reading a file: \<open>readFileCache\<close> and \<open>ncfs_read\<close> over any coding class that keeps the contract
  \<open>block_reader\<close>. \<open>file_blocks\<close> says which blocks make up an open file. The bytes in the buffer are
  right; the number of bytes \<open>readFileCache\<close> reports leaves out the blocks between the first and the
  last one, so \<open>ncfs_read\<close> reports too few for a range of three blocks or more.
\<close>

section \<open>The blocks of a file\<close>

definition file_blocks :: "(sys \<Rightarrow> int \<Rightarrow> int \<Rightarrow> byte list \<Rightarrow> bool) \<Rightarrow> fsys \<Rightarrow> int \<Rightarrow> byte list list \<Rightarrow> bool" where
  "file_blocks stored s fid xs \<longleftrightarrow> (\<exists>f. hfiles s (fileInfoPath s fid) = Some f \<and>
     list_all (\<lambda>i. \<exists>d b. holds_at f (8 * (i + 1)) (node_bytes (d, b)) \<and> i32 d = d \<and> i32 b = b \<and>
       stored (nc s) d b (xs ! i)) [0..<length xs])"

lemma file_blocksD:
  assumes "file_blocks stored s fid xs" "i < length xs"
  obtains d b where "read_block_info fid (int i) s = Some (8, \<lparr>bi_disk_id = d, bi_block_no = b\<rparr>)"
    "stored (nc s) d b (xs ! i)"
proof -
  obtain f where f: "hfiles s (fileInfoPath s fid) = Some f"
    "\<And>i. i < length xs \<Longrightarrow> \<exists>d b. holds_at f (8 * (i + 1)) (node_bytes (d, b)) \<and> i32 d = d \<and> i32 b = b \<and>
       stored (nc s) d b (xs ! i)"
    using assms(1) by (auto simp: file_blocks_def list_all_iff)
  obtain d b where db: "holds_at f (8 * (i + 1)) (node_bytes (d, b))" "i32 d = d" "i32 b = b"
    "stored (nc s) d b (xs ! i)" using f(2) [OF assms(2)] by blast
  have "file_read (zeros 8) (int (8 * (i + 1))) f = (8, node_bytes (d, b))"
    using file_read_holds [OF db(1), of "zeros 8"] by simp
  moreover have "(int i + 1) * 8 = int (8 * (i + 1))" by simp
  ultimately have "read_block_info fid (int i) s = Some (8, \<lparr>bi_disk_id = d, bi_block_no = b\<rparr>)"
    by (simp only: read_block_info_def readFileInfo_def f(1) option.case bind.bind_lunit prod.case Let_def)
      (simp add: bytes_node_bytes db(2,3))
  then show ?thesis using that db(4) by blast
qed

text \<open>A part of one block as a part of the whole file.\<close>

lemma concat_block:
  assumes "\<And>x. x \<in> set xs \<Longrightarrow> length x = B" "i < length xs" "off + n \<le> B"
  shows "take n (drop (i * B + off) (concat xs)) = take n (drop off (xs ! i))"
  using assms
proof (induction xs arbitrary: i)
  case Nil
  then show ?case by simp
next
  case (Cons x xs)
  have x: "length x = B" using Cons.prems by simp
  show ?case
  proof (cases i)
    case 0
    then show ?thesis using x Cons.prems(3) by (simp add: drop_append)
  next
    case (Suc j)
    have "drop (i * B + off) (concat (x # xs)) = drop (j * B + off) (concat xs)"
      using x Suc by (simp add: drop_append)
    then show ?thesis using Cons.IH [of j] Cons.prems Suc by simp
  qed
qed

lemma length_concat_blocks: "(\<And>x. x \<in> set xs \<Longrightarrow> length x = B) \<Longrightarrow> length (concat xs) = length xs * B"
  by (induction xs) auto

text \<open>The buffer is filled from the front.\<close>

lemma fill_next:
  assumes "take at buf = take at (drop p D)" "at \<le> length buf" "chunk = take n (drop (p + at) D)" "length chunk = n"
  shows "take (at + n) (overwrite buf at chunk) = take (at + n) (drop p D)"
    "at + n \<le> length (overwrite buf at chunk)"
    "at + n \<le> length buf \<Longrightarrow> length (overwrite buf at chunk) = length buf"
proof -
  have "take (at + n) (overwrite buf at chunk) = take at buf @ chunk"
    using assms(2,4) by (simp add: overwrite_def)
  also have "\<dots> = take at (drop p D) @ take n (drop at (drop p D))"
    unfolding assms(1,3) by (simp add: drop_drop add.commute)
  finally show "take (at + n) (overwrite buf at chunk) = take (at + n) (drop p D)"
    by (simp add: take_add)
  show "at + n \<le> length (overwrite buf at chunk)" using assms(2,4) by (simp add: overwrite_def)
  show "at + n \<le> length buf \<Longrightarrow> length (overwrite buf at chunk) = length buf" using assms(4) by simp
qed

section \<open>The number of the last block\<close>

lemma end_block:
  fixes z B p :: nat
  assumes "0 < z" "0 < B"
  defines "e \<equiv> (p + z - 1) div B" and "c \<equiv> (p + z - 1) mod B + 1"
  shows "(if (p + z) mod B = 0 then int ((p + z) div B) - 1 else int ((p + z) div B)) = int e"
    "(if (p + z) mod B = 0 then B else (p + z) mod B) = c" "e * B + c = p + z" "c \<le> B" "0 < c"
    "p div B \<le> e" "p div B < e \<Longrightarrow> c \<le> z" "p div B = e \<Longrightarrow> p mod B + z = c"
proof -
  have s: "p + z = Suc (p + z - 1)" using assms(1) by simp
  have m: "(p + z) mod B = (if Suc ((p + z - 1) mod B) = B then 0 else Suc ((p + z - 1) mod B))"
    by (subst s) (rule mod_Suc)
  have d: "(p + z) div B = (if (p + z) mod B = 0 then Suc e else e)"
    unfolding e_def by (subst (1 2) s) (rule div_Suc)
  have lt: "(p + z - 1) mod B < B" using assms(2) by simp
  show "(if (p + z) mod B = 0 then int ((p + z) div B) - 1 else int ((p + z) div B)) = int e"
    unfolding d by simp
  show "(if (p + z) mod B = 0 then B else (p + z) mod B) = c"
    unfolding m c_def by simp
  have eq: "e * B + (p + z - 1) mod B = p + z - 1" unfolding e_def by (rule div_mult_mod_eq)
  then show ec: "e * B + c = p + z" using assms(1) by (simp add: c_def)
  show "c \<le> B" "0 < c" using lt by (auto simp: c_def)
  show pe: "p div B \<le> e" unfolding e_def using assms(1) by (intro div_le_mono) simp
  have p: "p div B * B + p mod B = p" by (rule div_mult_mod_eq)
  have pl: "p mod B < B" using assms(2) by simp
  show "c \<le> z" if "p div B < e"
  proof -
    have "(p div B + 1) * B \<le> e * B" using that by (intro mult_le_mono1) simp
    then have "p div B * B + B \<le> e * B" by simp
    then have "p \<le> e * B" using p pl by linarith
    then show ?thesis using ec by simp
  qed
  show "p mod B + z = c" if "p div B = e"
  proof -
    have "p = e * B + p mod B" using p that by simp
    then show ?thesis using ec by linarith
  qed
qed


section \<open>Reading through the coding layer\<close>

context block_reader
begin

lemma decode_at_ok:
  assumes "coding s = L" "stored (nc s) d b x" "off + n \<le> B" "0 < n" "4 dvd n"
    and "disk_block_size (nc s) = int B"
  shows "decode_at d buf at (int n) (i32 (b * int B) + int off) s =
    Some (int n, overwrite buf at (take n (drop off x)), s)"
proof -
  have "4 dvd int n" using assms(5) by presburger
  then show ?thesis
    using layer_dec_ok [OF assms(2), of "int n" "int off"
        "map (\<lambda>j. peek (heap_junk (nc s)) buf (at + j)) [0..<n]"] assms
    by (simp add: decode_at_def)
qed

text \<open>
  One block of the file into the buffer, when the bytes before it are there: from byte \<open>off\<close> of block
  \<open>i\<close> on, \<open>n\<close> bytes.
\<close>

lemma read_part_ok:
  assumes "coding s = L" "disk_block_size (nc s) = int B" "file_blocks stored s fid xs" "i < length xs"
    and "off + n \<le> B" "0 < n" "4 dvd n" "i * B + off = p + at"
    and "take at buf = take at (drop p (concat xs))" "at \<le> length buf"
  obtains info buf' where "read_block_info fid (int i) s = Some (8, info)"
    "decode_at (bi_disk_id info) buf at (int n) (i32 (bi_block_no info * int B) + int off) s = Some (int n, buf', s)"
    "take (at + n) buf' = take (at + n) (drop p (concat xs))" "at + n \<le> length buf'"
    "at + n \<le> length buf \<Longrightarrow> length buf' = length buf"
proof -
  obtain d b where db: "read_block_info fid (int i) s = Some (8, \<lparr>bi_disk_id = d, bi_block_no = b\<rparr>)"
    "stored (nc s) d b (xs ! i)" by (rule file_blocksD [OF assms(3,4)])
  have len: "length x = B" if x: "x \<in> set xs" for x
  proof -
    obtain j where j: "j < length xs" "x = xs ! j" using x by (auto simp: in_set_conv_nth)
    obtain d b where "stored (nc s) d b (xs ! j)" by (rule file_blocksD [OF assms(3) j(1)])
    then show ?thesis using stored_len assms(2) j(2) by fastforce
  qed
  let ?c = "take n (drop off (xs ! i))"
  have l: "length (xs ! i) = B" using len assms(4) by simp
  have c: "?c = take n (drop (p + at) (concat xs))" "length ?c = n"
    using concat_block [OF len assms(4,5)] assms(5) by (simp_all add: assms(8) l)
  note f = fill_next [OF assms(9,10) c]
  show ?thesis
    using that [OF db(1), of "overwrite buf at ?c"] decode_at_ok [OF assms(1) db(2) assms(5-7,2)] f by simp
qed

text \<open>The loop over whole blocks.\<close>

lemma read_middle_ok:
  assumes "coding s = L" "disk_block_size (nc s) = int B" "file_blocks stored s fid xs" "0 < B" "4 dvd B"
    and "a + k \<le> length xs" "a * B = p + c0 + count * B" "c0 + count * B + k * B \<le> length buf"
    and "take (c0 + count * B) buf = take (c0 + count * B) (drop p (concat xs))"
  shows "\<exists>buf'. read_middle fid (int B) (int c0) [int a..int (a + k) - 1] (int count) buf s = Some (None, buf', s) \<and>
    take (c0 + (count + k) * B) buf' = take (c0 + (count + k) * B) (drop p (concat xs)) \<and>
    length buf' = length buf"
  using assms(6-9)
proof (induction k arbitrary: a count buf)
  case 0
  then show ?case by simp
next
  case (Suc k)
  let ?at = "c0 + count * B"
  have a: "a < length xs" "a * B + 0 = p + ?at" "?at \<le> length buf" "?at + B \<le> length buf"
    using Suc.prems by auto
  obtain info b1 where r: "read_block_info fid (int a) s = Some (8, info)"
    "decode_at (bi_disk_id info) buf ?at (int B) (i32 (bi_block_no info * int B) + int 0) s = Some (int B, b1, s)"
    "take (?at + B) b1 = take (?at + B) (drop p (concat xs))" "length b1 = length buf"
    by (rule read_part_ok [OF assms(1-3) a(1), where off = 0 and n = B and p = p and at = ?at and buf = buf])
      (use a assms(4,5) Suc.prems(4) in auto)
  have u: "[int a..int (a + Suc k) - 1] = int a # [int (a + 1)..int (a + 1 + k) - 1]"
    by (simp add: upto_rec1 add.commute)
  have "int c0 + int count * int B = int ?at" by simp
  then have n: "nat (int c0 + int count * int B) = ?at" by (simp only: nat_int)
  have e: "read_middle fid (int B) (int c0) [int a..int (a + Suc k) - 1] (int count) buf s =
      read_middle fid (int B) (int c0) [int (a + 1)..int (a + 1 + k) - 1] (int (count + 1)) b1 s"
    unfolding u read_middle.simps r(1) n using r(2) by (simp add: add.commute)
  have "\<exists>buf'. read_middle fid (int B) (int c0) [int (a + 1)..int (a + 1 + k) - 1] (int (count + 1)) b1 s = Some (None, buf', s) \<and>
      take (c0 + (count + 1 + k) * B) buf' = take (c0 + (count + 1 + k) * B) (drop p (concat xs)) \<and>
      length buf' = length b1"
  proof (rule Suc.IH)
    show "take (c0 + (count + 1) * B) b1 = take (c0 + (count + 1) * B) (drop p (concat xs))"
      using r(3) by (simp add: algebra_simps)
  qed (use Suc.prems r(4) in \<open>auto simp: algebra_simps\<close>)
  then show ?case unfolding e r(4) by simp
qed


text \<open>
  \<open>readFileCache\<close> on a range inside the blocks of the file: the bytes asked for are in the buffer; the
  number reported is the part of the first block behind the offset and, when there is another block,
  the part of the last one.
\<close>

lemma readFileCache_ok:
  assumes L: "coding s = L" "disk_block_size (nc s) = int B" "file_blocks stored s fid xs" "0 < B" "4 dvd B"
    and z: "0 < z" "p + z \<le> length xs * B" "4 dvd p" "4 dvd z" "length buf = z"
  defines "e \<equiv> (p + z - 1) div B"
  shows "\<exists>buf'. readFileCache fid buf (int z) (int p) s =
      Some (int (if e = p div B then B - p mod B else B - p mod B + (p + z - e * B)), buf', s) \<and>
    take z buf' = take z (drop p (concat xs)) \<and> (p div B < e \<longrightarrow> length buf' = z)"
proof -
  let ?st = "p div B" and ?o = "p mod B"
  define c1 where "c1 = B - ?o"
  define c where "c = (p + z - 1) mod B + 1"
  note eb = end_block [OF z(1) L(4), of p, folded e_def c_def]
  have o: "?o < B" "?st * B + ?o = p" using L(4) by simp_all
  have c1: "?o + c1 = B" "0 < c1" "4 dvd c1"
    using o L(5) z(3) unfolding c1_def by (auto simp: dvd_mod)
  have exs: "e < length xs" using eb(3,5) z(2) mult_le_mono1 [of "length xs" e B] by linarith
  then have sxs: "?st < length xs" using eb(6) by linarith
  obtain i1 b1 where r1: "read_block_info fid (int ?st) s = Some (8, i1)"
    "decode_at (bi_disk_id i1) buf 0 (int c1) (i32 (bi_block_no i1 * int B) + int ?o) s = Some (int c1, b1, s)"
    "take (0 + c1) b1 = take (0 + c1) (drop p (concat xs))" "0 + c1 \<le> length b1"
    "0 + c1 \<le> length buf \<Longrightarrow> length b1 = length buf"
    by (rule read_part_ok [OF L(1-3) sxs, where off = ?o and n = c1 and p = p and at = 0 and buf = buf])
      (use c1 o in auto)
  have n1: "int p sdiv int B = int ?st" "int B - int p smod int B = int c1" "int B - int c1 = int ?o"
    using c1(1) o(1) by (simp_all add: c1_def zdiv_int zmod_int [symmetric] of_nat_diff)
  have pz: "(int p + int z) smod int B = int ((p + z) mod B)" "(int p + int z) sdiv int B = int ((p + z) div B)"
    by (simp_all add: zdiv_int zmod_int)
  have n2: "(if (int p + int z) smod int B = 0 then (int p + int z) sdiv int B - 1
      else (int p + int z) sdiv int B) = int e"
    unfolding pz of_nat_eq_0_iff by (rule eb(1))
  show ?thesis
  proof (cases "e = ?st")
    case True
    have zc: "z \<le> c1" using eb(4,8) True c1(1) by linarith
    have "take z b1 = take z (take c1 b1)" using zc by (simp add: min_def)
    also have "\<dots> = take z (drop p (concat xs))" using r1(3) zc by (simp add: min_def)
    finally have t: "take z b1 = take z (drop p (concat xs))" .
    have "readFileCache fid buf (int z) (int p) s = Some (int c1, b1, s)"
      unfolding readFileCache_def L(2) Let_def n1 r1(1) n2 bind.bind_lunit prod.case
      using r1(2) True by simp
    then show ?thesis using t True by (auto simp: c1_def)
  next
    case False
    then have se: "?st < e" using eb(6) by simp
    have ez: "c \<le> z" by (rule eb(7) [OF se])
    define k where "k = e - Suc ?st"
    have ke: "e = ?st + 1 + k" using se by (simp add: k_def)
    have zk: "z = c1 + k * B + c"
    proof -
      have "?st * B + B + k * B + c = p + z" using eb(3) ke by (simp add: algebra_simps)
      then show ?thesis using o(2) c1(1) by linarith
    qed
    have l1: "length b1 = z" using r1(5) zk z(5) by simp
    obtain b2 where r2: "read_middle fid (int B) (int c1) [int (?st + 1)..int (?st + 1 + k) - 1] (int 0) b1 s = Some (None, b2, s)"
      "take (c1 + (0 + k) * B) b2 = take (c1 + (0 + k) * B) (drop p (concat xs))" "length b2 = length b1"
    proof -
      have "(?st + 1) * B = p + c1 + 0 * B" unfolding add_mult_distrib using o(2) c1(1) by linarith
      moreover have "?st + 1 + k \<le> length xs" using exs ke by simp
      moreover have "c1 + 0 * B + k * B \<le> length b1" using l1 zk by simp
      moreover have "take (c1 + 0 * B) b1 = take (c1 + 0 * B) (drop p (concat xs))" using r1(3) by simp
      ultimately show ?thesis using read_middle_ok [OF L(1-5), of "?st + 1" k p c1 0 b1] that by blast
    qed
    have l2: "length b2 = z" using r2(3) l1 by simp
    have at: "e * B + 0 = p + (c1 + k * B)" using eb(3) zk by simp
    have c4: "4 dvd c"
    proof -
      have "4 dvd c1 + k * B" using c1(3) L(5) by (intro dvd_add dvd_mult)
      then show ?thesis using z(4) zk by (metis dvd_add_right_iff)
    qed
    have c0: "0 < c" "c \<le> B" using eb(4,5) by simp_all
    obtain i3 b3 where r3: "read_block_info fid (int e) s = Some (8, i3)"
      "decode_at (bi_disk_id i3) b2 (c1 + k * B) (int c) (i32 (bi_block_no i3 * int B) + int 0) s = Some (int c, b3, s)"
      "take (c1 + k * B + c) b3 = take (c1 + k * B + c) (drop p (concat xs))"
      "c1 + k * B + c \<le> length b2 \<Longrightarrow> length b3 = length b2"
      by (rule read_part_ok [OF L(1-3) exs, where off = 0 and n = c and p = p and at = "c1 + k * B" and buf = b2])
        (use c0 c4 at r2(2) l2 zk in auto)
    have cc: "(if (int p + int z) smod int B = 0 then int B else (int p + int z) smod int B) = int c"
      unfolding pz of_nat_eq_0_iff using eb(2) by (simp split: if_splits)
    have "int z - int c = int (c1 + k * B)" using zk by simp
    then have za: "nat (int z - int c) = c1 + k * B" by (simp only: nat_int)
    have mid: "[int ?st + 1..int e - 1] = [int (?st + 1)..int (?st + 1 + k) - 1]"
      by (simp add: ke add.commute)
    have le: "\<not> int e \<le> int ?st" using se by simp
    have nn: "\<not> int c1 < 0" "\<not> int c < 0" "\<not> (8::int) < 0" by simp_all
    have "readFileCache fid buf (int z) (int p) s = Some (int c1 + int c, b3, s)"
      unfolding readFileCache_def L(2) Let_def n1 n2 cc r1(1,2) bind.bind_lunit prod.case if_not_P [OF le]
        if_not_P [OF nn(1)] if_not_P [OF nn(2)] if_not_P [OF nn(3)] mid
      using r2(1) r3(1,2) by (simp add: za)
    moreover have "take z b3 = take z (drop p (concat xs))" using r3(3) zk by simp
    moreover have "length b3 = z" using r3(4) l2 zk by simp
    moreover have "c1 + c = B - ?o + (p + z - e * B)" using eb(3) by (simp add: c1_def)
    ultimately show ?thesis using False by auto
  qed
qed


text \<open>\<open>ncfs_read\<close> with blocks of up to 4096 bytes, not in the mode that refuses.\<close>

lemma ncfs_read_ok:
  assumes L: "coding s = L" "disk_block_size (nc s) = int B" "file_blocks stored s fh xs" "0 < B" "4 dvd B"
    and z: "0 < z" "p + z \<le> length xs * B" "4 dvd p" "4 dvd z" "length buf = z"
    and m: "operation_mode (nc s) \<noteq> 2" "usebigblock s = 0" "B < 2 ^ 31" "z < 2 ^ 31"
  shows "\<exists>buf'. ncfs_read path buf (int z) (int p) fh s =
      Some (int (z - ((p + z - 1) div B - p div B - 1) * B), buf', s) \<and>
    take z buf' = take z (drop p (concat xs))"
proof -
  let ?e = "(p + z - 1) div B" and ?st = "p div B"
  note eb = end_block [OF z(1) L(4), of p]
  obtain buf' where r: "readFileCache fh buf (int z) (int p) s =
      Some (int (if ?e = ?st then B - p mod B else B - p mod B + (p + z - ?e * B)), buf', s)"
    "take z buf' = take z (drop p (concat xs))"
    using readFileCache_ok [OF L z] by blast
  define c where "c = (if ?e = ?st then B - p mod B else B - p mod B + (p + z - ?e * B))"
  have o: "p mod B < B" "?st * B + p mod B = p" using L(4) by simp_all
  have lz: "p + z - ?e * B = (p + z - 1) mod B + 1" using eb(3) by linarith
  have c: "0 < c" "c \<le> 2 * B" using o eb(4) lz by (auto simp: c_def)
  have cz: "(if int c > int z then int z else int c) = int (z - (?e - ?st - 1) * B)"
  proof (cases "?e = ?st")
    case True
    have z0: "z \<le> B - p mod B" using eb(4,8) True o by linarith
    have cB: "c = B - p mod B" unfolding c_def using True by (rule if_P)
    have "?e - ?st - 1 = 0" using True by simp
    then have "z - (?e - ?st - 1) * B = z" by (simp only: mult_0 diff_zero)
    then show ?thesis using z0 unfolding cB [symmetric] by simp
  next
    case False
    then have se: "?st < ?e" using eb(6) by simp
    define k where "k = ?e - ?st - 1"
    have ke: "?e = ?st + 1 + k" using se by (simp add: k_def)
    have "?e * B = ?st * B + B + k * B" unfolding ke by (simp add: algebra_simps)
    moreover have "c = B - p mod B + ((p + z - 1) mod B + 1)" using False unfolding c_def lz by (rule if_not_P)
    ultimately have "z = c + k * B" using eb(3) o by linarith
    then have "z - k * B = c" "c \<le> z" by simp_all
    then show ?thesis unfolding k_def [symmetric] by simp
  qed
  have "c < 2 ^ 64" using c(2) m(3) by simp
  then have "int c < 2 ^ 64" by (metis of_nat_less_iff of_nat_numeral of_nat_power)
  then have sc: "size_t (int c) = int c" by (simp add: size_t_def)
  have "ncfs_read path buf (int z) (int p) fh s = Some (if int c > int z then int z else int c, buf', s)"
    using m(1,2) c(1) r(1) unfolding c_def [symmetric] by (simp add: ncfs_read_def sc)
  then show ?thesis unfolding cz using r(2) by blast
qed

end

end
