(* ===== verification/FileWrite.thy ===== *)
theory FileWrite
  imports FileRead
begin

text \<open>
  Writing a file over any coding class that keeps the contract \<open>block_code\<close>: one block, the loop over
  the blocks of a call, and \<open>ncfs_write\<close> for blocks of up to 4096 bytes. \<open>file_content\<close> is the
  abstract file, the bytes a reader of the file may see; a write at a block boundary cuts the file there
  and appends the data.
\<close>

section \<open>The abstract file\<close>

definition file_content :: "(sys \<Rightarrow> int \<Rightarrow> int \<Rightarrow> byte list \<Rightarrow> bool) \<Rightarrow> fsys \<Rightarrow> int \<Rightarrow> byte list \<Rightarrow> bool" where
  "file_content st s fid data \<longleftrightarrow> (\<exists>f xs. hfiles s (fileInfoPath s fid) = Some f \<and> file_blocks st s fid xs \<and>
     (data \<noteq> [] \<longrightarrow> holds_at f 0 (bytes_of_int (int (length data)))) \<and>
     length data \<le> length (concat xs) \<and> data = take (length data) (concat xs))"

text \<open>What a write leaves alone: the open files, every other file, and the blocks in use.\<close>

definition others_kept :: "(sys \<Rightarrow> int \<Rightarrow> int \<Rightarrow> byte list \<Rightarrow> bool) \<Rightarrow> int \<Rightarrow> fsys \<Rightarrow> fsys \<Rightarrow> bool" where
  "others_kept st fh s s' \<longleftrightarrow> fileInfoPath s' = fileInfoPath s \<and> usebigblock s' = usebigblock s \<and>
     sysblocksize s' = sysblocksize s \<and>
     (\<forall>q. q \<noteq> fileInfoPath s fh \<longrightarrow> hfiles s' q = hfiles s q) \<and>
     (\<forall>d b x. st (nc s) d b x \<longrightarrow> st (nc s') d b x)"

lemma others_kept_refl: "others_kept st fh s s"
  by (simp add: others_kept_def)

lemma others_kept_trans: "others_kept st fh s t \<Longrightarrow> others_kept st fh t u \<Longrightarrow> others_kept st fh s u"
  by (simp add: others_kept_def)

lemma file_blocks_mono:
  assumes "file_blocks st s fid xs" "hfiles t (fileInfoPath t fid) = hfiles s (fileInfoPath s fid)"
    and "\<And>d b x. st (nc s) d b x \<Longrightarrow> st' (nc t) d b x"
  shows "file_blocks st' t fid xs"
proof -
  obtain f where f: "hfiles s (fileInfoPath s fid) = Some f"
    "\<And>i. i < length xs \<Longrightarrow> \<exists>d b. holds_at f (8 * (i + 1)) (node_bytes (d, b)) \<and> i32 d = d \<and> i32 b = b \<and>
       st (nc s) d b (xs ! i)"
    using assms(1) by (auto simp: file_blocks_def list_all_iff)
  have "\<exists>d b. holds_at f (8 * (i + 1)) (node_bytes (d, b)) \<and> i32 d = d \<and> i32 b = b \<and> st' (nc t) d b (xs ! i)"
    if "i < length xs" for i
    using f(2) [OF that] assms(3) by blast
  then show ?thesis using f(1) assms(2) by (auto simp: file_blocks_def list_all_iff)
qed

lemma file_content_kept:
  assumes "others_kept st fh s s'" "file_content st s fid data" "fileInfoPath s fid \<noteq> fileInfoPath s fh"
  shows "file_content st s' fid data"
proof -
  have h: "hfiles s' (fileInfoPath s' fid) = hfiles s (fileInfoPath s fid)"
    and k: "\<And>d b x. st (nc s) d b x \<Longrightarrow> st (nc s') d b x"
    using assms(1,3) by (auto simp: others_kept_def)
  obtain f xs where f: "hfiles s (fileInfoPath s fid) = Some f" "file_blocks st s fid xs"
    "data \<noteq> [] \<longrightarrow> holds_at f 0 (bytes_of_int (int (length data)))"
    "length data \<le> length (concat xs) \<and> data = take (length data) (concat xs)"
    using assms(2) by (auto simp: file_content_def)
  have "file_blocks st s' fid xs" by (rule file_blocks_mono [OF f(2) h]) (rule k)
  then show ?thesis using f h unfolding file_content_def by metis
qed

text \<open>The size and one entry of the table of blocks are written.\<close>

definition put_file :: "int \<Rightarrow> nat \<Rightarrow> data_block_info \<Rightarrow> file_data \<Rightarrow> file_data" where
  "put_file fsz i info f = file_pwrite (file_pwrite f (bytes_of_int fsz) 0) (info_bytes info) (8 * (i + 1))"

lemma put_block_info_ok:
  assumes "hfiles s (fileInfoPath s fh) = Some f" "fileInfoPath s fh \<noteq> []" "a = int (8 * (i + 1))"
  shows "put_block_info fh fsz a info s =
    Some (8, s\<lparr>hfiles := (hfiles s)(fileInfoPath s fh := Some (put_file fsz i info f))\<rparr>)"
proof -
  have a: "\<not> a < 0" "nat a = 8 * (i + 1)" unfolding assms(3) by (simp_all only: nat_int of_nat_less_0_iff not_False_eq_True)
  show ?thesis using assms(1,2) a
    by (simp add: put_block_info_def writeFileInfo_def put_file_def info_bytes_def)
qed

lemma put_file_holds:
  assumes "length xs = 8" "holds_at f (8 * (j + 1)) xs" "j \<noteq> i"
  shows "holds_at (put_file fsz i info f) (8 * (j + 1)) xs"
proof -
  have "holds_at (file_pwrite f (bytes_of_int fsz) 0) (8 * (j + 1)) xs"
    by (rule holds_at_other [OF assms(2)]) (use assms(1) in simp)
  then show ?thesis unfolding put_file_def
    by (rule holds_at_other) (use assms(1,3) in \<open>auto simp: info_bytes_def\<close>)
qed

lemma put_file_new: "holds_at (put_file fsz i info f) (8 * (i + 1)) (info_bytes info)"
  by (simp add: put_file_def holds_at_pwrite)

lemma put_file_size: "holds_at (put_file fsz i info f) 0 (bytes_of_int fsz)"
  unfolding put_file_def by (rule holds_at_other [OF holds_at_pwrite]) simp

lemma file_blocks_put:
  assumes "file_blocks st s fh xs" "k \<le> length xs" "st (nc s) (bi_disk_id info) (bi_block_no info) y"
    and "i32 (bi_disk_id info) = bi_disk_id info" "i32 (bi_block_no info) = bi_block_no info"
    and "hfiles s (fileInfoPath s fh) = Some f"
  shows "file_blocks st (s\<lparr>hfiles := (hfiles s)(fileInfoPath s fh := Some (put_file fsz k info f))\<rparr>) fh
    (take k xs @ [y])"
proof -
  have f: "\<exists>d b. holds_at f (8 * (i + 1)) (node_bytes (d, b)) \<and> i32 d = d \<and> i32 b = b \<and>
       st (nc s) d b (xs ! i)" if "i < length xs" for i
    using assms(1,6) that by (auto simp: file_blocks_def list_all_iff)
  have "\<exists>d b. holds_at (put_file fsz k info f) (8 * (i + 1)) (node_bytes (d, b)) \<and> i32 d = d \<and> i32 b = b \<and>
       st (nc s) d b ((take k xs @ [y]) ! i)" if i: "i < Suc k" for i
  proof (cases "i = k")
    case True
    have y: "(take k xs @ [y]) ! k = y" using assms(2) by (simp add: nth_append)
    have "holds_at (put_file fsz k info f) (8 * (k + 1)) (node_bytes (bi_disk_id info, bi_block_no info))"
      using put_file_new [of fsz k info f] by (simp add: info_bytes_def)
    then show ?thesis unfolding True y using assms(3-5) by blast
  next
    case False
    then have ik: "i < k" using i by simp
    then have x: "(take k xs @ [y]) ! i = xs ! i" using assms(2) by (simp add: nth_append)
    obtain d b where db: "holds_at f (8 * (i + 1)) (node_bytes (d, b))" "i32 d = d" "i32 b = b" "st (nc s) d b (xs ! i)"
      using f [of i] ik assms(2) by auto
    have "holds_at (put_file fsz k info f) (8 * (i + 1)) (node_bytes (d, b))"
      by (rule put_file_holds [OF _ db(1) False]) simp
    then show ?thesis unfolding x using db by blast
  qed
  then show ?thesis using assms(2) by (simp add: file_blocks_def list_all_iff)
qed


section \<open>One block\<close>

lemma addr_offset_ok:
  assumes "4 \<le> B" "k * B \<le> 2 ^ 30 - 8"
  shows "addr_offset (int (k * B)) (int B) = int (8 * (k + 1))"
proof -
  have "k * 4 \<le> 2 ^ 30 - 8" by (rule order_trans [OF mult_le_mono2 [OF assms(1)] assms(2)])
  then have k: "int (8 * (k + 1)) < 2 ^ 31" "int k < 2 ^ 31" by simp_all
  have "int (k * B) sdiv int B = int k" using assms(1) by simp
  then show ?thesis using k by (simp add: addr_offset_def i32_id)
qed

text \<open>A block in use, with what it holds.\<close>

definition owned :: "(sys \<Rightarrow> int \<Rightarrow> int \<Rightarrow> bool) \<Rightarrow> (sys \<Rightarrow> int \<Rightarrow> int \<Rightarrow> byte list \<Rightarrow> bool) \<Rightarrow>
    sys \<Rightarrow> int \<Rightarrow> int \<Rightarrow> byte list \<Rightarrow> bool" where
  "owned us st s d b x \<longleftrightarrow> us s d b \<and> st s d b x"

context block_code
begin

abbreviation own :: "sys \<Rightarrow> int \<Rightarrow> int \<Rightarrow> byte list \<Rightarrow> bool" where
  "own \<equiv> owned used stored"

lemma encode_block:
  assumes "coding s = L" "inv (nc s)" "disk_block_size (nc s) = int B" "0 < n" "n \<le> B" "n \<le> length u"
  obtains r s1 where "encode u (int n) s = Some (r, s1)" "coding s1 = L" "inv (nc s1)"
    "disk_block_size (nc s1) = int B" "others_kept own fh s s1" "hfiles s1 = hfiles s"
    "bi_disk_id r \<noteq> -1 \<Longrightarrow> \<exists>y. length y = B \<and> take n y = take n u \<and> own (nc s1) (bi_disk_id r) (bi_block_no r) y \<and>
       i32 (bi_disk_id r) = bi_disk_id r \<and> i32 (bi_block_no r) = bi_block_no r"
    "if bi_disk_id r = -1 then room (nc s) = 0 else room (nc s) = Suc (room (nc s1))"
proof -
  obtain r t where e: "enc u (int n) (nc s) = (r, t)" by fastforce
  let ?s1 = "s\<lparr>coding := L, nc := t\<rparr>"
  have a: "inv (nc s)" "0 < int n" "int n \<le> disk_block_size (nc s)" "nat (int n) \<le> length u"
    using assms by simp_all
  have 1: "encode u (int n) s = Some (r, ?s1)" by (simp add: encode_def assms(1) layer_enc e)
  have 2: "inv t \<and> disk_block_size t = int B"
    using enc_ok [OF a e] enc_full [OF a e] assms(3) by (cases "bi_disk_id r = -1") auto
  have "own (nc s) d b x \<Longrightarrow> own t d b x" for d b x
    using enc_keep [OF a e, of d b x] by (simp add: owned_def)
  then have 3: "others_kept own fh s ?s1" by (simp add: others_kept_def)
  have 4: "\<exists>y. length y = B \<and> take n y = take n u \<and> own (nc ?s1) (bi_disk_id r) (bi_block_no r) y \<and>
       i32 (bi_disk_id r) = bi_disk_id r \<and> i32 (bi_block_no r) = bi_block_no r" if ne: "bi_disk_id r \<noteq> -1"
  proof -
    note k = enc_ok [OF a e ne]
    obtain y where y: "stored t (bi_disk_id r) (bi_block_no r) y" "take n y = take n u" using k by auto
    have "length y = B" using stored_len [OF y(1)] 2 by simp
    moreover have "i32 (bi_disk_id r) = bi_disk_id r \<and> i32 (bi_block_no r) = bi_block_no r"
      using enc_range [of t "bi_disk_id r" "bi_block_no r"] k by (auto intro!: i32_id)
    ultimately show ?thesis using y k by (auto simp: owned_def)
  qed
  show ?thesis using that [OF 1] 2 3 4 enc_room [OF a e] by simp
qed

text \<open>A block that was stored, with its entry in the table.\<close>

lemma store_block:
  assumes "coding s = L" "inv (nc s)" "disk_block_size (nc s) = int B" "0 < n" "n \<le> B" "n \<le> length u"
    and "hfiles s (fileInfoPath s fh) = Some f" "fileInfoPath s fh \<noteq> []" "file_blocks own s fh xs" "k \<le> length xs"
    and "encode u (int n) s = Some (r, s1)" "bi_disk_id r \<noteq> -1" "a = int (8 * (k + 1))"
  obtains f' s2 y where "put_block_info fh fsz a r s1 = Some (8, s2)" "coding s2 = L" "inv (nc s2)"
    "disk_block_size (nc s2) = int B" "others_kept own fh s s2" "file_blocks own s2 fh (take k xs @ [y])"
    "hfiles s2 (fileInfoPath s2 fh) = Some f'" "holds_at f' 0 (bytes_of_int fsz)"
    "length y = B" "take n y = take n u" "room (nc s) = Suc (room (nc s2))"
proof -
  have s1: "coding s1 = L" "inv (nc s1)" "disk_block_size (nc s1) = int B" "others_kept own fh s s1"
    "hfiles s1 = hfiles s"
    by (rule encode_block [OF assms(1-6), of fh]; use assms(11) in auto)+
  obtain y where y: "length y = B" "take n y = take n u" "own (nc s1) (bi_disk_id r) (bi_block_no r) y"
    "i32 (bi_disk_id r) = bi_disk_id r" "i32 (bi_block_no r) = bi_block_no r"
    by (rule encode_block [OF assms(1-6), of fh]; use assms(11,12) in auto)
  have rm: "room (nc s) = Suc (room (nc s1))"
    by (rule encode_block [OF assms(1-6), of fh]; use assms(11,12) in auto)
  have p: "fileInfoPath s1 = fileInfoPath s" using s1(4) by (simp add: others_kept_def)
  have f: "hfiles s1 (fileInfoPath s1 fh) = Some f" using assms(7) s1(5) p by simp
  have "file_blocks own s1 fh xs"
    by (rule file_blocks_mono [OF assms(9)]) (use s1(4,5) p in \<open>auto simp: others_kept_def\<close>)
  note b = file_blocks_put [OF this assms(10) y(3-5) f, of fsz]
  let ?s2 = "s1\<lparr>hfiles := (hfiles s1)(fileInfoPath s1 fh := Some (put_file fsz k r f))\<rparr>"
  have "put_block_info fh fsz a r s1 = Some (8, ?s2)"
    using assms(8) p by (intro put_block_info_ok [OF f _ assms(13)]) simp
  moreover have "others_kept own fh s ?s2" using s1(4,5) p by (simp add: others_kept_def)
  ultimately show ?thesis using that [of ?s2 y "put_file fsz k r f"] s1(1-3) b y(1,2) rm put_file_size by simp
qed


end

section \<open>The loop\<close>

text \<open>
  After the loop \<open>j\<close> of the \<open>left\<close> bytes are in the file, from block \<open>k\<close> on; all of them when it comes to
  its end, and the blocks written before when the disks are full.
\<close>

definition tail_written :: "(sys \<Rightarrow> int \<Rightarrow> int \<Rightarrow> byte list \<Rightarrow> bool) \<Rightarrow> int \<Rightarrow> byte list list \<Rightarrow> nat \<Rightarrow> byte list \<Rightarrow>
    fsys \<Rightarrow> bool" where
  "tail_written st fh xs p d s \<longleftrightarrow> (\<exists>f ys. hfiles s (fileInfoPath s fh) = Some f \<and>
     file_blocks st s fh (xs @ ys) \<and> holds_at f 0 (bytes_of_int (int (p + length d))) \<and>
     length d \<le> length (concat ys) \<and> d = take (length d) (concat ys))"

lemma i32_nat: "v \<le> 2 ^ 30 - 8 \<Longrightarrow> i32 (int v) = int v"
  by (rule i32_id) auto

lemma tail_written_step:
  assumes "tail_written st fh (xs @ [y]) (p + length y) d s"
  shows "tail_written st fh xs p (y @ d) s"
proof -
  obtain f ys where f: "hfiles s (fileInfoPath s fh) = Some f" "file_blocks st s fh ((xs @ [y]) @ ys)"
    "holds_at f 0 (bytes_of_int (int (p + length y + length d)))"
    "length d \<le> length (concat ys)" "d = take (length d) (concat ys)"
    using assms unfolding tail_written_def by blast
  have "file_blocks st s fh (xs @ y # ys)" using f(2) by simp
  moreover have "holds_at f 0 (bytes_of_int (int (p + length (y @ d))))" using f(3) by (simp add: add.assoc)
  moreover have "length (y @ d) \<le> length (concat (y # ys))" using f(4) by simp
  moreover have "y @ d = take (length (y @ d)) (concat (y # ys))" using f(5) by simp
  ultimately show ?thesis using f(1) unfolding tail_written_def by blast
qed

lemma tail_written_one:
  assumes "file_blocks st s fh (xs @ [y])" "hfiles s (fileInfoPath s fh) = Some f"
    "holds_at f 0 (bytes_of_int (int (p + n)))" "d = take n y" "n \<le> length y"
  shows "tail_written st fh xs p d s"
proof -
  have "length d = n" using assms(4,5) by simp
  then have "length d \<le> length (concat [y])" "d = take (length d) (concat [y])" using assms(4,5) by simp_all
  then show ?thesis using assms(1-3) \<open>length d = n\<close> unfolding tail_written_def by blast
qed

context block_code
begin

lemma write_blocks_ok:
  assumes "coding s = L" "inv (nc s)" "disk_block_size (nc s) = int B" "4 \<le> B" "B < 2 ^ 31"
    and "hfiles s (fileInfoPath s fh) = Some f" "fileInfoPath s fh \<noteq> []" "file_blocks own s fh xs"
    and "length buf = sz" "left \<le> sz" "B \<le> length tb" "length xs * B + left \<le> 2 ^ 30 - 8" "0 \<le> ret"
  shows "\<exists>r s' j. write_blocks fh buf (int sz) (int left) (int (length xs * B)) tb ret s = Some (r, s') \<and>
    coding s' = L \<and> inv (nc s') \<and> disk_block_size (nc s') = int B \<and> others_kept own fh s s' \<and> j \<le> left \<and>
    (if j = 0 then hfiles s' = hfiles s
     else tail_written own fh xs (length xs * B) (take j (drop (sz - left) buf)) s') \<and>
    (r = Inl (- ENOSPC) \<and> j < left \<and> room (nc s) * B < left \<or>
     (\<exists>q \<ge> 0. r = Inr q) \<and> j = left \<and> left \<le> room (nc s) * B)"
  using assms(1-3,6-8,10-13)
proof (induction left arbitrary: s f xs tb ret rule: less_induct)
  case (less left)
  let ?n = "min left B" and ?p = "length xs * B"
  note B = assms(4,5)
  show ?case
  proof (cases "left = 0")
    case True
    have "write_blocks fh buf (int sz) (int left) (int ?p) tb ret s = Some (Inr ret, s)"
      using True by (simp add: write_blocks.simps)
    then show ?thesis using less.prems(1-3,10) True others_kept_refl by auto
  next
    case False
    define chunk where "chunk = take ?n (drop (sz - left) buf)"
    define tb1 where "tb1 = overwrite tb 0 chunk"
    have n: "0 < ?n" "?n \<le> B" using False B(1) by auto
    have lc: "length chunk = ?n" using less.prems(7) assms(9) by (simp add: chunk_def)
    have tb1: "length tb1 = length tb" "take ?n tb1 = chunk"
      using lc less.prems(8) by (simp_all add: tb1_def overwrite_def)
    have nu: "?n \<le> length tb1" using tb1 less.prems(8) by simp
    have st: "(if int left \<le> size_t (int B) then int left else size_t (int B)) = int ?n"
      using B(2) by (simp add: size_t_def)
    have dr: "nat (int sz - (int left - int ?n) - int ?n) = sz - left" by simp
    obtain r s1 where e: "encode tb1 (int ?n) s = Some (r, s1)" "coding s1 = L" "inv (nc s1)"
      "disk_block_size (nc s1) = int B" "others_kept own fh s s1" "hfiles s1 = hfiles s"
      "if bi_disk_id r = -1 then room (nc s) = 0 else room (nc s) = Suc (room (nc s1))"
      by (rule encode_block [OF less.prems(1-3) n nu])
    have k: "?p \<le> 2 ^ 30 - 8" "?p + ?n \<le> 2 ^ 30 - 8" using less.prems(9) by linarith+
    have sz: "i32 (int ?p + int ?n) = int (?p + ?n)"
      using i32_nat [OF k(2)] by simp
    have step: "write_blocks fh buf (int sz) (int left) (int ?p) tb ret s = (if bi_disk_id r = -1 then Some (Inl (- ENOSPC), s1)
        else Option.bind (put_block_info fh (int (?p + ?n)) (int (8 * (length xs + 1))) r s1)
          (\<lambda>(retstat, s). write_blocks fh buf (int sz) (int left - int ?n) (int ?p + int ?n) tb1 retstat s))"
      using False
      by (subst write_blocks.simps) (simp only: Let_def less.prems(3) st dr nat_int e(1) bind.bind_lunit
        prod.case sz addr_offset_ok [OF B(1) k(1)] of_nat_eq_0_iff if_False chunk_def [symmetric] tb1_def [symmetric])
    show ?thesis
    proof (cases "bi_disk_id r = -1")
      case True
      then show ?thesis unfolding step using e(2-7) False by (intro exI [of _ "Inl (- ENOSPC)"] exI [of _ s1] exI [of _ 0]) simp
    next
      case ne: False
      obtain f2 s2 y where s2: "put_block_info fh (int (?p + ?n)) (int (8 * (length xs + 1))) r s1 = Some (8, s2)"
        "coding s2 = L" "inv (nc s2)" "disk_block_size (nc s2) = int B" "others_kept own fh s s2"
        "file_blocks own s2 fh (take (length xs) xs @ [y])" "hfiles s2 (fileInfoPath s2 fh) = Some f2"
        "holds_at f2 0 (bytes_of_int (int (?p + ?n)))" "length y = B" "take ?n y = take ?n tb1"
        "room (nc s) = Suc (room (nc s2))"
        by (rule store_block [OF less.prems(1-3) n nu less.prems(4-6) order_refl e(1) ne refl,
              where fsz = "int (?p + ?n)"])
      have fb: "file_blocks own s2 fh (xs @ [y])" using s2(6) by simp
      have step2: "write_blocks fh buf (int sz) (int left) (int ?p) tb ret s =
          write_blocks fh buf (int sz) (int (left - ?n)) (int (?p + ?n)) tb1 8 s2"
        unfolding step s2(1) using ne by (simp add: of_nat_diff)
      have one: "tail_written own fh xs ?p chunk s2"
        using tail_written_one [OF fb s2(7,8), of chunk] s2(9,10) tb1(2) n by simp
      show ?thesis
      proof (cases "left \<le> B")
        case True
        have "write_blocks fh buf (int sz) (int (left - ?n)) (int (?p + ?n)) tb1 8 s2 = Some (Inr 8, s2)"
          using True by (simp add: write_blocks.simps)
        then show ?thesis unfolding step2 using s2(2-5,11) one True False
          by (intro exI [of _ "Inr 8"] exI [of _ s2] exI [of _ left]) (simp add: chunk_def)
      next
        case big: False
        then have nB: "?n = B" by simp
        have ys: "y = chunk" using s2(9,10) tb1(2) nB by simp
        have lx: "length (xs @ [y]) * B = ?p + B" by simp
        have p2: "hfiles s2 (fileInfoPath s2 fh) = Some f2" "fileInfoPath s2 fh \<noteq> []"
          using s2(5,7) less.prems(5) by (simp_all add: others_kept_def)
        have "\<exists>r s' j. write_blocks fh buf (int sz) (int (left - B)) (int (length (xs @ [y]) * B)) tb1 8 s2 = Some (r, s') \<and>
          coding s' = L \<and> inv (nc s') \<and> disk_block_size (nc s') = int B \<and> others_kept own fh s2 s' \<and> j \<le> left - B \<and>
          (if j = 0 then hfiles s' = hfiles s2
           else tail_written own fh (xs @ [y]) (length (xs @ [y]) * B) (take j (drop (sz - (left - B)) buf)) s') \<and>
          (r = Inl (- ENOSPC) \<and> j < left - B \<and> room (nc s2) * B < left - B \<or>
           (\<exists>q \<ge> 0. r = Inr q) \<and> j = left - B \<and> left - B \<le> room (nc s2) * B)"
          by (rule less.IH [OF _ s2(2-4) p2 fb])
            (use B big less.prems(7-9) tb1(1) in auto)
        then obtain q t j where q: "write_blocks fh buf (int sz) (int (left - B)) (int (length (xs @ [y]) * B)) tb1 8 s2 = Some (q, t)"
          "coding t = L" "inv (nc t)" "disk_block_size (nc t) = int B" "others_kept own fh s2 t" "j \<le> left - B"
          "if j = 0 then hfiles t = hfiles s2
           else tail_written own fh (xs @ [y]) (length (xs @ [y]) * B) (take j (drop (sz - (left - B)) buf)) t"
          "q = Inl (- ENOSPC) \<and> j < left - B \<and> room (nc s2) * B < left - B \<or>
           (\<exists>v \<ge> 0. q = Inr v) \<and> j = left - B \<and> left - B \<le> room (nc s2) * B" by blast
        have rm: "room (nc s2) * B < left - B \<Longrightarrow> room (nc s) * B < left"
          "left - B \<le> room (nc s2) * B \<Longrightarrow> left \<le> room (nc s) * B"
          using s2(11) by simp_all
        have d: "take (B + j) (drop (sz - left) buf) = y @ take j (drop (sz - (left - B)) buf)"
        proof -
          have "sz - (left - B) = (sz - left) + B" using big less.prems(7) by simp
          then have "drop (sz - (left - B)) buf = drop B (drop (sz - left) buf)" by (simp add: add.commute)
          then show ?thesis using nB by (simp add: ys chunk_def take_add)
        qed
        have "tail_written own fh xs ?p (take (B + j) (drop (sz - left) buf)) t"
        proof (cases "j = 0")
          case True
          have p: "fileInfoPath t = fileInfoPath s2" using q(5) by (simp add: others_kept_def)
          have h: "hfiles t = hfiles s2" using q(7) True by simp
          have fbt: "file_blocks own t fh (xs @ [y])"
            by (rule file_blocks_mono [OF fb]) (use q(5) p h in \<open>auto simp: others_kept_def\<close>)
          have ht: "hfiles t (fileInfoPath t fh) = Some f2" using s2(7) p h by simp
          show ?thesis unfolding True
            using tail_written_one [OF fbt ht s2(8), of chunk] s2(9,10) tb1(2) n nB by (simp add: chunk_def)
        next
          case False
          then have "tail_written own fh (xs @ [y]) (?p + length y) (take j (drop (sz - (left - B)) buf)) t"
            using q(7) unfolding lx s2(9) by simp
          from tail_written_step [OF this] show ?thesis unfolding d .
        qed
        moreover have "write_blocks fh buf (int sz) (int left) (int ?p) tb ret s = Some (q, t)"
          unfolding step2 nB using q(1) unfolding lx .
        ultimately show ?thesis
          using q(2-4,6,8) rm big B(1) others_kept_trans [OF s2(5) q(5)]
          by (intro exI [of _ q] exI [of _ t] exI [of _ "B + j"]) auto
      qed
    qed
  qed
qed


text \<open>The blocks of a file up to a block boundary.\<close>

lemma file_content_blocks:
  assumes "file_content own s fh data" "disk_block_size (nc s) = int B" "k * B \<le> length data" "0 < B"
  obtains f xs where "hfiles s (fileInfoPath s fh) = Some f" "file_blocks own s fh xs" "length xs = k"
    "take (k * B) data = concat xs"
proof -
  obtain f xs where f: "hfiles s (fileInfoPath s fh) = Some f" "file_blocks own s fh xs"
    "length data \<le> length (concat xs)" "data = take (length data) (concat xs)"
    using assms(1) unfolding file_content_def by blast
  have len: "length x = B" if x: "x \<in> set xs" for x
  proof -
    obtain j where j: "j < length xs" "x = xs ! j" using x unfolding in_set_conv_nth by blast
    obtain d b where "own (nc s) d b (xs ! j)" by (rule file_blocksD [OF f(2) j(1)])
    then show ?thesis using stored_len assms(2) j(2) by (fastforce simp: owned_def)
  qed
  have "length (concat xs) = length xs * B" by (rule length_concat_blocks [OF len])
  then have "k * B \<le> length xs * B" using assms(3) f(3) by linarith
  then have k: "k \<le> length xs" using mult_le_cancel2 [of k B "length xs"] assms(4) by blast
  have b: "file_blocks own s fh (take k xs)"
    using f(1,2) k by (auto simp: file_blocks_def list_all_iff)
  have "length (concat (take k xs)) = k * B"
    using length_concat_blocks [of "take k xs" B] len k by (auto dest: in_set_takeD)
  moreover have "concat xs = concat (take k xs) @ concat (drop k xs)"
    by (metis append_take_drop_id concat_append)
  ultimately have "take (k * B) (concat xs) = concat (take k xs)" by simp
  moreover have "take (k * B) data = take (k * B) (concat xs)"
    by (subst f(4)) (use assms(3) in \<open>simp add: min_def\<close>)
  ultimately show ?thesis using that [OF f(1) b] k by simp
qed

lemma tail_content:
  assumes "tail_written own fh xs (length xs * B) d s'" "length (concat xs) = length xs * B"
  shows "file_content own s' fh (concat xs @ d)"
proof -
  obtain f ys where f: "hfiles s' (fileInfoPath s' fh) = Some f" "file_blocks own s' fh (xs @ ys)"
    "holds_at f 0 (bytes_of_int (int (length xs * B + length d)))" "length d \<le> length (concat ys)"
    "d = take (length d) (concat ys)"
    using assms(1) unfolding tail_written_def by blast
  have "holds_at f 0 (bytes_of_int (int (length (concat xs @ d))))" using f(3) assms(2) by simp
  moreover have "length (concat xs @ d) \<le> length (concat (xs @ ys))" using f(4) by simp
  moreover have "concat xs @ d = take (length (concat xs @ d)) (concat (xs @ ys))" using f(5) by simp
  ultimately show ?thesis using f(1,2) unfolding file_content_def by blast
qed

lemma file_content_same:
  assumes "file_content own s fh data" "others_kept own fh s s'" "hfiles s' = hfiles s"
  shows "file_content own s' fh data"
proof -
  obtain f xs where f: "hfiles s (fileInfoPath s fh) = Some f" "file_blocks own s fh xs"
    "data \<noteq> [] \<longrightarrow> holds_at f 0 (bytes_of_int (int (length data)))"
    "length data \<le> length (concat xs) \<and> data = take (length data) (concat xs)"
    using assms(1) unfolding file_content_def by blast
  have p: "fileInfoPath s' = fileInfoPath s" using assms(2) by (simp add: others_kept_def)
  have "file_blocks own s' fh xs"
    by (rule file_blocks_mono [OF f(2)]) (use assms(2,3) p in \<open>auto simp: others_kept_def\<close>)
  then show ?thesis using f(1,3,4) p assms(3) unfolding file_content_def by metis
qed

text \<open>
  \<open>ncfs_write\<close> comes to an end. Either it reports the size and the file is what it was up to the offset,
  followed by the data, or the disks are full and the file ends with the last block that was stored.
\<close>

lemma ncfs_write_ok:
  assumes "coding s = L" "inv (nc s)" "disk_block_size (nc s) = int B" "4 \<le> B" "B \<le> 4096"
    and "usebigblock s = 0" "sysblocksize s = 4096" "fileInfoPath s fh \<noteq> []" "file_content own s fh data"
    and "k * B \<le> length data" "length buf = sz" "0 < sz" "k * B + sz \<le> 2 ^ 30 - 8"
  shows "\<exists>r s' j. ncfs_write path buf (int sz) (int (k * B)) fh s = Some (r, s') \<and>
    coding s' = L \<and> inv (nc s') \<and> disk_block_size (nc s') = int B \<and> others_kept own fh s s' \<and> j \<le> sz \<and>
    file_content own s' fh (if j = 0 then data else take (k * B) data @ take j buf) \<and>
    (r = - ENOSPC \<and> j < sz \<and> room (nc s) * B < sz \<or>
     r = int sz \<and> j = sz \<and> sz \<le> room (nc s) * B)"
proof -
  have B0: "0 < B" "B < 2 ^ 31" using assms(4,5) by simp_all
  obtain f xs where f: "hfiles s (fileInfoPath s fh) = Some f" "file_blocks own s fh xs" "length xs = k"
    "take (k * B) data = concat xs"
    by (rule file_content_blocks [OF assms(9,3,10) B0(1)])
  have lc: "length (concat xs) = length xs * B" using f(3,4) assms(10) by (metis length_take min.absorb2)
  have m: "operation_mode (nc s) = 0" using inv_mode [OF assms(2)] .
  have szt: "size_t (int B) = int B" using B0 by (simp add: size_t_def)
  have content: "file_content own t fh (if j = 0 then data else take (k * B) data @ take j buf)"
    if "others_kept own fh s t" "if j = 0 then hfiles t = hfiles s
      else tail_written own fh xs (length xs * B) (take j buf) t" for t j
  proof (cases "j = 0")
    case True
    then show ?thesis using file_content_same [OF assms(9) that(1)] that(2) by simp
  next
    case False
    then show ?thesis using tail_content [OF _ lc] that(2) unfolding f(4) by simp
  qed
  show ?thesis
  proof (cases "sz \<le> B")
    case single: True
    have n: "sz \<le> length buf" using assms(11) by simp
    obtain r s1 where e: "encode buf (int sz) s = Some (r, s1)" "coding s1 = L" "inv (nc s1)"
      "disk_block_size (nc s1) = int B" "others_kept own fh s s1" "hfiles s1 = hfiles s"
      "if bi_disk_id r = -1 then room (nc s) = 0 else room (nc s) = Suc (room (nc s1))"
      by (rule encode_block [OF assms(1-3,12) single n])
    have w: "ncfs_write path buf (int sz) (int (k * B)) fh s =
        Option.bind (write_single fh buf (int sz) (int (k * B)) s)
          (\<lambda>(r, s). case r of Inl code \<Rightarrow> Some (code, s)
            | Inr retstat \<Rightarrow> Some (if retstat < 0 then - errno s else int sz, s))"
      unfolding ncfs_write_def using m assms(6) single by (simp add: assms(3) szt)
    show ?thesis
    proof (cases "bi_disk_id r = -1")
      case True
      have "ncfs_write path buf (int sz) (int (k * B)) fh s = Some (- ENOSPC, s1)"
        unfolding w write_single_def e(1) using True by simp
      then show ?thesis using e content [OF e(5), of 0] assms(12) True
        by (intro exI [of _ "- ENOSPC"] exI [of _ s1] exI [of _ 0]) simp
    next
      case ne: False
      have kb: "k * B \<le> 2 ^ 30 - 8" using assms(13) by linarith
      obtain f2 s2 y where s2: "put_block_info fh (int (k * B + sz)) (int (8 * (k + 1))) r s1 = Some (8, s2)"
        "coding s2 = L" "inv (nc s2)" "disk_block_size (nc s2) = int B" "others_kept own fh s s2"
        "file_blocks own s2 fh (take k xs @ [y])" "hfiles s2 (fileInfoPath s2 fh) = Some f2"
        "holds_at f2 0 (bytes_of_int (int (k * B + sz)))" "length y = B" "take sz y = take sz buf"
        "room (nc s) = Suc (room (nc s2))"
        by (rule store_block [OF assms(1-3,12) single n f(1) assms(8) f(2) _ e(1) ne refl,
              where fsz = "int (k * B + sz)" and k = k]) (use f(3) in simp)
      have "write_single fh buf (int sz) (int (k * B)) s = Some (Inr 8, s2)"
        unfolding write_single_def e(1) using ne s2(1) i32_nat [OF assms(13)] addr_offset_ok [OF assms(4) kb]
        by (simp add: e(4))
      then have r: "ncfs_write path buf (int sz) (int (k * B)) fh s = Some (int sz, s2)" unfolding w by simp
      have fb: "file_blocks own s2 fh (xs @ [y])" using s2(6) f(3) by simp
      have "tail_written own fh xs (length xs * B) (take sz buf) s2"
        by (rule tail_written_one [OF fb s2(7), where n = sz]) (use s2(8-10) f(3) single in auto)
      moreover have "sz \<le> room (nc s) * B" using s2(11) single by simp
      ultimately show ?thesis using r s2(2-5) content [OF s2(5), of sz] assms(12)
        by (intro exI [of _ "int sz"] exI [of _ s2] exI [of _ sz]) simp
    qed
  next
    case multi: False
    let ?tb = "malloc (heap_junk (nc s)) (nat (sysblocksize s))"
    have tb: "B \<le> length ?tb" using assms(5,7) by simp
    have bd: "length xs * B + sz \<le> 2 ^ 30 - 8" using assms(13) f(3) by simp
    obtain r s' j where r: "write_blocks fh buf (int sz) (int sz) (int (length xs * B)) ?tb 0 s = Some (r, s')"
      "coding s' = L" "inv (nc s')" "disk_block_size (nc s') = int B" "others_kept own fh s s'" "j \<le> sz"
      "if j = 0 then hfiles s' = hfiles s else tail_written own fh xs (length xs * B) (take j (drop (sz - sz) buf)) s'"
      "r = Inl (- ENOSPC) \<and> j < sz \<and> room (nc s) * B < sz \<or>
       (\<exists>q \<ge> 0. r = Inr q) \<and> j = sz \<and> sz \<le> room (nc s) * B"
      using write_blocks_ok [OF assms(1-4) B0(2) f(1) assms(8) f(2) assms(11) order_refl tb bd order_refl] by blast
    have w: "ncfs_write path buf (int sz) (int (k * B)) fh s =
        (case r of Inl code \<Rightarrow> Some (code, s')
         | Inr retstat \<Rightarrow> Some (if retstat < 0 then - errno s' else int sz, s'))"
      unfolding ncfs_write_def using m assms(6) multi r(1) f(3) by (simp add: assms(3) szt)
    have c: "file_content own s' fh (if j = 0 then data else take (k * B) data @ take j buf)"
      by (rule content [OF r(5)]) (use r(7) in \<open>simp only: diff_self_eq_0 drop_0\<close>)
    from r(8) show ?thesis
    proof
      assume a: "r = Inl (- ENOSPC) \<and> j < sz \<and> room (nc s) * B < sz"
      then show ?thesis using w c r(2-6) by (intro exI [of _ "- ENOSPC"] exI [of _ s'] exI [of _ j]) simp
    next
      assume a: "(\<exists>q \<ge> 0. r = Inr q) \<and> j = sz \<and> sz \<le> room (nc s) * B"
      then show ?thesis using w c r(2-6) by (intro exI [of _ "int sz"] exI [of _ s'] exI [of _ sz]) auto
    qed
  qed
qed

end

end
