(* ===== verification/FileProps.thy ===== *)
theory FileProps
  imports FileWrite "HOL-Library.Multiset"
begin

text \<open>
  What the file system promises, over the contract of the coding class: writing refines the abstract
  write \<open>write_at\<close>, a write succeeds exactly when the free blocks can take the data, what was written
  survives the loss of a disk under RAID 5, how many bytes a read reports, what large blocks do to a
  write, and what deleting a file gives back.
\<close>

section \<open>The mounted file system\<close>

text \<open>The abstract write: the file is cut at the offset and ends with the data.\<close>

definition write_at :: "nat \<Rightarrow> byte list \<Rightarrow> byte list \<Rightarrow> byte list" where
  "write_at p buf data = take p data @ buf"

definition small_fs :: "coding_layer \<Rightarrow> nat \<Rightarrow> fsys \<Rightarrow> bool" where
  "small_fs L B s \<longleftrightarrow> coding s = L \<and> disk_block_size (nc s) = int B \<and> 4 \<le> B \<and> B \<le> 4096 \<and>
     usebigblock s = 0 \<and> sysblocksize s = 4096"

definition raid0_fs :: "nat \<Rightarrow> fsys \<Rightarrow> bool" where
  "raid0_fs B s \<longleftrightarrow> small_fs Coding4Raid0 B s \<and> raid0_inv (nc s)"

definition raid5_fs :: "nat \<Rightarrow> fsys \<Rightarrow> bool" where
  "raid5_fs B s \<longleftrightarrow> small_fs Coding4Raid5 B s \<and> raid5_inv (nc s)"

definition raid0_file :: "fsys \<Rightarrow> int \<Rightarrow> byte list \<Rightarrow> bool" where
  "raid0_file = file_content (owned taken raid0_stored)"

definition raid5_file :: "fsys \<Rightarrow> int \<Rightarrow> byte list \<Rightarrow> bool" where
  "raid5_file = file_content (owned raid5_taken raid5_stored)"

lemma small_fs_kept:
  assumes "small_fs L B s" "coding s' = L" "disk_block_size (nc s') = int B" "others_kept st fh s s'"
  shows "small_fs L B s'"
  using assms by (simp add: small_fs_def others_kept_def)

lemma raid5_write_ok:
  assumes "raid5_fs B s" "fileInfoPath s fh \<noteq> []" "raid5_file s fh data" "k * B \<le> length data"
    and "buf \<noteq> []" "k * B + length buf \<le> 2 ^ 30 - 8"
  obtains r s' j where "ncfs_write path buf (int (length buf)) (int (k * B)) fh s = Some (r, s')" "raid5_fs B s'"
    "raid5_file s' fh (if j = 0 then data else write_at (k * B) (take j buf) data)"
    "others_kept (owned raid5_taken raid5_stored) fh s s'"
    "r = - ENOSPC \<and> j < length buf \<and> raid5_room (nc s) * B < length buf \<or>
     r = int (length buf) \<and> j = length buf \<and> length buf \<le> raid5_room (nc s) * B"
proof -
  have f: "small_fs Coding4Raid5 B s" and g: "coding s = Coding4Raid5" "raid5_inv (nc s)"
    "disk_block_size (nc s) = int B" "4 \<le> B" "B \<le> 4096" "usebigblock s = 0" "sysblocksize s = 4096"
    using assms(1) by (simp_all add: raid5_fs_def small_fs_def)
  have l: "0 < length buf" using assms(5) by simp
  obtain r s' j where r: "ncfs_write path buf (int (length buf)) (int (k * B)) fh s = Some (r, s')"
    "coding s' = Coding4Raid5" "raid5_inv (nc s')" "disk_block_size (nc s') = int B"
    "others_kept (owned raid5_taken raid5_stored) fh s s'"
    "raid5_file s' fh (if j = 0 then data else take (k * B) data @ take j buf)"
    "r = - ENOSPC \<and> j < length buf \<and> raid5_room (nc s) * B < length buf \<or>
     r = int (length buf) \<and> j = length buf \<and> length buf \<le> raid5_room (nc s) * B"
    using raid5.ncfs_write_ok [OF g assms(2) assms(3) [unfolded raid5_file_def] assms(4) refl l assms(6),
        of path, folded raid5_file_def] by blast
  have "raid5_fs B s'" using small_fs_kept [OF f r(2,4,5)] r(3) by (simp add: raid5_fs_def)
  then show ?thesis by (rule that [OF r(1) _ _ r(5,7)]) (use r(6) in \<open>simp only: write_at_def\<close>)
qed

text \<open>
  C2: Writing to a file at a block boundary refines the abstract write. \<open>ncfs_write\<close> comes to an end on
  every RAID 5 array in order; it reports the number of bytes and the file is the old one, cut at the
  offset, followed by the data, or it reports a full disk and a part of the data that could still be
  stored follows. The array is in order again, and no other file changes.
\<close>

theorem raid5_write_refines:
  assumes "raid5_fs B s" "fileInfoPath s fh \<noteq> []" "raid5_file s fh data" "k * B \<le> length data"
    and "buf \<noteq> []" "k * B + length buf \<le> 2 ^ 30 - 8"
  shows "\<exists>r s' j. ncfs_write path buf (int (length buf)) (int (k * B)) fh s = Some (r, s') \<and>
    raid5_fs B s' \<and>
    (r = int (length buf) \<and> j = length buf \<or> r = - ENOSPC \<and> j < length buf) \<and>
    raid5_file s' fh (if j = 0 then data else write_at (k * B) (take j buf) data) \<and>
    (\<forall>g old. raid5_file s g old \<longrightarrow> fileInfoPath s g \<noteq> fileInfoPath s fh \<longrightarrow> raid5_file s' g old)"
proof -
  obtain r s' j where w: "ncfs_write path buf (int (length buf)) (int (k * B)) fh s = Some (r, s')" "raid5_fs B s'"
    "raid5_file s' fh (if j = 0 then data else write_at (k * B) (take j buf) data)"
    "others_kept (owned raid5_taken raid5_stored) fh s s'"
    "r = - ENOSPC \<and> j < length buf \<and> raid5_room (nc s) * B < length buf \<or>
     r = int (length buf) \<and> j = length buf \<and> length buf \<le> raid5_room (nc s) * B"
    by (rule raid5_write_ok [OF assms])
  show ?thesis using w file_content_kept [OF w(4), folded raid5_file_def] by blast
qed

text \<open>An empty file on an empty array.\<close>

definition sample_fs :: "coding_layer \<Rightarrow> sys \<Rightarrow> fsys" where
  "sample_fs L t = \<lparr>nc = t, coding = L, rootdir = ''/r'', hfiles = (\<lambda>p. if p = ''/r/f'' then Some [] else None),
     fileInfoPath = (\<lambda>i. if i = 3 then ''/r/f'' else []), usebigblock = 0, bigblocksize = disk_block_size t,
     sysblocksize = 4096, bigtempbuf = [], bigtempbuf_maxcount = 0, bigtempbuf_counter = 0, errno = 0\<rparr>"

lemma sample_empty: "file_content st (sample_fs L t) 3 []"
  by (auto simp: file_content_def sample_fs_def file_blocks_def intro!: exI [of _ "[]"])

lemma sample_raid5: "raid5_fs 4 (sample_fs Coding4Raid5 (fresh_array 5 3 2 4 2))"
proof -
  let ?t = "fresh_array 5 3 2 4 2"
  have a: "array_ok 2 ?t" by (rule array_ok_fresh) simp_all
  have f: "disk_size ?t 0 = 2" "disk_block_size ?t = 4" "disk_total_num ?t = 3" "space_list_head ?t = []"
    "operation_mode ?t = 0" "disk_raid_type ?t = 5" "tight ?t"
    by (simp_all add: fresh_array_def zero_state_def tight_def list_all_iff)
  have "raid5_inv ?t" unfolding raid5_inv_def f
    using a alloc_ok_fresh xor_parity_fresh [of 3 2 4 5 2] f(7) by auto
  then show ?thesis using f by (simp add: raid5_fs_def small_fs_def sample_fs_def)
qed

theorem raid5_write_refines_witness:
  "\<exists>r s' j. ncfs_write ''/f'' [1, 2, 3, 4, 5, 6] 6 0 3 (sample_fs Coding4Raid5 (fresh_array 5 3 2 4 2)) = Some (r, s') \<and>
     raid5_fs 4 s' \<and> (r = 6 \<and> j = 6 \<or> r = - ENOSPC \<and> j < (6::nat)) \<and>
     raid5_file s' 3 (if j = 0 then [] else write_at 0 (take j [1, 2, 3, 4, 5, 6]) []) \<and>
     (\<forall>g old. raid5_file (sample_fs Coding4Raid5 (fresh_array 5 3 2 4 2)) g old \<longrightarrow> g \<noteq> 3 \<longrightarrow> raid5_file s' g old)"
proof -
  have p: "fileInfoPath (sample_fs Coding4Raid5 (fresh_array 5 3 2 4 2)) 3 \<noteq> []" by (simp add: sample_fs_def)
  have f: "raid5_file (sample_fs Coding4Raid5 (fresh_array 5 3 2 4 2)) 3 []"
    unfolding raid5_file_def by (rule sample_empty)
  have q: "fileInfoPath (sample_fs L t) g \<noteq> fileInfoPath (sample_fs L t) 3 \<longleftrightarrow> g \<noteq> 3" for L t g
    by (simp add: sample_fs_def)
  have l: "length [1, 2, 3, 4, 5, 6::byte] = 6" by simp
  show ?thesis
    using raid5_write_refines [OF sample_raid5 p f, of 0 "[1, 2, 3, 4, 5, 6]" "''/f''",
        unfolded q l mult_0 of_nat_0 of_nat_numeral] by simp
qed

section \<open>A file and a lost disk\<close>

lemma raid5_failed_mode:
  assumes "raid5_inv s" "0 \<le> f" "f < disk_total_num s"
  shows "operation_mode (fail_disk f s) = 1"
proof -
  have st: "disk_status s i = 0" if "0 \<le> i" "i < disk_total_num s" for i
    using assms(1) that by (auto simp: raid5_inv_def array_ok_def list_all_iff)
  have "filter (\<lambda>i. ((disk_status s)(f := 1)) i \<noteq> 0) (disk_ids s) = filter ((=) f) (disk_ids s)"
    by (rule filter_cong [OF refl]) (use st in auto)
  then have "length (filter (\<lambda>i. ((disk_status s)(f := 1)) i \<noteq> 0) (disk_ids s)) = 1"
    using assms(2,3) count_distinct [of "disk_ids s" f] by (simp add: count_list_eq_length_filter)
  then show ?thesis
    using assms st [OF assms(2,3)]
    by (simp add: fail_disk_def set_device_status_def get_operation_mode_def put_device_def raid5_inv_def
        mode_of_def count_failed_def)
qed

lemma raid5_stored_failed:
  assumes "raid5_inv s" "0 \<le> f" "f < disk_total_num s" "raid5_stored s d b x"
  shows "raid5_stored (fail_disk f s) d b x"
  using assms raid5_stored_healthy [OF assms(1)] by (auto simp: raid5_stored_def)

text \<open>The blocks of a file are at least as long as the file.\<close>

lemma file_content_read:
  assumes "file_content st s fid data" "p + z \<le> length data"
    and "\<And>d b x. st (nc s) d b x \<Longrightarrow> st' (nc t) d b x"
    and "hfiles t (fileInfoPath t fid) = hfiles s (fileInfoPath s fid)"
    and "\<And>d b x. st (nc s) d b x \<Longrightarrow> length x = B"
  obtains xs where "file_blocks st' t fid xs" "p + z \<le> length xs * B"
    "take z (drop p (concat xs)) = take z (drop p data)"
proof -
  obtain xs where xs: "file_blocks st s fid xs" "length data \<le> length (concat xs)"
    "data = take (length data) (concat xs)"
    using assms(1) unfolding file_content_def by blast
  have len: "length x = B" if x: "x \<in> set xs" for x
  proof -
    obtain j where j: "j < length xs" "x = xs ! j" using x unfolding in_set_conv_nth by blast
    obtain d b where "st (nc s) d b (xs ! j)" by (rule file_blocksD [OF xs(1) j(1)])
    then show ?thesis using assms(5) j(2) by blast
  qed
  have "length (concat xs) = length xs * B" by (rule length_concat_blocks [OF len])
  then have "p + z \<le> length xs * B" using assms(2) xs(2) by linarith
  moreover have "take z (drop p data) = take z (drop p (concat xs))"
    by (subst xs(3)) (rule take_drop_take [OF assms(2)])
  moreover have "file_blocks st' t fid xs" by (rule file_blocks_mono [OF xs(1) assms(4)]) (rule assms(3))
  ultimately show ?thesis using that by metis
qed

text \<open>The number of bytes \<open>ncfs_read\<close> reports: the blocks between the first and the last are not counted.\<close>

definition told :: "nat \<Rightarrow> nat \<Rightarrow> nat \<Rightarrow> nat" where
  "told B p z = z - ((p + z - 1) div B - p div B - 1) * B"

definition lose_disk :: "int \<Rightarrow> fsys \<Rightarrow> fsys" where
  "lose_disk f s = s\<lparr>nc := fail_disk f (nc s)\<rparr>"

lemma raid5_lost_read:
  assumes "raid5_fs B s" "raid5_file s fh data" "0 \<le> f" "f < disk_total_num (nc s)"
    and "0 < z" "p + z \<le> length data" "4 dvd p" "4 dvd z" "length out = z" "z < 2 ^ 31"
  shows "\<exists>out'. ncfs_read path out (int z) (int p) fh (lose_disk f s) = Some (int (told B p z), out', lose_disk f s) \<and>
    take z out' = take z (drop p data)"
proof -
  let ?t = "lose_disk f s"
  have g: "coding s = Coding4Raid5" "raid5_inv (nc s)" "disk_block_size (nc s) = int B" "4 \<le> B" "B \<le> 4096"
    "usebigblock s = 0"
    using assms(1) by (simp_all add: raid5_fs_def small_fs_def)
  have B4: "4 dvd B"
  proof -
    have "4 dvd int B" using g(2,3) by (simp add: raid5_inv_def array_ok_def)
    then show ?thesis by presburger
  qed
  obtain xs where xs: "file_blocks raid5_stored ?t fh xs" "p + z \<le> length xs * B"
    "take z (drop p (concat xs)) = take z (drop p data)"
  proof (rule file_content_read [OF assms(2) [unfolded raid5_file_def] assms(6)])
    show "raid5_stored (nc ?t) d b x" if "owned raid5_taken raid5_stored (nc s) d b x" for d b x
      using that raid5_stored_failed [OF g(2) assms(3,4)] by (simp add: owned_def lose_disk_def)
    show "hfiles ?t (fileInfoPath ?t fh) = hfiles s (fileInfoPath s fh)" by (simp add: lose_disk_def)
    show "length x = B" if "owned raid5_taken raid5_stored (nc s) d b x" for d b x
    proof -
      have "int (length x) = int B" using that raid5.stored_len g(3) by (metis owned_def)
      then show ?thesis by (simp only: of_nat_eq_iff)
    qed
  qed
  have t: "coding ?t = Coding4Raid5" "disk_block_size (nc ?t) = int B" "operation_mode (nc ?t) \<noteq> 2"
    "usebigblock ?t = 0" "0 < B" "B < 2 ^ 31"
    using g fail_disk_fields(2) [OF assms(3,4)] raid5_failed_mode [OF g(2) assms(3,4)] by (simp_all add: lose_disk_def)
  show ?thesis
    using raid5.ncfs_read_ok [OF t(1,2) xs(1) t(5) B4 assms(5) xs(2) assms(7-9) t(3,4,6) assms(10), of path] xs(3)
    unfolding told_def by auto
qed

text \<open>
  C1: What was written to a file survives the loss of any one disk. When the free blocks of a RAID 5
  array can take the data, \<open>ncfs_write\<close> reports all of it; then any disk may break, and \<open>ncfs_read\<close>
  of any range of the file (in units of four bytes, the width the parity is computed with) still puts
  the bytes of the abstract file into the caller's buffer.
\<close>

theorem raid5_file_survives:
  assumes "raid5_fs B s" "fileInfoPath s fh \<noteq> []" "raid5_file s fh data" "k * B \<le> length data"
    and "buf \<noteq> []" "k * B + length buf \<le> 2 ^ 30 - 8" "length buf \<le> raid5_room (nc s) * B"
    and "0 < z" "p + z \<le> k * B + length buf" "4 dvd p" "4 dvd z" "length out = z"
  shows "\<exists>s'. ncfs_write path buf (int (length buf)) (int (k * B)) fh s = Some (int (length buf), s') \<and>
    (\<forall>f. 0 \<le> f \<and> f < disk_total_num (nc s') \<longrightarrow>
      (\<exists>out'. ncfs_read path out (int z) (int p) fh (lose_disk f s') =
         Some (int (told B p z), out', lose_disk f s') \<and>
       take z out' = take z (drop p (write_at (k * B) buf data))))"
proof -
  obtain r s' j where w: "ncfs_write path buf (int (length buf)) (int (k * B)) fh s = Some (r, s')" "raid5_fs B s'"
    "raid5_file s' fh (if j = 0 then data else write_at (k * B) (take j buf) data)"
    "r = - ENOSPC \<and> j < length buf \<and> raid5_room (nc s) * B < length buf \<or>
     r = int (length buf) \<and> j = length buf \<and> length buf \<le> raid5_room (nc s) * B"
    by (rule raid5_write_ok [OF assms(1-6)])
  have r: "r = int (length buf)" "j = length buf" using w(4) assms(7) by auto
  then have f: "raid5_file s' fh (write_at (k * B) buf data)" using w(3) assms(5) by simp
  have l: "p + z \<le> length (write_at (k * B) buf data)" using assms(4,9) by (simp add: write_at_def)
  have z: "z < 2 ^ 31" using assms(6,9) by simp
  show ?thesis
    using w(1) raid5_lost_read [OF w(2) f _ _ assms(8) l assms(10-12) z, of _ path] unfolding r(1) by blast
qed

theorem raid5_file_survives_witness:
  "\<exists>s'. ncfs_write ''/f'' [1, 2, 3, 4, 5, 6, 7, 8] 8 0 3 (sample_fs Coding4Raid5 (fresh_array 5 3 2 4 2)) = Some (8, s') \<and>
     (\<forall>f. 0 \<le> f \<and> f < disk_total_num (nc s') \<longrightarrow>
       (\<exists>out'. ncfs_read ''/f'' [0, 0, 0, 0] 4 4 3 (lose_disk f s') = Some (4, out', lose_disk f s') \<and>
        take 4 out' = [5, 6, 7, 8]))"
proof -
  let ?s = "sample_fs Coding4Raid5 (fresh_array 5 3 2 4 2)"
  have p: "fileInfoPath ?s 3 \<noteq> []" by (simp add: sample_fs_def)
  have f: "raid5_file ?s 3 []" unfolding raid5_file_def by (rule sample_empty)
  have m: "raid5_room (nc ?s) = 4"
    by (simp add: raid5_room_def room_of_def sample_fs_def fresh_array_def zero_state_def upto.simps
        raid5_parity_disk_def)
  have l: "length [1, 2, 3, 4, 5, 6, 7, 8::byte] = 8" "length [0, 0, 0, 0::byte] = 4" by simp_all
  show ?thesis
    using raid5_file_survives [OF sample_raid5 p f, where k = 0 and buf = "[1, 2, 3, 4, 5, 6, 7, 8]" and z = 4
        and p = 4 and out = "[0, 0, 0, 0]" and path = "''/f''", unfolded m l mult_0 of_nat_0 of_nat_numeral]
    by (simp add: told_def write_at_def)
qed

section \<open>When a write succeeds, and what a read reports\<close>

definition raid0_room :: "sys \<Rightarrow> nat" where
  "raid0_room = room_of (\<lambda>_ _. True)"

lemma raid0_write_ok:
  assumes "raid0_fs B s" "fileInfoPath s fh \<noteq> []" "raid0_file s fh data" "k * B \<le> length data"
    and "buf \<noteq> []" "k * B + length buf \<le> 2 ^ 30 - 8"
  obtains r s' where "ncfs_write path buf (int (length buf)) (int (k * B)) fh s = Some (r, s')" "raid0_fs B s'"
    "r = - ENOSPC \<and> \<not> length buf \<le> raid0_room (nc s) * B \<or>
     r = int (length buf) \<and> length buf \<le> raid0_room (nc s) * B \<and> raid0_file s' fh (write_at (k * B) buf data)"
proof -
  have f: "small_fs Coding4Raid0 B s" and g: "coding s = Coding4Raid0" "raid0_inv (nc s)"
    "disk_block_size (nc s) = int B" "4 \<le> B" "B \<le> 4096" "usebigblock s = 0" "sysblocksize s = 4096"
    using assms(1) by (simp_all add: raid0_fs_def small_fs_def)
  have l: "0 < length buf" using assms(5) by simp
  obtain r s' j where r: "ncfs_write path buf (int (length buf)) (int (k * B)) fh s = Some (r, s')"
    "coding s' = Coding4Raid0" "raid0_inv (nc s')" "disk_block_size (nc s') = int B"
    "others_kept (owned taken raid0_stored) fh s s'"
    "raid0_file s' fh (if j = 0 then data else take (k * B) data @ take j buf)"
    "r = - ENOSPC \<and> j < length buf \<and> raid0_room (nc s) * B < length buf \<or>
     r = int (length buf) \<and> j = length buf \<and> length buf \<le> raid0_room (nc s) * B"
    using raid0.ncfs_write_ok [OF g assms(2) assms(3) [unfolded raid0_file_def] assms(4) refl l assms(6),
        of path, folded raid0_file_def raid0_room_def] by blast
  have "raid0_fs B s'" using small_fs_kept [OF f r(2,4,5)] r(3) by (simp add: raid0_fs_def)
  moreover have "j = length buf \<Longrightarrow> raid0_file s' fh (write_at (k * B) buf data)"
    using r(6) l by (simp add: write_at_def)
  ultimately show ?thesis using that [OF r(1)] r(7) by (auto simp: not_le)
qed

text \<open>
  C3: On a RAID 0 array in order with blocks of 4 to 4096 bytes, a write of less than 1 GiB at a block boundary
  within the file comes to an end, and it succeeds exactly when there is room: the result is the number
  of bytes if and only if the free blocks can take them, and then the file holds all of the data;
  otherwise it is the error code \<open>ENOSPC\<close>. The array stays in order in both cases.
\<close>

theorem raid0_write_succeeds_iff:
  assumes "raid0_fs B s" "fileInfoPath s fh \<noteq> []" "raid0_file s fh data" "k * B \<le> length data"
    and "buf \<noteq> []" "k * B + length buf \<le> 2 ^ 30 - 8"
  shows "\<exists>r s'. ncfs_write path buf (int (length buf)) (int (k * B)) fh s = Some (r, s') \<and> raid0_fs B s' \<and>
    (r = int (length buf) \<longleftrightarrow> length buf \<le> raid0_room (nc s) * B) \<and>
    (r = int (length buf) \<and> raid0_file s' fh (write_at (k * B) buf data) \<or> r = - ENOSPC)"
proof -
  have e: "- ENOSPC \<noteq> int (length buf)" by (simp add: ENOSPC_def)
  show ?thesis by (rule raid0_write_ok [OF assms, of path]) (use e in metis)
qed

lemma sample_raid0: "raid0_fs 4 (sample_fs Coding4Raid0 (fresh_array 0 2 2 4 2))"
proof -
  let ?t = "fresh_array 0 2 2 4 2"
  have a: "array_ok 2 ?t" by (rule array_ok_fresh) simp_all
  have f: "disk_size ?t 0 = 2" "disk_block_size ?t = 4" "disk_total_num ?t = 2" "space_list_head ?t = []"
    "operation_mode ?t = 0" "tight ?t"
    by (simp_all add: fresh_array_def zero_state_def tight_def list_all_iff)
  have "raid0_inv ?t" unfolding raid0_inv_def f using a alloc_ok_fresh f(6) by auto
  then show ?thesis using f by (simp add: raid0_fs_def small_fs_def sample_fs_def)
qed

theorem raid0_write_succeeds_iff_witness:
  "\<exists>r s'. ncfs_write ''/f'' (replicate 17 7) 17 0 3 (sample_fs Coding4Raid0 (fresh_array 0 2 2 4 2)) = Some (r, s') \<and>
     r = - ENOSPC"
proof -
  let ?s = "sample_fs Coding4Raid0 (fresh_array 0 2 2 4 2)"
  have p: "fileInfoPath ?s 3 \<noteq> []" by (simp add: sample_fs_def)
  have f: "raid0_file ?s 3 []" unfolding raid0_file_def by (rule sample_empty)
  have m: "raid0_room (nc ?s) = 4"
    by (simp add: raid0_room_def room_of_def sample_fs_def fresh_array_def zero_state_def upto.simps)
  show ?thesis
    using raid0_write_succeeds_iff [OF sample_raid0 p f, where k = 0 and buf = "replicate 17 7"
        and path = "''/f''", unfolded m length_replicate mult_0 of_nat_0 of_nat_numeral] by auto
qed

text \<open>
  C36: On a RAID 0 array in order with blocks of 4 to 4096 bytes, \<open>ncfs_read\<close> of a range within the file, whose offset
  and size are multiples of four, puts the bytes of the file into the caller's buffer; but the number
  it reports is the size of the range exactly when the range touches at most two blocks of the file.
  For longer ranges the blocks in the middle are not counted.
\<close>

theorem ncfs_read_count_iff:
  assumes "raid0_fs B s" "raid0_file s fh data"
    and "0 < z" "p + z \<le> length data" "4 dvd p" "4 dvd z" "length out = z" "z < 2 ^ 31"
  shows "\<exists>c out'. ncfs_read path out (int z) (int p) fh s = Some (c, out', s) \<and>
    take z out' = take z (drop p data) \<and>
    (c = int z \<longleftrightarrow> (p + z - 1) div B \<le> p div B + 1)"
proof -
  have g: "coding s = Coding4Raid0" "raid0_inv (nc s)" "disk_block_size (nc s) = int B" "4 \<le> B" "B \<le> 4096"
    "usebigblock s = 0"
    using assms(1) by (simp_all add: raid0_fs_def small_fs_def)
  have B4: "4 dvd B"
  proof -
    have "4 dvd int B" using g(2,3) by (simp add: raid0_inv_def array_ok_def)
    then show ?thesis by presburger
  qed
  obtain xs where xs: "file_blocks raid0_stored s fh xs" "p + z \<le> length xs * B"
    "take z (drop p (concat xs)) = take z (drop p data)"
  proof (rule file_content_read [OF assms(2) [unfolded raid0_file_def] assms(4)])
    show "raid0_stored (nc s) d b x" if "owned taken raid0_stored (nc s) d b x" for d b x
      using that by (simp add: owned_def)
    show "hfiles s (fileInfoPath s fh) = hfiles s (fileInfoPath s fh)" ..
    show "length x = B" if "owned taken raid0_stored (nc s) d b x" for d b x
    proof -
      have "int (length x) = int B" using that raid0.stored_len g(3) by (metis owned_def)
      then show ?thesis by (simp only: of_nat_eq_iff)
    qed
  qed
  have t: "0 < B" "B < 2 ^ 31" "operation_mode (nc s) \<noteq> 2"
    using g(4,5) raid0.inv_mode [OF g(2)] by simp_all
  obtain out' where r: "ncfs_read path out (int z) (int p) fh s = Some (int (told B p z), out', s)"
    "take z out' = take z (drop p data)"
    using raid0.ncfs_read_ok [OF g(1,3) xs(1) t(1) B4 assms(3) xs(2) assms(5-7) t(3) g(6) t(2) assms(8), of path] xs(3)
    unfolding told_def by auto
  have "told B p z = z \<longleftrightarrow> (p + z - 1) div B \<le> p div B + 1"
  proof -
    have "(p + z - 1) div B - p div B - 1 = 0 \<longleftrightarrow> (p + z - 1) div B \<le> p div B + 1" by linarith
    moreover have "z - m * B = z \<longleftrightarrow> m = 0" for m
    proof -
      have "z - x = z \<longleftrightarrow> x = 0" for x using assms(3) by linarith
      then show ?thesis using t(1) by (simp only: mult_eq_0_iff) simp
    qed
    ultimately show ?thesis by (simp only: told_def)
  qed
  then show ?thesis using r by auto
qed

theorem ncfs_read_count_iff_witness:
  "\<exists>s' c out'. ncfs_write ''/f'' (replicate 12 7) 12 0 3 (sample_fs Coding4Raid0 (fresh_array 0 2 2 4 2)) = Some (12, s') \<and>
     ncfs_read ''/f'' (zeros 12) 12 0 3 s' = Some (c, out', s') \<and> take 12 out' = replicate 12 7 \<and> c \<noteq> 12"
proof -
  let ?s = "sample_fs Coding4Raid0 (fresh_array 0 2 2 4 2)"
  have p: "fileInfoPath ?s 3 \<noteq> []" by (simp add: sample_fs_def)
  have f: "raid0_file ?s 3 []" unfolding raid0_file_def by (rule sample_empty)
  have m: "raid0_room (nc ?s) = 4"
    by (simp add: raid0_room_def room_of_def sample_fs_def fresh_array_def zero_state_def upto.simps)
  obtain r s' where r: "ncfs_write ''/f'' (replicate 12 7) 12 0 3 ?s = Some (r, s')" "raid0_fs 4 s'"
    "r = 12 \<and> raid0_file s' 3 (write_at 0 (replicate 12 7) [])"
    by (rule raid0_write_ok [OF sample_raid0 p f, where k = 0 and buf = "replicate 12 7"
        and path = "''/f''", unfolded m length_replicate mult_0 of_nat_0 of_nat_numeral]) auto
  then have g: "raid0_file s' 3 (replicate 12 7)" by (simp add: write_at_def)
  show ?thesis
    using ncfs_read_count_iff [OF r(2) g, of 12 0 "zeros 12" "''/f''"] r(1,3) by auto
qed

section \<open>Large blocks\<close>

lemma encode_fields:
  "encode u n s = Some (r, t) \<Longrightarrow> sysblocksize t = sysblocksize s \<and> bigblocksize t = bigblocksize s \<and>
     bigtempbuf_maxcount t = bigtempbuf_maxcount s \<and> hfiles t = hfiles s"
  by (auto simp: encode_def bind_eq_Some_conv)

lemma errno_reset [simp]: "errno (reset_bigtempbuf s) = errno s"
  by (simp add: reset_bigtempbuf_def)

text \<open>
  C38: With blocks of 8192 bytes a write of 4096 bytes to one file is reported as done while nothing is
  stored: neither the array nor any file of block addresses changes. The next write of 4096 bytes, to
  whatever other file, stores one block that holds the bytes of both, and only the other file gets its
  address, as the first block of that file: the first file has lost its data, and the second one begins with it.
\<close>

theorem big_block_mixes_files:
  assumes "usebigblock s = 1" "sysblocksize s = 4096" "bigblocksize s = 8192" "bigtempbuf_maxcount s = 2"
    and "bigtempbuf_counter s = 2" "length (bigtempbuf s) = 8192" "operation_mode (nc s) = 0"
    and "length a = 4096" "length b = 4096"
  shows "\<exists>s1. ncfs_write pa a 4096 0 fa s = Some (4096, s1) \<and> nc s1 = nc s \<and> hfiles s1 = hfiles s \<and>
    ncfs_write pb b 4096 0 fb s1 =
      Option.bind (encode (a @ b) 8192 (s\<lparr>bigtempbuf := a @ b, bigtempbuf_counter := 0\<rparr>)) (\<lambda>(info, t).
        if bi_disk_id info = -1 then Some (- ENOSPC, t)
        else Option.bind (put_block_info fb 4096 8 info t) (\<lambda>(r, u).
          Some (if r < 0 then - errno u else 4096, reset_bigtempbuf u)))"
proof -
  have "ncfs_write pa a 4096 0 fa s =
      Some (4096, s\<lparr>bigtempbuf := overwrite (bigtempbuf s) 0 a, bigtempbuf_counter := 1\<rparr>)"
    using assms by (simp add: ncfs_write_def write_big_single_def fill_bigtempbuf_def size_t_def Let_def)
  moreover
  let ?u = "s\<lparr>bigtempbuf := a @ b, bigtempbuf_counter := 0\<rparr>"
  have "overwrite (overwrite (bigtempbuf s) 0 a) 4096 b = a @ b"
    using assms(6,8,9) by (simp add: overwrite_def)
  then have "ncfs_write pb b 4096 0 fb (s\<lparr>bigtempbuf := overwrite (bigtempbuf s) 0 a, bigtempbuf_counter := 1\<rparr>) =
      Option.bind (encode (a @ b) 8192 ?u) (\<lambda>(info, t).
        if bi_disk_id info = -1 then Some (- ENOSPC, t)
        else Option.bind (put_block_info fb 4096 8 info t) (\<lambda>(r, u).
          Some (if r < 0 then - errno u else 4096, reset_bigtempbuf u)))"
  proof (cases "encode (a @ b) 8192 ?u")
    case None
    then show ?thesis
      using assms \<open>overwrite (overwrite (bigtempbuf s) 0 a) 4096 b = a @ b\<close>
      by (simp add: ncfs_write_def write_big_single_def fill_bigtempbuf_def size_t_def Let_def)
  next
    case (Some v)
    obtain info t where v: "v = (info, t)" by fastforce
    note f = encode_fields [OF Some [unfolded v]]
    have "i32 (8192 - (bigblocksize t - sysblocksize t)) = 4096" "addr_offset 0 (bigblocksize t) = 8"
      using f assms(2,3) by (simp_all add: addr_offset_def i32_def)
    then show ?thesis
      using assms \<open>overwrite (overwrite (bigtempbuf s) 0 a) 4096 b = a @ b\<close> Some v
      by (cases "put_block_info fb 4096 8 info t")
        (auto simp: ncfs_write_def write_big_single_def fill_bigtempbuf_def size_t_def Let_def)
  qed
  ultimately show ?thesis
    by (intro exI [of _ "s\<lparr>bigtempbuf := overwrite (bigtempbuf s) 0 a, bigtempbuf_counter := 1\<rparr>"]) simp
qed

theorem big_block_mixes_files_witness:
  "\<exists>s1. let s = (sample_fs Coding4Raid0 (fresh_array 0 2 2 8192 2))\<lparr>usebigblock := 1,
      bigtempbuf := zeros 8192, bigtempbuf_maxcount := 2, bigtempbuf_counter := 2\<rparr> in
    ncfs_write ''/f'' (replicate 4096 7) 4096 0 3 s = Some (4096, s1) \<and> nc s1 = nc s \<and> hfiles s1 = hfiles s \<and>
    ncfs_write ''/g'' (replicate 4096 8) 4096 0 4 s1 =
      Option.bind (encode (replicate 4096 7 @ replicate 4096 8) 8192
         (s\<lparr>bigtempbuf := replicate 4096 7 @ replicate 4096 8, bigtempbuf_counter := 0\<rparr>)) (\<lambda>(info, t).
        if bi_disk_id info = -1 then Some (- ENOSPC, t)
        else Option.bind (put_block_info 4 4096 8 info t) (\<lambda>(r, u).
          Some (if r < 0 then - errno u else 4096, reset_bigtempbuf u)))"
  unfolding Let_def
  by (rule big_block_mixes_files) (simp_all add: sample_fs_def fresh_array_def zero_state_def)

section \<open>Deleting a file\<close>

text \<open>The file of block addresses of a file of \<open>sz\<close> bytes whose blocks are \<open>bs\<close>.\<close>

definition lists_blocks :: "file_data \<Rightarrow> nat \<Rightarrow> space_node list \<Rightarrow> bool" where
  "lists_blocks f sz bs \<longleftrightarrow> holds_at f 0 (bytes_of_int (int sz)) \<and>
     list_all (\<lambda>i. holds_at f (8 * (i + 1)) (node_bytes (bs ! i)) \<and> i32 (fst (bs ! i)) = fst (bs ! i) \<and>
       i32 (snd (bs ! i)) = snd (bs ! i)) [0..<length bs]"

lemma mset_space_insert [simp]: "mset (space_insert d b xs) = add_mset (d, b) (mset xs)"
  by (induction d b xs rule: space_insert.induct) auto

text \<open>The state with more deleted blocks.\<close>

definition freed :: "space_node list \<Rightarrow> fsys \<Rightarrow> fsys \<Rightarrow> bool" where
  "freed bs s s' \<longleftrightarrow> (\<exists>h n. s' = s\<lparr>nc := (nc s)\<lparr>space_list_head := h, space_list_num := n\<rparr>\<rparr> \<and>
     mset h = mset (space_list_head (nc s)) + mset bs) \<and> (space_num_ok (nc s) \<longrightarrow> space_num_ok (nc s'))"

lemma freed_step:
  assumes "freed bs (s\<lparr>nc := snd (space_list_add d b (nc s))\<rparr>) s'"
  shows "freed ((d, b) # bs) s s'"
proof -
  let ?t = "snd (space_list_add d b (nc s))"
  obtain h n where h: "s' = s\<lparr>nc := ?t\<lparr>space_list_head := h, space_list_num := n\<rparr>\<rparr>"
    "mset h = mset (space_list_head ?t) + mset bs" "space_num_ok ?t \<longrightarrow> space_num_ok (nc s')"
    using assms by (auto simp: freed_def)
  have "?t\<lparr>space_list_head := h, space_list_num := n\<rparr> = (nc s)\<lparr>space_list_head := h, space_list_num := n\<rparr>"
    "mset (space_list_head ?t) = add_mset (d, b) (mset (space_list_head (nc s)))"
    by (simp_all add: space_list_add_def Let_def)
  then show ?thesis using h space_num_ok_add [of "nc s" d b] unfolding freed_def by auto
qed

lemma free_blocks_ok:
  assumes "hfiles s (fileInfoPath s fd) = Some f" "lists_blocks f sz bs" "8 * (int (length bs) + 1) < 2 ^ 31"
    and "\<And>i. i \<in> set is \<Longrightarrow> i < length bs" "length v = 8"
  shows "\<exists>s'. free_blocks fd (map int is) v s = Some s' \<and> freed (map (\<lambda>i. bs ! i) is) s s'"
  using assms(1,4,5)
proof (induction "is" arbitrary: s v)
  case Nil
  have "s = s\<lparr>nc := (nc s)\<lparr>space_list_head := space_list_head (nc s), space_list_num := space_list_num (nc s)\<rparr>\<rparr>"
    by simp
  then have "freed [] s s" unfolding freed_def by (metis add.right_neutral mset.simps(1))
  then show ?case by simp
next
  case (Cons i "is")
  have i: "i < length bs" using Cons.prems(2) by simp
  then have e: "holds_at f (8 * (i + 1)) (node_bytes (bs ! i))" "i32 (fst (bs ! i)) = fst (bs ! i)"
    "i32 (snd (bs ! i)) = snd (bs ! i)" using assms(2) by (simp_all add: lists_blocks_def list_all_iff)
  have a: "i32 (8 * (int i + 1)) = int (8 * (i + 1))" using i assms(3) by (subst i32_id) auto
  have r: "file_read v (int (8 * (i + 1))) f = (8, node_bytes (bs ! i))"
    using file_read_holds [OF e(1), of v] Cons.prems(3) by (simp add: node_bytes_def)
  let ?s = "s\<lparr>nc := snd (space_list_add (fst (bs ! i)) (snd (bs ! i)) (nc s))\<rparr>"
  obtain s' where s': "free_blocks fd (map int is) (node_bytes (bs ! i)) ?s = Some s'"
    "freed (map (\<lambda>i. bs ! i) is) ?s s'"
    using Cons.IH [of ?s "node_bytes (bs ! i)"] Cons.prems(1,2) by (auto simp: node_bytes_def)
  have "free_blocks fd (map int (i # is)) v s = Some s'"
    using s'(1) e(2,3) unfolding list.map free_blocks.simps readFileInfo_def Cons.prems(1) a option.case r
      bind.bind_lunit prod.case Let_def bytes_node_bytes
    by (cases "space_list_add (fst (bs ! i)) (snd (bs ! i)) (nc s)") simp
  moreover have "freed (bs ! i # map (\<lambda>i. bs ! i) is) s s'" using freed_step [OF s'(2)] by simp
  ultimately show ?case by simp
qed

text \<open>
  C5: Deleting a file gives back exactly its blocks: \<open>ncfs_unlink\<close> reports success, the list of deleted
  blocks gains the blocks that hold a part of the file and no others, the counter of the list stays in
  step, the file of addresses is gone, and no other file and nothing else of the array changes.
\<close>

theorem unlink_frees_blocks:
  assumes "hfiles s (ncfs_fullpath path s) = Some f" "disk_block_size (nc s) = int B" "4 \<le> B"
    and "lists_blocks f sz bs" "length bs = (sz + B - 1) div B" "sz \<le> 2 ^ 30 - 16"
  shows "\<exists>s'. ncfs_unlink path fd s = Some (0, s') \<and>
    mset (space_list_head (nc s')) = mset (space_list_head (nc s)) + mset bs \<and>
    (space_num_ok (nc s) \<longrightarrow> space_num_ok (nc s')) \<and>
    hfiles s' = (hfiles s)(ncfs_fullpath path s := None) \<and>
    (nc s')\<lparr>space_list_head := [], space_list_num := 0\<rparr> = (nc s)\<lparr>space_list_head := [], space_list_num := 0\<rparr>"
proof -
  let ?t = "createFileInfo (ncfs_fullpath path s) fd s"
  have t: "hfiles ?t (fileInfoPath ?t fd) = Some f" "nc ?t = nc s" "hfiles ?t = hfiles s"
    using assms(1) by (simp_all add: createFileInfo_def)
  have z: "i32 (int sz) = int sz" by (rule i32_id) (use assms(6) in auto)
  have "holds_at f 0 (bytes_of_int (int sz))" using assms(4) by (simp add: lists_blocks_def)
  from file_read_holds [OF this, of "malloc (heap_junk (nc s)) 4"]
  have r: "readFileInfo fd (malloc (heap_junk (nc s)) 4) 0 ?t = Some (4, bytes_of_int (int sz))"
    using t(1) by (simp add: readFileInfo_def)
  have b0: "0 < B" using assms(3) by simp
  have n: "(if int sz smod int B > 0 then int sz sdiv int B + 1 else int sz sdiv int B) = int (length bs)"
  proof -
    have d: "int sz sdiv int B = int (sz div B)" "int sz smod int B = int (sz mod B)"
      by (simp_all add: zdiv_int zmod_int)
    have "(sz + B - 1) div B = (if sz mod B > 0 then sz div B + 1 else sz div B)"
    proof -
      have "sz + B - 1 = sz div B * B + (sz mod B + B - 1)" using b0 by simp
      then have "(sz + B - 1) div B = sz div B + (sz mod B + B - 1) div B"
        by (metis div_mult_self3 b0 neq0_conv)
      moreover have "(sz mod B + B - 1) div B = (if sz mod B > 0 then 1 else 0)"
      proof (cases "sz mod B > 0")
        case True
        then have e: "sz mod B + B - 1 = 1 * B + (sz mod B - 1)" by simp
        have "(sz mod B - 1) div B = 0" using b0 by (intro div_less) (meson less_imp_diff_less mod_less_divisor)
        then have "(1 * B + (sz mod B - 1)) div B = 1" using b0 div_mult_self3 [of B 1 "sz mod B - 1"] by simp
        then show ?thesis unfolding e using True by simp
      qed (use b0 in simp)
      ultimately show ?thesis by simp
    qed
    then show ?thesis unfolding d assms(5) by simp
  qed
  have "length bs * B \<le> sz + B - 1" unfolding assms(5) by (rule div_times_less_eq_dividend)
  then have "(length bs - 1) * B \<le> sz" using b0 by (simp add: diff_mult_distrib)
  moreover have "(length bs - 1) * 4 \<le> (length bs - 1) * B" by (rule mult_le_mono2 [OF assms(3)])
  ultimately have "(length bs - 1) * 4 \<le> sz" by (rule order_trans [rotated])
  moreover have "sz \<le> 1073741808" using assms(6) by simp
  ultimately have "length bs \<le> 268435453" by linarith
  then have l: "8 * (int (length bs) + 1) < 2 ^ 31" by simp
  have m: "[0..int (length bs) - 1] = map int [0..<length bs]"
    by (rule nth_equalityI) simp_all
  obtain u where u: "free_blocks fd [0..int (length bs) - 1] (malloc (heap_junk (nc s)) 8) ?t = Some u"
    "freed bs ?t u"
    using free_blocks_ok [OF t(1) assms(4) l, of "[0..<length bs]" "malloc (heap_junk (nc s)) 8"]
    unfolding m map_nth by auto
  have "ncfs_unlink path fd s = Some (0, u\<lparr>hfiles := (hfiles u)(ncfs_fullpath path s := None)\<rparr>)"
    unfolding ncfs_unlink_def Let_def r bind.bind_lunit prod.case int_of_bytes_of_int [of _ "[]", simplified] z t(2)
      assms(2) n u(1) ..
  then show ?thesis using u(2) t(2,3) by (auto simp: freed_def)
qed

theorem unlink_frees_blocks_witness:
  "\<exists>s'. ncfs_unlink ''/f'' 3 ((sample_fs Coding4Raid5 (fresh_array 5 3 2 4 2))\<lparr>hfiles := (\<lambda>p. if p = ''/r/f''
       then Some (bytes_of_int 6 @ [0, 0, 0, 0] @ node_bytes (0, 0) @ node_bytes (1, 0)) else None)\<rparr>) = Some (0, s') \<and>
     mset (space_list_head (nc s')) = {# (0, 0), (1, 0) #} \<and> hfiles s' ''/r/f'' = None"
proof -
  let ?f = "bytes_of_int 6 @ [0, 0, 0, 0] @ node_bytes (0, 0) @ node_bytes (1, 0)"
  let ?s = "(sample_fs Coding4Raid5 (fresh_array 5 3 2 4 2))\<lparr>hfiles := (\<lambda>p. if p = ''/r/f'' then Some ?f else None)\<rparr>"
  have p: "ncfs_fullpath ''/f'' ?s = ''/r/f''" by (simp add: ncfs_fullpath_def sample_fs_def)
  have h: "hfiles ?s (ncfs_fullpath ''/f'' ?s) = Some ?f" "disk_block_size (nc ?s) = int 4"
    unfolding p by (simp_all add: sample_fs_def)
  have b: "lists_blocks ?f 6 [(0, 0), (1, 0)]"
    by (simp add: lists_blocks_def holds_at_def file_pread_def node_bytes_def i32_def upt_rec)
  have "\<exists>s'. ncfs_unlink ''/f'' 3 ?s = Some (0, s') \<and>
      mset (space_list_head (nc s')) = mset (space_list_head (nc ?s)) + mset [(0, 0), (1, 0)] \<and>
      (space_num_ok (nc ?s) \<longrightarrow> space_num_ok (nc s')) \<and> hfiles s' = (hfiles ?s)(ncfs_fullpath ''/f'' ?s := None) \<and>
      (nc s')\<lparr>space_list_head := [], space_list_num := 0\<rparr> = (nc ?s)\<lparr>space_list_head := [], space_list_num := 0\<rparr>"
    by (rule unlink_frees_blocks [OF h _ b]) simp_all
  moreover have "space_list_head (nc ?s) = []" by (simp add: sample_fs_def fresh_array_def zero_state_def)
  ultimately show ?thesis unfolding p by auto
qed

end
