(* ===== verification/Galois.thy ===== *)
theory Galois
  imports Gf256
begin

text \<open>
  The arithmetic of the library \<open>jerasure\<close> (\<open>jerasure/galois.c\<close>) in the field with 256 elements, the
  only one the coding classes ask for (\<open>w = 8\<close>). The library fills its tables at the first call and keeps
  them; here they are a value \<open>T\<close> that is passed around. It is the field of RAID 6.
\<close>

section \<open>The tables\<close>

record galois =
  log_table :: "int \<Rightarrow> int"
  ilog_table :: "int \<Rightarrow> int"
  mult_table :: "int \<Rightarrow> int"
  div_table :: "int \<Rightarrow> int"

text \<open>The loop over the powers; meeting an element twice ends the process.\<close>

fun galois_log_loop :: "int list \<Rightarrow> int \<Rightarrow> (int \<Rightarrow> int) \<Rightarrow> (int \<Rightarrow> int) \<Rightarrow>
    ((int \<Rightarrow> int) \<times> (int \<Rightarrow> int)) option" where
  "galois_log_loop [] b lt it = Some (lt, it)"
| "galois_log_loop (j # js) b lt it =
     (if lt b \<noteq> 255 then None
      else let lt = lt(b := j); it = it(j := b);
               b = push_bit 1 b;
               b = (if b AND 256 \<noteq> 0 then (b XOR 285) AND 255 else b)
           in galois_log_loop js b lt it)"

text \<open>
  The powers are written three times, and the pointer to the table moves to the second copy, so that sums
  and differences of two logarithms need not be reduced. \<open>junk\<close> is what \<open>malloc\<close> returned.
\<close>

definition galois_create_log_tables :: "galois \<Rightarrow> ((int \<Rightarrow> int) \<times> (int \<Rightarrow> int)) option" where
  "galois_create_log_tables junk =
     (let lt = (\<lambda>j. if 0 \<le> j \<and> j < 256 then 255 else log_table junk j);
          it = (\<lambda>j. if 0 \<le> j \<and> j < 256 then 0 else ilog_table junk j)
      in case galois_log_loop [0..254] 1 lt it of
           None \<Rightarrow> None
         | Some (lt, it) \<Rightarrow>
             let it = foldl (\<lambda>it j. let it = it(j + 255 := it j) in it(j + 255 * 2 := it j)) it [0..254]
             in Some (lt, \<lambda>j. it (j + 255)))"

text \<open>The entry for \<open>x\<close> and \<open>y\<close> is at \<open>256 x + y\<close>.\<close>

definition galois_create_mult_tables :: "galois \<Rightarrow> galois option" where
  "galois_create_mult_tables junk =
     (case galois_create_log_tables junk of
        None \<Rightarrow> None
      | Some (lt, it) \<Rightarrow> Some \<lparr>log_table = lt, ilog_table = it,
          mult_table = (\<lambda>j. if 0 \<le> j \<and> j < 65536 then
             let x = j div 256; y = j mod 256
             in if x = 0 \<or> y = 0 then 0 else it (lt x + lt y) else mult_table junk j),
          div_table = (\<lambda>j. if 0 \<le> j \<and> j < 65536 then
             let x = j div 256; y = j mod 256
             in if y = 0 then -1 else if x = 0 then 0 else it (lt x - lt y) else div_table junk j)\<rparr>)"

definition galois_single_multiply :: "galois \<Rightarrow> int \<Rightarrow> int \<Rightarrow> int" where
  "galois_single_multiply T x y =
     (if x = 0 \<or> y = 0 then 0 else mult_table T (push_bit 8 x OR y))"

definition galois_single_divide :: "galois \<Rightarrow> int \<Rightarrow> int \<Rightarrow> int" where
  "galois_single_divide T a b = div_table T (push_bit 8 a OR b)"

section \<open>The tables hold the field\<close>

lemma log_step:
  assumes "0 \<le> b" "b < 256"
  shows "(let c = push_bit 1 b in if c AND 256 \<noteq> 0 then (c XOR 285) AND 255 else c) =
    uint (xtime (word_of_int b))"
proof -
  have "list_all (\<lambda>b. (let c = push_bit 1 b in if c AND 256 \<noteq> 0 then (c XOR 285) AND 255 else c) =
      uint (xtime (word_of_int b))) [0..255]"
    by code_simp
  then show ?thesis using assms by (simp add: list_all_iff)
qed

lemma galois_log_loop_ok:
  assumes "n + k \<le> 255" "\<And>i. n \<le> i \<Longrightarrow> i < n + k \<Longrightarrow> lt (uint (gpow i)) = 255"
  shows "galois_log_loop [int n..int (n + k) - 1] (uint (gpow n)) lt it = Some
    (\<lambda>x. if \<exists>i. n \<le> i \<and> i < n + k \<and> x = uint (gpow i) then int (glog (word_of_int x)) else lt x,
     \<lambda>j. if int n \<le> j \<and> j < int (n + k) then uint (gpow (nat j)) else it j)"
  using assms
proof (induction k arbitrary: n lt it)
  case 0
  then show ?case by (auto simp: fun_eq_iff)
next
  case (Suc k)
  have u: "[int n..int (n + Suc k) - 1] = int n # [int (Suc n)..int (Suc n + k) - 1]"
    by (subst upto_rec1) (auto simp: add.commute)
  have b: "(let c = push_bit 1 (uint (gpow n)) in if c AND 256 \<noteq> 0 then (c XOR 285) AND 255 else c) =
      uint (gpow (Suc n))"
    using log_step [OF uint_byte, of "gpow n"] by (simp add: gpow_Suc)
  have l: "(lt(uint (gpow n) := int n)) (uint (gpow i)) = 255" if "Suc n \<le> i" "i < Suc n + k" for i
  proof -
    have "gpow i \<noteq> gpow n" using gpow_inj [of i n] that Suc.prems(1) by auto
    then have "uint (gpow i) \<noteq> uint (gpow n)" by (simp add: word_uint_eq_iff)
    then show ?thesis using Suc.prems(2) [of i] that by simp
  qed
  have g: "glog (gpow n) = n" using Suc.prems(1) by (intro glog_gpow) simp
  have f: "lt (uint (gpow n)) = 255" using Suc.prems(2) [of n] by simp
  have le: "Suc n + k \<le> 255" using Suc.prems(1) by simp
  have step: "galois_log_loop (int n # js) (uint (gpow n)) lt it =
      galois_log_loop js (uint (gpow (Suc n))) (lt(uint (gpow n) := int n)) (it(int n := uint (gpow n)))" for js
    using f b by (simp add: Let_def)
  have e1: "(\<lambda>x. if \<exists>i. Suc n \<le> i \<and> i < Suc n + k \<and> x = uint (gpow i) then int (glog (word_of_int x))
        else (lt(uint (gpow n) := int n)) x) =
      (\<lambda>x. if \<exists>i. n \<le> i \<and> i < n + Suc k \<and> x = uint (gpow i) then int (glog (word_of_int x)) else lt x)"
  proof
    fix x
    have ex: "(\<exists>i. n \<le> i \<and> i < n + Suc k \<and> x = uint (gpow i)) \<longleftrightarrow>
        x = uint (gpow n) \<or> (\<exists>i. Suc n \<le> i \<and> i < Suc n + k \<and> x = uint (gpow i))"
    proof -
      have e: "n \<le> i \<and> i < n + Suc k \<and> x = uint (gpow i) \<longleftrightarrow>
          i = n \<and> x = uint (gpow n) \<or> Suc n \<le> i \<and> i < Suc n + k \<and> x = uint (gpow i)" for i
        by (cases "i = n") auto
      show ?thesis by (simp only: e ex_disj_distrib simp_thms)
    qed
    show "(if \<exists>i. Suc n \<le> i \<and> i < Suc n + k \<and> x = uint (gpow i) then int (glog (word_of_int x))
        else (lt(uint (gpow n) := int n)) x) =
      (if \<exists>i. n \<le> i \<and> i < n + Suc k \<and> x = uint (gpow i) then int (glog (word_of_int x)) else lt x)"
      unfolding ex using g by auto
  qed
  have e2: "(\<lambda>j. if int (Suc n) \<le> j \<and> j < int (Suc n + k) then uint (gpow (nat j))
        else (it(int n := uint (gpow n))) j) =
      (\<lambda>j. if int n \<le> j \<and> j < int (n + Suc k) then uint (gpow (nat j)) else it j)"
    by (auto simp: fun_eq_iff)
  show ?case
    unfolding u step
    using Suc.IH [of "Suc n" "lt(uint (gpow n) := int n)" "it(int n := uint (gpow n))", OF le l]
    unfolding e1 e2 .
qed

text \<open>Replicating the powers.\<close>

lemma replicate_powers:
  assumes "n \<le> 255" "\<And>j. 0 \<le> j \<Longrightarrow> j < 255 \<Longrightarrow> it j = g j"
  shows "foldl (\<lambda>it j. let it = it(j + 255 := it j) in it(j + 255 * 2 := it j)) it [0..int n - 1] =
    (\<lambda>j. if 255 \<le> j \<and> j < 255 + int n then g (j - 255)
         else if 510 \<le> j \<and> j < 510 + int n then g (j - 510) else it j)"
  using assms(1)
proof (induction n)
  case 0
  have "(if 255 \<le> j \<and> j < 255 + int 0 then g (j - 255)
      else if 510 \<le> j \<and> j < 510 + int 0 then g (j - 510) else it j) = it j" for j by auto
  then show ?case by simp
next
  case (Suc n)
  have u: "[0..int (Suc n) - 1] = [0..int n - 1] @ [int n]" by (subst upto_rec2) auto
  have g: "it (int n) = g (int n)" using assms(2) Suc.prems by simp
  show ?case unfolding u foldl_append foldl.simps Suc.IH [OF Suc_leD [OF Suc.prems]]
    using Suc.prems g by (auto simp: Let_def fun_eq_iff)
qed

definition galois_ok :: "galois \<Rightarrow> bool" where
  "galois_ok T \<longleftrightarrow> list_all (\<lambda>x. list_all (\<lambda>y.
     (x \<noteq> 0 \<and> y \<noteq> 0 \<longrightarrow> mult_table T (256 * x + y) = uint (gmul (word_of_int x) (word_of_int y))) \<and>
     (y \<noteq> 0 \<longrightarrow> div_table T (256 * x + y) = uint (gdiv (word_of_int x) (word_of_int y)))) [0..255]) [0..255]"

lemma gpow_int:
  assumes "- 255 \<le> e" "e < 510"
  shows "gpow (nat (e mod 255)) = (if e < 0 then gpow (nat (e + 255)) else if e < 255 then gpow (nat e)
    else gpow (nat (e - 255)))"
proof -
  have "e mod 255 = (if e < 0 then e + 255 else if e < 255 then e else e - 255)"
  proof -
    have "e mod 255 = (e + 255) mod 255" "e mod 255 = (e - 255) mod 255" by simp_all
    then show ?thesis using assms by (auto simp: mod_pos_pos_trivial simp del: mod_add_self2 minus_mod_self2)
  qed
  then show ?thesis by simp
qed

lemma galois_log_tables_ok:
  obtains lt it where "galois_create_log_tables junk = Some (lt, it)"
    "\<And>x :: byte. x \<noteq> 0 \<Longrightarrow> lt (uint x) = int (glog x)"
    "\<And>e. - 255 \<le> e \<Longrightarrow> e < 510 \<Longrightarrow> it e = uint (gpow (nat (e mod 255)))"
proof -
  let ?l0 = "\<lambda>j. if 0 \<le> j \<and> j < 256 then 255 else log_table junk j"
  let ?i0 = "\<lambda>j. if 0 \<le> j \<and> j < 256 then 0 else ilog_table junk j"
  let ?l1 = "\<lambda>x. if \<exists>i. 0 \<le> i \<and> i < 0 + 255 \<and> x = uint (gpow i) then int (glog (word_of_int x)) else ?l0 x"
  let ?i1 = "\<lambda>j. if int 0 \<le> j \<and> j < int (0 + 255) then uint (gpow (nat j)) else ?i0 j"
  have "galois_log_loop [int 0..int (0 + 255) - 1] (uint (gpow 0)) ?l0 ?i0 = Some (?l1, ?i1)"
    by (rule galois_log_loop_ok) (use uint_byte in auto)
  then have l: "galois_log_loop [0..254] 1 ?l0 ?i0 = Some (?l1, ?i1)" by (simp add: gpow_0)
  have u: "[0..254] = [0..int 255 - 1]" by simp
  note r = replicate_powers [OF order_refl, of ?i1 "\<lambda>j. uint (gpow (nat j))", folded u]
  let ?i2 = "\<lambda>j. if 255 \<le> j \<and> j < 255 + int 255 then uint (gpow (nat (j - 255)))
     else if 510 \<le> j \<and> j < 510 + int 255 then uint (gpow (nat (j - 510))) else ?i1 j"
  have "galois_create_log_tables junk = Some (?l1, \<lambda>j. ?i2 (j + 255))"
    unfolding galois_create_log_tables_def Let_def l option.case prod.case
    by (subst r [unfolded Let_def]) simp_all
  moreover have "?l1 (uint x) = int (glog x)" if "x \<noteq> 0" for x :: byte
    using gpow_surj [OF that] by auto
  moreover have "?i2 (e + 255) = uint (gpow (nat (e mod 255)))" if "- 255 \<le> e" "e < 510" for e
    using that unfolding gpow_int [OF that] by auto
  ultimately show ?thesis by (rule that)
qed

lemma gpow_of_int:
  assumes "e mod 255 = int k mod 255"
  shows "gpow (nat (e mod 255)) = gpow k"
proof -
  have "nat (e mod 255) = k mod 255" unfolding assms by (metis nat_int of_nat_mod of_nat_numeral)
  then show ?thesis by (simp add: gpow_mod)
qed

lemma galois_tables_ok:
  obtains T where "galois_create_mult_tables junk = Some T" "galois_ok T"
proof -
  obtain lt it where t: "galois_create_log_tables junk = Some (lt, it)"
    "\<And>x :: byte. x \<noteq> 0 \<Longrightarrow> lt (uint x) = int (glog x)"
    "\<And>e. - 255 \<le> e \<Longrightarrow> e < 510 \<Longrightarrow> it e = uint (gpow (nat (e mod 255)))"
    using galois_log_tables_ok [of junk] by blast
  have m: "it (lt (uint x) + lt (uint y)) = uint (gmul x y)" if "x \<noteq> 0" "y \<noteq> 0" for x y :: byte
  proof -
    have l: "glog x < 255" "glog y < 255" using glog that by auto
    have "gpow (nat ((int (glog x) + int (glog y)) mod 255)) = gpow (glog x + glog y)"
      by (rule gpow_of_int) simp
    then show ?thesis using t(2,3) that l by (simp add: gmul_gpow)
  qed
  have d: "it (lt (uint x) - lt (uint y)) = uint (gdiv x y)" if "x \<noteq> 0" "y \<noteq> 0" for x y :: byte
  proof -
    have l: "glog x < 255" "glog y < 255" using glog that by auto
    have "int (glog x + (255 - glog y)) = int (glog x) - int (glog y) + 255" using l by simp
    then have "gpow (nat ((int (glog x) - int (glog y)) mod 255)) = gpow (glog x + (255 - glog y))"
      by (intro gpow_of_int) (simp only: mod_add_self2)
    then show ?thesis using t(2,3) that l by (simp add: gdiv_def)
  qed
  let ?T = "\<lparr>log_table = lt, ilog_table = it,
          mult_table = (\<lambda>j. if 0 \<le> j \<and> j < 65536 then
             let x = j div 256; y = j mod 256
             in if x = 0 \<or> y = 0 then 0 else it (lt x + lt y) else mult_table junk j),
          div_table = (\<lambda>j. if 0 \<le> j \<and> j < 65536 then
             let x = j div 256; y = j mod 256
             in if y = 0 then -1 else if x = 0 then 0 else it (lt x - lt y) else div_table junk j)\<rparr>"
  have "galois_create_mult_tables junk = Some ?T" by (simp add: galois_create_mult_tables_def t(1))
  moreover have "galois_ok ?T"
    unfolding galois_ok_def list_all_iff
  proof (intro ballI conjI impI)
    fix x y :: int assume xy: "x \<in> set [0..255]" "y \<in> set [0..255]"
    then have r: "0 \<le> 256 * x + y" "256 * x + y < 65536" "(256 * x + y) div 256 = x" "(256 * x + y) mod 256 = y"
      by simp_all
    have u: "uint (word_of_int x :: byte) = x" "uint (word_of_int y :: byte) = y"
      using xy by (simp_all add: uint_word_of_int)
    have z: "(word_of_int x :: byte) \<noteq> 0 \<longleftrightarrow> x \<noteq> 0" "(word_of_int y :: byte) \<noteq> 0 \<longleftrightarrow> y \<noteq> 0"
      using u by (metis uint_0_iff)+
    show "mult_table ?T (256 * x + y) = uint (gmul (word_of_int x) (word_of_int y))" if "x \<noteq> 0 \<and> y \<noteq> 0"
      using r that m [of "word_of_int x" "word_of_int y"] z u by simp
    show "div_table ?T (256 * x + y) = uint (gdiv (word_of_int x) (word_of_int y))" if "y \<noteq> 0"
    proof (cases "x = 0")
      case True
      then show ?thesis using r that by (simp add: gdiv_def)
    next
      case False
      then show ?thesis using r that d [of "word_of_int x" "word_of_int y"] z u by simp
    qed
  qed
  ultimately show ?thesis by (rule that)
qed

lemma pair_index:
  assumes "0 \<le> y" "y < 256"
  shows "push_bit 8 x OR y = 256 * x + (y :: int)"
proof -
  have "push_bit 8 x AND y = 0"
  proof (rule bit_eqI)
    fix n
    have "\<not> bit y n" if "8 \<le> n"
    proof -
      have "y = take_bit 8 y" using assms by (simp add: take_bit_int_eq_self)
      then show ?thesis using that by (metis bit_take_bit_iff leD)
    qed
    then show "bit (push_bit 8 x AND y) n = bit 0 n" by (auto simp: bit_simps)
  qed
  from disjunctive_add_eq_or [OF this] show ?thesis by (simp add: push_bit_eq_mult)
qed

lemma galois_multiply_ok:
  assumes "galois_ok T"
  shows "galois_single_multiply T (uint x) (uint y) = uint (gmul x y)"
proof (cases "x = 0 \<or> y = 0")
  case True
  then show ?thesis by (auto simp: galois_single_multiply_def gmul_0)
next
  case False
  have "uint x \<in> set [0..255]" "uint y \<in> set [0..255]" using uint_byte [of x] uint_byte [of y] by simp_all
  then have "mult_table T (256 * uint x + uint y) = uint (gmul x y)"
    using assms False by (simp add: galois_ok_def list_all_iff uint_0_iff)
  then show ?thesis using False uint_byte [of y] by (simp add: galois_single_multiply_def pair_index uint_0_iff)
qed

lemma galois_divide_ok:
  assumes "galois_ok T" "y \<noteq> 0"
  shows "galois_single_divide T (uint x) (uint y) = uint (gdiv x y)"
proof -
  have "uint x \<in> set [0..255]" "uint y \<in> set [0..255]" using uint_byte [of x] uint_byte [of y] by simp_all
  then have "div_table T (256 * uint x + uint y) = uint (gdiv x y)"
    using assms by (simp add: galois_ok_def list_all_iff uint_0_iff)
  then show ?thesis using uint_byte [of y] by (simp add: galois_single_divide_def pair_index)
qed


text \<open>Memory that happens to be zero, for the examples.\<close>

definition no_tables :: galois where
  "no_tables = \<lparr>log_table = \<lambda>_. 0, ilog_table = \<lambda>_. 0, mult_table = \<lambda>_. 0, div_table = \<lambda>_. 0\<rparr>"

text \<open>
  C15: The two implementations of the field agree: whatever the memory held before, the tables of the library
  are made, and multiplication and division with them are those of the RAID 6 class with its own tables.
\<close>

theorem galois_same_field:
  "\<exists>T. galois_create_mult_tables junk = Some T \<and>
    (\<forall>(x :: byte) (y :: byte). galois_single_multiply T (uint x) (uint y) =
       gf_mul (gf_gen_tables junk' field_power) (uint x) (uint y) field_power) \<and>
    (\<forall>(x :: byte) (y :: byte). y \<noteq> 0 \<longrightarrow> galois_single_divide T (uint x) (uint y) =
       gf_div (gf_gen_tables junk' field_power) (uint x) (uint y) field_power)"
proof -
  obtain T where "galois_create_mult_tables junk = Some T" "galois_ok T" by (rule galois_tables_ok)
  then show ?thesis
    using gf_mul_ok [OF gf_gen_tables_ok] gf_div_ok [OF gf_gen_tables_ok] galois_multiply_ok galois_divide_ok
    by auto
qed

theorem galois_same_field_witness:
  "\<exists>T. galois_create_mult_tables no_tables = Some T \<and> galois_single_divide T 6 3 =
     gf_div (gf_gen_tables \<lparr>gflog = \<lambda>_. 0, gfilog = \<lambda>_. 0\<rparr> field_power) 6 3 field_power"
proof -
  obtain T where T: "galois_create_mult_tables no_tables = Some T"
    "\<forall>(x :: byte) (y :: byte). y \<noteq> 0 \<longrightarrow> galois_single_divide T (uint x) (uint y) =
       gf_div (gf_gen_tables \<lparr>gflog = \<lambda>_. 0, gfilog = \<lambda>_. 0\<rparr> field_power) (uint x) (uint y) field_power"
    using galois_same_field [of no_tables "\<lparr>gflog = \<lambda>_. 0, gfilog = \<lambda>_. 0\<rparr>"] by blast
  from T(2) [rule_format, of 3 6] T(1) show ?thesis by simp
qed

end
