(* ===== verification/GfMatrix.thy ===== *)
theory GfMatrix
  imports Gf256
begin

text \<open>
  Linear algebra over the field with 256 elements, as far as the codes built on \<open>jerasure\<close> need it:
  products, the elementary row and column operations, and what they leave of the kernel.
\<close>

section \<open>The field\<close>

lemma gmul_pow: "gmul (gpow i) (gpow j) = gpow (i + j)"
proof -
  have l: "glog (gpow k) = k mod 255" for k using glog_gpow [of "k mod 255"] by (simp add: gpow_mod)
  have "gmul (gpow i) (gpow j) = gpow (i mod 255 + j mod 255)"
    by (simp add: gmul_gpow gpow_nonzero l)
  also have "\<dots> = gpow (i + j)" by (metis gpow_mod mod_add_eq)
  finally show ?thesis .
qed

lemma gmul_assoc: "gmul (gmul a b) c = gmul a (gmul b c)"
proof (cases "a = 0 \<or> b = 0 \<or> c = 0")
  case True
  then show ?thesis by (auto simp: gmul_0)
next
  case False
  then obtain i j k where "a = gpow i" "b = gpow j" "c = gpow k" using gpow_surj by metis
  then show ?thesis by (simp add: gmul_pow add.assoc)
qed

lemma gmul_left_commute: "gmul a (gmul b c) = gmul b (gmul a c)"
  by (simp only: gmul_assoc [symmetric] gmul_commute [of a b])

lemma gmul_1 [simp]: "gmul 1 a = a" "gmul a 1 = a"
proof -
  show "gmul 1 a = a"
  proof (cases "a = 0")
    case False
    then obtain i where "a = gpow i" using gpow_surj by metis
    then show ?thesis using gmul_pow [of 0 i] by (simp add: gpow_0)
  qed (simp add: gmul_0)
  then show "gmul a 1 = a" by (simp add: gmul_commute)
qed

lemma gmul_eq_0 [simp]: "gmul a b = 0 \<longleftrightarrow> a = 0 \<or> b = 0"
  using gmul_nonzero by (auto simp: gmul_0)

lemma gmul_xsum: "gmul c (xsum f xs) = xsum (\<lambda>x. gmul c (f x)) xs"
  by (induction xs) (simp_all add: gmul_0 gmul_xor)

lemma gmul_xsum_left: "gmul (xsum f xs) c = xsum (\<lambda>x. gmul (f x) c) xs"
  by (induction xs) (simp_all add: gmul_0 gmul_xor_left)

lemma gdiv_1: "t \<noteq> 0 \<Longrightarrow> gmul t (gdiv 1 t) = 1" "t \<noteq> 0 \<Longrightarrow> gdiv 1 t \<noteq> 0"
  using gmul_gdiv [of t 1] gmul_0 by force+

section \<open>Matrices\<close>

type_synonym gmat = "int \<Rightarrow> int \<Rightarrow> byte"

definition mvec :: "int \<Rightarrow> gmat \<Rightarrow> (int \<Rightarrow> byte) \<Rightarrow> int \<Rightarrow> byte" where
  "mvec n A x r = xsum (\<lambda>c. gmul (A r c) (x c)) [0..n - 1]"

definition unit :: "int \<Rightarrow> int \<Rightarrow> byte" where
  "unit r c = (if r = c then 1 else 0)"

text \<open>\<open>B\<close> is the product of \<open>V\<close> and \<open>A\<close>, for square matrices.\<close>

definition prod_is :: "int \<Rightarrow> gmat \<Rightarrow> gmat \<Rightarrow> gmat \<Rightarrow> bool" where
  "prod_is n V A B \<longleftrightarrow> (\<forall>r c. 0 \<le> r \<and> r < n \<and> 0 \<le> c \<and> c < n \<longrightarrow>
     xsum (\<lambda>k. gmul (V r k) (A k c)) [0..n - 1] = B r c)"

text \<open>Nothing but zero is mapped to zero by the rows in \<open>R\<close>.\<close>

definition ker0 :: "int \<Rightarrow> gmat \<Rightarrow> int set \<Rightarrow> bool" where
  "ker0 n A R \<longleftrightarrow> (\<forall>x. (\<forall>r \<in> R. mvec n A x r = 0) \<longrightarrow> (\<forall>c. 0 \<le> c \<and> c < n \<longrightarrow> x c = 0))"

lemma ker0D: "ker0 n A R \<Longrightarrow> (\<And>r. r \<in> R \<Longrightarrow> mvec n A x r = 0) \<Longrightarrow> 0 \<le> c \<Longrightarrow> c < n \<Longrightarrow> x c = 0"
  unfolding ker0_def by blast

lemma mvec_cong:
  "(\<And>c. 0 \<le> c \<Longrightarrow> c < n \<Longrightarrow> A r c = B r c) \<Longrightarrow> mvec n A x r = mvec n B x r"
  unfolding mvec_def by (rule xsum_cong) auto

lemma mvec_unit: "0 \<le> r \<Longrightarrow> r < n \<Longrightarrow> mvec n unit x r = x r"
proof -
  assume r: "0 \<le> r" "r < n"
  have "mvec n unit x r = xsum (\<lambda>c. if c = r then x r else 0) [0..n - 1]"
    unfolding mvec_def by (rule xsum_cong) (auto simp: unit_def gmul_0)
  then show ?thesis using r by (simp add: xsum_single)
qed

text \<open>A vector with one entry changed.\<close>

lemma mvec_upd:
  assumes "0 \<le> i" "i < n"
  shows "mvec n A (x(i := x i XOR v)) r = mvec n A x r XOR gmul (A r i) v"
proof -
  have "mvec n A (x(i := x i XOR v)) r =
      xsum (\<lambda>c. gmul (A r c) (x c) XOR (if c = i then gmul (A r i) v else 0)) [0..n - 1]"
    unfolding mvec_def by (rule xsum_cong) (auto simp: gmul_xor)
  then show ?thesis using assms by (simp add: xsum_xor xsum_single mvec_def)
qed

subsection \<open>Row operations\<close>

definition rswap :: "int \<Rightarrow> int \<Rightarrow> gmat \<Rightarrow> gmat" where
  "rswap a b A = (\<lambda>r. if r = a then A b else if r = b then A a else A r)"

definition rscale :: "int \<Rightarrow> byte \<Rightarrow> gmat \<Rightarrow> gmat" where
  "rscale a v A = (\<lambda>r c. if r = a then gmul (A r c) v else A r c)"

definition radd :: "int \<Rightarrow> int \<Rightarrow> byte \<Rightarrow> gmat \<Rightarrow> gmat" where
  "radd d s v A = (\<lambda>r c. if r = d then A d c XOR gmul v (A s c) else A r c)"

lemma prod_rswap:
  assumes "prod_is n V A B" "0 \<le> a" "a < n" "0 \<le> b" "b < n"
  shows "prod_is n (rswap a b V) A (rswap a b B)"
  using assms by (simp add: prod_is_def rswap_def)

lemma prod_rscale:
  assumes "prod_is n V A B"
  shows "prod_is n (rscale a v V) A (rscale a v B)"
proof -
  have "xsum (\<lambda>k. gmul (gmul (V a k) v) (A k c)) xs = gmul (xsum (\<lambda>k. gmul (V a k) (A k c)) xs) v" for c xs
    by (simp add: gmul_xsum_left gmul_assoc gmul_commute [of v])
  then show ?thesis using assms by (simp add: prod_is_def rscale_def)
qed

lemma prod_radd:
  assumes "prod_is n V A B" "0 \<le> s" "s < n"
  shows "prod_is n (radd d s v V) A (radd d s v B)"
proof -
  have "xsum (\<lambda>k. gmul (V d k XOR gmul v (V s k)) (A k c)) xs =
      xsum (\<lambda>k. gmul (V d k) (A k c)) xs XOR gmul v (xsum (\<lambda>k. gmul (V s k) (A k c)) xs)" for c xs
    by (simp add: gmul_xor_left xsum_xor gmul_xsum gmul_assoc)
  then show ?thesis using assms by (simp add: prod_is_def radd_def)
qed

text \<open>What is mapped to zero afterwards was mapped to zero before.\<close>

definition ker_le :: "int \<Rightarrow> gmat \<Rightarrow> gmat \<Rightarrow> bool" where
  "ker_le n B A \<longleftrightarrow> (\<forall>x. (\<forall>r. 0 \<le> r \<and> r < n \<longrightarrow> mvec n B x r = 0) \<longrightarrow> (\<forall>r. 0 \<le> r \<and> r < n \<longrightarrow> mvec n A x r = 0))"

lemma ker_le_refl: "ker_le n A A"
  by (simp add: ker_le_def)

lemma ker_le_trans: "ker_le n C B \<Longrightarrow> ker_le n B A \<Longrightarrow> ker_le n C A"
  by (simp add: ker_le_def)

lemma mvec_rswap: "mvec n (rswap a b A) x r = mvec n A x (if r = a then b else if r = b then a else r)"
  by (simp add: mvec_def rswap_def)

lemma mvec_rscale: "mvec n (rscale a v A) x r = (if r = a then gmul v (mvec n A x r) else mvec n A x r)"
  by (simp add: mvec_def rscale_def gmul_xsum gmul_assoc gmul_commute [of _ v])

lemma mvec_radd:
  "mvec n (radd d s v A) x r = (if r = d then mvec n A x d XOR gmul v (mvec n A x s) else mvec n A x r)"
  by (simp add: mvec_def radd_def gmul_xsum xsum_xor gmul_xor_left gmul_assoc)

lemma ker_rswap: "0 \<le> a \<Longrightarrow> a < n \<Longrightarrow> 0 \<le> b \<Longrightarrow> b < n \<Longrightarrow> ker_le n (rswap a b A) A"
  unfolding ker_le_def mvec_rswap by (metis (full_types))

lemma ker_rscale: "v \<noteq> 0 \<Longrightarrow> ker_le n (rscale a v A) A"
  unfolding ker_le_def mvec_rscale by (metis gmul_eq_0)

lemma ker_radd: "0 \<le> s \<Longrightarrow> s < n \<Longrightarrow> d \<noteq> s \<Longrightarrow> ker_le n (radd d s v A) A"
  unfolding ker_le_def mvec_radd by (metis gmul_0(1) xor.right_neutral)

end
