(* ===== verification/Jerasure.thy ===== *)
theory Jerasure
  imports Galois GfMatrix
begin

text \<open>
  The matrices of the library \<open>jerasure\<close> that the coding classes use: \<open>jerasure_invert_matrix\<close> and
  \<open>jerasure_make_decoding_matrix\<close> (\<open>jerasure/jerasure.c\<close>), \<open>reed_sol_vandermonde_coding_matrix\<close>
  (\<open>jerasure/reed_sol.c\<close>). A matrix is an array of \<open>int\<close>, row after row: a function on the index.
\<close>

type_synonym flat = "int \<Rightarrow> int"

section \<open>Inverting\<close>

text \<open>The inner loops of \<open>jerasure_invert_matrix\<close>; a row begins at an index.\<close>

definition row_swap :: "int \<Rightarrow> int \<Rightarrow> int \<Rightarrow> flat \<Rightarrow> flat" where
  "row_swap cols a b M = (\<lambda>p. if a \<le> p \<and> p < a + cols then M (b + (p - a))
     else if b \<le> p \<and> p < b + cols then M (a + (p - b)) else M p)"

definition row_scale :: "galois \<Rightarrow> int \<Rightarrow> int \<Rightarrow> int \<Rightarrow> flat \<Rightarrow> flat" where
  "row_scale T cols a v M =
     (\<lambda>p. if a \<le> p \<and> p < a + cols then galois_single_multiply T (M p) v else M p)"

definition row_xor :: "int \<Rightarrow> int \<Rightarrow> int \<Rightarrow> flat \<Rightarrow> flat" where
  "row_xor cols d s M = (\<lambda>p. if d \<le> p \<and> p < d + cols then M p XOR M (s + (p - d)) else M p)"

definition row_add :: "galois \<Rightarrow> int \<Rightarrow> int \<Rightarrow> int \<Rightarrow> int \<Rightarrow> flat \<Rightarrow> flat" where
  "row_add T cols d s v M = (\<lambda>p. if d \<le> p \<and> p < d + cols
     then M p XOR galois_single_multiply T v (M (s + (p - d))) else M p)"

text \<open>\<open>for each j > i, add A_ji * Ai to Aj\<close>, in \<open>mat\<close> and \<open>inv\<close>.\<close>

definition eliminate :: "galois \<Rightarrow> int \<Rightarrow> int \<Rightarrow> flat \<times> flat \<Rightarrow> int \<Rightarrow> flat \<times> flat" where
  "eliminate T cols i MI j =
     (let (mat, iv) = MI; row_start = cols * i; rs2 = cols * j; v = mat (cols * j + i)
      in if v \<noteq> 0 then
           if v = 1 then (row_xor cols rs2 row_start mat, row_xor cols rs2 row_start iv)
           else (row_add T cols rs2 row_start v mat, row_add T cols rs2 row_start v iv)
         else (mat, iv))"

text \<open>One column made upper triangular; \<open>None\<close> when no row has an element there.\<close>

definition upper_step :: "galois \<Rightarrow> int \<Rightarrow> int \<Rightarrow> flat \<times> flat \<Rightarrow> (flat \<times> flat) option" where
  "upper_step T n i MI =
     (let row_start = n * i; mat = fst MI in
      case List.find (\<lambda>j. mat (n * j + i) \<noteq> 0) [i..n - 1] of
        None \<Rightarrow> None
      | Some j \<Rightarrow>
          let (mat, iv) = (if j = i then MI
                 else (row_swap n row_start (j * n) mat, row_swap n row_start (j * n) (snd MI)));
              tmp = mat (row_start + i);
              (mat, iv) = (if tmp \<noteq> 1 then
                   let inverse = galois_single_divide T 1 tmp
                   in (row_scale T n row_start inverse mat, row_scale T n row_start inverse iv)
                 else (mat, iv))
          in Some (foldl (eliminate T n i) (mat, iv) [i + 1..n - 1]))"

fun upper :: "galois \<Rightarrow> int \<Rightarrow> int list \<Rightarrow> flat \<times> flat \<Rightarrow> int \<times> flat \<times> flat" where
  "upper T n [] MI = (0, MI)"
| "upper T n (i # is) MI = (case upper_step T n i MI of None \<Rightarrow> (-1, MI) | Some MI \<Rightarrow> upper T n is MI)"

text \<open>Column \<open>i\<close> cleared above the diagonal: in \<open>mat\<close> only the one element is set.\<close>

definition back_step :: "galois \<Rightarrow> int \<Rightarrow> int \<Rightarrow> flat \<times> flat \<Rightarrow> int \<Rightarrow> flat \<times> flat" where
  "back_step T cols i MI j =
     (let (mat, iv) = MI; row_start = i * cols; rs2 = j * cols; tmp = mat (rs2 + i)
      in if tmp \<noteq> 0 then (mat(rs2 + i := 0), row_add T cols rs2 row_start tmp iv) else (mat, iv))"

definition back_column :: "galois \<Rightarrow> int \<Rightarrow> flat \<times> flat \<Rightarrow> int \<Rightarrow> flat \<times> flat" where
  "back_column T cols MI i = foldl (back_step T cols i) MI [0..i - 1]"

definition identity_into :: "int \<Rightarrow> flat \<Rightarrow> flat" where
  "identity_into n iv = (\<lambda>p. if 0 \<le> p \<and> p < n * n then (if p div n = p mod n then 1 else 0) else iv p)"

text \<open>The result and what is in the array \<open>inv\<close> then.\<close>

definition jerasure_invert_matrix :: "galois \<Rightarrow> flat \<Rightarrow> flat \<Rightarrow> int \<Rightarrow> int \<times> flat" where
  "jerasure_invert_matrix T mat iv n =
     (let (r, MI) = upper T n [0..n - 1] (mat, identity_into n iv)
      in if r = 0 then (0, snd (foldl (back_column T n) MI (rev [0..n - 1]))) else (r, snd MI))"

text \<open>
  The first \<open>k\<close> devices that are not erased. When there are less than \<open>k\<close> the loop reads behind the end of
  \<open>erased\<close>: there is no value then.
\<close>

definition jerasure_make_decoding_matrix :: "galois \<Rightarrow> int \<Rightarrow> int \<Rightarrow> flat \<Rightarrow> flat \<Rightarrow> flat \<Rightarrow> flat \<Rightarrow>
    (int \<times> flat \<times> int list) option" where
  "jerasure_make_decoding_matrix T k m matrix erased junk decoding_matrix =
     (let healthy = filter (\<lambda>i. erased i = 0) [0..k + m - 1];
          dm_ids = take (nat k) healthy;
          tmpmat = (\<lambda>p. if 0 \<le> p \<and> p < k * k then
              let id = dm_ids ! nat (p div k)
              in if id < k then (if p mod k = id then 1 else 0) else matrix ((id - k) * k + p mod k)
            else junk p)
      in if int (length healthy) < k then None
         else let (r, decoding_matrix) = jerasure_invert_matrix T tmpmat decoding_matrix k
              in Some (r, decoding_matrix, dm_ids))"

section \<open>Flat arrays as matrices\<close>

definition ent :: "int \<Rightarrow> flat \<Rightarrow> gmat" where
  "ent n M = (\<lambda>r c. word_of_int (M (r * n + c)))"

definition bytes_in :: "int \<Rightarrow> flat \<Rightarrow> bool" where
  "bytes_in N M \<longleftrightarrow> (\<forall>p. 0 \<le> p \<and> p < N \<longrightarrow> 0 \<le> M p \<and> M p < 256)"

text \<open>Equal entries, in the first \<open>m\<close> rows.\<close>

definition same :: "int \<Rightarrow> int \<Rightarrow> gmat \<Rightarrow> gmat \<Rightarrow> bool" where
  "same m n A B \<longleftrightarrow> (\<forall>r c. 0 \<le> r \<and> r < m \<and> 0 \<le> c \<and> c < n \<longrightarrow> A r c = B r c)"

lemma in_row:
  assumes "0 \<le> c" "c < (n::int)"
  shows "a * n \<le> r * n + c \<and> r * n + c < a * n + n \<longleftrightarrow> r = a"
proof
  assume h: "a * n \<le> r * n + c \<and> r * n + c < a * n + n"
  have "r * n + c = c + n * r" "a * n \<le> r * n + c" "r * n + c < (a + 1) * n" using h by (auto simp: algebra_simps)
  then have "a * n < (r + 1) * n" "r * n < (a + 1) * n" using assms by (auto simp: algebra_simps)
  then have "a < r + 1" "r < a + 1" using assms by (auto dest: mult_right_less_imp_less)
  then show "r = a" by simp
qed (use assms in auto)

lemma in_range:
  assumes "0 \<le> r" "r < m" "0 \<le> c" "c < (n::int)"
  shows "0 \<le> r * n + c" "r * n + c < m * n"
proof -
  show "0 \<le> r * n + c" using assms by simp
  have "(r + 1) * n \<le> m * n" using assms by (intro mult_right_mono) auto
  then show "r * n + c < m * n" using assms by (simp add: algebra_simps)
qed

lemma uint_ent:
  assumes "bytes_in (m * n) M" "0 \<le> r" "r < m" "0 \<le> c" "c < n"
  shows "uint (ent n M r c) = M (r * n + c)"
  using assms in_range [OF assms(2-5)] by (simp add: ent_def bytes_in_def uint_word_of_int)

lemma uint_byte_of: "0 \<le> v \<Longrightarrow> v < 256 \<Longrightarrow> uint (word_of_int v :: byte) = v"
  by (simp add: uint_word_of_int)

lemma gal_mul_int:
  assumes "galois_ok T" "0 \<le> x" "x < 256" "0 \<le> y" "y < 256"
  shows "galois_single_multiply T x y = uint (gmul (word_of_int x) (word_of_int y))"
  using galois_multiply_ok [OF assms(1), of "word_of_int x" "word_of_int y"] assms by (simp add: uint_byte_of)

lemma xor_byte_range:
  assumes "0 \<le> x" "x < 256" "0 \<le> y" "y < (256::int)"
  shows "0 \<le> x XOR y" "x XOR y < 256"
proof -
  have "x XOR y = uint (word_of_int x XOR word_of_int y :: byte)"
    using assms by (simp add: uint_xor uint_byte_of)
  then show "0 \<le> x XOR y" "x XOR y < 256" using uint_byte [of "word_of_int x XOR word_of_int y"] by simp_all
qed

lemma word_xor_int: "(word_of_int (x XOR y) :: byte) = word_of_int x XOR word_of_int y"
  by (rule bit_word_eqI) (simp add: bit_simps)

text \<open>What the loops on a row do to the entries.\<close>

lemma bytes_inD: "bytes_in N M \<Longrightarrow> 0 \<le> p \<Longrightarrow> p < N \<Longrightarrow> 0 \<le> M p \<and> M p < 256"
  by (simp add: bytes_in_def)

lemma row_shift:
  assumes "a * n \<le> p" "p < a * n + n" "0 \<le> b" "b < m"
  shows "0 \<le> b * n + (p - a * n)" "b * n + (p - a * n) < m * (n :: int)"
  using in_range [of b m "p - a * n" n] assms by auto

lemma bytes_row_swap:
  assumes "bytes_in (m * n) M" "0 \<le> a" "a < m" "0 \<le> b" "b < m"
  shows "bytes_in (m * n) (row_swap n (a * n) (b * n) M)"
  using assms row_shift [of a n _ b m] row_shift [of b n _ a m]
  by (auto simp: bytes_in_def row_swap_def)

lemma ent_row_swap:
  assumes "0 \<le> a" "a < m" "0 \<le> b" "b < m"
  shows "same m n (ent n (row_swap n (a * n) (b * n) M)) (rswap a b (ent n M))"
  by (auto simp: same_def ent_def row_swap_def rswap_def in_row)

lemma bytes_row_scale:
  assumes "galois_ok T" "bytes_in (m * n) M" "0 \<le> a" "a < m" "0 \<le> v" "v < 256"
  shows "bytes_in (m * n) (row_scale T n (a * n) v M)"
  using assms uint_byte by (auto simp: bytes_in_def row_scale_def gal_mul_int)

lemma ent_row_scale:
  assumes "galois_ok T" "bytes_in (m * n) M" "0 \<le> a" "a < m" "0 \<le> v" "v < 256"
  shows "same m n (ent n (row_scale T n (a * n) v M)) (rscale a (word_of_int v) (ent n M))"
  using assms bytes_inD [OF assms(2) in_range]
  by (auto simp: same_def ent_def row_scale_def rscale_def in_row gal_mul_int)

lemma bytes_row_add:
  assumes "galois_ok T" "bytes_in (m * n) M" "0 \<le> d" "d < m" "0 \<le> s" "s < m" "0 \<le> v" "v < 256"
  shows "bytes_in (m * n) (row_add T n (d * n) (s * n) v M)"
  unfolding bytes_in_def row_add_def
proof (intro allI impI)
  fix p assume p: "0 \<le> p \<and> p < m * n"
  note M = bytes_inD [OF assms(2)]
  show "0 \<le> (if d * n \<le> p \<and> p < d * n + n then M p XOR galois_single_multiply T v (M (s * n + (p - d * n))) else M p) \<and>
      (if d * n \<le> p \<and> p < d * n + n then M p XOR galois_single_multiply T v (M (s * n + (p - d * n))) else M p) < 256"
  proof (cases "d * n \<le> p \<and> p < d * n + n")
    case True
    have "galois_single_multiply T v (M (s * n + (p - d * n))) =
        uint (gmul (word_of_int v) (word_of_int (M (s * n + (p - d * n)))))"
      using assms True M [OF row_shift [of d n p s m]] by (intro gal_mul_int) auto
    then show ?thesis using True xor_byte_range [OF _ _ uint_byte] M [of p] p by auto
  qed (use M [of p] p in auto)
qed

lemma ent_row_add:
  assumes "galois_ok T" "bytes_in (m * n) M" "0 \<le> d" "d < m" "0 \<le> s" "s < m" "0 \<le> v" "v < 256"
  shows "same m n (ent n (row_add T n (d * n) (s * n) v M)) (radd d s (word_of_int v) (ent n M))"
  using assms bytes_inD [OF assms(2) in_range, of s]
  by (auto simp: same_def ent_def row_add_def radd_def in_row gal_mul_int word_xor_int)

lemma row_xor_add:
  assumes "galois_ok T" "bytes_in (m * n) M" "0 \<le> s" "s < m"
  shows "row_xor n (d * n) (s * n) M = row_add T n (d * n) (s * n) 1 M"
proof
  fix p
  show "row_xor n (d * n) (s * n) M p = row_add T n (d * n) (s * n) 1 M p"
  proof (cases "d * n \<le> p \<and> p < d * n + n")
    case True
    have "galois_single_multiply T 1 (M (s * n + (p - d * n))) = M (s * n + (p - d * n))"
      using assms(1) True bytes_inD [OF assms(2) row_shift [of d n p s m]] assms(3,4)
      by (simp add: gal_mul_int uint_byte_of)
    then show ?thesis by (simp add: row_xor_def row_add_def)
  qed (auto simp: row_xor_def row_add_def)
qed

section \<open>The inverse is right\<close>

text \<open>
  Every operation is done on both arrays: \<open>iv\<close> times the matrix \<open>A\<close> of the beginning is what \<open>mat\<close>
  holds, and \<open>mat\<close> maps no more to zero than \<open>A\<close> does.
\<close>

definition linv :: "int \<Rightarrow> gmat \<Rightarrow> flat \<times> flat \<Rightarrow> bool" where
  "linv n A MI \<longleftrightarrow> bytes_in (n * n) (fst MI) \<and> bytes_in (n * n) (snd MI) \<and>
     prod_is n (ent n (snd MI)) A (ent n (fst MI)) \<and> ker_le n (ent n (fst MI)) A"

lemma prod_is_same:
  assumes "prod_is n V A B" "same n n V' V" "same n n B' B"
  shows "prod_is n V' A B'"
  unfolding prod_is_def
proof (intro allI impI)
  fix r c assume rc: "0 \<le> r \<and> r < n \<and> 0 \<le> c \<and> c < n"
  have "xsum (\<lambda>k. gmul (V' r k) (A k c)) [0..n - 1] = xsum (\<lambda>k. gmul (V r k) (A k c)) [0..n - 1]"
    by (rule xsum_cong) (use rc assms(2) in \<open>auto simp: same_def\<close>)
  then show "xsum (\<lambda>k. gmul (V' r k) (A k c)) [0..n - 1] = B' r c"
    using rc assms by (simp add: prod_is_def same_def)
qed

lemma ker_le_same: "same n n B' B \<Longrightarrow> ker_le n B A \<Longrightarrow> ker_le n B' A"
  using mvec_cong [of n B' _ B] unfolding ker_le_def same_def by metis

lemma linv_op:
  assumes "linv n A (mat, iv)" "bytes_in (n * n) mat'" "bytes_in (n * n) iv'"
    "same n n (ent n mat') B" "same n n (ent n iv') V"
    "prod_is n (ent n iv) A (ent n mat) \<Longrightarrow> prod_is n V A B" "ker_le n B (ent n mat)"
  shows "linv n A (mat', iv')"
proof -
  have "ker_le n B A" using assms(1,7) ker_le_trans by (auto simp: linv_def)
  then show ?thesis using assms prod_is_same ker_le_same by (auto simp: linv_def)
qed

lemma linv_swap:
  assumes "linv n A (mat, iv)" "0 \<le> a" "a < n" "0 \<le> b" "b < n"
  shows "linv n A (row_swap n (a * n) (b * n) mat, row_swap n (a * n) (b * n) iv)"
  by (rule linv_op [OF assms(1) _ _ ent_row_swap ent_row_swap])
    (use assms in \<open>auto simp: linv_def bytes_row_swap intro: prod_rswap ker_rswap\<close>)

lemma linv_scale:
  assumes "galois_ok T" "linv n A (mat, iv)" "0 \<le> a" "a < n" "0 < v" "v < 256"
  shows "linv n A (row_scale T n (a * n) v mat, row_scale T n (a * n) v iv)"
proof (rule linv_op [OF assms(2) _ _ ent_row_scale ent_row_scale])
  have "(word_of_int v :: byte) \<noteq> 0" using assms uint_byte_of [of v] by force
  then show "ker_le n (rscale a (word_of_int v) (ent n mat)) (ent n mat)" by (rule ker_rscale)
qed (use assms in \<open>auto simp: linv_def bytes_row_scale intro: prod_rscale\<close>)

lemma linv_add:
  assumes "galois_ok T" "linv n A (mat, iv)" "0 \<le> d" "d < n" "0 \<le> s" "s < n" "d \<noteq> s" "0 \<le> v" "v < 256"
  shows "linv n A (row_add T n (d * n) (s * n) v mat, row_add T n (d * n) (s * n) v iv)"
  by (rule linv_op [OF assms(2) _ _ ent_row_add ent_row_add])
    (use assms in \<open>auto simp: linv_def bytes_row_add intro: prod_radd ker_radd\<close>)

lemma linv_start:
  assumes "bytes_in (n * n) mat"
  shows "linv n (ent n mat) (mat, identity_into n iv)"
proof -
  have e: "ent n (identity_into n iv) r c = unit r c" if "0 \<le> r" "r < n" "0 \<le> c" "c < n" for r c
  proof -
    have "(r * n + c) div n = r" "(r * n + c) mod n = c" using that by simp_all
    then show ?thesis using in_range [of r n c n] that by (simp add: ent_def identity_into_def unit_def)
  qed
  have "bytes_in (n * n) (identity_into n iv)" by (simp add: bytes_in_def identity_into_def)
  moreover have "prod_is n (ent n (identity_into n iv)) (ent n mat) (ent n mat)"
    unfolding prod_is_def
  proof (intro allI impI)
    fix r c assume rc: "0 \<le> r \<and> r < n \<and> 0 \<le> c \<and> c < n"
    have "xsum (\<lambda>k. gmul (ent n (identity_into n iv) r k) (ent n mat k c)) [0..n - 1] =
        xsum (\<lambda>k. if k = r then ent n mat r c else 0) [0..n - 1]"
      by (rule xsum_cong) (use rc e in \<open>auto simp: unit_def gmul_0\<close>)
    then show "xsum (\<lambda>k. gmul (ent n (identity_into n iv) r k) (ent n mat k c)) [0..n - 1] = ent n mat r c"
      using rc by (simp add: xsum_single)
  qed
  ultimately show ?thesis using assms by (simp add: linv_def ker_le_refl)
qed

subsection \<open>The upper triangle\<close>

text \<open>The columns before \<open>i\<close> are those of a unit upper triangular matrix.\<close>

definition tri :: "int \<Rightarrow> int \<Rightarrow> gmat \<Rightarrow> bool" where
  "tri n i B \<longleftrightarrow> (\<forall>c r. 0 \<le> c \<and> c < i \<and> c \<le> r \<and> r < n \<longrightarrow> B r c = unit r c)"

lemma triD: "tri n i B \<Longrightarrow> 0 \<le> c \<Longrightarrow> c < i \<Longrightarrow> c \<le> r \<Longrightarrow> r < n \<Longrightarrow> B r c = unit r c"
  by (simp add: tri_def)

lemma tri_same: "same n n B' B \<Longrightarrow> tri n i B \<Longrightarrow> i \<le> n \<Longrightarrow> tri n i B'"
  by (auto simp: tri_def same_def)

lemma tri_rswap: "tri n i B \<Longrightarrow> i \<le> a \<Longrightarrow> a < n \<Longrightarrow> i \<le> b \<Longrightarrow> b < n \<Longrightarrow> tri n i (rswap a b B)"
  by (auto simp: tri_def rswap_def unit_def)

lemma tri_rscale: "tri n i B \<Longrightarrow> i \<le> a \<Longrightarrow> a < n \<Longrightarrow> tri n i (rscale a v B)"
  by (auto simp: tri_def rscale_def unit_def gmul_0)

lemma tri_radd: "tri n i B \<Longrightarrow> i \<le> s \<Longrightarrow> s < n \<Longrightarrow> i \<le> d \<Longrightarrow> d < n \<Longrightarrow> tri n i (radd d s v B)"
  by (auto simp: tri_def radd_def unit_def gmul_0)

lemma eliminate_ok:
  assumes T: "galois_ok T" and L: "linv n A (mat, iv)" and i: "0 \<le> i" "i < j" "j < n"
    and MI: "eliminate T n i (mat, iv) j = MI"
  shows "linv n A MI" "same n n (ent n (fst MI)) (radd j i (ent n mat j i) (ent n mat))"
proof -
  have b: "bytes_in (n * n) mat" "bytes_in (n * n) iv" using L by (simp_all add: linv_def)
  have p: "n * j + i = j * n + i" "n * i = i * n" "n * j = j * n" by simp_all
  have v: "0 \<le> mat (j * n + i) \<and> mat (j * n + i) < 256"
    using bytes_inD [OF b(1) in_range [of j n i n]] i by auto
  have u: "ent n mat j i = word_of_int (mat (j * n + i))" by (simp add: ent_def)
  show "linv n A MI" using MI linv_add [OF T L, of j i "mat (j * n + i)"] linv_add [OF T L, of j i 1] i v L
    row_xor_add [OF T b(1)] row_xor_add [OF T b(2)]
    by (auto simp: eliminate_def Let_def p split: if_splits)
  show "same n n (ent n (fst MI)) (radd j i (ent n mat j i) (ent n mat))"
  proof (cases "mat (j * n + i) = 0")
    case True
    then show ?thesis using MI by (auto simp: eliminate_def Let_def p u same_def radd_def gmul_0)
  next
    case False
    then have "fst MI = row_add T n (j * n) (i * n) (mat (j * n + i)) mat"
      using MI row_xor_add [OF T b(1), of i j] i by (auto simp: eliminate_def Let_def p split: if_splits)
    then show ?thesis using ent_row_add [OF T b(1), of j i "mat (j * n + i)"] i v by (simp add: u)
  qed
qed

lemma eliminate_all_ok:
  assumes T: "galois_ok T" and L: "linv n A (mat, iv)" and i: "0 \<le> i" "i < n"
    and t: "tri n i (ent n mat)" "ent n mat i i = 1" and k: "i + 1 + int k \<le> n"
    and MI: "foldl (eliminate T n i) (mat, iv) [i + 1..i + int k] = MI"
  shows "linv n A MI \<and> tri n i (ent n (fst MI)) \<and>
    (\<forall>r. i \<le> r \<and> r \<le> i + int k \<longrightarrow> ent n (fst MI) r i = unit r i)"
  using k MI
proof (induction k arbitrary: MI)
  case 0
  then show ?case using L t by (auto simp: unit_def)
next
  case (Suc k)
  let ?j = "i + 1 + int k"
  have u: "[i + 1..i + int (Suc k)] = [i + 1..i + int k] @ [?j]"
    by (subst upto_rec2) (auto simp: algebra_simps)
  obtain m v where mv: "foldl (eliminate T n i) (mat, iv) [i + 1..i + int k] = (m, v)" by fastforce
  have h: "linv n A (m, v)" "tri n i (ent n m)"
    "\<And>r. i \<le> r \<Longrightarrow> r \<le> i + int k \<Longrightarrow> ent n m r i = unit r i" using Suc.IH [OF _ mv] Suc.prems(1) by auto
  have e: "eliminate T n i (m, v) ?j = MI" using Suc.prems(2) mv unfolding u foldl_append by simp
  have jn: "i < ?j" "?j < n" using Suc.prems(1) by auto
  note s = eliminate_ok [OF T h(1) i(1) jn e]
  have "tri n i (ent n (fst MI))" using tri_same [OF s(2)] tri_radd [OF h(2)] jn i by simp
  moreover have "ent n (fst MI) r i = unit r i" if "i \<le> r" "r \<le> i + int (Suc k)" for r
    using that s(2) h(3) i jn by (auto simp: same_def radd_def unit_def)
  ultimately show ?case using s(1) by blast
qed

text \<open>No pivot in column \<open>i\<close>: there is a vector with a one at \<open>i\<close> that is mapped to zero.\<close>

lemma no_pivot_vector:
  assumes i: "0 \<le> i" "i < n" and t: "tri n i B" and z: "\<And>j. i \<le> j \<Longrightarrow> j < n \<Longrightarrow> B j i = 0"
    and k: "int k \<le> i"
  shows "\<exists>x. x i = 1 \<and> (\<forall>c. i < c \<or> c < i - int k \<longrightarrow> x c = 0) \<and>
    (\<forall>r. i - int k \<le> r \<and> r < n \<longrightarrow> mvec n B x r = 0)"
  using k
proof (induction k)
  case 0
  let ?x = "\<lambda>c. if c = i then 1 else (0 :: byte)"
  have "mvec n B ?x r = 0" if "i \<le> r" "r < n" for r
  proof -
    have "mvec n B ?x r = xsum (\<lambda>c. if c = i then B r i else 0) [0..n - 1]"
      unfolding mvec_def by (rule xsum_cong) (auto simp: gmul_0)
    then show ?thesis using i z [OF that] by (simp add: xsum_single)
  qed
  then show ?case by (intro exI [of _ ?x]) auto
next
  case (Suc k)
  obtain x where x: "x i = 1" "\<And>c. i < c \<or> c < i - int k \<Longrightarrow> x c = 0"
    "\<And>r. i - int k \<le> r \<Longrightarrow> r < n \<Longrightarrow> mvec n B x r = 0" using Suc.IH Suc.prems by fastforce
  let ?c = "i - int (Suc k)"
  have c: "0 \<le> ?c" "?c < i" "?c < n" using Suc.prems i by auto
  let ?y = "x(?c := x ?c XOR mvec n B x ?c)"
  have m: "mvec n B ?y r = mvec n B x r XOR gmul (B r ?c) (mvec n B x ?c)" for r
    by (rule mvec_upd) (use c in auto)
  have "mvec n B ?y r = 0" if "?c \<le> r" "r < n" for r
    using m [of r] triD [OF t c(1,2) that] x(3) [of r] that by (cases "r = ?c") (auto simp: unit_def gmul_0)
  moreover have "?y i = 1" using c x(1) by simp
  moreover have "?y c = 0" if "i < c \<or> c < ?c" for c using that x(2) [of c] c by auto
  ultimately show ?case by (intro exI [of _ ?y]) blast
qed

lemma pivot_exists:
  assumes "0 \<le> i" "i < n" "tri n i B" "ker_le n B A" "ker0 n A {0..<n}"
  shows "\<exists>j. i \<le> j \<and> j < n \<and> B j i \<noteq> 0"
proof (rule ccontr)
  assume "\<not> ?thesis"
  then have "\<And>j. i \<le> j \<Longrightarrow> j < n \<Longrightarrow> B j i = 0" by blast
  from no_pivot_vector [OF assms(1-3) this, of "nat i"] assms(1)
  obtain x where x: "x i = 1" "\<And>r. 0 \<le> r \<Longrightarrow> r < n \<Longrightarrow> mvec n B x r = 0" by auto
  then have m: "\<And>r. 0 \<le> r \<Longrightarrow> r < n \<Longrightarrow> mvec n A x r = 0" using assms(4) unfolding ker_le_def by blast
  have "x i = 0" by (rule ker0D [OF assms(5) _ assms(1,2)]) (simp add: m)
  then show False using x(1) by simp
qed

lemma find_first:
  assumes "j \<in> set xs" "P j"
  obtains y where "List.find P xs = Some y" "P y" "y \<in> set xs"
  using assms by (metis find_None_iff find_Some_iff nth_mem option.exhaust)

text \<open>Swapping and scaling: the pivot is one then.\<close>

lemma swap_pivot:
  assumes L: "linv n A (mat, iv)" and t: "tri n i (ent n mat)" and i: "0 \<le> i" "i \<le> j" "j < n"
    and z: "ent n mat j i \<noteq> 0"
    and MI: "(if j = i then (mat, iv) else (row_swap n (n * i) (j * n) mat, row_swap n (n * i) (j * n) iv)) = MI"
  shows "linv n A MI" "tri n i (ent n (fst MI))" "ent n (fst MI) i i \<noteq> 0"
proof -
  have p: "n * i = i * n" by simp
  have s: "same n n (ent n (row_swap n (i * n) (j * n) mat)) (rswap i j (ent n mat))"
    by (rule ent_row_swap) (use i in auto)
  show "linv n A MI" using MI L linv_swap [OF L, of i j] i by (auto simp: p split: if_splits)
  show "tri n i (ent n (fst MI))" using MI t tri_same [OF s tri_rswap [OF t]] i by (auto simp: p split: if_splits)
  show "ent n (fst MI) i i \<noteq> 0" using MI z s i by (auto simp: p same_def rswap_def split: if_splits)
qed

lemma scale_pivot:
  assumes T: "galois_ok T" and L: "linv n A (mat, iv)" and t: "tri n i (ent n mat)" and i: "0 \<le> i" "i < n"
    and z: "ent n mat i i \<noteq> 0"
    and MI: "(if mat (n * i + i) \<noteq> 1 then
        let inverse = galois_single_divide T 1 (mat (n * i + i))
        in (row_scale T n (n * i) inverse mat, row_scale T n (n * i) inverse iv) else (mat, iv)) = MI"
  shows "linv n A MI" "tri n i (ent n (fst MI))" "ent n (fst MI) i i = 1"
proof -
  have b: "bytes_in (n * n) mat" "bytes_in (n * n) iv" using L by (simp_all add: linv_def)
  let ?t = "ent n mat i i" and ?v = "uint (gdiv 1 (ent n mat i i))"
  have p: "n * i = i * n" by simp
  have u: "mat (i * n + i) = uint ?t" using uint_ent [OF b(1) i i] by simp
  have d: "galois_single_divide T 1 (mat (i * n + i)) = ?v"
    using galois_divide_ok [OF T z, of 1] by (simp add: u)
  have v: "0 < ?v" "0 \<le> ?v" "?v < 256"
    using gdiv_1(2) [OF z] uint_byte [of "gdiv 1 ?t"] uint_0_iff [of "gdiv 1 ?t"] by linarith+
  have s: "same n n (ent n (row_scale T n (i * n) ?v mat)) (rscale i (gdiv 1 ?t) (ent n mat))"
    using ent_row_scale [OF T b(1) i v(2,3)] by simp
  show "linv n A MI" using MI L linv_scale [OF T L i v(1,3)] d by (auto simp: p Let_def split: if_splits)
  show "tri n i (ent n (fst MI))" using MI t tri_same [OF s tri_rscale [OF t]] i d
    by (auto simp: p Let_def split: if_splits)
  have "rscale i (gdiv 1 ?t) (ent n mat) i i = 1" using gdiv_1(1) [OF z] by (simp add: rscale_def)
  then have "ent n (row_scale T n (i * n) ?v mat) i i = 1" using s i by (simp add: same_def)
  moreover have "?t = 1" if "mat (i * n + i) = 1" using that u uint_1 by (metis word_uint_eqI)
  ultimately show "ent n (fst MI) i i = 1" using MI d by (auto simp: p Let_def split: if_splits)
qed

lemma upper_step_some:
  assumes T: "galois_ok T" and L: "linv n A (mat, iv)" and t: "tri n i (ent n mat)" and i: "0 \<le> i" "i < n"
    and f: "List.find (\<lambda>j. mat (n * j + i) \<noteq> 0) [i..n - 1] = Some j"
  obtains MI where "upper_step T n i (mat, iv) = Some MI" "linv n A MI" "tri n (i + 1) (ent n (fst MI))"
proof -
  have b: "bytes_in (n * n) mat" using L by (simp add: linv_def)
  have "j \<in> set [i..n - 1]" "mat (n * j + i) \<noteq> 0" using f by (auto simp: find_Some_iff dest!: nth_mem)
  then have j: "i \<le> j" "j < n" "ent n mat j i \<noteq> 0"
    using uint_ent [OF b _ _ i, of j] i by (auto simp: mult.commute)
  obtain m1 v1 where 1: "(if j = i then (mat, iv)
      else (row_swap n (n * i) (j * n) mat, row_swap n (n * i) (j * n) iv)) = (m1, v1)" by fastforce
  note s1 = swap_pivot [OF L t i(1) j 1, unfolded fst_conv]
  obtain m2 v2 where 2: "(if m1 (n * i + i) \<noteq> 1 then
        let inverse = galois_single_divide T 1 (m1 (n * i + i))
        in (row_scale T n (n * i) inverse m1, row_scale T n (n * i) inverse v1) else (m1, v1)) = (m2, v2)"
    by fastforce
  note s2 = scale_pivot [OF T s1(1,2) i s1(3) 2, unfolded fst_conv]
  let ?MI = "foldl (eliminate T n i) (m2, v2) [i + 1..n - 1]"
  have "linv n A ?MI \<and> tri n i (ent n (fst ?MI)) \<and>
      (\<forall>r. i \<le> r \<and> r \<le> i + int (nat (n - 1 - i)) \<longrightarrow> ent n (fst ?MI) r i = unit r i)"
    by (rule eliminate_all_ok [OF T s2(1) i s2(2,3)]) (use i in auto)
  then have e: "linv n A ?MI" "tri n i (ent n (fst ?MI))"
    "\<And>r. i \<le> r \<Longrightarrow> r < n \<Longrightarrow> ent n (fst ?MI) r i = unit r i" using i by auto
  have "tri n (i + 1) (ent n (fst ?MI))" unfolding tri_def
  proof (intro allI impI)
    fix c r assume c: "0 \<le> c \<and> c < i + 1 \<and> c \<le> r \<and> r < n"
    then show "ent n (fst ?MI) r c = unit r c" using e(3) [of r] triD [OF e(2), of c r] by (cases "c = i") auto
  qed
  moreover have "upper_step T n i (mat, iv) = Some ?MI"
    unfolding upper_step_def Let_def fst_conv snd_conv f option.case 1 prod.case 2 [unfolded Let_def] ..
  ultimately show ?thesis using e(1) that by blast
qed

lemma upper_step_ok:
  assumes T: "galois_ok T" and L: "linv n A MI" and t: "tri n i (ent n (fst MI))" and i: "0 \<le> i" "i < n"
  shows "(case upper_step T n i MI of None \<Rightarrow> \<not> ker0 n A {0..<n}
    | Some MI' \<Rightarrow> linv n A MI' \<and> tri n (i + 1) (ent n (fst MI')))"
proof -
  obtain mat iv where MI: "MI = (mat, iv)" by fastforce
  have b: "bytes_in (n * n) mat" using L by (simp add: linv_def MI)
  show ?thesis
  proof (cases "List.find (\<lambda>j. mat (n * j + i) \<noteq> 0) [i..n - 1]")
    case None
    have "ent n mat j i = 0" if "i \<le> j" "j < n" for j
      using None that i by (auto simp: find_None_iff ent_def mult.commute)
    then have "\<not> ker0 n A {0..<n}" using pivot_exists [OF i, of "ent n mat" A] L t by (auto simp: linv_def MI)
    then show ?thesis using None by (simp add: upper_step_def MI)
  next
    case (Some j)
    obtain MI' where "upper_step T n i MI = Some MI'" "linv n A MI'" "tri n (i + 1) (ent n (fst MI'))"
      by (rule upper_step_some [OF T _ _ i Some, of A iv]) (use L t in \<open>simp_all add: MI\<close>)
    then show ?thesis by simp
  qed
qed

lemma upper_ok:
  assumes T: "galois_ok T" and L: "linv n A MI" and k: "int k \<le> n"
    and t: "tri n (n - int k) (ent n (fst MI))"
  shows "case upper T n [n - int k..n - 1] MI of (r, MI') \<Rightarrow>
    r = 0 \<and> linv n A MI' \<and> tri n n (ent n (fst MI')) \<or> r = -1 \<and> \<not> ker0 n A {0..<n}"
  using k L t
proof (induction k arbitrary: MI)
  case 0
  then show ?case by simp
next
  case (Suc k)
  let ?i = "n - int (Suc k)"
  have e: "?i + 1 = n - int k" by simp
  have u: "[?i..n - 1] = ?i # [n - int k..n - 1]" by (subst upto_rec1) auto
  have s: "case upper_step T n ?i MI of None \<Rightarrow> \<not> ker0 n A {0..<n}
    | Some MI' \<Rightarrow> linv n A MI' \<and> tri n (?i + 1) (ent n (fst MI'))"
    by (rule upper_step_ok [OF T Suc.prems(2,3)]) (use Suc.prems(1) in auto)
  show ?case
  proof (cases "upper_step T n ?i MI")
    case None
    then show ?thesis using s unfolding u upper.simps by simp
  next
    case (Some MI1)
    then show ?thesis using s Suc.IH [of MI1] Suc.prems(1) unfolding u upper.simps e by simp
  qed
qed

subsection \<open>The way back\<close>

text \<open>The columns from \<open>i\<close> on are those of the unit matrix.\<close>

definition unit_from :: "int \<Rightarrow> int \<Rightarrow> gmat \<Rightarrow> bool" where
  "unit_from n i B \<longleftrightarrow> tri n n B \<and> (\<forall>r c. 0 \<le> r \<and> r < n \<and> i \<le> c \<and> c < n \<longrightarrow> B r c = unit r c)"

lemma back_step_ok:
  assumes T: "galois_ok T" and L: "linv n A (mat, iv)" and i: "0 \<le> j" "j < i" "i < n"
    and u: "unit_from n (i + 1) (ent n mat)" and MI: "back_step T n i (mat, iv) j = MI"
  shows "linv n A MI" "same n n (ent n (fst MI)) (\<lambda>r c. if r = j \<and> c = i then 0 else ent n mat r c)"
proof -
  have b: "bytes_in (n * n) mat" "bytes_in (n * n) iv" using L by (simp_all add: linv_def)
  let ?p = "j * n + i"
  have pr: "0 \<le> ?p" "?p < n * n" using in_range [of j n i n] i by auto
  have v: "0 \<le> mat ?p \<and> mat ?p < 256" using bytes_inD [OF b(1) pr] .
  have e: "ent n (mat(?p := 0)) r c = (if r = j \<and> c = i then 0 else ent n mat r c)"
    if "0 \<le> r" "r < n" "0 \<le> c" "c < n" for r c
  proof -
    have "r * n + c = ?p \<longleftrightarrow> r = j \<and> c = i"
      using in_row [of c n j r] that i by auto
    then show ?thesis by (simp add: ent_def)
  qed
  have row: "ent n mat i c = unit i c" if "0 \<le> c" "c < n" for c
    using u that i by (cases "c \<le> i") (auto simp: unit_from_def tri_def)
  have s: "same n n (ent n (mat(?p := 0))) (radd j i (ent n mat j i) (ent n mat))"
    unfolding same_def using e row i by (auto simp: radd_def unit_def gmul_0)
  have w: "ent n mat j i = word_of_int (mat ?p)" by (simp add: ent_def)
  have "bytes_in (n * n) (mat(?p := 0))" using b(1) by (simp add: bytes_in_def)
  then have "linv n A (mat(?p := 0), row_add T n (j * n) (i * n) (mat ?p) iv)"
    using L i v T b bytes_row_add [OF T b(2)] ent_row_add [OF T b(2), of j i "mat ?p"] s
    by (intro linv_op [OF L, where B = "radd j i (ent n mat j i) (ent n mat)" and V = "radd j i (ent n mat j i) (ent n iv)"])
      (auto intro: prod_radd ker_radd simp: w)
  then show "linv n A MI" using MI L by (auto simp: back_step_def Let_def split: if_splits)
  show "same n n (ent n (fst MI)) (\<lambda>r c. if r = j \<and> c = i then 0 else ent n mat r c)"
    using MI e w by (auto simp: back_step_def Let_def same_def split: if_splits)
qed

lemma unit_from_same:
  "same n n B' B \<Longrightarrow> unit_from n i B \<Longrightarrow> 0 \<le> i \<Longrightarrow> unit_from n i B'"
  by (auto simp: unit_from_def same_def tri_def)

lemma back_column_ok:
  assumes T: "galois_ok T" and L: "linv n A MI" and i: "i < n" "int k \<le> i"
    and u: "unit_from n (i + 1) (ent n (fst MI))"
  shows "linv n A (foldl (back_step T n i) MI [0..int k - 1]) \<and>
    unit_from n (i + 1) (ent n (fst (foldl (back_step T n i) MI [0..int k - 1]))) \<and>
    (\<forall>r. 0 \<le> r \<and> r < int k \<longrightarrow> ent n (fst (foldl (back_step T n i) MI [0..int k - 1])) r i = 0)"
  using i(2)
proof (induction k)
  case 0
  then show ?case using L u by auto
next
  case (Suc k)
  have up: "[0..int (Suc k) - 1] = [0..int k - 1] @ [int k]" by (subst upto_rec2) auto
  obtain m v where mv: "foldl (back_step T n i) MI [0..int k - 1] = (m, v)" by fastforce
  have h: "linv n A (m, v)" "unit_from n (i + 1) (ent n m)" "\<And>r. 0 \<le> r \<Longrightarrow> r < int k \<Longrightarrow> ent n m r i = 0"
    using Suc.IH Suc.prems unfolding mv by auto
  obtain MI' where s: "back_step T n i (m, v) (int k) = MI'" by blast
  have k: "0 \<le> int k" "int k < i" using Suc.prems by auto
  note st = back_step_ok [OF T h(1) k i(1) h(2) s]
  have "unit_from n (i + 1) (\<lambda>r c. if r = int k \<and> c = i then 0 else ent n m r c)"
    using h(2) k by (auto simp: unit_from_def tri_def unit_def)
  then have "unit_from n (i + 1) (ent n (fst MI'))"
    by (rule unit_from_same [OF st(2)]) (use k in auto)
  moreover have "ent n (fst MI') r i = 0" if "0 \<le> r" "r < int (Suc k)" for r
    using that st(2) h(3) k i by (auto simp: same_def)
  ultimately show ?case using st(1) unfolding up foldl_append mv by (simp add: s)
qed

lemma back_ok:
  assumes T: "galois_ok T" and L: "linv n A MI" and k: "int k \<le> n" and u: "unit_from n (int k) (ent n (fst MI))"
  shows "\<exists>MI'. foldl (back_column T n) MI (rev [0..int k - 1]) = MI' \<and> linv n A MI' \<and> unit_from n 0 (ent n (fst MI'))"
  using L k u
proof (induction k arbitrary: MI)
  case 0
  then show ?case by simp
next
  case (Suc k)
  have up: "rev [0..int (Suc k) - 1] = int k # rev [0..int k - 1]" by (subst upto_rec2) auto
  let ?MI = "back_column T n MI (int k)"
  have h: "linv n A ?MI" "unit_from n (int k + 1) (ent n (fst ?MI))"
    "\<And>r. 0 \<le> r \<Longrightarrow> r < int k \<Longrightarrow> ent n (fst ?MI) r (int k) = 0"
    using back_column_ok [OF T Suc.prems(1), of "int k" k] Suc.prems(2,3)
    by (auto simp: back_column_def add.commute)
  have "unit_from n (int k) (ent n (fst ?MI))" unfolding unit_from_def
  proof (intro conjI allI impI)
    show t: "tri n n (ent n (fst ?MI))" using h(2) by (simp add: unit_from_def)
    fix r c assume rc: "0 \<le> r \<and> r < n \<and> int k \<le> c \<and> c < n"
    show "ent n (fst ?MI) r c = unit r c"
    proof (cases "c = int k \<and> r < c")
      case True
      then show ?thesis using h(3) rc by (simp add: unit_def)
    next
      case False
      then show ?thesis using rc h(2) triD [OF t, of c r] by (cases "c = int k") (auto simp: unit_from_def)
    qed
  qed
  from Suc.IH [OF h(1) _ this] Suc.prems(2) show ?case unfolding up foldl.simps by simp
qed

lemma prod_apply:
  assumes "prod_is n V A unit" "0 \<le> d" "d < n"
  shows "xsum (\<lambda>i. gmul (V d i) (mvec n A x i)) [0..n - 1] = x d"
proof -
  have "xsum (\<lambda>i. gmul (V d i) (mvec n A x i)) [0..n - 1] =
      xsum (\<lambda>i. xsum (\<lambda>c. gmul (gmul (V d i) (A i c)) (x c)) [0..n - 1]) [0..n - 1]"
    by (simp add: mvec_def gmul_xsum gmul_assoc)
  also have "\<dots> = xsum (\<lambda>c. xsum (\<lambda>i. gmul (gmul (V d i) (A i c)) (x c)) [0..n - 1]) [0..n - 1]"
    by (rule xsum_swap)
  also have "\<dots> = xsum (\<lambda>c. gmul (unit d c) (x c)) [0..n - 1]"
  proof (rule xsum_cong [OF refl])
    fix c assume c: "c \<in> set [0..n - 1]"
    have "xsum (\<lambda>i. gmul (gmul (V d i) (A i c)) (x c)) [0..n - 1] =
        gmul (xsum (\<lambda>i. gmul (V d i) (A i c)) [0..n - 1]) (x c)" by (simp only: gmul_xsum_left)
    then show "xsum (\<lambda>i. gmul (gmul (V d i) (A i c)) (x c)) [0..n - 1] = gmul (unit d c) (x c)"
      using assms c by (simp add: prod_is_def)
  qed
  also have "\<dots> = x d" using mvec_unit [OF assms(2,3), of x] by (simp add: mvec_def)
  finally show ?thesis .
qed

text \<open>The call succeeds exactly for matrices that map nothing but zero to zero.\<close>

lemma jerasure_invert_run:
  assumes T: "galois_ok T" and n: "0 \<le> n" and b: "bytes_in (n * n) mat"
    and r: "jerasure_invert_matrix T mat iv n = (r, iv')"
  shows "(r = 0 \<longleftrightarrow> ker0 n (ent n mat) {0..<n}) \<and>
    (r = 0 \<longrightarrow> bytes_in (n * n) iv' \<and> prod_is n (ent n iv') (ent n mat) unit) \<and> (r = 0 \<or> r = -1)"
proof -
  let ?A = "ent n mat"
  have n': "int (nat n) = n" using n by simp
  obtain q MI where u: "upper T n [0..n - 1] (mat, identity_into n iv) = (q, MI)"
    by (cases "upper T n [0..n - 1] (mat, identity_into n iv)")
  have "tri n (n - int (nat n)) ?A" by (auto simp: tri_def n')
  then have c: "q = 0 \<and> linv n ?A MI \<and> tri n n (ent n (fst MI)) \<or> q = -1 \<and> \<not> ker0 n ?A {0..<n}"
    using upper_ok [OF T linv_start [OF b], of "nat n" iv] u unfolding n' fst_conv by simp
  show ?thesis
  proof (cases "q = 0")
    case False
    then show ?thesis using c r u by (auto simp: jerasure_invert_matrix_def)
  next
    case True
    then have L: "linv n ?A MI" and t: "tri n n (ent n (fst MI))" using c by auto
    have "unit_from n (int (nat n)) (ent n (fst MI))" unfolding n' unit_from_def using t by auto
    from back_ok [OF T L _ this, unfolded n'] obtain MI' where d:
      "foldl (back_column T n) MI (rev [0..n - 1]) = MI'"
      "linv n ?A MI'" "unit_from n 0 (ent n (fst MI'))" by blast
    have e: "r = 0" "iv' = snd MI'" using r u True d(1) by (auto simp: jerasure_invert_matrix_def)
    have "prod_is n (ent n iv') ?A (ent n (fst MI'))" using d(2) by (simp add: linv_def e)
    then have p: "prod_is n (ent n iv') ?A unit"
      by (rule prod_is_same) (use d(3) in \<open>auto simp: same_def unit_from_def\<close>)
    have "ker0 n ?A {0..<n}" unfolding ker0_def
    proof (intro allI impI)
      fix x c assume z: "\<forall>r \<in> {0..<n}. mvec n ?A x r = 0" and c: "0 \<le> c \<and> c < n"
      have "xsum (\<lambda>i. gmul (ent n iv' c i) (mvec n ?A x i)) [0..n - 1] = xsum (\<lambda>_. 0) [0..n - 1]"
        by (rule xsum_cong) (use z in \<open>auto simp: gmul_0\<close>)
      then show "x c = 0" using prod_apply [OF p, of c x] c by simp
    qed
    then show ?thesis using p d(2) by (simp add: linv_def e)
  qed
qed

text \<open>
  C14: Inverting a matrix: \<open>jerasure_invert_matrix\<close> reports success exactly when the matrix maps nothing but
  zero to zero, and the product of its result and the matrix is the unit matrix then.
\<close>

theorem jerasure_invert_iff:
  assumes "galois_ok T" "0 \<le> n" "bytes_in (n * n) mat"
  shows "(fst (jerasure_invert_matrix T mat iv n) = 0 \<longleftrightarrow> ker0 n (ent n mat) {0..<n}) \<and>
    (fst (jerasure_invert_matrix T mat iv n) = 0 \<longrightarrow>
     prod_is n (ent n (snd (jerasure_invert_matrix T mat iv n))) (ent n mat) unit)"
  using jerasure_invert_run [OF assms, of iv] by (cases "jerasure_invert_matrix T mat iv n") auto

theorem jerasure_invert_iff_witness:
  "case galois_create_mult_tables no_tables of None \<Rightarrow> False
   | Some T \<Rightarrow> fst (jerasure_invert_matrix T (\<lambda>p. 1) (\<lambda>p. 0) 2) \<noteq> 0"
proof -
  obtain T where T: "galois_create_mult_tables no_tables = Some T" "galois_ok T" by (rule galois_tables_ok)
  have b: "bytes_in (2 * 2) (\<lambda>p. 1)" by (simp add: bytes_in_def)
  have "mvec 2 (ent 2 (\<lambda>p. 1)) (\<lambda>c. 1) r = 0" for r by (simp add: mvec_def ent_def upto.simps)
  then have "\<not> ker0 2 (ent 2 (\<lambda>p. 1)) {0..<2}"
    using ker0D [of 2 "ent 2 (\<lambda>p. 1)" "{0..<2}" "\<lambda>c. 1" 0] by auto
  then show ?thesis using jerasure_invert_iff [OF T(2) _ b, of "\<lambda>p. 0"] T(1) by simp
qed

lemma jerasure_invert_ok:
  assumes T: "galois_ok T" and n: "0 \<le> n" and b: "bytes_in (n * n) mat" and A: "ker0 n (ent n mat) {0..<n}"
  obtains iv' where "jerasure_invert_matrix T mat iv n = (0, iv')" "bytes_in (n * n) iv'"
    "prod_is n (ent n iv') (ent n mat) unit"
proof -
  obtain r iv' where r: "jerasure_invert_matrix T mat iv n = (r, iv')" by fastforce
  from jerasure_invert_run [OF T n b r] show ?thesis using that A r by blast
qed

subsection \<open>The array behind the matrix\<close>

lemma foldl_keeps: "P a \<Longrightarrow> (\<And>x a. x \<in> set xs \<Longrightarrow> P a \<Longrightarrow> P (f a x)) \<Longrightarrow> P (foldl f a xs)"
  by (induction xs arbitrary: a) auto

text \<open>Nothing behind the \<open>n * n\<close> entries is written.\<close>

lemma above_rows:
  assumes "0 \<le> i" "i < n" "n * n \<le> (p :: int)"
  shows "n * i + n \<le> p" "i * n + n \<le> p"
proof -
  have "n * (i + 1) \<le> n * n" using assms by (intro mult_left_mono) auto
  then show "n * i + n \<le> p" "i * n + n \<le> p" using assms(3) by (simp_all add: algebra_simps)
qed

definition same_at :: "int \<Rightarrow> flat \<Rightarrow> flat \<times> flat \<Rightarrow> bool" where
  "same_at p iv MI \<longleftrightarrow> snd MI p = iv p"

lemma same_at_eliminate:
  assumes "0 \<le> j" "j < n" "n * n \<le> p" "same_at p iv MI"
  shows "same_at p iv (eliminate T n i MI j)"
  using above_rows(1) [OF assms(1-3)] assms(4)
  by (auto simp: same_at_def eliminate_def row_xor_def row_add_def Let_def split: prod.splits)

lemma same_at_upper_step:
  assumes "0 \<le> i" "i < n" "n * n \<le> p" "same_at p iv MI" "upper_step T n i MI = Some MI'"
  shows "same_at p iv MI'"
proof -
  obtain mat v where MI: "MI = (mat, v)" by fastforce
  obtain j where j: "List.find (\<lambda>j. mat (n * j + i) \<noteq> 0) [i..n - 1] = Some j"
    using assms(5) by (auto simp: upper_step_def MI Let_def split: option.splits)
  then have jr: "0 \<le> j" "j < n" using assms(1) by (auto simp: find_Some_iff dest!: nth_mem)
  note a = above_rows(1) [OF assms(1-3)] above_rows(2) [OF jr assms(3)]
  obtain m1 v1 where 1: "(if j = i then MI
      else (row_swap n (n * i) (j * n) mat, row_swap n (n * i) (j * n) (snd MI))) = (m1, v1)" by fastforce
  obtain m2 v2 where 2: "(if m1 (n * i + i) \<noteq> 1 then
        let inverse = galois_single_divide T 1 (m1 (n * i + i))
        in (row_scale T n (n * i) inverse m1, row_scale T n (n * i) inverse v1) else (m1, v1)) = (m2, v2)"
    by fastforce
  have s1: "same_at p iv (m1, v1)"
    using assms(4) 1 a by (auto simp: same_at_def MI row_swap_def split: if_splits)
  have s2: "same_at p iv (m2, v2)"
    using s1 2 a by (auto simp: same_at_def row_scale_def Let_def split: if_splits)
  have "MI' = foldl (eliminate T n i) (m2, v2) [i + 1..n - 1]"
    using assms(5) unfolding upper_step_def Let_def MI fst_conv snd_conv j option.case
      1 [unfolded MI snd_conv] prod.case 2 [unfolded Let_def] by simp
  then show ?thesis using s2 assms(1-3) same_at_eliminate
    by (simp only:) (rule foldl_keeps [where P = "same_at p iv"], auto)
qed

lemma same_at_upper:
  assumes "upper T n is MI = (r, MI')" "\<And>i. i \<in> set is \<Longrightarrow> 0 \<le> i \<and> i < n" "n * n \<le> p" "same_at p iv MI"
  shows "same_at p iv MI'"
  using assms
proof (induction "is" arbitrary: MI)
  case (Cons i xs)
  show ?case
  proof (cases "upper_step T n i MI")
    case None
    then show ?thesis using Cons.prems by simp
  next
    case (Some MI1)
    then have "same_at p iv MI1" using same_at_upper_step [of i n p iv MI T MI1] Cons.prems by simp
    then show ?thesis using Cons.IH [of MI1] Cons.prems Some by simp
  qed
qed simp

lemma same_at_back_column:
  assumes "0 \<le> i" "i < n" "n * n \<le> p" "same_at p iv MI"
  shows "same_at p iv (back_column T n MI i)"
  unfolding back_column_def
proof (rule foldl_keeps [where P = "same_at p iv"])
  fix j MI assume j: "j \<in> set [0..i - 1]" and s: "same_at p iv MI"
  then have "0 \<le> j" "j < n" using assms by auto
  from above_rows(2) [OF this assms(3)] show "same_at p iv (back_step T n i MI j)"
    using s by (auto simp: same_at_def back_step_def row_add_def Let_def split: prod.splits)
qed (rule assms)

lemma jerasure_invert_behind:
  assumes "jerasure_invert_matrix T mat iv n = (r, iv')" "n * n \<le> p"
  shows "iv' p = iv p"
proof -
  obtain q MI where u: "upper T n [0..n - 1] (mat, identity_into n iv) = (q, MI)"
    by (cases "upper T n [0..n - 1] (mat, identity_into n iv)")
  have s: "same_at p iv MI"
    by (rule same_at_upper [OF u _ assms(2)]) (use assms(2) in \<open>auto simp: same_at_def identity_into_def\<close>)
  have "same_at p iv (foldl (back_column T n) MI (rev [0..n - 1]))"
    by (rule foldl_keeps [where P = "same_at p iv", OF s]) (use same_at_back_column assms(2) in auto)
  then show ?thesis using assms(1) s u by (auto simp: jerasure_invert_matrix_def same_at_def split: if_splits)
qed

lemma jerasure_decoding_behind:
  assumes "jerasure_make_decoding_matrix T k m matrix erased junk dec0 = Some (r, dec, dm)" "k * k \<le> p"
  shows "dec p = dec0 p" and "dm = take (nat k) (filter (\<lambda>i. erased i = 0) [0..k + m - 1])"
  using assms jerasure_invert_behind [OF _ assms(2)]
  by (auto simp: jerasure_make_decoding_matrix_def Let_def split: if_splits prod.splits)

section \<open>Decoding\<close>

text \<open>The rows of the devices: the data first, then the coding devices with the matrix \<open>G\<close>.\<close>

definition dist_rows :: "int \<Rightarrow> gmat \<Rightarrow> gmat" where
  "dist_rows k G r c = (if r < k then unit r c else G (r - k) c)"

text \<open>Data other than zero leave less than \<open>k\<close> of the devices zero: any \<open>k\<close> devices determine it.\<close>

definition mds :: "int \<Rightarrow> int \<Rightarrow> gmat \<Rightarrow> bool" where
  "mds k n D \<longleftrightarrow> (\<forall>x. (\<exists>c. 0 \<le> c \<and> c < k \<and> x c \<noteq> 0) \<longrightarrow>
     int (card {r \<in> {0..<n}. mvec k D x r = 0}) < k)"

lemma mdsD:
  assumes "mds k n D" "R \<subseteq> {0..<n}" "int (card R) = k" "\<And>r. r \<in> R \<Longrightarrow> mvec k D x r = 0" "0 \<le> c" "c < k"
  shows "x c = 0"
proof (rule ccontr)
  assume "x c \<noteq> 0"
  then have "int (card {r \<in> {0..<n}. mvec k D x r = 0}) < k" using assms(1,5,6) unfolding mds_def by blast
  moreover have "finite {r \<in> {0..<n}. mvec k D x r = 0}" by (rule finite_subset [of _ "{0..<n}"]) auto
  then have "card R \<le> card {r \<in> {0..<n}. mvec k D x r = 0}" by (rule card_mono) (use assms in auto)
  ultimately show False using assms(3) by simp
qed

text \<open>
  With \<open>k\<close> healthy devices the decoding matrix is made, and its row \<open>d\<close> gives the data of device \<open>d\<close> from
  what the chosen devices hold.
\<close>

theorem jerasure_decoding_ok:
  assumes T: "galois_ok T" and k: "0 < k" and b: "bytes_in (m * k) matrix"
    and mds: "mds k (k + m) (dist_rows k (ent k matrix))"
    and h: "k \<le> int (length (filter (\<lambda>i. erased i = 0) [0..k + m - 1]))"
  obtains dec dm where "jerasure_make_decoding_matrix T k m matrix erased junk dec0 = Some (0, dec, dm)"
    "bytes_in (k * k) dec" "dm = take (nat k) (filter (\<lambda>i. erased i = 0) [0..k + m - 1])"
    "\<And>x d. 0 \<le> d \<Longrightarrow> d < k \<Longrightarrow> xsum (\<lambda>i. gmul (ent k dec d i)
       (mvec k (dist_rows k (ent k matrix)) x (dm ! nat i))) [0..k - 1] = x d"
proof -
  let ?h = "filter (\<lambda>i. erased i = 0) [0..k + m - 1]"
  let ?dm = "take (nat k) ?h" and ?D = "dist_rows k (ent k matrix)"
  let ?t = "\<lambda>p. if 0 \<le> p \<and> p < k * k then
              let id = ?dm ! nat (p div k)
              in if id < k then (if p mod k = id then 1 else 0) else matrix ((id - k) * k + p mod k)
            else junk p"
  have ld: "length ?dm = nat k" using h k by simp
  have dm: "?dm ! j \<in> {0..<k + m}" if "j < nat k" for j
  proof -
    have "?dm ! j \<in> set ?h" using that ld by (metis nth_mem set_take_subset subsetD)
    then show ?thesis by auto
  qed
  have pos: "(r * k + c) div k = r" "(r * k + c) mod k = c" if "0 \<le> c" "c < k" for r c using that by simp_all
  have t: "?t (r * k + c) = (if ?dm ! nat r < k then (if c = ?dm ! nat r then 1 else 0)
      else matrix ((?dm ! nat r - k) * k + c))" if "0 \<le> r" "r < k" "0 \<le> c" "c < k" for r c
    using in_range [OF that] pos [OF that(3,4)] by (simp add: Let_def)
  have e: "ent k ?t r c = ?D (?dm ! nat r) c" if "0 \<le> r" "r < k" "0 \<le> c" "c < k" for r c
    unfolding ent_def t [OF that] by (auto simp: dist_rows_def unit_def ent_def)
  have bt: "bytes_in (k * k) ?t"
    unfolding bytes_in_def
  proof (intro allI impI)
    fix p assume p: "0 \<le> p \<and> p < k * k"
    define r where "r = p div k"
    define c where "c = p mod k"
    have e: "p = r * k + c" "0 \<le> c" "c < k" "0 \<le> r" using p k by (simp_all add: r_def c_def pos_imp_zdiv_nonneg_iff)
    then have "r * k < k * k" using p by linarith
    then have rc: "0 \<le> r" "r < k" "0 \<le> c" "c < k" "p = r * k + c" using e k by auto
    have q: "?dm ! nat r < k + m" using dm [of "nat r"] rc k by auto
    show "0 \<le> ?t p \<and> ?t p < 256"
      unfolding rc(5) t [OF rc(1-4)]
      using bytes_inD [OF b in_range [of "?dm ! nat r - k" m c k]] q rc by auto
  qed
  have mv: "mvec k (ent k ?t) x r = mvec k ?D x (?dm ! nat r)" if "0 \<le> r" "r < k" for x r
    unfolding mvec_def by (rule xsum_cong) (use e that in auto)
  have ker: "ker0 k (ent k ?t) {0..<k}" unfolding ker0_def
  proof (intro allI impI)
    fix x c assume z: "\<forall>r \<in> {0..<k}. mvec k (ent k ?t) x r = 0" and c: "0 \<le> c \<and> c < k"
    have "distinct ?dm" by (rule distinct_take) simp
    then have "int (card (set ?dm)) = int (nat k)" by (simp only: distinct_card ld)
    then have "int (card (set ?dm)) = k" using k by simp
    moreover have "set ?dm \<subseteq> {0..<k + m}"
    proof
      fix r assume "r \<in> set ?dm"
      then obtain j where "j < nat k" "r = ?dm ! j" unfolding in_set_conv_nth ld by blast
      then show "r \<in> {0..<k + m}" using dm by blast
    qed
    moreover have "mvec k ?D x r = 0" if r: "r \<in> set ?dm" for r
    proof -
      obtain j where j: "j < nat k" "r = ?dm ! j"
        using r unfolding in_set_conv_nth ld by blast
      then have i: "0 \<le> int j" "int j < k" by auto
      then have "int j \<in> {0..<k}" by simp
      then have "mvec k (ent k ?t) x (int j) = 0" by (rule bspec [OF z])
      then show ?thesis unfolding mv [OF i] j(2) nat_int .
    qed
    ultimately show "x c = 0" using mdsD [OF mds _ _ _ ] c by blast
  qed
  obtain dec where d: "jerasure_invert_matrix T ?t dec0 k = (0, dec)" "bytes_in (k * k) dec"
    "prod_is k (ent k dec) (ent k ?t) unit"
    by (rule jerasure_invert_ok [OF T _ bt ker, of dec0]) (use k in simp)
  have "xsum (\<lambda>i. gmul (ent k dec d i) (mvec k ?D x (?dm ! nat i))) [0..k - 1] = x d" if "0 \<le> d" "d < k" for x d
  proof -
    have "xsum (\<lambda>i. gmul (ent k dec d i) (mvec k ?D x (?dm ! nat i))) [0..k - 1] =
        xsum (\<lambda>i. gmul (ent k dec d i) (mvec k (ent k ?t) x i)) [0..k - 1]"
      by (rule xsum_cong) (use mv in auto)
    then show ?thesis using prod_apply [OF d(3) that] by simp
  qed
  moreover have "jerasure_make_decoding_matrix T k m matrix erased junk dec0 = Some (0, dec, ?dm)"
    using h d(1) by (simp add: jerasure_make_decoding_matrix_def Let_def)
  ultimately show ?thesis using d(2) by (intro that [of dec ?dm]) auto
qed

end
