(* ===== verification/ReedSol.thy ===== *)
theory ReedSol
  imports Jerasure
begin

text \<open>
  The Vandermonde matrix of Reed-Solomon codes (\<open>jerasure/reed_sol.c\<close>) and why any \<open>k\<close> of its devices
  determine the data.
\<close>

section \<open>Building the matrix\<close>

text \<open>A column from row \<open>first\<close> on is multiplied; a multiple of column \<open>i\<close> is added to column \<open>j\<close>.\<close>

definition col_scale :: "galois \<Rightarrow> int \<Rightarrow> int \<Rightarrow> int \<Rightarrow> int \<Rightarrow> int \<Rightarrow> flat \<Rightarrow> flat" where
  "col_scale T first rows cols i tmp M =
     (\<lambda>p. if first * cols \<le> p \<and> p < rows * cols \<and> p mod cols = i then galois_single_multiply T tmp (M p) else M p)"

definition col_add :: "galois \<Rightarrow> int \<Rightarrow> int \<Rightarrow> int \<Rightarrow> int \<Rightarrow> int \<Rightarrow> flat \<Rightarrow> flat" where
  "col_add T rows cols j i tmp M =
     (\<lambda>p. if 0 \<le> p \<and> p < rows * cols \<and> p mod cols = j
          then M p XOR galois_single_multiply T tmp (M (p - j + i)) else M p)"

definition vdm_row :: "galois \<Rightarrow> int \<Rightarrow> flat \<Rightarrow> int \<Rightarrow> flat" where
  "vdm_row T cols vdm i =
     fst (foldl (\<lambda>(vdm, k) j. (vdm(i * cols + j := k), galois_single_multiply T k i)) (vdm, 1) [0..cols - 1])"

text \<open>\<open>None\<close> is \<open>NULL\<close>; \<open>junk\<close> is what \<open>malloc\<close> returned.\<close>

definition reed_sol_extended_vandermonde_matrix :: "galois \<Rightarrow> flat \<Rightarrow> int \<Rightarrow> int \<Rightarrow> flat option" where
  "reed_sol_extended_vandermonde_matrix T junk rows cols =
     (if 256 < rows \<or> 256 < cols then None
      else let vdm = (\<lambda>p. if p = 0 then 1 else if 1 \<le> p \<and> p < cols then 0 else junk p)
           in if rows = 1 then Some vdm
              else let i = (rows - 1) * cols;
                       vdm = (\<lambda>p. if i \<le> p \<and> p < i + cols - 1 then 0 else if p = i + cols - 1 then 1 else vdm p)
                   in if rows = 2 then Some vdm else Some (foldl (vdm_row T cols) vdm [1..rows - 2]))"

definition dist_column :: "galois \<Rightarrow> int \<Rightarrow> int \<Rightarrow> int \<Rightarrow> flat \<Rightarrow> int \<Rightarrow> flat" where
  "dist_column T rows cols i dist j =
     (let tmp = dist (cols * i + j)
      in if j \<noteq> i \<and> tmp \<noteq> 0 then col_add T rows cols j i tmp dist else dist)"

text \<open>One row made a row of the unit matrix; \<open>None\<close> when the process ends.\<close>

definition dist_step :: "galois \<Rightarrow> int \<Rightarrow> int \<Rightarrow> flat \<Rightarrow> int \<Rightarrow> flat option" where
  "dist_step T rows cols dist i =
     (case List.find (\<lambda>j. dist (cols * j + i) \<noteq> 0) [i..rows - 1] of
        None \<Rightarrow> None
      | Some j \<Rightarrow>
          let dist = (if j \<noteq> i then row_swap cols (cols * j) (cols * i) dist else dist);
              dist = (if dist (cols * i + i) \<noteq> 1
                      then let tmp = galois_single_divide T 1 (dist (cols * i + i))
                           in col_scale T 0 rows cols i tmp dist
                      else dist)
          in Some (foldl (dist_column T rows cols i) dist [0..cols - 1]))"

fun dist_steps :: "galois \<Rightarrow> int \<Rightarrow> int \<Rightarrow> int list \<Rightarrow> flat \<Rightarrow> flat option" where
  "dist_steps T rows cols [] dist = Some dist"
| "dist_steps T rows cols (i # is) dist =
     (case dist_step T rows cols dist i of None \<Rightarrow> None | Some dist \<Rightarrow> dist_steps T rows cols is dist)"

text \<open>Row \<open>k\<close> all ones, then the first column.\<close>

definition dist_ones :: "galois \<Rightarrow> int \<Rightarrow> int \<Rightarrow> flat \<Rightarrow> int \<Rightarrow> flat" where
  "dist_ones T rows cols dist j =
     (let tmp = dist (cols * cols + j)
      in if tmp \<noteq> 1 then col_scale T cols rows cols j (galois_single_divide T 1 tmp) dist else dist)"

definition dist_first :: "galois \<Rightarrow> int \<Rightarrow> flat \<Rightarrow> int \<Rightarrow> flat" where
  "dist_first T cols dist i =
     (let tmp = dist (cols * i)
      in if tmp \<noteq> 1 then row_scale T cols (cols * i) (galois_single_divide T 1 tmp) dist else dist)"

text \<open>\<open>Some None\<close> is \<open>NULL\<close>, \<open>None\<close> a process that has ended.\<close>

definition reed_sol_big_vandermonde_distribution_matrix :: "galois \<Rightarrow> flat \<Rightarrow> int \<Rightarrow> int \<Rightarrow> flat option option" where
  "reed_sol_big_vandermonde_distribution_matrix T junk rows cols =
     (if rows \<le> cols then Some None
      else case reed_sol_extended_vandermonde_matrix T junk rows cols of
             None \<Rightarrow> Some None
           | Some dist \<Rightarrow>
               (case dist_steps T rows cols [1..cols - 1] dist of
                  None \<Rightarrow> None
                | Some dist \<Rightarrow>
                    let dist = foldl (dist_ones T rows cols) dist [0..cols - 1]
                    in Some (Some (foldl (dist_first T cols) dist [cols + 1..rows - 1]))))"

definition reed_sol_vandermonde_coding_matrix :: "galois \<Rightarrow> flat \<Rightarrow> int \<Rightarrow> int \<Rightarrow> flat option option" where
  "reed_sol_vandermonde_coding_matrix T junk k m =
     (case reed_sol_big_vandermonde_distribution_matrix T junk (k + m) k of
        None \<Rightarrow> None
      | Some None \<Rightarrow> Some None
      | Some (Some vdm) \<Rightarrow> Some (Some (\<lambda>j. if 0 \<le> j \<and> j < m * k then vdm (k * k + j) else junk j)))"

section \<open>Polynomials have few roots\<close>

fun horner :: "byte \<Rightarrow> byte list \<Rightarrow> byte" where
  "horner t [] = 0"
| "horner t (a # as) = a XOR gmul t (horner t as)"

fun tpow :: "byte \<Rightarrow> nat \<Rightarrow> byte" where
  "tpow t 0 = 1"
| "tpow t (Suc n) = gmul (tpow t n) t"

lemma xor_move: "(a :: byte) = b XOR c \<longleftrightarrow> a XOR b = c"
  by (metis xor.assoc xor.commute xor_self_eq xor.left_neutral)

text \<open>The quotient by a linear factor.\<close>

lemma horner_quotient:
  "\<exists>q. length q = length p - 1 \<and> (\<forall>t. horner t p XOR horner s p = gmul (t XOR s) (horner t q)) \<and>
     (horner s p = 0 \<and> set q \<subseteq> {0} \<longrightarrow> set p \<subseteq> {0})"
proof (induction p)
  case Nil
  then show ?case by (simp add: gmul_0)
next
  case (Cons a p)
  then obtain q where q: "length q = length p - 1"
    "\<And>t. horner t p XOR horner s p = gmul (t XOR s) (horner t q)"
    "horner s p = 0 \<Longrightarrow> set q \<subseteq> {0} \<Longrightarrow> set p \<subseteq> {0}" by blast
  show ?case
  proof (cases "p = []")
    case True
    then show ?thesis by (auto simp: gmul_0)
  next
    case False
    let ?q = "horner s p # q"
    have "horner t (a # p) XOR horner s (a # p) = gmul (t XOR s) (horner t ?q)" for t
    proof -
      have "horner t (a # p) XOR horner s (a # p) = gmul t (horner t p) XOR gmul s (horner s p)"
        by (simp add: xor.assoc xor.left_commute)
      also have "horner t p = horner s p XOR gmul (t XOR s) (horner t q)"
        using q(2) [of t] by (metis xor_move)
      also have "gmul t (horner s p XOR gmul (t XOR s) (horner t q)) XOR gmul s (horner s p) =
          gmul (t XOR s) (horner s p XOR gmul t (horner t q))"
        by (simp add: gmul_xor gmul_xor_left gmul_left_commute ac_simps)
      finally show ?thesis by simp
    qed
    moreover have "set (a # p) \<subseteq> {0}" if h: "horner s (a # p) = 0" "set ?q \<subseteq> {0}"
    proof -
      have z: "horner s p = 0" "set q \<subseteq> {0}" using h(2) by auto
      then have "a = 0" using h(1) by (simp add: gmul_0)
      then show ?thesis using q(3) [OF z] by simp
    qed
    moreover have "length ?q = length (a # p) - 1" using q(1) False by (cases p) auto
    ultimately show ?thesis by blast
  qed
qed

lemma few_roots:
  assumes "finite S" "length p \<le> card S" "\<And>s. s \<in> S \<Longrightarrow> horner s p = 0"
  shows "set p \<subseteq> {0}"
  using assms
proof (induction "length p" arbitrary: p S)
  case 0
  then show ?case by simp
next
  case (Suc n)
  then have "S \<noteq> {}" by auto
  then obtain s where s: "s \<in> S" by blast
  obtain q where q: "length q = length p - 1"
    "\<And>t. horner t p XOR horner s p = gmul (t XOR s) (horner t q)"
    "horner s p = 0 \<Longrightarrow> set q \<subseteq> {0} \<Longrightarrow> set p \<subseteq> {0}" using horner_quotient [of p s] by blast
  have "horner t q = 0" if "t \<in> S - {s}" for t
  proof -
    have "gmul (t XOR s) (horner t q) = 0" using q(2) [of t] Suc.prems(3) [of t] Suc.prems(3) [OF s] that by simp
    moreover have "t XOR s \<noteq> 0" using that xor_move [of t s 0] by simp
    ultimately show ?thesis by simp
  qed
  moreover have "length q \<le> card (S - {s})" using q(1) Suc.prems(1,2) s by simp
  moreover have "n = length q" using q(1) Suc.hyps(2) by simp
  ultimately have "set q \<subseteq> {0}" using Suc.hyps(1) [of q "S - {s}"] Suc.prems(1) by blast
  then show ?case using q(3) Suc.prems(3) [OF s] by blast
qed

lemma map_int_upt: "map int [0..<n] = [0..int n - 1]"
proof (induction n)
  case (Suc n)
  have "[0..int (Suc n) - 1] = [0..int n - 1] @ [int n]" by (subst upto_rec2) auto
  then show ?case using Suc by simp
qed simp

lemma horner_sum: "xsum (\<lambda>c. gmul (tpow t c) (x c)) [0..<n] = horner t (map x [0..<n])"
proof (induction n arbitrary: x)
  case (Suc n)
  have u: "[0..<Suc n] = 0 # map Suc [0..<n]" by (simp add: upt_conv_Cons map_Suc_upt)
  have "gmul (gmul (tpow t c) t) y = gmul t (gmul (tpow t c) y)" for c y
    by (simp add: gmul_assoc gmul_left_commute)
  then show ?case unfolding u using Suc [of "\<lambda>c. x (Suc c)"]
    by (simp add: comp_def gmul_xsum [symmetric])
qed simp

lemma few_zeros:
  assumes "finite S" "m \<le> int (card S)"
    "\<And>s. s \<in> S \<Longrightarrow> xsum (\<lambda>c. gmul (tpow s (nat c)) (x c)) [0..m - 1] = 0" "0 \<le> c" "c < m"
  shows "x c = 0"
proof -
  define n where "n = nat m"
  have m: "m = int n" using assms(4,5) by (simp add: n_def)
  have "horner s (map (\<lambda>c. x (int c)) [0..<n]) = 0" if "s \<in> S" for s
    using assms(3) [OF that] horner_sum [of s "\<lambda>c. x (int c)" n]
    unfolding m map_int_upt [symmetric] by simp
  then have "set (map (\<lambda>c. x (int c)) [0..<n]) \<subseteq> {0}"
    using few_roots [OF assms(1), of "map (\<lambda>c. x (int c)) [0..<n]"] assms(2) m by simp
  moreover have "nat c \<in> set [0..<n]" "int (nat c) = c" using assms(4,5) m by auto
  ultimately show ?thesis by (metis image_eqI list.set_map singletonD subsetD)
qed


section \<open>Operations on columns\<close>

definition cscale :: "int \<Rightarrow> int \<Rightarrow> byte \<Rightarrow> gmat \<Rightarrow> gmat" where
  "cscale f i v B = (\<lambda>r c. if c = i \<and> f \<le> r then gmul v (B r c) else B r c)"

definition cadd :: "int \<Rightarrow> int \<Rightarrow> byte \<Rightarrow> gmat \<Rightarrow> gmat" where
  "cadd j i v B = (\<lambda>r c. if c = j then B r j XOR gmul v (B r i) else B r c)"

lemma mvec_cscale:
  "mvec k (cscale f i v B) x r = mvec k B (if f \<le> r then x(i := gmul v (x i)) else x) r"
  unfolding mvec_def by (rule xsum_cong) (auto simp: cscale_def gmul_assoc gmul_left_commute)

lemma mvec_cadd:
  assumes "0 \<le> i" "i < k" "0 \<le> j" "j < k"
  shows "mvec k (cadd j i v B) x r = mvec k B (x(i := x i XOR gmul v (x j))) r"
proof -
  have "mvec k (cadd j i v B) x r =
      xsum (\<lambda>c. gmul (B r c) (x c) XOR (if c = j then gmul (gmul v (B r i)) (x j) else 0)) [0..k - 1]"
    unfolding mvec_def by (rule xsum_cong) (auto simp: cadd_def gmul_xor_left)
  also have "\<dots> = mvec k B x r XOR gmul (gmul v (B r i)) (x j)"
    using assms by (simp add: xsum_xor xsum_single mvec_def)
  also have "\<dots> = mvec k B x r XOR gmul (B r i) (gmul v (x j))"
    by (simp add: gmul_assoc gmul_left_commute)
  finally show ?thesis using mvec_upd [OF assms(1,2)] by simp
qed

text \<open>None of the operations makes a vector with more zeros than there were.\<close>

lemma mds_le:
  assumes "mds k n B" "\<And>x. \<exists>c. 0 \<le> c \<and> c < k \<and> x c \<noteq> 0 \<Longrightarrow>
    \<exists>y. (\<exists>c. 0 \<le> c \<and> c < k \<and> y c \<noteq> 0) \<and> (\<forall>r. 0 \<le> r \<and> r < n \<and> mvec k B' x r = 0 \<longrightarrow> mvec k B y r = 0)"
  shows "mds k n B'"
  unfolding mds_def
proof (intro allI impI)
  fix x assume "\<exists>c. 0 \<le> c \<and> c < k \<and> x c \<noteq> (0 :: byte)"
  from assms(2) [OF this] obtain y where y: "\<exists>c. 0 \<le> c \<and> c < k \<and> y c \<noteq> 0"
    "\<And>r. 0 \<le> r \<Longrightarrow> r < n \<Longrightarrow> mvec k B' x r = 0 \<Longrightarrow> mvec k B y r = 0" by blast
  have "finite {r \<in> {0..<n}. mvec k B y r = 0}" by (rule finite_subset [of _ "{0..<n}"]) auto
  then have "card {r \<in> {0..<n}. mvec k B' x r = 0} \<le> card {r \<in> {0..<n}. mvec k B y r = 0}"
    by (rule card_mono) (use y(2) in auto)
  then show "int (card {r \<in> {0..<n}. mvec k B' x r = 0}) < k" using assms(1) y(1) unfolding mds_def by fastforce
qed

lemma mds_same: "mds k n B \<Longrightarrow> same n k B' B \<Longrightarrow> mds k n B'"
  by (rule mds_le) (use mvec_cong [of k B' _ B] in \<open>auto simp: same_def\<close>)

lemma mds_cscale:
  assumes "mds k n B" "v \<noteq> 0"
  shows "mds k n (cscale 0 i v B)"
proof (rule mds_le [OF assms(1)])
  fix x assume "\<exists>c. 0 \<le> c \<and> c < k \<and> x c \<noteq> (0 :: byte)"
  then show "\<exists>y. (\<exists>c. 0 \<le> c \<and> c < k \<and> y c \<noteq> 0) \<and>
      (\<forall>r. 0 \<le> r \<and> r < n \<and> mvec k (cscale 0 i v B) x r = 0 \<longrightarrow> mvec k B y r = 0)"
    using assms(2) by (intro exI [of _ "x(i := gmul v (x i))"]) (auto simp: mvec_cscale)
qed

lemma mds_cadd:
  assumes "mds k n B" "0 \<le> i" "i < k" "0 \<le> j" "j < k" "i \<noteq> j"
  shows "mds k n (cadd j i v B)"
proof (rule mds_le [OF assms(1)])
  fix x assume "\<exists>c. 0 \<le> c \<and> c < k \<and> x c \<noteq> (0 :: byte)"
  then obtain c where c: "0 \<le> c" "c < k" "x c \<noteq> 0" by blast
  let ?y = "x(i := x i XOR gmul v (x j))"
  have "\<exists>c. 0 \<le> c \<and> c < k \<and> ?y c \<noteq> 0"
  proof (cases "x j = 0")
    case True
    then have "?y c \<noteq> 0" using c by (auto simp: gmul_0)
    then show ?thesis using c by blast
  qed (use assms in \<open>intro exI [of _ j], auto\<close>)
  then show "\<exists>y. (\<exists>c. 0 \<le> c \<and> c < k \<and> y c \<noteq> 0) \<and>
      (\<forall>r. 0 \<le> r \<and> r < n \<and> mvec k (cadd j i v B) x r = 0 \<longrightarrow> mvec k B y r = 0)"
    using assms by (intro exI [of _ ?y]) (simp add: mvec_cadd)
qed

lemma mds_rscale:
  assumes "mds k n B" "v \<noteq> 0"
  shows "mds k n (rscale a v B)"
  by (rule mds_le [OF assms(1)]) (use assms(2) in \<open>auto simp: mvec_rscale split: if_splits\<close>)

lemma mds_rswap:
  assumes "mds k n B" "0 \<le> a" "a < n" "0 \<le> b" "b < n"
  shows "mds k n (rswap a b B)"
  unfolding mds_def
proof (intro allI impI)
  fix x assume x: "\<exists>c. 0 \<le> c \<and> c < k \<and> x c \<noteq> (0 :: byte)"
  let ?f = "\<lambda>r. if r = a then b else if r = b then a else r"
  let ?Z = "\<lambda>B. {r \<in> {0..<n}. mvec k B x r = 0}"
  have "finite (?Z B)" by (rule finite_subset [of _ "{0..<n}"]) auto
  moreover have "inj_on ?f (?Z (rswap a b B))" by (auto simp: inj_on_def split: if_splits)
  moreover have "?f ` ?Z (rswap a b B) \<subseteq> ?Z B"
  proof
    fix q assume "q \<in> ?f ` ?Z (rswap a b B)"
    then obtain r where "q = ?f r" "r \<in> ?Z (rswap a b B)" by (rule imageE)
    then have r: "q = ?f r" "0 \<le> r" "r < n" "mvec k (rswap a b B) x r = 0" by auto
    then have "mvec k B x q = 0" by (simp only: mvec_rswap)
    then show "q \<in> ?Z B" using r assms by auto
  qed
  ultimately have "card (?Z (rswap a b B)) \<le> card (?Z B)" using card_inj_on_le by blast
  then show "int (card (?Z (rswap a b B))) < k" using assms(1) x unfolding mds_def by fastforce
qed

text \<open>With the unit matrix on top also the columns of the rest may be scaled, and no entry there is zero.\<close>

definition top_unit :: "int \<Rightarrow> int \<Rightarrow> gmat \<Rightarrow> bool" where
  "top_unit k i B \<longleftrightarrow> (\<forall>r c. 0 \<le> r \<and> r < i \<and> 0 \<le> c \<and> c < k \<longrightarrow> B r c = unit r c)"

lemma mvec_top: "top_unit k i B \<Longrightarrow> 0 \<le> r \<Longrightarrow> r < i \<Longrightarrow> r < k \<Longrightarrow> mvec k B x r = x r"
  using mvec_cong [of k B r unit x] mvec_unit [of r k x] by (simp add: top_unit_def)

lemma mds_cscale_below:
  assumes "mds k n B" "top_unit k k B" "v \<noteq> 0"
  shows "mds k n (cscale k i v B)"
proof (rule mds_le [OF assms(1)])
  fix x assume "\<exists>c. 0 \<le> c \<and> c < k \<and> x c \<noteq> (0 :: byte)"
  then obtain c where c: "0 \<le> c" "c < k" "x c \<noteq> 0" by blast
  then have "(x(i := gmul v (x i))) c \<noteq> 0" using assms(3) by auto
  then have "\<exists>c. 0 \<le> c \<and> c < k \<and> (x(i := gmul v (x i))) c \<noteq> 0" using c by blast
  moreover have "mvec k B (x(i := gmul v (x i))) r = 0"
    if "0 \<le> r \<and> r < n \<and> mvec k (cscale k i v B) x r = 0" for r
    using that mvec_top [OF assms(2), of r] by (cases "k \<le> r") (auto simp: mvec_cscale gmul_0)
  ultimately show "\<exists>y. (\<exists>c. 0 \<le> c \<and> c < k \<and> y c \<noteq> 0) \<and>
      (\<forall>r. 0 \<le> r \<and> r < n \<and> mvec k (cscale k i v B) x r = 0 \<longrightarrow> mvec k B y r = 0)"
    by (intro exI [of _ "x(i := gmul v (x i))"]) blast
qed

lemma mvec_one: "0 \<le> i \<Longrightarrow> i < k \<Longrightarrow> mvec k B (unit i) r = B r i"
proof -
  assume i: "0 \<le> i" "i < k"
  have "mvec k B (unit i) r = xsum (\<lambda>c. if c = i then B r i else 0) [0..k - 1]"
    unfolding mvec_def by (rule xsum_cong) (auto simp: unit_def gmul_0)
  then show ?thesis using i by (simp add: xsum_single)
qed

lemma mds_entry:
  assumes "mds k n B" "top_unit k k B" "k \<le> r" "r < n" "0 \<le> c" "c < k"
  shows "B r c \<noteq> 0"
proof
  assume z: "B r c = 0"
  let ?R = "insert r ({0..<k} - {c})"
  have "card ?R = card ({0..<k} - {c}) + 1" using assms by simp
  then have n: "int (card ?R) = k" using assms by simp
  have R: "?R \<subseteq> {0..<n}" using assms by auto
  have "mvec k B (unit c) q = 0" if "q \<in> ?R" for q
    using that z assms(2,5,6) by (auto simp: mvec_one top_unit_def unit_def)
  then have "unit c c = 0" by (rule mdsD [OF assms(1) R n _ assms(5,6)])
  then show False by (simp add: unit_def)
qed

lemma mds_pivot:
  assumes "mds k n B" "top_unit k i B" "0 \<le> i" "i < k" "k \<le> n"
  shows "\<exists>j. i \<le> j \<and> j < n \<and> B j i \<noteq> 0"
proof (rule ccontr)
  assume "\<not> ?thesis"
  then have z: "B j i = 0" if "i \<le> j" "j < n" for j using that by blast
  have "mvec k B (unit i) r = 0" if "r \<in> {0..<k}" for r
  proof (cases "r < i")
    case True
    then show ?thesis using assms(2-4) that by (simp add: mvec_one top_unit_def unit_def)
  next
    case False
    then show ?thesis using z [of r] assms(3-5) that by (simp add: mvec_one)
  qed
  moreover have "{0..<k} \<subseteq> {0..<n}" "int (card {0..<k}) = k" using assms by auto
  ultimately have "unit i i = 0" using mdsD [OF assms(1) _ _ _ assms(3,4)] by blast
  then show False by (simp add: unit_def)
qed


section \<open>The matrix determines the data\<close>

text \<open>The loops over a column.\<close>

lemma col_index:
  assumes "0 \<le> c" "c < (n :: int)"
  shows "(r * n + c) mod n = c" "f * n \<le> r * n + c \<longleftrightarrow> f \<le> r"
proof -
  show "(r * n + c) mod n = c" using assms by simp
  show "f * n \<le> r * n + c \<longleftrightarrow> f \<le> r"
  proof
    assume "f * n \<le> r * n + c"
    then have "f * n < (r + 1) * n" using assms by (simp add: algebra_simps)
    then have "f < r + 1" using assms by (simp add: mult_less_cancel_right)
    then show "f \<le> r" by simp
  next
    assume "f \<le> r"
    then have "f * n \<le> r * n" using assms by (intro mult_right_mono) auto
    then show "f * n \<le> r * n + c" using assms(1) by linarith
  qed
qed

lemma bytes_col_scale:
  assumes "galois_ok T" "bytes_in (m * n) M" "0 \<le> f" "0 \<le> n" "0 \<le> v" "v < 256"
  shows "bytes_in (m * n) (col_scale T f m n i v M)"
  using assms uint_byte by (auto simp: bytes_in_def col_scale_def gal_mul_int)

lemma ent_col_scale:
  assumes "galois_ok T" "bytes_in (m * n) M" "0 \<le> v" "v < 256"
  shows "same m n (ent n (col_scale T f m n i v M)) (cscale f i (word_of_int v) (ent n M))"
  unfolding same_def
proof (intro allI impI)
  fix r c assume rc: "0 \<le> r \<and> r < m \<and> 0 \<le> c \<and> c < n"
  then have p: "0 \<le> r * n + c" "r * n + c < m * n" using in_range [of r m c n] by auto
  have "col_scale T f m n i v M (r * n + c) =
      (if f \<le> r \<and> c = i then galois_single_multiply T v (M (r * n + c)) else M (r * n + c))"
    using col_index(1) [of c n r] col_index(2) [of c n f r] rc p(2) by (simp add: col_scale_def)
  then show "ent n (col_scale T f m n i v M) r c = cscale f i (word_of_int v) (ent n M) r c"
    using gal_mul_int [OF assms(1,3,4)] bytes_inD [OF assms(2) p] by (auto simp: ent_def cscale_def)
qed

lemma col_shift:
  assumes "0 \<le> p" "p < m * n" "p mod n = j" "0 \<le> i" "i < (n :: int)"
  shows "0 \<le> p - j + i" "p - j + i < m * n"
proof -
  have d: "p - j = n * (p div n)" unfolding assms(3) [symmetric] by (rule minus_mod_eq_mult_div)
  have "0 \<le> p mod n" using assms(4,5) by simp
  have "0 \<le> p div n" using assms by (simp add: pos_imp_zdiv_nonneg_iff)
  then show "0 \<le> p - j + i" using d assms by simp
  have "n * (p div n) \<le> p" using d assms(3) \<open>0 \<le> p mod n\<close> by linarith
  then have "n * (p div n) < n * m" using assms(2) by (simp add: mult.commute)
  then have "p div n < m" using assms(4,5) by (simp add: mult_less_cancel_left_pos)
  then have "n * (p div n + 1) \<le> n * m" using assms(4,5) by (intro mult_left_mono) auto
  then show "p - j + i < m * n" using d assms(5) by (simp add: algebra_simps)
qed

lemma bytes_col_add:
  assumes "galois_ok T" "bytes_in (m * n) M" "0 \<le> i" "i < n" "0 \<le> v" "v < 256"
  shows "bytes_in (m * n) (col_add T m n j i v M)"
  unfolding bytes_in_def
proof (intro allI impI)
  fix p assume p: "0 \<le> p \<and> p < m * n"
  note M = bytes_inD [OF assms(2)]
  show "0 \<le> col_add T m n j i v M p \<and> col_add T m n j i v M p < 256"
  proof (cases "p mod n = j")
    case True
    have "galois_single_multiply T v (M (p - j + i)) = uint (gmul (word_of_int v) (word_of_int (M (p - j + i))))"
      using M [OF col_shift [of p m n j i]] True p assms by (intro gal_mul_int) auto
    then show ?thesis using True p xor_byte_range [OF _ _ uint_byte] M [of p] by (auto simp: col_add_def)
  qed (use M [of p] p in \<open>auto simp: col_add_def\<close>)
qed

lemma ent_col_add:
  assumes "galois_ok T" "bytes_in (m * n) M" "0 \<le> i" "i < n" "0 \<le> v" "v < 256"
  shows "same m n (ent n (col_add T m n j i v M)) (cadd j i (word_of_int v) (ent n M))"
  unfolding same_def
proof (intro allI impI)
  fix r c assume rc: "0 \<le> r \<and> r < m \<and> 0 \<le> c \<and> c < n"
  then have p: "0 \<le> r * n + c" "r * n + c < m * n" using in_range [of r m c n] by auto
  have q: "0 \<le> r * n + i" "r * n + i < m * n" using rc in_range [of r m i n] assms by auto
  have "col_add T m n j i v M (r * n + c) =
      (if c = j then M (r * n + j) XOR galois_single_multiply T v (M (r * n + i)) else M (r * n + c))"
    using col_index(1) [of c n r] rc p by (auto simp: col_add_def)
  then show "ent n (col_add T m n j i v M) r c = cadd j i (word_of_int v) (ent n M) r c"
    using gal_mul_int [OF assms(1,5,6)] bytes_inD [OF assms(2) q] by (simp add: ent_def cadd_def word_xor_int)
qed

text \<open>What every step keeps: bytes, few zeros, and the rows above are those of the unit matrix.\<close>

definition dist_ok :: "int \<Rightarrow> int \<Rightarrow> int \<Rightarrow> flat \<Rightarrow> bool" where
  "dist_ok k n i M \<longleftrightarrow> bytes_in (n * k) M \<and> mds k n (ent k M) \<and> top_unit k i (ent k M)"

lemma dist_okI:
  assumes "bytes_in (n * k) M" "same n k (ent k M) B" "mds k n B" "top_unit k i B" "i \<le> n"
  shows "dist_ok k n i M"
  using assms mds_same [OF assms(3,2)] by (auto simp: dist_ok_def top_unit_def same_def)

lemma dist_column_ok:
  assumes T: "galois_ok T" and M: "dist_ok k n i M" and i: "0 \<le> i" "i < k" "i < n" and j: "0 \<le> j" "j < k"
    and p: "ent k M i i = 1" and M': "dist_column T n k i M j = M'"
  shows "dist_ok k n i M'" "\<And>c. 0 \<le> c \<Longrightarrow> c < k \<Longrightarrow> ent k M' i c = (if c = j \<and> j \<noteq> i then 0 else ent k M i c)"
proof -
  have b: "bytes_in (n * k) M" "mds k n (ent k M)" "top_unit k i (ent k M)" using M by (simp_all add: dist_ok_def)
  have q: "k * i + j = i * k + j" by simp
  let ?v = "M (i * k + j)"
  have v: "0 \<le> ?v" "?v < 256" using bytes_inD [OF b(1) in_range [of i n j k]] i j by auto
  have e: "ent k M i j = word_of_int ?v" by (simp add: ent_def)
  show "dist_ok k n i M'"
  proof (cases "j \<noteq> i \<and> ?v \<noteq> 0")
    case True
    then have M'': "M' = col_add T n k j i ?v M" using M' by (simp add: dist_column_def q)
    have "top_unit k i (cadd j i (word_of_int ?v) (ent k M))"
      using b(3) i by (auto simp: top_unit_def cadd_def unit_def gmul_0)
    moreover have "mds k n (cadd j i (word_of_int ?v) (ent k M))" by (rule mds_cadd) (use b i j True in auto)
    ultimately show ?thesis unfolding M''
      using bytes_col_add [OF T b(1) i(1,2) v] ent_col_add [OF T b(1) i(1,2) v] i by (intro dist_okI) auto
  qed (use M M' in \<open>auto simp: dist_column_def q\<close>)
  show "ent k M' i c = (if c = j \<and> j \<noteq> i then 0 else ent k M i c)" if c: "0 \<le> c" "c < k" for c
  proof (cases "j \<noteq> i \<and> ?v \<noteq> 0")
    case True
    then have M'': "M' = col_add T n k j i ?v M" using M' by (simp add: dist_column_def q)
    then have "ent k M' i c = cadd j i (word_of_int ?v) (ent k M) i c"
      using ent_col_add [OF T b(1) i(1,2) v, of j] i c by (simp add: same_def)
    then show ?thesis using True e p by (simp add: cadd_def)
  next
    case False
    then have "M' = M" using M' by (auto simp: dist_column_def q)
    then show ?thesis using False e by auto
  qed
qed

lemma dist_columns_ok:
  assumes T: "galois_ok T" and M: "dist_ok k n i M" and i: "0 \<le> i" "i < k" "i < n"
    and p: "ent k M i i = 1" and j: "int j \<le> k"
  shows "dist_ok k n i (foldl (dist_column T n k i) M [0..int j - 1]) \<and>
    (\<forall>c. 0 \<le> c \<and> c < k \<longrightarrow> ent k (foldl (dist_column T n k i) M [0..int j - 1]) i c =
      (if c < int j then unit i c else ent k M i c))"
  using j
proof (induction j)
  case 0
  then show ?case using M by auto
next
  case (Suc j)
  let ?F = "\<lambda>j. foldl (dist_column T n k i) M [0..int j - 1]"
  have u: "[0..int (Suc j) - 1] = [0..int j - 1] @ [int j]" by (subst upto_rec2) auto
  have f: "?F (Suc j) = dist_column T n k i (?F j) (int j)" unfolding u by simp
  have h: "dist_ok k n i (?F j)" "\<And>c. 0 \<le> c \<Longrightarrow> c < k \<Longrightarrow> ent k (?F j) i c = (if c < int j then unit i c else ent k M i c)"
    using Suc by auto
  have p': "ent k (?F j) i i = 1" using h(2) [of i] i p by (simp add: unit_def)
  note s = dist_column_ok [OF T h(1) i _ _ p' f [symmetric], unfolded f]
  have "ent k (?F (Suc j)) i c = (if c < int (Suc j) then unit i c else ent k M i c)" if c: "0 \<le> c" "c < k" for c
    using s(2) [OF _ _ c] h(2) [OF c] Suc.prems p unfolding f by (cases "c = int j") (auto simp: unit_def)
  then show ?case using s(1) Suc.prems unfolding f by auto
qed


text \<open>The inverse of an entry.\<close>

lemma inverse_entry:
  assumes "galois_ok T" "0 \<le> t" "t < 256" "t \<noteq> 0"
  shows "galois_single_divide T 1 t = uint (gdiv 1 (word_of_int t))"
    "gmul (gdiv 1 (word_of_int t)) (word_of_int t) = 1" "gdiv 1 (word_of_int t :: byte) \<noteq> 0"
proof -
  have n: "(word_of_int t :: byte) \<noteq> 0" using assms uint_byte_of [of t] by force
  show "galois_single_divide T 1 t = uint (gdiv 1 (word_of_int t))"
    using galois_divide_ok [OF assms(1) n, of 1] assms by (simp add: uint_byte_of)
  show "gmul (gdiv 1 (word_of_int t)) (word_of_int t) = 1" using gdiv_1(1) [OF n] by (simp add: gmul_commute)
  show "gdiv 1 (word_of_int t :: byte) \<noteq> 0" using gdiv_1(2) [OF n] .
qed

lemma dist_step_ok:
  assumes T: "galois_ok T" and M: "dist_ok k n i M" and i: "0 \<le> i" "i < k" "k \<le> n"
  shows "\<exists>M'. dist_step T n k M i = Some M' \<and> dist_ok k n (i + 1) M'"
proof -
  have b: "bytes_in (n * k) M" "mds k n (ent k M)" "top_unit k i (ent k M)" using M by (simp_all add: dist_ok_def)
  have q: "k * j = j * k" for j by simp
  have z: "M (k * j + i) \<noteq> 0 \<longleftrightarrow> ent k M j i \<noteq> 0" if "0 \<le> j" "j < n" for j
    using uint_ent [OF b(1) that i(1,2)] by (metis q uint_0_iff)
  obtain j0 where "i \<le> j0" "j0 < n" "ent k M j0 i \<noteq> 0" using mds_pivot [OF b(2,3) i] by blast
  then have "j0 \<in> set [i..n - 1]" "M (k * j0 + i) \<noteq> 0" using z i by auto
  then obtain j where f: "List.find (\<lambda>j. M (k * j + i) \<noteq> 0) [i..n - 1] = Some j" "M (k * j + i) \<noteq> 0"
      "j \<in> set [i..n - 1]" by (rule find_first [where P = "\<lambda>j. M (k * j + i) \<noteq> 0"])
  have j: "i \<le> j" "j < n" "ent k M j i \<noteq> 0" using f z [of j] i by auto
  define M1 where "M1 = (if j \<noteq> i then row_swap k (k * j) (k * i) M else M)"
  have s: "same n k (ent k (row_swap k (k * j) (k * i) M)) (rswap j i (ent k M))"
    unfolding q by (rule ent_row_swap) (use i j in auto)
  have 1: "dist_ok k n i M1"
  proof (cases "j = i")
    case False
    have "dist_ok k n i (row_swap k (k * j) (k * i) M)"
    proof (rule dist_okI [OF _ s])
      show "bytes_in (n * k) (row_swap k (k * j) (k * i) M)" unfolding q
        by (rule bytes_row_swap [OF b(1)]) (use i j in auto)
      show "mds k n (rswap j i (ent k M))" by (rule mds_rswap [OF b(2)]) (use i j in auto)
      show "top_unit k i (rswap j i (ent k M))" using b(3) j by (auto simp: top_unit_def rswap_def)
    qed (use i in simp)
    then show ?thesis using False by (simp add: M1_def)
  qed (use M in \<open>simp add: M1_def\<close>)
  have e1: "ent k M1 i i \<noteq> 0"
    using s j(3) i by (auto simp: M1_def same_def rswap_def)
  have b1: "bytes_in (n * k) M1" "mds k n (ent k M1)" "top_unit k i (ent k M1)" using 1 by (simp_all add: dist_ok_def)
  let ?t = "M1 (k * i + i)"
  have t: "0 \<le> ?t" "?t < 256" using bytes_inD [OF b1(1) in_range [of i n i k]] i by (auto simp: q)
  have te: "ent k M1 i i = word_of_int ?t" by (simp add: ent_def q)
  have t0: "?t \<noteq> 0" using e1 te by auto
  note v = inverse_entry [OF T t t0]
  define M2 where "M2 = (if ?t \<noteq> 1 then col_scale T 0 n k i (galois_single_divide T 1 ?t) M1 else M1)"
  have s2: "same n k (ent k (col_scale T 0 n k i (galois_single_divide T 1 ?t) M1))
      (cscale 0 i (gdiv 1 (word_of_int ?t)) (ent k M1))"
    using ent_col_scale [OF T b1(1) uint_byte [of "gdiv 1 (word_of_int ?t)"], of 0 i] by (simp add: v(1))
  have 2: "dist_ok k n i M2"
  proof (cases "?t = 1")
    case False
    have "dist_ok k n i (col_scale T 0 n k i (galois_single_divide T 1 ?t) M1)"
    proof (rule dist_okI [OF _ s2])
      show "bytes_in (n * k) (col_scale T 0 n k i (galois_single_divide T 1 ?t) M1)"
        unfolding v(1) by (rule bytes_col_scale [OF T b1(1) _ _ uint_byte]) (use i in auto)
      show "mds k n (cscale 0 i (gdiv 1 (word_of_int ?t)) (ent k M1))" by (rule mds_cscale [OF b1(2) v(3)])
      show "top_unit k i (cscale 0 i (gdiv 1 (word_of_int ?t)) (ent k M1))"
        using b1(3) i by (auto simp: top_unit_def cscale_def unit_def gmul_0)
    qed (use i in simp)
    then show ?thesis using False by (simp add: M2_def)
  qed (use 1 in \<open>simp add: M2_def\<close>)
  have p2: "ent k M2 i i = 1"
  proof (cases "?t = 1")
    case False
    then show ?thesis using s2 i te v(2) by (simp add: M2_def same_def cscale_def)
  qed (use te in \<open>simp add: M2_def\<close>)
  let ?M = "foldl (dist_column T n k i) M2 [0..k - 1]"
  have c: "dist_ok k n i ?M" "\<And>c. 0 \<le> c \<Longrightarrow> c < k \<Longrightarrow> ent k ?M i c = unit i c"
    using dist_columns_ok [OF T 2 i(1,2) _ p2, of "nat k"] i by auto
  have "dist_ok k n (i + 1) ?M" unfolding dist_ok_def
  proof (intro conjI)
    show "top_unit k (i + 1) (ent k ?M)" unfolding top_unit_def
    proof (intro allI impI)
      fix r c assume h: "0 \<le> r \<and> r < i + 1 \<and> 0 \<le> c \<and> c < k"
      show "ent k ?M r c = unit r c" using h c(1) c(2) [of c] by (cases "r = i") (auto simp: dist_ok_def top_unit_def)
    qed
  qed (use c(1) in \<open>auto simp: dist_ok_def\<close>)
  moreover have "dist_step T n k M i = Some ?M"
    unfolding dist_step_def f(1) option.case Let_def M1_def [symmetric] M2_def [symmetric] ..
  ultimately show ?thesis by blast
qed

lemma dist_steps_ok:
  assumes T: "galois_ok T" and k: "k \<le> n"
  shows "dist_ok k n (k - int d) M \<Longrightarrow> int d \<le> k \<Longrightarrow>
    \<exists>M'. dist_steps T n k [k - int d..k - 1] M = Some M' \<and> dist_ok k n k M'"
proof (induction d arbitrary: M)
  case (Suc d)
  let ?i = "k - int (Suc d)"
  obtain M1 where 1: "dist_step T n k M ?i = Some M1" "dist_ok k n (?i + 1) M1"
    using dist_step_ok [OF T Suc.prems(1)] Suc.prems(2) k by auto
  have u: "[?i..k - 1] = ?i # [k - int d..k - 1]" by (subst upto_rec1) auto
  have e: "?i + 1 = k - int d" by simp
  obtain M' where "dist_steps T n k [k - int d..k - 1] M1 = Some M'" "dist_ok k n k M'"
    using Suc.IH [of M1] 1(2) Suc.prems(2) unfolding e by auto
  then show ?case unfolding u dist_steps.simps 1(1) by auto
qed simp

text \<open>The two loops at the end.\<close>

lemma dist_ones_ok:
  assumes T: "galois_ok T" and M: "dist_ok k n k M" and j: "0 \<le> j" "j < k" "k < n"
  shows "dist_ok k n k (dist_ones T n k M j)"
proof -
  have b: "bytes_in (n * k) M" "mds k n (ent k M)" "top_unit k k (ent k M)" using M by (simp_all add: dist_ok_def)
  let ?t = "M (k * k + j)"
  have t: "0 \<le> ?t" "?t < 256" using bytes_inD [OF b(1) in_range [of k n j k]] j by auto
  have "ent k M k j \<noteq> 0" by (rule mds_entry [OF b(2,3)]) (use j in auto)
  then have t0: "?t \<noteq> 0" by (auto simp: ent_def)
  note v = inverse_entry [OF T t t0]
  show ?thesis
  proof (cases "?t = 1")
    case False
    have "dist_ok k n k (col_scale T k n k j (galois_single_divide T 1 ?t) M)"
      unfolding v(1)
    proof (rule dist_okI [OF _ ent_col_scale [OF T b(1) uint_byte]])
      show "bytes_in (n * k) (col_scale T k n k j (uint (gdiv 1 (word_of_int ?t))) M)"
        by (rule bytes_col_scale [OF T b(1) _ _ uint_byte]) (use j in auto)
      show "mds k n (cscale k j (word_of_int (uint (gdiv 1 (word_of_int ?t)))) (ent k M))"
        by (rule mds_cscale_below [OF b(2,3)]) (use v(3) in simp)
      show "top_unit k k (cscale k j (word_of_int (uint (gdiv 1 (word_of_int ?t)))) (ent k M))"
        using b(3) by (auto simp: top_unit_def cscale_def)
    qed (use j in simp)
    then show ?thesis using False by (simp add: dist_ones_def Let_def)
  qed (use M in \<open>simp add: dist_ones_def\<close>)
qed

lemma dist_first_ok:
  assumes T: "galois_ok T" and M: "dist_ok k n k M" and i: "k < i" "i < n" "0 < k"
  shows "dist_ok k n k (dist_first T k M i)"
proof -
  have b: "bytes_in (n * k) M" "mds k n (ent k M)" "top_unit k k (ent k M)" using M by (simp_all add: dist_ok_def)
  have q: "k * i = i * k" by simp
  let ?t = "M (i * k)"
  have t: "0 \<le> ?t" "?t < 256" using bytes_inD [OF b(1) in_range [of i n 0 k]] i by auto
  have "ent k M i 0 \<noteq> 0" by (rule mds_entry [OF b(2,3)]) (use i in auto)
  then have t0: "?t \<noteq> 0" by (auto simp: ent_def)
  note v = inverse_entry [OF T t t0]
  have i0: "0 \<le> i" using i by simp
  show ?thesis
  proof (cases "?t = 1")
    case False
    have "dist_ok k n k (row_scale T k (i * k) (galois_single_divide T 1 ?t) M)"
      unfolding v(1)
    proof (rule dist_okI [OF _ ent_row_scale [OF T b(1) i0 i(2) uint_byte]])
      show "bytes_in (n * k) (row_scale T k (i * k) (uint (gdiv 1 (word_of_int ?t))) M)"
        by (rule bytes_row_scale [OF T b(1) i0 i(2) uint_byte])
      show "mds k n (rscale i (word_of_int (uint (gdiv 1 (word_of_int ?t)))) (ent k M))"
        by (rule mds_rscale [OF b(2)]) (use v(3) in simp)
      show "top_unit k k (rscale i (word_of_int (uint (gdiv 1 (word_of_int ?t)))) (ent k M))"
        using b(3) i by (auto simp: top_unit_def rscale_def)
    qed (use i in simp)
    then show ?thesis using False by (simp add: dist_first_def Let_def q)
  qed (use M in \<open>simp add: dist_first_def q\<close>)
qed


subsection \<open>The Vandermonde matrix\<close>

text \<open>Row 0 is the point zero, the last row the leading coefficient.\<close>

definition vandermonde :: "int \<Rightarrow> int \<Rightarrow> gmat" where
  "vandermonde k n r c = (if r = 0 then unit 0 c else if r = n - 1 then unit (k - 1) c
     else tpow (word_of_int r) (nat c))"

lemma tpow_zero: "tpow 0 n = (if n = 0 then 1 else 0)"
  by (cases n) (simp_all add: gmul_0)

lemma mds_vandermonde:
  assumes "0 < k" "k < n" "n \<le> 256"
  shows "mds k n (vandermonde k n)"
  unfolding mds_def
proof (intro allI impI)
  fix x :: "int \<Rightarrow> byte" assume x: "\<exists>c. 0 \<le> c \<and> c < k \<and> x c \<noteq> 0"
  let ?Z = "{r \<in> {0..<n}. mvec k (vandermonde k n) x r = 0}"
  let ?R = "?Z - {n - 1}"
  let ?p = "\<lambda>m t. xsum (\<lambda>c. gmul (tpow t (nat c)) (x c)) [0..m - 1]"
  have fin: "finite ?Z" by (rule finite_subset [of _ "{0..<n}"]) auto
  have root: "?p k (word_of_int r) = 0" if "r \<in> ?R" for r
  proof -
    have "?p k (word_of_int r) = mvec k (vandermonde k n) x r"
      unfolding mvec_def
    proof (rule xsum_cong [OF refl])
      fix c assume "c \<in> set [0..k - 1]"
      then have c: "0 \<le> c" by simp
      have "tpow (word_of_int r) (nat c) = vandermonde k n r c"
        using that c by (auto simp: vandermonde_def tpow_zero unit_def)
      then show "gmul (tpow (word_of_int r) (nat c)) (x c) = gmul (vandermonde k n r c) (x c)" by simp
    qed
    then show ?thesis using that by simp
  qed
  have inj: "inj_on (word_of_int :: int \<Rightarrow> byte) ?R"
  proof (rule inj_onI)
    fix a b assume ab: "a \<in> ?R" "b \<in> ?R" "(word_of_int a :: byte) = word_of_int b"
    then have "uint (word_of_int a :: byte) = uint (word_of_int b :: byte)" by simp
    then show "a = b" using ab(1,2) assms(3) by (simp add: uint_byte_of)
  qed
  let ?S = "word_of_int ` ?R :: byte set"
  have S: "finite ?S" "card ?S = card ?R" using fin card_image [OF inj] by auto
  show "int (card ?Z) < k"
  proof (rule ccontr)
    assume "\<not> int (card ?Z) < k"
    then have Z: "k \<le> int (card ?Z)" by simp
    have "\<forall>c. 0 \<le> c \<and> c < k \<longrightarrow> x c = 0"
    proof (cases "n - 1 \<in> ?Z")
      case False
      then have "?R = ?Z" by blast
      then have "k \<le> int (card ?S)" using Z S(2) by simp
      then show ?thesis using few_zeros [OF S(1), of k x] root by blast
    next
      case True
      have "mvec k (vandermonde k n) x (n - 1) = mvec k (\<lambda>_. unit (k - 1)) x (n - 1)"
        by (rule mvec_cong) (use assms in \<open>auto simp: vandermonde_def\<close>)
      also have "\<dots> = mvec k unit x (k - 1)" by (simp add: mvec_def)
      also have "\<dots> = x (k - 1)" by (rule mvec_unit) (use assms in auto)
      finally have l: "x (k - 1) = 0" using True by simp
      have u: "[0..k - 1] = [0..k - 1 - 1] @ [k - 1]" using assms by (subst upto_rec2) auto
      have "?p (k - 1) t = ?p k t" for t unfolding u using l by (simp add: gmul_0)
      then have "?p (k - 1) s = 0" if "s \<in> ?S" for s using root that by auto
      moreover have "card ?R = card ?Z - 1" using True fin by simp
      then have "k - 1 \<le> int (card ?S)" using Z S(2) by linarith
      ultimately have "x c = 0" if "0 \<le> c" "c < k - 1" for c
        using few_zeros [OF S(1), of "k - 1" x] that by blast
      then show ?thesis using l by (metis zle_diff1_eq order_le_less)
    qed
    then show False using x by blast
  qed
qed

lemma vdm_row_ok:
  assumes T: "galois_ok T" and i: "0 \<le> i" "i < 256" and j: "int j \<le> cols"
  shows "foldl (\<lambda>(vdm, k) j. (vdm(i * cols + j := k), galois_single_multiply T k i)) (M, 1) [0..int j - 1] =
    (\<lambda>p. if i * cols \<le> p \<and> p < i * cols + int j then uint (tpow (word_of_int i) (nat (p - i * cols))) else M p,
     uint (tpow (word_of_int i) j))"
  using j
proof (induction j)
  case 0
  then show ?case by (auto simp: fun_eq_iff)
next
  case (Suc j)
  have u: "[0..int (Suc j) - 1] = [0..int j - 1] @ [int j]" by (subst upto_rec2) auto
  have m: "galois_single_multiply T (uint (tpow (word_of_int i) j)) i = uint (tpow (word_of_int i) (Suc j))"
    using galois_multiply_ok [OF T, of "tpow (word_of_int i) j" "word_of_int i"] i by (simp add: uint_byte_of)
  have "int j \<le> cols" using Suc.prems by simp
  note IH = Suc.IH [OF this]
  show ?case unfolding u foldl_append foldl.simps IH prod.case m
    by (auto simp: fun_eq_iff)
qed


lemma vdm_row_eq:
  assumes "galois_ok T" "0 \<le> i" "i < 256" "0 \<le> k"
  shows "vdm_row T k M i = (\<lambda>p. if i * k \<le> p \<and> p < i * k + k
    then uint (tpow (word_of_int i) (nat (p - i * k))) else M p)"
  using vdm_row_ok [OF assms(1-3), of "nat k" k M] assms(4) by (simp add: vdm_row_def)

lemma vdm_rows_eq:
  assumes T: "galois_ok T" and k: "0 < k" and m: "int m < 256"
  shows "foldl (vdm_row T k) M [1..int m] = (\<lambda>p. if k \<le> p \<and> p < (int m + 1) * k
    then uint (tpow (word_of_int (p div k)) (nat (p mod k))) else M p)"
  using m
proof (induction m)
  case 0
  have "\<not> (k \<le> p \<and> p < (int 0 + 1) * k)" for p by simp
  then show ?case by auto
next
  case (Suc m)
  let ?i = "int m + 1"
  have u: "[1..int (Suc m)] = [1..int m] @ [?i]" by (subst upto_rec2) (auto simp: add.commute)
  have IH: "foldl (vdm_row T k) M [1..int m] = (\<lambda>p. if k \<le> p \<and> p < ?i * k
    then uint (tpow (word_of_int (p div k)) (nat (p mod k))) else M p)" using Suc by simp
  have i: "0 \<le> ?i" "?i < 256" "0 \<le> k" using Suc.prems k by auto
  have e: "(?i + 1) * k = ?i * k + k" by (simp add: algebra_simps)
  have le: "k \<le> ?i * k" using mult_right_mono [of 1 ?i k] k by simp
  have d: "p div k = ?i \<and> p mod k = p - ?i * k" if "?i * k \<le> p" "p < ?i * k + k" for p
    using int_div_pos_eq [of p k ?i "p - ?i * k"] int_mod_pos_eq [of p k ?i "p - ?i * k"] that
    by (simp add: mult.commute)
  show ?case unfolding u foldl_append foldl.simps IH vdm_row_eq [OF T i]
  proof
    fix p
    have s: "int (Suc m) + 1 = ?i + 1" by simp
    show "(if ?i * k \<le> p \<and> p < ?i * k + k then uint (tpow (word_of_int ?i) (nat (p - ?i * k)))
        else if k \<le> p \<and> p < ?i * k then uint (tpow (word_of_int (p div k)) (nat (p mod k))) else M p) =
      (if k \<le> p \<and> p < (int (Suc m) + 1) * k
        then uint (tpow (word_of_int (p div k)) (nat (p mod k))) else M p)"
    proof (cases "?i * k \<le> p \<and> p < ?i * k + k")
      case True
      then have "k \<le> p" "p < (int (Suc m) + 1) * k" unfolding s e using le by linarith+
      then show ?thesis using True d [of p] by simp
    next
      case False
      then have r: "k \<le> p \<and> p < (int (Suc m) + 1) * k \<longleftrightarrow> k \<le> p \<and> p < ?i * k" unfolding s e using k by auto
      show ?thesis unfolding if_not_P [OF False] r ..
    qed
  qed
qed

lemma extended_vandermonde_ok:
  assumes T: "galois_ok T" and k: "0 < k" "k < n" "n \<le> 256"
  obtains V where "reed_sol_extended_vandermonde_matrix T junk n k = Some V"
    "bytes_in (n * k) V" "same n k (ent k V) (vandermonde k n)"
proof -
  let ?v0 = "\<lambda>p. if p = 0 then 1 else if 1 \<le> p \<and> p < k then 0 else junk p"
  let ?l = "(n - 1) * k"
  let ?v1 = "\<lambda>p. if ?l \<le> p \<and> p < ?l + k - 1 then 0 else if p = ?l + k - 1 then 1 else ?v0 p"
  let ?V = "\<lambda>p. if k \<le> p \<and> p < ?l then uint (tpow (word_of_int (p div k)) (nat (p mod k))) else ?v1 p"
  have n2: "2 \<le> n" using k by simp
  have V: "reed_sol_extended_vandermonde_matrix T junk n k = Some ?V"
  proof (cases "n = 2")
    case True
    then have e: "Some ?V = Some ?v1" by (simp add: fun_eq_iff)
    have "reed_sol_extended_vandermonde_matrix T junk n k = Some ?v1"
      unfolding True reed_sol_extended_vandermonde_matrix_def Let_def using True k by simp
    then show ?thesis by (rule trans [OF _ e [symmetric]])
  next
    case False
    have m: "int (nat (n - 2)) = n - 2" "n - 2 + 1 = n - 1" using n2 by auto
    have "foldl (vdm_row T k) ?v1 [1..n - 2] = ?V"
      using vdm_rows_eq [OF T k(1), of "nat (n - 2)" ?v1] k(3) unfolding m by simp
    then show ?thesis using False k by (simp add: reed_sol_extended_vandermonde_matrix_def Let_def)
  qed
  have lk: "k \<le> ?l" using mult_right_mono [of 1 "n - 1" k] k n2 by simp
  have nk: "n * k = ?l + k" by (simp add: algebra_simps)
  have val: "?V (r * k + c) = uint (vandermonde k n r c)" if rc: "0 \<le> r" "r < n" "0 \<le> c" "c < k" for r c
  proof -
    have dm: "(r * k + c) div k = r" "(r * k + c) mod k = c" using rc by simp_all
    have g: "f * k \<le> r * k + c \<longleftrightarrow> f \<le> r" for f using col_index(2) [OF rc(3,4)] .
    consider "r = 0" | "r = n - 1" "r \<noteq> 0" | "0 < r" "r < n - 1" using rc by linarith
    then show ?thesis
    proof cases
      case 1
      have "\<not> k \<le> c" "\<not> ?l \<le> c" "c \<noteq> ?l + k - 1" using rc(3,4) lk by linarith+
      then show ?thesis using 1 rc by (auto simp: vandermonde_def unit_def)
    next
      case 2
      then show ?thesis using rc lk by (auto simp: vandermonde_def unit_def)
    next
      case 3
      then have "k \<le> r * k + c" "r * k + c < ?l" using g [of 1] g [of "n - 1"] by auto
      then show ?thesis using 3 dm by (simp add: vandermonde_def)
    qed
  qed
  have "bytes_in (n * k) ?V"
    unfolding bytes_in_def
  proof (intro allI impI)
    fix p assume p: "0 \<le> p \<and> p < n * k"
    define r where "r = p div k"
    define c where "c = p mod k"
    have e: "p = r * k + c" "0 \<le> c" "c < k" "0 \<le> r" using k p by (simp_all add: r_def c_def pos_imp_zdiv_nonneg_iff)
    then have "r * k < n * k" using p by linarith
    then have "r < n" using k by (simp add: mult_less_cancel_right)
    then have "?V (r * k + c) = uint (vandermonde k n r c)" using e by (intro val)
    then have "?V p = uint (vandermonde k n r c)" unfolding e(1) .
    then show "0 \<le> ?V p \<and> ?V p < 256" using uint_byte [of "vandermonde k n r c"] by simp
  qed
  moreover have "same n k (ent k ?V) (vandermonde k n)" unfolding same_def
  proof (intro allI impI)
    fix r c assume "0 \<le> r \<and> r < n \<and> 0 \<le> c \<and> c < k"
    then have "?V (r * k + c) = uint (vandermonde k n r c)" using val by blast
    then show "ent k ?V r c = vandermonde k n r c" unfolding ent_def by (simp only: word_of_int_uint)
  qed
  ultimately show ?thesis using that [OF V] by blast
qed

subsection \<open>The coding matrix\<close>

theorem vandermonde_coding_matrix_ok:
  assumes T: "galois_ok T" and k: "0 < k" "0 < m" "k + m \<le> 256"
  obtains G where "reed_sol_vandermonde_coding_matrix T junk k m = Some (Some G)"
    "bytes_in (m * k) G" "mds k (k + m) (dist_rows k (ent k G))"
proof -
  let ?n = "k + m"
  obtain V where V: "reed_sol_extended_vandermonde_matrix T junk ?n k = Some V"
    "bytes_in (?n * k) V" "same ?n k (ent k V) (vandermonde k ?n)"
    by (rule extended_vandermonde_ok [OF T, of k ?n junk]) (use k in auto)
  have mv: "mds k ?n (ent k V)"
    by (rule mds_same [OF mds_vandermonde V(3)]) (use k in auto)
  have "top_unit k 1 (ent k V)" unfolding top_unit_def
  proof (intro allI impI)
    fix r c :: int assume rc: "0 \<le> r \<and> r < 1 \<and> 0 \<le> c \<and> c < k"
    then have "ent k V r c = vandermonde k ?n r c" "r = 0" using V(3) k by (auto simp: same_def)
    then show "ent k V r c = unit r c" by (simp add: vandermonde_def)
  qed
  then have "dist_ok k ?n (k - int (nat (k - 1))) V" using V(2) mv k by (simp add: dist_ok_def)
  then obtain D where D: "dist_steps T ?n k [1..k - 1] V = Some D" "dist_ok k ?n k D"
    using dist_steps_ok [OF T, of k ?n "nat (k - 1)" V] k by auto
  have D1: "dist_ok k ?n k (foldl (dist_ones T ?n k) D [0..k - 1])"
    by (rule foldl_keeps [where P = "dist_ok k ?n k", OF D(2)]) (use dist_ones_ok [OF T] k in auto)
  let ?E = "foldl (dist_first T k) (foldl (dist_ones T ?n k) D [0..k - 1]) [k + 1..?n - 1]"
  have E: "dist_ok k ?n k ?E"
    by (rule foldl_keeps [where P = "dist_ok k ?n k", OF D1]) (use dist_first_ok [OF T] k in auto)
  let ?G = "\<lambda>j. if 0 \<le> j \<and> j < m * k then ?E (k * k + j) else junk j"
  have nk: "?n * k = k * k + m * k" by (simp add: algebra_simps)
  have "reed_sol_vandermonde_coding_matrix T junk k m = Some (Some ?G)"
    using V(1) D(1) k by (simp add: reed_sol_vandermonde_coding_matrix_def
      reed_sol_big_vandermonde_distribution_matrix_def Let_def)
  moreover have "bytes_in (m * k) ?G"
    using E k by (auto simp: dist_ok_def bytes_in_def nk)
  moreover have "mds k ?n (dist_rows k (ent k ?G))"
  proof (rule mds_same)
    show "mds k ?n (ent k ?E)" using E by (simp add: dist_ok_def)
    show "same ?n k (dist_rows k (ent k ?G)) (ent k ?E)" unfolding same_def
    proof (intro allI impI)
      fix r c assume rc: "0 \<le> r \<and> r < ?n \<and> 0 \<le> c \<and> c < k"
      show "dist_rows k (ent k ?G) r c = ent k ?E r c"
      proof (cases "r < k")
        case True
        then show ?thesis using E rc by (simp add: dist_rows_def dist_ok_def top_unit_def)
      next
        case False
        have e: "k * k + ((r - k) * k + c) = r * k + c" by (simp add: algebra_simps)
        have i: "0 \<le> (r - k) * k + c" "(r - k) * k + c < m * k" using in_range [of "r - k" m c k] False rc by auto
        then have "?G ((r - k) * k + c) = ?E (r * k + c)" unfolding e by simp
        then show ?thesis using False unfolding dist_rows_def ent_def by simp
      qed
    qed
  qed
  ultimately show ?thesis using that by blast
qed


text \<open>
  C7: The generator matrix is one of a maximum distance separable code: for up to 256 devices the matrix is
  made, its entries are bytes, and data other than zero leave less than \<open>k\<close> of the \<open>k + m\<close> devices zero, so
  that any \<open>k\<close> devices determine the data.
\<close>

theorem reed_sol_any_k:
  assumes "galois_create_mult_tables junk_tables = Some T" "0 < k" "0 < m" "k + m \<le> 256"
  shows "\<exists>G. reed_sol_vandermonde_coding_matrix T junk k m = Some (Some G) \<and> bytes_in (m * k) G \<and>
    mds k (k + m) (dist_rows k (ent k G))"
proof -
  have T: "galois_ok T" using galois_tables_ok [of junk_tables] assms(1) by auto
  show ?thesis by (rule vandermonde_coding_matrix_ok [OF T assms(2-4), of junk]) blast
qed

theorem reed_sol_any_k_witness:
  "case galois_create_mult_tables no_tables of None \<Rightarrow> False
   | Some T \<Rightarrow> (case reed_sol_vandermonde_coding_matrix T (\<lambda>p. 0) 4 3 of
       Some (Some G) \<Rightarrow> mds 4 7 (dist_rows 4 (ent 4 G)) | _ \<Rightarrow> False)"
proof -
  obtain T where T: "galois_create_mult_tables no_tables = Some T" "galois_ok T" by (rule galois_tables_ok)
  show ?thesis using reed_sol_any_k [OF T(1), of 4 3 "\<lambda>p. 0"] T(1) by auto
qed

end
