(* ===== verification/CodingRs.thy ===== *)
theory CodingRs
  imports ReedSol CodingRaid45
begin

text \<open>
  Reed-Solomon codes (\<open>coding_rs.cc\<close>): \<open>k\<close> data disks and \<open>n - k\<close> coding disks, whose blocks are the
  combinations of the data blocks given by the generator matrix. The matrix is a field of the state in
  the code; it is written by the constructor only, and here it is part of the object, with the tables of
  the library.
\<close>

section \<open>The operations\<close>

text \<open>\<open>int_junk\<close> is what \<open>malloc\<close> returns for an array of \<open>int\<close>; \<open>None\<close> is a matrix that is \<open>NULL\<close>.\<close>

record rs_code =
  rs_tables :: galois
  generator_matrix :: "flat option"
  int_junk :: flat

definition rs_new :: "galois \<Rightarrow> flat \<Rightarrow> sys \<Rightarrow> rs_code option" where
  "rs_new junk_tables junk s =
     (let k = data_disk_num s; m = disk_total_num s - data_disk_num s
      in case galois_create_mult_tables junk_tables of
           None \<Rightarrow> None
         | Some T \<Rightarrow> map_option (\<lambda>G. \<lparr>rs_tables = T, generator_matrix = G, int_junk = junk\<rparr>)
             (reed_sol_vandermonde_coding_matrix T junk k m))"

text \<open>
  The choice of a disk: one that is in the middle of a run of \<open>k - 1\<close> blocks, or behind disk 0, or disk 0
  itself. \<open>None\<close> is the division by zero for one data disk.
\<close>

definition rs_pick_step :: "int \<Rightarrow> int \<Rightarrow> sys \<Rightarrow> (int \<times> int) option \<Rightarrow> int \<Rightarrow> (int \<times> int) option" where
  "rs_pick_step k req s acc i =
     (case acc of None \<Rightarrow> None
      | Some (d, b) \<Rightarrow>
          if req \<le> free_size s i then
            if k - 1 = 0 then None
            else if free_offset s i smod (k - 1) \<noteq> 0 then Some (i, free_offset s i)
            else if free_offset s 0 > free_offset s i then Some (i, free_offset s i)
            else if i = 0 \<and> d = -1 then Some (i, free_offset s i)
            else Some (d, b)
          else Some (d, b))"

definition rs_pick :: "int \<Rightarrow> sys \<Rightarrow> (int \<times> int) option" where
  "rs_pick req s = foldl (rs_pick_step (data_disk_num s) req s) (Some (-1, 0)) (rev [0..data_disk_num s - 1])"

text \<open>A product with every byte of a buffer.\<close>

definition rs_times :: "galois \<Rightarrow> int \<Rightarrow> byte list \<Rightarrow> byte list" where
  "rs_times T v b = map (\<lambda>x. word_of_int (galois_single_multiply T (uint x) v)) b"

text \<open>The coding disks one by one; \<open>delta\<close> is the difference of new and old data.\<close>

fun rs_parity :: "galois \<Rightarrow> flat option \<Rightarrow> int \<Rightarrow> int \<Rightarrow> byte list \<Rightarrow> int \<Rightarrow> int \<Rightarrow> int \<Rightarrow> int list \<Rightarrow>
    byte list \<Rightarrow> sys \<Rightarrow> sys option" where
  "rs_parity T G k d delta sz req addr [] buf_write s = Some s"
| "rs_parity T G k d delta sz req addr (i # is) buf_write s =
     (case G of None \<Rightarrow> None
      | Some g \<Rightarrow>
          let data_disk_coeff = g (i * k + d);
              buf_temp = rs_times T data_disk_coeff delta;
              parity_disk_id = k + i;
              (retstat, buf_write, s) = nc_readDisk parity_disk_id buf_write req addr s;
              buf_write = xor_into (heap_junk s) (nat req) buf_write buf_temp;
              (retstat, s) = nc_writeDisk parity_disk_id buf_write sz addr s
          in rs_parity T G k d delta sz req addr is buf_write s)"

definition rs_encode :: "rs_code \<Rightarrow> byte list \<Rightarrow> int \<Rightarrow> sys \<Rightarrow> (data_block_info \<times> sys) option" where
  "rs_encode C buf sz s =
     (let k = data_disk_num s;
          fault_tolerance = disk_total_num s - k;
          block_size = disk_block_size s;
          size_request = round_to_block_size sz s;
          block_request = size_request sdiv block_size
      in case rs_pick block_request s of
           None \<Rightarrow> None
         | Some db \<Rightarrow>
             let (disk_id, block_no, s) = or_space_list db s
             in if disk_id = -1 then Some (\<lparr>bi_disk_id = disk_id, bi_block_no = block_no\<rparr>, s)
                else
                  let junk = heap_junk s;
                      addr = i32 (block_no * block_size);
                      buf_read = malloc junk (nat size_request);
                      buf_write = zeros (nat size_request);
                      s = claim disk_id block_no block_request s;
                      (retstat, buf_read, s) = nc_readDisk disk_id buf_read size_request addr s;
                      buf_read = xor_into junk (nat size_request) buf_read buf;
                      (retstat, s) = nc_writeDisk disk_id buf sz addr s
                  in map_option (\<lambda>s. (\<lparr>bi_disk_id = disk_id, bi_block_no = block_no\<rparr>, s))
                       (rs_parity (rs_tables C) (generator_matrix C) k disk_id buf_read sz size_request addr
                          [0..fault_tolerance - 1] buf_write s))"

text \<open>The sum over the chosen devices, each with its coefficient.\<close>

fun rs_sum :: "galois \<Rightarrow> int \<Rightarrow> int \<Rightarrow> (int \<times> int) list \<Rightarrow> byte list \<Rightarrow> byte list \<Rightarrow> sys \<Rightarrow> byte list \<times> sys" where
  "rs_sum T sz loc [] temp_buf buf s = (buf, s)"
| "rs_sum T sz loc ((efficient, dev) # xs) temp_buf buf s =
     (let (retstat, temp_buf, s) = nc_readDisk dev temp_buf sz loc s;
          buf_temp = rs_times T efficient (take (nat sz) temp_buf);
          buf = xor_ints (heap_junk s) (nat sz) buf buf_temp
      in rs_sum T sz loc xs (overwrite temp_buf 0 (zeros (nat sz))) buf s)"

definition rs_erased :: "sys \<Rightarrow> flat" where
  "rs_erased s = (\<lambda>i. if disk_status s i = 1 then 1 else 0)"

text \<open>
  \<open>None\<close>: less than \<open>k\<close> disks are left (the library reads behind its array), or there is no matrix. A row
  behind the decoding matrix is what lies in memory there.
\<close>

definition rs_decode :: "rs_code \<Rightarrow> int \<Rightarrow> byte list \<Rightarrow> int \<Rightarrow> int \<Rightarrow> sys \<Rightarrow> (int \<times> byte list \<times> sys) option" where
  "rs_decode C disk_id buf sz offset s =
     (if disk_status s disk_id = 0 then Some (nc_readDisk disk_id buf sz offset s)
      else
        let n = disk_total_num s; k = data_disk_num s;
            block_size = disk_block_size s;
            block_no = i32 (offset sdiv block_size);
            blockoffset = i32 (offset - i32 (block_no * block_size));
            temp_buf = zeros (nat sz);
            buf = overwrite buf 0 (zeros (nat sz))
        in case generator_matrix C of
             None \<Rightarrow> None
           | Some g \<Rightarrow>
               (case jerasure_make_decoding_matrix (rs_tables C) k (n - k) g (rs_erased s) (int_junk C) (int_junk C) of
                  None \<Rightarrow> None
                | Some (r, decoding_matrix, dm_ids) \<Rightarrow>
                    if r < 0 then Some (-1, buf, s)
                    else
                      let diskblocklocation = i32 (i32 (block_no * block_size) + blockoffset);
                          row = map (\<lambda>i. decoding_matrix (k * disk_id + i)) [0..k - 1];
                          (buf, s) = rs_sum (rs_tables C) sz diskblocklocation (zip row dm_ids) temp_buf buf s
                      in Some (sz, buf, s)))"

text \<open>\<open>recover\<close> and \<open>recover_conventional\<close>, the same text twice: the state is lost when \<open>decode\<close> has no value.\<close>

definition rs_dec :: "rs_code \<Rightarrow> int \<Rightarrow> byte list \<Rightarrow> int \<Rightarrow> int \<Rightarrow> sys option \<Rightarrow> int \<times> byte list \<times> sys option" where
  "rs_dec C disk_id buf sz offset st = (case st of None \<Rightarrow> (0, buf, None)
     | Some s \<Rightarrow> (case rs_decode C disk_id buf sz offset s of None \<Rightarrow> (0, buf, None)
         | Some (retstat, buf, s) \<Rightarrow> (retstat, buf, Some s)))"

definition rs_wr :: "int \<Rightarrow> byte list \<Rightarrow> int \<Rightarrow> int \<Rightarrow> sys option \<Rightarrow> int \<times> sys option" where
  "rs_wr disk_id buf sz offset st = (case st of None \<Rightarrow> (0, None)
     | Some s \<Rightarrow> (let (retstat, s) = nc_writeDisk disk_id buf sz offset s in (retstat, Some s)))"

definition rs_recover :: "rs_code \<Rightarrow> int \<Rightarrow> sys \<Rightarrow> (int \<times> sys) option" where
  "rs_recover C failed_disk_id s =
     (let recoversize = disk_size s failed_disk_id;
          block_size = disk_block_size s
      in map_option (\<lambda>s. (0, s))
           (rebuild_blocks (rs_dec C) rs_wr (\<lambda>b. overwrite b 0 (zeros (nat block_size)))
             failed_disk_id block_size [0..recoversize - 1]
             (malloc (heap_junk s) (nat block_size)) (Some s)))"

section \<open>The code\<close>

text \<open>The object in order: tables of the field, and a matrix of which any \<open>k\<close> rows determine the data.\<close>

definition rs_ok :: "int \<Rightarrow> int \<Rightarrow> flat \<Rightarrow> rs_code \<Rightarrow> bool" where
  "rs_ok k m g C \<longleftrightarrow> galois_ok (rs_tables C) \<and> generator_matrix C = Some g \<and> bytes_in (m * k) g \<and>
     mds k (k + m) (dist_rows k (ent k g))"

text \<open>Every coding disk holds its combination of the data disks.\<close>

definition rs_parity_ok :: "int \<Rightarrow> int \<Rightarrow> flat \<Rightarrow> nat \<Rightarrow> (int \<Rightarrow> byte list) \<Rightarrow> bool" where
  "rs_parity_ok k m g len v \<longleftrightarrow> list_all (\<lambda>i. list_all (\<lambda>a.
     v (k + i) ! a = xsum (\<lambda>j. gmul (ent k g i j) (v j ! a)) [0..k - 1]) [0..<len]) [0..m - 1]"

lemma rs_parityD:
  "rs_parity_ok k m g len v \<Longrightarrow> 0 \<le> i \<Longrightarrow> i < m \<Longrightarrow> a < len \<Longrightarrow>
   v (k + i) ! a = xsum (\<lambda>j. gmul (ent k g i j) (v j ! a)) [0..k - 1]"
  by (simp add: rs_parity_ok_def list_all_iff)

lemma rs_parity_cong:
  assumes "\<And>b. 0 \<le> b \<Longrightarrow> b < k + m \<Longrightarrow> v b = w b" "0 \<le> k" "0 \<le> m"
  shows "rs_parity_ok k m G len v = rs_parity_ok k m G len w"
proof -
  have "xsum (\<lambda>j. gmul (ent k G i j) (v j ! a)) [0..k - 1] = xsum (\<lambda>j. gmul (ent k G i j) (w j ! a)) [0..k - 1]" for i a
    using assms by (intro xsum_cong) auto
  then show ?thesis using assms by (auto simp: rs_parity_ok_def list_all_iff)
qed

text \<open>In terms of the rows of the devices.\<close>

lemma rs_rows:
  assumes "rs_parity_ok k m g len v" "0 \<le> r" "r < k + m" "a < len"
  shows "mvec k (dist_rows k (ent k g)) (\<lambda>j. v j ! a) r = v r ! a"
proof (cases "r < k")
  case True
  have "mvec k (dist_rows k (ent k g)) (\<lambda>j. v j ! a) r = mvec k unit (\<lambda>j. v j ! a) r"
    by (rule mvec_cong) (use True in \<open>simp add: dist_rows_def\<close>)
  then show ?thesis using True assms(2) by (simp add: mvec_unit)
next
  case False
  have "mvec k (dist_rows k (ent k g)) (\<lambda>j. v j ! a) r = xsum (\<lambda>j. gmul (ent k g (r - k) j) (v j ! a)) [0..k - 1]"
    unfolding mvec_def using False by (simp add: dist_rows_def)
  also have "\<dots> = v (k + (r - k)) ! a" using rs_parityD [OF assms(1), of "r - k" a] False assms by simp
  finally show ?thesis by simp
qed

text \<open>The constructor makes an object in order.\<close>

lemma rs_new_ok:
  assumes "0 < data_disk_num s" "data_disk_num s < disk_total_num s" "disk_total_num s \<le> 256"
  obtains C g where "rs_new junk_tables junk s = Some C"
    "rs_ok (data_disk_num s) (disk_total_num s - data_disk_num s) g C"
proof -
  let ?k = "data_disk_num s" and ?m = "disk_total_num s - data_disk_num s"
  obtain T where T: "galois_create_mult_tables junk_tables = Some T" "galois_ok T" by (rule galois_tables_ok)
  obtain g where g: "reed_sol_vandermonde_coding_matrix T junk ?k ?m = Some (Some g)"
    "bytes_in (?m * ?k) g" "mds ?k (?k + ?m) (dist_rows ?k (ent ?k g))"
    by (rule vandermonde_coding_matrix_ok [OF T(2), of ?k ?m junk]) (use assms in auto)
  show ?thesis using that T g by (simp add: rs_new_def rs_ok_def)
qed

lemma rs_made_ok:
  assumes "rs_new junk_tables junk s = Some C" "generator_matrix C = Some g"
    and "0 < data_disk_num s" "data_disk_num s < disk_total_num s" "disk_total_num s \<le> 256"
  shows "rs_ok (data_disk_num s) (disk_total_num s - data_disk_num s) g C"
  using rs_new_ok [OF assms(3-5), of junk_tables junk] assms(1,2) by (metis option.inject rs_ok_def)

text \<open>The combinations of \<open>k\<close> rows that are there give the bytes of a data row.\<close>

lemma rs_solve:
  assumes "galois_ok T" "0 < k" "bytes_in (m * k) g" "mds k (k + m) (dist_rows k (ent k g))"
    and "k \<le> int (length (filter (\<lambda>i. er i = 0) [0..k + m - 1]))" "0 \<le> c" "c < k"
  obtains dec dm where "jerasure_make_decoding_matrix T k m g er junk dec0 = Some (0, dec, dm)" "length dm = nat k"
    "\<And>i. 0 \<le> i \<Longrightarrow> i < k \<Longrightarrow> 0 \<le> dec (k * c + i) \<and> dec (k * c + i) < 256 \<and>
       0 \<le> dm ! nat i \<and> dm ! nat i < k + m \<and> er (dm ! nat i) = 0"
    "\<And>v len a. rs_parity_ok k m g len v \<Longrightarrow> a < len \<Longrightarrow>
       xsum (\<lambda>i. gmul (word_of_int (dec (k * c + i))) (v (dm ! nat i) ! a)) [0..k - 1] = v c ! a"
proof -
  obtain dec dm where dm: "jerasure_make_decoding_matrix T k m g er junk dec0 = Some (0, dec, dm)"
    "bytes_in (k * k) dec" "dm = take (nat k) (filter (\<lambda>i. er i = 0) [0..k + m - 1])"
    "\<And>x d. 0 \<le> d \<Longrightarrow> d < k \<Longrightarrow> xsum (\<lambda>i. gmul (ent k dec d i)
       (mvec k (dist_rows k (ent k g)) x (dm ! nat i))) [0..k - 1] = x d"
    by (rule jerasure_decoding_ok [OF assms(1-5), of junk dec0]) blast
  have ld: "length dm = nat k" using assms(5) unfolding dm(3) by simp
  have dr: "0 \<le> dm ! nat i \<and> dm ! nat i < k + m \<and> er (dm ! nat i) = 0" if "0 \<le> i" "i < k" for i
  proof -
    have "dm ! nat i \<in> set dm" by (rule nth_mem) (use that ld in auto)
    then have "dm ! nat i \<in> set (filter (\<lambda>i. er i = 0) [0..k + m - 1])" unfolding dm(3) by (rule in_set_takeD)
    then show ?thesis by auto
  qed
  have e: "0 \<le> dec (k * c + i) \<and> dec (k * c + i) < 256" if "0 \<le> i" "i < k" for i
    using bytes_inD [OF dm(2) in_range [of c k i k]] assms that by (simp add: mult.commute)
  have x: "xsum (\<lambda>i. gmul (word_of_int (dec (k * c + i))) (v (dm ! nat i) ! a)) [0..k - 1] = v c ! a"
    if P: "rs_parity_ok k m g len v" and a: "a < len" for v len a
  proof -
    have "xsum (\<lambda>i. gmul (word_of_int (dec (k * c + i))) (v (dm ! nat i) ! a)) [0..k - 1] =
        xsum (\<lambda>i. gmul (ent k dec c i) (mvec k (dist_rows k (ent k g)) (\<lambda>j. v j ! a) (dm ! nat i))) [0..k - 1]"
    proof (rule xsum_cong [OF refl])
      fix i assume "i \<in> set [0..k - 1]"
      then have i: "0 \<le> i" "i < k" by auto
      show "gmul (word_of_int (dec (k * c + i))) (v (dm ! nat i) ! a) =
          gmul (ent k dec c i) (mvec k (dist_rows k (ent k g)) (\<lambda>j. v j ! a) (dm ! nat i))"
        using rs_rows [OF P _ _ a, of "dm ! nat i"] dr [OF i] by (simp add: ent_def mult.commute)
    qed
    also have "\<dots> = v c ! a" by (rule dm(4) [OF assms(6,7)])
    finally show ?thesis .
  qed
  show ?thesis by (rule that [OF dm(1) ld _ x]) (use e dr in auto)
qed

section \<open>Reading\<close>

text \<open>
  \<open>rs_lost m v s\<close>: disks are marked as failed, at most as many as there are coding disks; the others hold
  what they held in \<open>v\<close>.
\<close>

definition rs_lost :: "int \<Rightarrow> (int \<Rightarrow> byte list) \<Rightarrow> sys \<Rightarrow> bool" where
  "rs_lost m v s \<longleftrightarrow> 0 < disk_block_size s \<and> 4 dvd disk_block_size s \<and> 0 \<le> m \<and>
     m * disk_block_size s < 2147483648 \<and>
     0 < data_disk_num s \<and> data_disk_num s < disk_total_num s \<and>
     int (length (filter (\<lambda>i. disk_status s i = 1) (disk_ids s))) \<le> disk_total_num s - data_disk_num s \<and>
     list_all (\<lambda>i. int (length (v i)) = m * disk_block_size s \<and>
       (disk_status s i = 0 \<and> content s i = v i \<or> disk_status s i = 1)) (disk_ids s)"

lemma length_rs_times [simp]: "length (rs_times T v b) = length b"
  by (simp add: rs_times_def)

lemma nth_rs_times:
  assumes "galois_ok T" "0 \<le> v" "v < 256" "j < length b"
  shows "rs_times T v b ! j = gmul (word_of_int v) (b ! j)"
  using gal_mul_int [OF assms(1) uint_byte assms(2,3), of "b ! j"] assms(4)
  by (simp add: rs_times_def gmul_commute)

lemma rs_sum_ok:
  assumes "galois_ok T" "0 < sz" "0 \<le> loc" "length temp = nat sz" "length buf = nat sz"
    and "\<And>e dev. (e, dev) \<in> set xs \<Longrightarrow> 0 \<le> e \<and> e < 256 \<and> loc + sz \<le> int (length (content s dev))"
  shows "rs_sum T sz loc xs temp buf s =
    (map (\<lambda>j. if j < 4 * (nat sz div 4)
       then buf ! j XOR xsum (\<lambda>(e, dev). gmul (word_of_int e) (content s dev ! (nat loc + j))) xs
       else buf ! j) [0..<nat sz], s)"
  using assms(4-)
proof (induction xs arbitrary: temp buf)
  case Nil
  then show ?case by (auto intro: nth_equalityI)
next
  case (Cons x xs)
  obtain e dev where x: "x = (e, dev)" by fastforce
  let ?t = "take (nat sz) (drop (nat loc) (content s dev))"
  have p: "0 \<le> e" "e < 256" "loc + sz \<le> int (length (content s dev))" using Cons.prems(3) [of e dev] x by auto
  have r: "nc_readDisk dev temp sz loc s = (sz, ?t, s)" by (rule nc.rd_buf) (use p assms Cons.prems in auto)
  have t: "length ?t = nat sz" by (rule nc.length_rd_buf) (use p assms in auto)
  let ?b = "xor_ints (heap_junk s) (nat sz) buf (rs_times T e ?t)"
  have lo: "nat loc \<le> length (content s dev)" using p(3) assms(2,3) by linarith
  have tb: "?t ! j = content s dev ! (nat loc + j)" if "j < nat sz" for j using that lo by simp
  have b: "?b ! j = (if j < 4 * (nat sz div 4)
      then buf ! j XOR gmul (word_of_int e) (content s dev ! (nat loc + j)) else buf ! j)" if "j < nat sz" for j
    using that Cons.prems(2) t nth_rs_times [OF assms(1) p(1,2), of j ?t] tb [OF that]
    by (simp add: xor_ints_def nth_xor_into)
  have "rs_sum T sz loc (x # xs) temp buf s =
      rs_sum T sz loc xs (overwrite ?t 0 (zeros (nat sz))) ?b s"
    using t by (simp add: x r)
  also have "\<dots> = (map (\<lambda>j. if j < 4 * (nat sz div 4)
       then ?b ! j XOR xsum (\<lambda>(e, dev). gmul (word_of_int e) (content s dev ! (nat loc + j))) xs
       else ?b ! j) [0..<nat sz], s)"
    using Cons.prems t by (intro Cons.IH) auto
  finally show ?case using b by (simp add: x xor.assoc)
qed


lemma zip_upto:
  assumes "length ys = nat k"
  shows "zip (map f [0..k - 1]) ys = map (\<lambda>i. (f i, ys ! nat i)) [0..k - 1]"
  using assms by (intro nth_equalityI) auto

lemma rs_lostD:
  assumes "rs_lost m v s"
  shows "0 < disk_block_size s" "m * disk_block_size s < 2147483648" "0 < data_disk_num s"
    "\<And>i. 0 \<le> i \<Longrightarrow> i < disk_total_num s \<Longrightarrow> int (length (v i)) = m * disk_block_size s"
    "\<And>i. 0 \<le> i \<Longrightarrow> i < disk_total_num s \<Longrightarrow> disk_status s i \<noteq> 1 \<Longrightarrow> content s i = v i"
    "data_disk_num s \<le> int (length (filter (\<lambda>i. rs_erased s i = 0) (disk_ids s)))"
proof -
  show "0 < disk_block_size s" "m * disk_block_size s < 2147483648" "0 < data_disk_num s"
    using assms by (simp_all add: rs_lost_def)
  show "int (length (v i)) = m * disk_block_size s" if "0 \<le> i" "i < disk_total_num s" for i
    using assms that by (simp add: rs_lost_def list_all_iff)
  show "content s i = v i" if "0 \<le> i" "i < disk_total_num s" "disk_status s i \<noteq> 1" for i
    using assms that by (auto simp: rs_lost_def list_all_iff)
  have "length (filter (\<lambda>i. rs_erased s i = 0) (disk_ids s)) +
      length (filter (\<lambda>i. disk_status s i = 1) (disk_ids s)) = length (disk_ids s)"
    using sum_length_filter_compl [of "\<lambda>i. disk_status s i = 1" "disk_ids s"] by (simp add: rs_erased_def)
  moreover have "int (length (disk_ids s)) = disk_total_num s"
    "int (length (filter (\<lambda>i. disk_status s i = 1) (disk_ids s))) \<le> disk_total_num s - data_disk_num s"
    using assms by (simp_all add: rs_lost_def)
  ultimately show "data_disk_num s \<le> int (length (filter (\<lambda>i. rs_erased s i = 0) (disk_ids s)))"
    by linarith
qed

text \<open>The place of a range, for addresses below 2 GiB.\<close>

lemma rs_location:
  assumes "0 < bs" "0 \<le> off" "off < 2147483648"
  shows "i32 (i32 (i32 (off sdiv bs) * bs) + i32 (off - i32 (i32 (off sdiv bs) * bs))) = off"
proof -
  have e: "off div bs * bs = off - off mod bs" by (simp add: minus_mod_eq_div_mult)
  have r: "0 \<le> off mod bs" "off mod bs < bs" "0 \<le> off div bs"
    using assms by (simp_all add: pos_imp_zdiv_nonneg_iff)
  have "off div bs * 1 \<le> off div bs * bs" using r assms by (intro mult_left_mono) auto
  then have q: "0 \<le> off div bs" "off div bs \<le> off" "off div bs * bs \<le> off" "0 \<le> off div bs * bs"
    using e r assms by (simp_all only: mult_1_right)
  have sd: "off sdiv bs = off div bs" using assms by simp
  have i1: "i32 (off div bs) = off div bs" by (rule i32_id) (use q assms in linarith)+
  have i2: "i32 (off div bs * bs) = off div bs * bs" by (rule i32_id) (use q e r assms in linarith)+
  have i3: "i32 (off - off div bs * bs) = off - off div bs * bs" by (rule i32_id) (use q e r assms in linarith)+
  have "off div bs * bs + (off - off div bs * bs) = off" by simp
  then have i4: "i32 (off div bs * bs + (off - off div bs * bs)) = off" using assms by (simp only: i32_id)
  show ?thesis unfolding sd i1 i2 i3 i4 ..
qed

text \<open>With the row of the decoding matrix, whatever it is.\<close>

lemma rs_decode_row:
  assumes C: "rs_ok (data_disk_num s) (disk_total_num s - data_disk_num s) g C"
    and L: "rs_lost m v s" and P: "rs_parity_ok (data_disk_num s) (disk_total_num s - data_disk_num s) g
      (nat (m * disk_block_size s)) v"
    and d: "0 \<le> d" "disk_status s d \<noteq> 0"
    and sz: "0 < sz" "0 \<le> off" "off + sz \<le> m * disk_block_size s" "length buf = nat sz"
  shows "\<exists>dec dm.
    jerasure_make_decoding_matrix (rs_tables C) (data_disk_num s) (disk_total_num s - data_disk_num s) g
       (rs_erased s) (int_junk C) (int_junk C) = Some (0, dec, dm) \<and>
    bytes_in (data_disk_num s * data_disk_num s) dec \<and>
    ((\<forall>i. 0 \<le> i \<and> i < data_disk_num s \<longrightarrow>
       0 \<le> dec (data_disk_num s * d + i) \<and> dec (data_disk_num s * d + i) < 256) \<longrightarrow>
     rs_decode C d buf sz off s = Some (sz, int_bytes sz (map (\<lambda>j. xsum (\<lambda>i.
       gmul (word_of_int (dec (data_disk_num s * d + i))) (v (dm ! nat i) ! (nat off + j)))
       [0..data_disk_num s - 1]) [0..<nat sz]), s)) \<and>
    (\<forall>x c. 0 \<le> c \<and> c < data_disk_num s \<longrightarrow> xsum (\<lambda>i. gmul (ent (data_disk_num s) dec c i)
       (mvec (data_disk_num s) (dist_rows (data_disk_num s) (ent (data_disk_num s) g)) x (dm ! nat i)))
       [0..data_disk_num s - 1] = x c) \<and>
    (\<forall>i. 0 \<le> i \<and> i < data_disk_num s \<longrightarrow> 0 \<le> dm ! nat i \<and> dm ! nat i < disk_total_num s \<and>
       disk_status s (dm ! nat i) \<noteq> 1)"
proof -
  let ?k = "data_disk_num s" and ?n = "disk_total_num s" and ?bs = "disk_block_size s"
  note l = rs_lostD [OF L]
  have nk: "?k + (?n - ?k) = ?n" by simp
  have c: "galois_ok (rs_tables C)" "generator_matrix C = Some g" "bytes_in ((?n - ?k) * ?k) g"
    "mds ?k (?k + (?n - ?k)) (dist_rows ?k (ent ?k g))" using C by (auto simp: rs_ok_def)
  obtain dec dm where dm: "jerasure_make_decoding_matrix (rs_tables C) ?k (?n - ?k) g (rs_erased s)
      (int_junk C) (int_junk C) = Some (0, dec, dm)"
    "bytes_in (?k * ?k) dec" "dm = take (nat ?k) (filter (\<lambda>i. rs_erased s i = 0) (disk_ids s))"
    "\<And>x c. 0 \<le> c \<Longrightarrow> c < ?k \<Longrightarrow> xsum (\<lambda>i. gmul (ent ?k dec c i)
       (mvec ?k (dist_rows ?k (ent ?k g)) x (dm ! nat i))) [0..?k - 1] = x c"
    using jerasure_decoding_ok [OF c(1) l(3) c(3,4), of "rs_erased s" "int_junk C" "int_junk C"] l(6)
    unfolding nk by blast
  have ld: "length dm = nat ?k" using l(6) unfolding dm(3) by simp
  have dr: "0 \<le> dm ! nat i \<and> dm ! nat i < ?n \<and> disk_status s (dm ! nat i) \<noteq> 1" if "0 \<le> i" "i < ?k" for i
  proof -
    have "dm ! nat i \<in> set dm" by (rule nth_mem) (use that ld in auto)
    then have "dm ! nat i \<in> set (filter (\<lambda>i. rs_erased s i = 0) (disk_ids s))"
      unfolding dm(3) by (rule in_set_takeD)
    then show ?thesis by (auto simp: rs_erased_def split: if_splits)
  qed
  have cnt: "content s (dm ! nat i) = v (dm ! nat i)" "off + sz \<le> int (length (content s (dm ! nat i)))"
    if "0 \<le> i" "i < ?k" for i
    using dr [OF that] l(4,5) sz by simp_all
  have dec: "rs_decode C d buf sz off s = Some (sz, int_bytes sz (map (\<lambda>j. xsum (\<lambda>i.
       gmul (word_of_int (dec (?k * d + i))) (v (dm ! nat i) ! (nat off + j))) [0..?k - 1]) [0..<nat sz]), s)"
    if e: "\<And>i. 0 \<le> i \<Longrightarrow> i < ?k \<Longrightarrow> 0 \<le> dec (?k * d + i) \<and> dec (?k * d + i) < 256"
  proof -
    let ?xs = "map (\<lambda>i. (dec (?k * d + i), dm ! nat i)) [0..?k - 1]"
    have z: "zip (map (\<lambda>i. dec (?k * d + i)) [0..?k - 1]) dm = ?xs" by (rule zip_upto [OF ld])
    have b0: "overwrite buf 0 (zeros (nat sz)) = zeros (nat sz)" using sz by (simp add: overwrite_def)
    have loc: "i32 (i32 (i32 (off sdiv ?bs) * ?bs) + i32 (off - i32 (i32 (off sdiv ?bs) * ?bs))) = off"
      using l(1,2) sz by (intro rs_location) auto
    have "rs_sum (rs_tables C) sz off ?xs (zeros (nat sz)) (zeros (nat sz)) s =
        (map (\<lambda>j. if j < 4 * (nat sz div 4)
          then zeros (nat sz) ! j XOR xsum (\<lambda>(e, dev). gmul (word_of_int e) (content s dev ! (nat off + j))) ?xs
          else zeros (nat sz) ! j) [0..<nat sz], s)"
      by (rule rs_sum_ok [OF c(1)]) (use sz e cnt(2) in auto)
    also have "\<dots> = (int_bytes sz (map (\<lambda>j. xsum (\<lambda>i.
       gmul (word_of_int (dec (?k * d + i))) (v (dm ! nat i) ! (nat off + j))) [0..?k - 1]) [0..<nat sz]), s)"
    proof -
      have "xsum (\<lambda>i. gmul (word_of_int (dec (?k * d + i))) (content s (dm ! nat i) ! a)) [0..?k - 1] =
          xsum (\<lambda>i. gmul (word_of_int (dec (?k * d + i))) (v (dm ! nat i) ! a)) [0..?k - 1]" for a
        by (rule xsum_cong) (use cnt(1) in auto)
      then show ?thesis by (simp add: int_bytes_def)
    qed
    finally have r: "rs_sum (rs_tables C) sz off ?xs (zeros (nat sz)) (zeros (nat sz)) s =
        (int_bytes sz (map (\<lambda>j. xsum (\<lambda>i.
       gmul (word_of_int (dec (?k * d + i))) (v (dm ! nat i) ! (nat off + j))) [0..?k - 1]) [0..<nat sz]), s)" .
    show ?thesis
      using d(2) c(2) dm(1) r by (simp add: rs_decode_def Let_def b0 z loc)
  qed
  show ?thesis
  proof (intro exI [of _ dec] exI [of _ dm] conjI allI impI)
  qed (use dm(1,2,4) dec dr in blast)+
qed

text \<open>The row of a data disk gives its bytes.\<close>

lemma rs_decode_ok:
  assumes C: "rs_ok (data_disk_num s) (disk_total_num s - data_disk_num s) g C"
    and L: "rs_lost m v s" and P: "rs_parity_ok (data_disk_num s) (disk_total_num s - data_disk_num s) g
      (nat (m * disk_block_size s)) v"
    and d: "0 \<le> d" "d < data_disk_num s" "disk_status s d \<noteq> 0"
    and sz: "0 < sz" "0 \<le> off" "off + sz \<le> m * disk_block_size s" "length buf = nat sz"
  shows "rs_decode C d buf sz off s = Some (sz, int_bytes sz (take (nat sz) (drop (nat off) (v d))), s)"
proof -
  let ?k = "data_disk_num s" and ?n = "disk_total_num s" and ?bs = "disk_block_size s"
  let ?D = "dist_rows ?k (ent ?k g)"
  note l = rs_lostD [OF L]
  obtain dec dm where r0: "jerasure_make_decoding_matrix (rs_tables C) ?k (?n - ?k) g (rs_erased s)
      (int_junk C) (int_junk C) = Some (0, dec, dm)"
    and r: "bytes_in (?k * ?k) dec"
    "(\<forall>i. 0 \<le> i \<and> i < ?k \<longrightarrow> 0 \<le> dec (?k * d + i) \<and> dec (?k * d + i) < 256) \<longrightarrow>
     rs_decode C d buf sz off s = Some (sz, int_bytes sz (map (\<lambda>j. xsum (\<lambda>i.
       gmul (word_of_int (dec (?k * d + i))) (v (dm ! nat i) ! (nat off + j))) [0..?k - 1]) [0..<nat sz]), s)"
    "\<forall>x c. 0 \<le> c \<and> c < ?k \<longrightarrow> xsum (\<lambda>i. gmul (ent ?k dec c i) (mvec ?k ?D x (dm ! nat i))) [0..?k - 1] = x c"
    "\<forall>i. 0 \<le> i \<and> i < ?k \<longrightarrow> 0 \<le> dm ! nat i \<and> dm ! nat i < ?n \<and> disk_status s (dm ! nat i) \<noteq> 1"
    using rs_decode_row [OF C L P d(1,3) sz] by (elim exE conjE) (rule that)
  have e: "0 \<le> dec (?k * d + i) \<and> dec (?k * d + i) < 256" if "0 \<le> i" "i < ?k" for i
    using bytes_inD [OF r(1) in_range [of d ?k i ?k]] d that by (simp add: mult.commute)
  have ld: "int (length (v d)) = m * ?bs" using l(4) [of d] d L by (simp add: rs_lost_def)
  have x: "xsum (\<lambda>i. gmul (word_of_int (dec (?k * d + i))) (v (dm ! nat i) ! (nat off + j))) [0..?k - 1] =
      take (nat sz) (drop (nat off) (v d)) ! j" if j: "j < nat sz" for j
  proof -
    let ?a = "nat off + j"
    have a: "?a < nat (m * ?bs)" using j sz by linarith
    have "xsum (\<lambda>i. gmul (word_of_int (dec (?k * d + i))) (v (dm ! nat i) ! ?a)) [0..?k - 1] =
        xsum (\<lambda>i. gmul (ent ?k dec d i) (mvec ?k ?D (\<lambda>j. v j ! ?a) (dm ! nat i))) [0..?k - 1]"
    proof (rule xsum_cong [OF refl])
      fix i assume "i \<in> set [0..?k - 1]"
      then have i: "0 \<le> i" "i < ?k" by auto
      show "gmul (word_of_int (dec (?k * d + i))) (v (dm ! nat i) ! ?a) =
          gmul (ent ?k dec d i) (mvec ?k ?D (\<lambda>j. v j ! ?a) (dm ! nat i))"
        using rs_rows [OF P, of "dm ! nat i" ?a] r(4) i a by (simp add: ent_def mult.commute)
    qed
    also have "\<dots> = v d ! ?a" by (rule r(3) [rule_format]) (use d in auto)
    also have "\<dots> = take (nat sz) (drop (nat off) (v d)) ! j"
    proof -
      have "nat off \<le> length (v d)" using ld sz by linarith
      then show ?thesis using j by simp
    qed
    finally show ?thesis .
  qed
  have "rs_decode C d buf sz off s = Some (sz, int_bytes sz (map (\<lambda>j. xsum (\<lambda>i.
       gmul (word_of_int (dec (?k * d + i))) (v (dm ! nat i) ! (nat off + j))) [0..?k - 1]) [0..<nat sz]), s)"
    using e by (intro r(2) [rule_format]) auto
  then show ?thesis using x by (simp add: int_bytes_def cong: map_cong if_cong)
qed


section \<open>Lost disks\<close>

definition fail_disks :: "int list \<Rightarrow> sys \<Rightarrow> sys" where
  "fail_disks F s = foldl (\<lambda>s d. fail_disk d s) s F"

lemma fail_disk_keeps:
  assumes "0 \<le> d" "d < disk_total_num s"
  shows "disk_total_num (fail_disk d s) = disk_total_num s" "disk_block_size (fail_disk d s) = disk_block_size s"
    "data_disk_num (fail_disk d s) = data_disk_num s" "dev_name (fail_disk d s) = dev_name s"
    "disk_status (fail_disk d s) = (disk_status s)(d := 1)"
  using assms set_device_status_1 [of d "put_device (dev_name s d) None s"] by (simp_all add: fail_disk_def)

lemma fail_disks_fields:
  assumes "set F \<subseteq> set (disk_ids s)" "distinct (map (dev_name s) (disk_ids s))"
  shows "disk_total_num (fail_disks F s) = disk_total_num s" "disk_block_size (fail_disks F s) = disk_block_size s"
    "data_disk_num (fail_disks F s) = data_disk_num s"
    "disk_status (fail_disks F s) = (\<lambda>i. if i \<in> set F then 1 else disk_status s i)"
    "\<And>i. i \<notin> set F \<Longrightarrow> content (fail_disks F s) i = content s i"
proof -
  have "disk_total_num (fail_disks F s) = disk_total_num s \<and> disk_block_size (fail_disks F s) = disk_block_size s \<and>
    data_disk_num (fail_disks F s) = data_disk_num s \<and>
    disk_status (fail_disks F s) = (\<lambda>i. if i \<in> set F then 1 else disk_status s i) \<and>
    (\<forall>i. i \<notin> set F \<longrightarrow> content (fail_disks F s) i = content s i)"
    using assms
  proof (induction F arbitrary: s)
    case (Cons d F)
    have d: "0 \<le> d" "d < disk_total_num s" using Cons.prems(1) by auto
    note k = fail_disk_keeps [OF d]
    have c: "i \<noteq> d \<Longrightarrow> content (fail_disk d s) i = content s i" for i
      using content_fail_disk [OF Cons.prems(2) d] by simp
    have "set F \<subseteq> set (disk_ids (fail_disk d s))"
      "distinct (map (dev_name (fail_disk d s)) (disk_ids (fail_disk d s)))"
      using Cons.prems k by auto
    from Cons.IH [OF this] show ?case using k c by (auto simp: fail_disks_def fun_eq_iff)
  qed (simp add: fail_disks_def)
  then show "disk_total_num (fail_disks F s) = disk_total_num s" "disk_block_size (fail_disks F s) = disk_block_size s"
    "data_disk_num (fail_disks F s) = data_disk_num s"
    "disk_status (fail_disks F s) = (\<lambda>i. if i \<in> set F then 1 else disk_status s i)"
    "\<And>i. i \<notin> set F \<Longrightarrow> content (fail_disks F s) i = content s i" by blast+
qed

lemma rs_lost_fail_disks:
  assumes ok: "array_ok m s" and k: "0 < data_disk_num s" "data_disk_num s < disk_total_num s"
    and F: "set F \<subseteq> set (disk_ids s)" "int (length F) \<le> disk_total_num s - data_disk_num s"
  shows "rs_lost m (content s) (fail_disks F s)"
proof -
  have a: "list_all (\<lambda>i. disk_status s i = 0 \<and> int (length (content s i)) = m * disk_block_size s) (disk_ids s)"
    "distinct (map (dev_name s) (disk_ids s))" using ok by (simp_all add: array_ok_def list_all_iff)
  note f = fail_disks_fields [OF F(1) a(2)]
  have "set (filter (\<lambda>i. disk_status (fail_disks F s) i = 1) (disk_ids s)) \<subseteq> set F"
    using a(1) by (auto simp: f(4) list_all_iff split: if_splits)
  then have "length (filter (\<lambda>i. disk_status (fail_disks F s) i = 1) (disk_ids s)) \<le> length F"
    using distinct_card [of "filter (\<lambda>i. disk_status (fail_disks F s) i = 1) (disk_ids s)"] card_length [of F]
      card_mono [of "set F" "set (filter (\<lambda>i. disk_status (fail_disks F s) i = 1) (disk_ids s))"]
    by simp
  then show ?thesis using ok k F(2) a(1) f(5) unfolding rs_lost_def f(1-3)
    by (auto simp: array_ok_def list_all_iff f(4))
qed

text \<open>
  C6: Reed-Solomon survives the loss of any \<open>n - k\<close> disks: with the object of the constructor and coding disks
  that hold their combinations, \<open>decode\<close> of a data disk returns what it held, whichever disks
  are lost (of a lost disk the last bytes of a size that is not a multiple of four are zero).
\<close>

theorem rs_degraded_read:
  assumes "rs_new junk_tables junk s = Some C" "array_ok m s"
    and "rs_parity_ok (data_disk_num s) (disk_total_num s - data_disk_num s) g (nat (m * disk_block_size s)) (content s)"
    and "0 < data_disk_num s" "data_disk_num s < disk_total_num s"
    and "set F \<subseteq> set (disk_ids s)" "int (length F) \<le> disk_total_num s - data_disk_num s"
    and "0 \<le> d" "d < data_disk_num s"
    and "0 < sz" "0 \<le> off" "off + sz \<le> m * disk_block_size s" "length buf = nat sz"
    and "generator_matrix C = Some g" "disk_total_num s \<le> 256"
  defines "held \<equiv> take (nat sz) (drop (nat off) (content s d))"
  shows "rs_decode C d buf sz off (fail_disks F s) =
      Some (sz, if d \<in> set F then int_bytes sz held else held, fail_disks F s) \<and>
    (4 dvd sz \<longrightarrow> int_bytes sz held = held)"
proof (intro conjI impI)
  have ok: "rs_ok (data_disk_num s) (disk_total_num s - data_disk_num s) g C"
    by (rule rs_made_ok [OF assms(1,14,4,5,15)])
  have a: "list_all (\<lambda>i. disk_status s i = 0 \<and> int (length (content s i)) = m * disk_block_size s) (disk_ids s)"
    "distinct (map (dev_name s) (disk_ids s))" using assms(2) by (simp_all add: array_ok_def list_all_iff)
  note f = fail_disks_fields [OF assms(6) a(2)]
  have l: "rs_lost m (content s) (fail_disks F s)" by (rule rs_lost_fail_disks) (use assms in auto)
  have c: "int (length (content s d)) = m * disk_block_size s" "disk_status s d = 0"
    using a(1) assms(5,8,9) by (auto simp: list_all_iff)
  show "rs_decode C d buf sz off (fail_disks F s) =
      Some (sz, if d \<in> set F then int_bytes sz held else held, fail_disks F s)"
  proof (cases "d \<in> set F")
    case True
    have "rs_decode C d buf sz off (fail_disks F s) = Some (sz, int_bytes sz held, fail_disks F s)"
      unfolding held_def by (rule rs_decode_ok [OF _ l]) (use assms ok f True in \<open>simp_all\<close>)
    then show ?thesis using True by simp
  next
    case False
    have "nc_readDisk d buf sz off (fail_disks F s) =
        (sz, take (nat sz) (drop (nat off) (content (fail_disks F s) d)), fail_disks F s)"
      by (rule nc.rd_buf) (use False assms f c in auto)
    then show ?thesis using False c f by (simp add: rs_decode_def held_def)
  qed
  show "int_bytes sz held = held" if "4 dvd sz"
    using that nc.length_rd_buf [of sz off s d] assms(10-12) c(1) by (intro int_bytes_id) (auto simp: held_def)
qed

text \<open>A fresh array and the object made for it.\<close>

lemma rs_parity_fresh:
  assumes "0 < k"
  shows "rs_parity_ok k (n - k) g (nat (m * b)) (content (fresh_array t n k' b m))"
  unfolding rs_parity_ok_def list_all_iff
proof (intro ballI)
  fix i a assume h: "i \<in> set [0..n - k - 1]" "a \<in> set [0..<nat (m * b)]"
  have "xsum (\<lambda>j. gmul (ent k g i j) (content (fresh_array t n k' b m) j ! a)) [0..k - 1] =
      xsum (\<lambda>_. 0) [0..k - 1]"
    using h by (intro xsum_cong) (auto simp: content_fresh gmul_0)
  then show "content (fresh_array t n k' b m) (k + i) ! a =
      xsum (\<lambda>j. gmul (ent k g i j) (content (fresh_array t n k' b m) j ! a)) [0..k - 1]"
    using h assms by (simp add: content_fresh)
qed

theorem rs_degraded_read_witness:
  "case rs_new no_tables
     (\<lambda>_. 0) (fresh_array 13 5 3 4 2) of None \<Rightarrow> False
   | Some C \<Rightarrow> map_option (\<lambda>r. fst (snd r))
       (rs_decode C 1 [1, 1, 1, 1] 4 4 (fail_disks [0, 1] (fresh_array 13 5 3 4 2))) = Some (zeros 4)"
proof -
  let ?s = "fresh_array 13 5 3 4 2"
  obtain C g where C: "rs_new no_tables
     (\<lambda>_. 0) ?s = Some C" "rs_ok 3 2 g C"
    by (rule rs_new_ok [of ?s]) simp_all
  have "rs_parity_ok 3 2 g 8 (content ?s)" using rs_parity_fresh [of 3 5 g 2 4 13 3] by simp
  then show ?thesis
    using rs_degraded_read [of no_tables "\<lambda>_. 0" ?s C 2 g "[0, 1]" 1 4 4 "[1, 1, 1, 1]"] C
    by (simp add: array_ok_fresh content_fresh rs_ok_def) (simp add: zeros_def)
qed


section \<open>Writing\<close>

text \<open>The choice: there is one for two data disks or more, and it is the start of a free area.\<close>

lemma rs_pick_ok:
  assumes "2 \<le> data_disk_num s"
  obtains d b where "rs_pick req s = Some (d, b)"
    "d \<noteq> -1 \<Longrightarrow> 0 \<le> d \<and> d < data_disk_num s \<and> req \<le> free_size s d \<and> b = free_offset s d"
proof -
  let ?P = "\<lambda>acc. \<exists>d b. acc = Some (d, b) \<and>
    (d \<noteq> -1 \<longrightarrow> 0 \<le> d \<and> d < data_disk_num s \<and> req \<le> free_size s d \<and> b = free_offset s d)"
  have st: "?P (rs_pick_step (data_disk_num s) req s acc i)"
    if i: "i \<in> set (rev [0..data_disk_num s - 1])" and p: "?P acc" for i acc
  proof -
    obtain d b where a: "acc = Some (d, b)"
      "d \<noteq> -1 \<longrightarrow> 0 \<le> d \<and> d < data_disk_num s \<and> req \<le> free_size s d \<and> b = free_offset s d"
      using p by blast
    have "rs_pick_step (data_disk_num s) req s acc i = acc \<or>
        rs_pick_step (data_disk_num s) req s acc i = Some (i, free_offset s i) \<and> req \<le> free_size s i"
      using assms by (simp add: rs_pick_step_def a(1))
    then show ?thesis using a i by auto
  qed
  have "?P (rs_pick req s)" unfolding rs_pick_def
    by (rule foldl_keeps [where P = ?P]) (use st in auto)
  then show ?thesis using that by blast
qed

text \<open>With a single data disk that has room the process ends.\<close>

lemma rs_pick_single: "data_disk_num s = 1 \<Longrightarrow> req \<le> free_size s 0 \<Longrightarrow> rs_pick req s = None"
  by (simp add: rs_pick_def rs_pick_step_def)

text \<open>What the loop over the coding disks leaves.\<close>

lemma rs_parity_loop:
  assumes T: "galois_ok T" and i: "in_array m s d b sz" "0 \<le> k" "k + n \<le> disk_total_num s"
    and g: "\<And>i. i \<in> set ps \<Longrightarrow> 0 \<le> i \<and> i < n \<and> 0 \<le> g (i * k + d) \<and> g (i * k + d) < 256" "distinct ps"
    and l: "length delta = nat (disk_block_size s)" "length bw = nat (disk_block_size s)"
  obtains s' where "rs_parity T (Some g) k d delta sz (disk_block_size s) (i32 (b * disk_block_size s)) ps bw s = Some s'"
    "array_ok m s'" "frame s' = frame s"
    "content s' = (\<lambda>p. if p - k \<in> set ps then overwrite (content s p) (nat (b * disk_block_size s))
       (map (\<lambda>j. block_of s p b sz ! j XOR gmul (word_of_int (g ((p - k) * k + d))) (delta ! j)) [0..<nat sz])
     else content s p)"
  using i g l
proof (induction ps arbitrary: s bw thesis)
  case Nil
  then show ?case by (simp add: in_array_def)
next
  case (Cons i xs)
  let ?bs = "disk_block_size s" and ?p = "k + i"
  note P = Cons.prems(2-)
  have i: "0 \<le> i" "i < n" "0 \<le> g (i * k + d)" "g (i * k + d) < 256" using P(4) [of i] by auto
  have ip: "in_array m s ?p b sz" using P(1-3) i by (simp add: in_array_def)
  note ib = in_array_full [OF ip]
  have sz: "nat sz \<le> nat ?bs" "0 < sz" "sz \<le> ?bs" using P(1) by (auto simp: in_array_def)
  let ?a = "i32 (b * ?bs)"
  let ?old = "block_of s ?p b ?bs"
  let ?y = "xor_into (heap_junk s) (nat ?bs) ?old (rs_times T (g (i * k + d)) delta)"
  have r: "nc_readDisk ?p bw ?bs ?a s = (?bs, ?old, s)" by (rule array_read [OF ib P(7)])
  have lo: "length ?old = nat ?bs" by (rule length_block_of [OF ib])
  then have ly: "nat sz \<le> length ?y" using sz by simp
  define s1 where "s1 = snd (nc_writeDisk ?p ?y sz ?a s)"
  note w = array_write [OF ip ly, folded s1_def]
  note f = frame_eqD [OF w(2)]
  have y: "take (nat sz) ?y = map (\<lambda>j. block_of s ?p b sz ! j XOR gmul (word_of_int (g (i * k + d))) (delta ! j)) [0..<nat sz]"
  proof (rule nth_equalityI)
    fix j assume "j < length (take (nat sz) ?y)"
    then have j: "j < nat sz" "j < nat ?bs" using sz by auto
    have "?old ! j = block_of s ?p b sz ! j" using j array_addr(3) [OF ib] by (simp add: block_of_def)
    moreover have "?y ! j = ?old ! j XOR gmul (word_of_int (g (i * k + d))) (delta ! j)"
      using j lo P(6) i nth_rs_times [OF T i(3,4), of j delta] by (simp add: nth_xor_into)
    ultimately show "take (nat sz) ?y ! j = map (\<lambda>j. block_of s ?p b sz ! j XOR
        gmul (word_of_int (g (i * k + d))) (delta ! j)) [0..<nat sz] ! j" using j by simp
  qed (use ly in simp)
  have i1: "in_array m s1 d b sz" using P(1) w(4) f by (simp add: in_array_def)
  have k1: "k + n \<le> disk_total_num s1" using P(3) f by simp
  have l1: "length delta = nat (disk_block_size s1)" "length ?y = nat (disk_block_size s1)" using P(6) lo f by simp_all
  have d1: "distinct xs" using P(5) by simp
  obtain s' where s': "rs_parity T (Some g) k d delta sz (disk_block_size s1) (i32 (b * disk_block_size s1)) xs ?y s1 = Some s'"
    "array_ok m s'" "frame s' = frame s1"
    "content s' = (\<lambda>p. if p - k \<in> set xs then overwrite (content s1 p) (nat (b * disk_block_size s1))
       (map (\<lambda>j. block_of s1 p b sz ! j XOR gmul (word_of_int (g ((p - k) * k + d))) (delta ! j)) [0..<nat sz])
     else content s1 p)"
    by (rule Cons.IH [OF _ i1 P(2) k1 _ d1 l1]) (use P(4) in auto)
  have "content s' = (\<lambda>p. if p - k \<in> set (i # xs) then overwrite (content s p) (nat (b * ?bs))
       (map (\<lambda>j. block_of s p b sz ! j XOR gmul (word_of_int (g ((p - k) * k + d))) (delta ! j)) [0..<nat sz])
     else content s p)"
  proof
    fix p
    show "content s' p = (if p - k \<in> set (i # xs) then overwrite (content s p) (nat (b * ?bs))
       (map (\<lambda>j. block_of s p b sz ! j XOR gmul (word_of_int (g ((p - k) * k + d))) (delta ! j)) [0..<nat sz])
     else content s p)"
    proof (cases "p = ?p")
      case True
      then have "p - k \<notin> set xs" using P(5) by simp
      then show ?thesis unfolding s'(4) using True w(3) y f(3) by simp
    next
      case False
      then have c: "content s1 p = content s p" "p - k \<noteq> i" using w(3) by auto
      then show ?thesis unfolding s'(4) using f(3) by (simp add: block_of_def)
    qed
  qed
  moreover have "rs_parity T (Some g) k d delta sz ?bs ?a (i # xs) bw s = Some s'"
    using s'(1) f(3) r by (cases "nc_writeDisk ?p ?y sz ?a s") (simp add: Let_def s1_def)
  moreover have "frame s' = frame s" using s'(3) w(2) by simp
  ultimately show ?case using Cons.prems(1) s'(2) by blast
qed


text \<open>New data on disk \<open>d\<close> and the products of the difference on the coding disks keep the combinations.\<close>

lemma rs_parity_update:
  assumes P: "rs_parity_ok k m g len v" and d: "0 \<le> d" "d < k" and x: "off + length x \<le> len"
    and len: "\<And>i. 0 \<le> i \<Longrightarrow> i < k + m \<Longrightarrow> length (v i) = len"
    and w: "\<And>j. 0 \<le> j \<Longrightarrow> j < k \<Longrightarrow> w j = (if j = d then overwrite (v d) off x else v j)"
    and y: "\<And>i. 0 \<le> i \<Longrightarrow> i < m \<Longrightarrow> w (k + i) = overwrite (v (k + i)) off
      (map (\<lambda>j. v (k + i) ! (off + j) XOR gmul (ent k g i d) (v d ! (off + j) XOR x ! j)) [0..<length x])"
  shows "rs_parity_ok k m g len w"
  unfolding rs_parity_ok_def list_all_iff
proof (intro ballI)
  fix i a assume "i \<in> set [0..m - 1]" "a \<in> set [0..<len]"
  then have i: "0 \<le> i" "i < m" and a: "a < len" by auto
  have l: "length (v d) = len" "length (v (k + i)) = len" using len d i by simp_all
  let ?in = "off \<le> a \<and> a < off + length x"
  let ?\<delta> = "if ?in then v d ! a XOR x ! (a - off) else 0"
  have wd: "w d ! a = v d ! a XOR ?\<delta>" using w [OF d] x l a by (simp add: nth_overwrite)
  have "xsum (\<lambda>j. gmul (ent k g i j) (w j ! a)) [0..k - 1] =
      mvec k (ent k g) ((\<lambda>j. v j ! a)(d := v d ! a XOR ?\<delta>)) i"
    unfolding mvec_def by (rule xsum_cong) (use w wd in auto)
  also have "\<dots> = mvec k (ent k g) (\<lambda>j. v j ! a) i XOR gmul (ent k g i d) ?\<delta>"
    using mvec_upd [OF d, of "ent k g" "\<lambda>j. v j ! a" ?\<delta> i] by simp
  also have "\<dots> = v (k + i) ! a XOR gmul (ent k g i d) ?\<delta>"
    using rs_parityD [OF P i a] by (simp add: mvec_def)
  also have "\<dots> = w (k + i) ! a"
  proof (cases ?in)
    case True
    then obtain j where "a = off + j" "j < length x" by (auto simp: le_iff_add)
    then show ?thesis using y [OF i] x l a by (simp add: nth_overwrite)
  next
    case False
    then show ?thesis using y [OF i] x l a by (auto simp: nth_overwrite gmul_0)
  qed
  finally show "w (k + i) ! a = xsum (\<lambda>j. gmul (ent k g i j) (w j ! a)) [0..k - 1]" by simp
qed

text \<open>What \<open>encode\<close> leaves when block \<open>b\<close> of disk \<open>d\<close> was chosen.\<close>

lemma rs_encode_run:
  assumes C: "rs_ok (data_disk_num s) (disk_total_num s - data_disk_num s) g C"
    and p: "rs_pick 1 s = Some db" and o: "or_space_list db s = (d, b, s1)" "d \<noteq> -1"
    and ok: "array_ok m s" and d: "0 \<le> d" "d < data_disk_num s" "data_disk_num s \<le> disk_total_num s"
    and b: "0 \<le> b" "b < m" and sz: "0 < sz" "sz \<le> disk_block_size s" "length buf = nat sz"
  defines "off \<equiv> nat (b * disk_block_size s)"
  obtains s' where "rs_encode C buf sz s = Some (\<lparr>bi_disk_id = d, bi_block_no = b\<rparr>, s')"
    "array_ok m s'" "frame s' = frame (claim d b 1 s1)"
    "content s' = (\<lambda>p. if p = d then overwrite (content s d) off buf
      else if data_disk_num s \<le> p \<and> p < disk_total_num s then overwrite (content s p) off
        (map (\<lambda>j. content s p ! (off + j) XOR gmul (ent (data_disk_num s) g (p - data_disk_num s) d)
          (content s d ! (off + j) XOR buf ! j)) [0..<nat sz])
      else content s p)"
proof -
  let ?k = "data_disk_num s" and ?n = "disk_total_num s" and ?bs = "disk_block_size s" and ?junk = "heap_junk s"
  have T: "galois_ok (rs_tables C)" "generator_matrix C = Some g" "bytes_in ((?n - ?k) * ?k) g"
    using C by (auto simp: rs_ok_def)
  have req: "round_to_block_size sz s = ?bs" "?bs sdiv ?bs = 1" "0 < ?bs"
    using ok sz round_one_block [of s sz] by (auto simp: array_ok_def)
  note f = or_space_list_fields [OF o(1)]
  let ?c = "claim d b 1 s1"
  have fc: "disk_total_num ?c = ?n" "disk_block_size ?c = ?bs" "data_disk_num ?c = ?k" "heap_junk ?c = ?junk"
    "content ?c = content s" using f by simp_all
  have i: "in_array m ?c d b sz" using d b ok sz f by (simp add: in_array_def array_ok_space [OF o(1)])
  note ib = in_array_full [OF i, unfolded fc(2)]
  let ?a = "i32 (b * ?bs)"
  let ?old = "block_of ?c d b ?bs"
  let ?delta = "xor_into ?junk (nat ?bs) ?old buf"
  have rd: "nc_readDisk d (malloc ?junk (nat ?bs)) ?bs ?a ?c = (?bs, ?old, ?c)"
    using array_read [OF ib, of "malloc ?junk (nat ?bs)"] fc(2) by simp
  have lo: "length ?old = nat ?bs" by (rule length_block_of [OF ib])
  define s2 where "s2 = snd (nc_writeDisk d buf sz ?a ?c)"
  have lb: "nat sz \<le> length buf" using sz by simp
  note w = array_write [OF i lb, unfolded fc(2), folded s2_def]
  note f2 = frame_eqD [OF w(2), unfolded fc(1-4)]
  have i2: "in_array m s2 d b sz" using i w(4) f2 fc by (simp add: in_array_def)
  have k0: "0 \<le> ?k" "?k + (?n - ?k) \<le> disk_total_num s2" using d f2 by simp_all
  have gr: "0 \<le> i \<and> i < ?n - ?k \<and> 0 \<le> g (i * ?k + d) \<and> g (i * ?k + d) < 256" if "i \<in> set [0..?n - ?k - 1]" for i
    using that bytes_inD [OF T(3) in_range [of i "?n - ?k" d ?k]] d by auto
  have ld: "length ?delta = nat (disk_block_size s2)" "length (zeros (nat ?bs)) = nat (disk_block_size s2)"
    using lo f2 by simp_all
  obtain s' where s': "rs_parity (rs_tables C) (Some g) ?k d ?delta sz (disk_block_size s2)
      (i32 (b * disk_block_size s2)) [0..?n - ?k - 1] (zeros (nat ?bs)) s2 = Some s'"
    "array_ok m s'" "frame s' = frame s2"
    "content s' = (\<lambda>p. if p - ?k \<in> set [0..?n - ?k - 1] then overwrite (content s2 p) (nat (b * disk_block_size s2))
     (map (\<lambda>j. block_of s2 p b sz ! j XOR gmul (word_of_int (g ((p - ?k) * ?k + d))) (?delta ! j)) [0..<nat sz])
      else content s2 p)"
    by (rule rs_parity_loop [where ps = "[0..?n - ?k - 1]" and g = g, OF T(1) i2 k0 gr distinct_upto ld])
  have enc: "rs_encode C buf sz s = Some (\<lparr>bi_disk_id = d, bi_block_no = b\<rparr>, s')"
    using req p o rd s'(1) f2(3) f fc T(2)
    by (cases "nc_writeDisk d buf sz ?a ?c") (simp add: rs_encode_def Let_def s2_def)
  have c2: "content s2 = (content s)(d := overwrite (content s d) off buf)"
    using w(3) fc(5) sz(3) by (simp add: off_def)
  have e: "block_of s2 p b sz ! j XOR gmul (word_of_int (g ((p - ?k) * ?k + d))) (?delta ! j) =
      content s p ! (off + j) XOR gmul (ent ?k g (p - ?k) d) (content s d ! (off + j) XOR buf ! j)"
    if p: "?k \<le> p" "p < ?n" and j: "j < nat sz" for p j
  proof -
    have pd: "p \<noteq> d" using p d by simp
    have ip: "in_array m ?c p b sz" using i p d fc by (simp add: in_array_def)
    have jb: "j < nat ?bs" using j sz by linarith
    have "block_of s2 p b sz ! j = content s p ! (off + j)"
      using j array_addr(3) [OF ip, unfolded fc] pd c2 f2(3) by (simp add: block_of_def off_def)
    moreover have "?old ! j = content s d ! (off + j)"
      using jb array_addr(3) [OF ib] f by (simp add: block_of_def off_def)
    moreover have "?delta ! j = ?old ! j XOR buf ! j" using jb j lo sz by (simp add: nth_xor_into)
    ultimately show ?thesis by (simp add: ent_def)
  qed
  have "content s' = (\<lambda>p. if p = d then overwrite (content s d) off buf
      else if ?k \<le> p \<and> p < ?n then overwrite (content s p) off
        (map (\<lambda>j. content s p ! (off + j) XOR gmul (ent ?k g (p - ?k) d) (content s d ! (off + j) XOR buf ! j)) [0..<nat sz])
      else content s p)"
  proof
    fix p
    let ?L = "map (\<lambda>j. block_of s2 p b sz ! j XOR gmul (word_of_int (g ((p - ?k) * ?k + d))) (?delta ! j)) [0..<nat sz]"
    let ?R = "map (\<lambda>j. content s p ! (off + j) XOR gmul (ent ?k g (p - ?k) d) (content s d ! (off + j) XOR buf ! j)) [0..<nat sz]"
    show "content s' p = (if p = d then overwrite (content s d) off buf
      else if ?k \<le> p \<and> p < ?n then overwrite (content s p) off ?R else content s p)"
    proof (cases "?k \<le> p \<and> p < ?n")
      case True
      have "content s' p = overwrite (content s2 p) off ?L" using True unfolding s'(4) f2(3) off_def by simp
      also have "?L = ?R" using e True by (intro map_cong [OF refl]) auto
      finally show ?thesis using True d(2) c2 by simp
    next
      case False
      then have "content s' p = content s2 p" unfolding s'(4) by auto
      then show ?thesis using False c2 by auto
    qed
  qed
  then show ?thesis using that enc s'(2,3) w(2) by simp
qed

text \<open>
  C8: Reed-Solomon keeps its coding disks: for two data disks or more \<open>encode\<close> ends, stores the data in a
  block of a data disk, and the coding disks hold their combinations again; nothing else on the data
  disks changes.
\<close>

theorem rs_encode_parity:
  assumes C: "rs_ok (data_disk_num s) (disk_total_num s - data_disk_num s) g C"
    and k: "2 \<le> data_disk_num s" "data_disk_num s \<le> disk_total_num s"
    and ok: "array_ok m s" "alloc_ok (\<lambda>d _. d < data_disk_num s) m s"
    and par: "rs_parity_ok (data_disk_num s) (disk_total_num s - data_disk_num s) g
      (nat (m * disk_block_size s)) (content s)"
    and sz: "0 < sz" "sz \<le> disk_block_size s" "length buf = nat sz"
  shows "\<exists>r s'. rs_encode C buf sz s = Some (r, s') \<and> (bi_disk_id r \<noteq> -1 \<longrightarrow>
    array_ok m s' \<and> alloc_ok (\<lambda>d _. d < data_disk_num s) m s' \<and>
    rs_parity_ok (data_disk_num s) (disk_total_num s - data_disk_num s) g
      (nat (m * disk_block_size s)) (content s') \<and>
    block_of s' (bi_disk_id r) (bi_block_no r) sz = buf \<and>
    0 \<le> bi_disk_id r \<and> bi_disk_id r < data_disk_num s \<and>
    only_block (content s) (content s') (bi_disk_id r) (bi_block_no r) (disk_block_size s) \<and>
    (\<forall>i. i < data_disk_num s \<longrightarrow> i \<noteq> bi_disk_id r \<longrightarrow> content s' i = content s i))"
proof -
  let ?k = "data_disk_num s" and ?n = "disk_total_num s" and ?bs = "disk_block_size s" and ?junk = "heap_junk s"
  have T: "galois_ok (rs_tables C)" "generator_matrix C = Some g" "bytes_in ((?n - ?k) * ?k) g"
    using C by (auto simp: rs_ok_def)
  have req: "round_to_block_size sz s = ?bs" "?bs sdiv ?bs = 1" "0 < ?bs"
    using ok sz round_one_block [of s sz] by (auto simp: array_ok_def)
  obtain d0 b0 where p: "rs_pick 1 s = Some (d0, b0)"
    "d0 \<noteq> -1 \<Longrightarrow> 0 \<le> d0 \<and> d0 < ?k \<and> 1 \<le> free_size s d0 \<and> b0 = free_offset s d0"
    by (rule rs_pick_ok [OF k(1), of 1]) auto
  obtain d b s1 where o: "or_space_list (d0, b0) s = (d, b, s1)" by (metis prod_cases3)
  show ?thesis
  proof (cases "d = -1")
    case True
    then show ?thesis using req p o by (simp add: rs_encode_def Let_def)
  next
    case dne: False
    have d0: "d0 \<noteq> -1 \<Longrightarrow> 0 \<le> d0 \<and> d0 < ?n \<and> 1 \<le> free_size s d0 \<and> b0 = free_offset s d0 \<and> d0 < ?k"
      using p(2) k(2) by auto
    note c = alloc_ok_claim [OF ok(2) o dne d0]
    let ?off = "nat (b * ?bs)"
    obtain s' where s': "rs_encode C buf sz s = Some (\<lparr>bi_disk_id = d, bi_block_no = b\<rparr>, s')"
      "array_ok m s'" "frame s' = frame (claim d b 1 s1)"
      "content s' = (\<lambda>p. if p = d then overwrite (content s d) ?off buf
        else if ?k \<le> p \<and> p < ?n then overwrite (content s p) ?off
          (map (\<lambda>j. content s p ! (?off + j) XOR gmul (ent ?k g (p - ?k) d) (content s d ! (?off + j) XOR buf ! j)) [0..<nat sz])
        else content s p)"
      by (rule rs_encode_run [OF C p(1) o dne ok(1) c(1,5) k(2) c(3,4) sz])
    have i: "in_array m s d b sz" using c ok sz by (simp add: in_array_def)
    note a = array_addr [OF i]
    have len: "int (length (content s p)) = m * ?bs" if "0 \<le> p" "p < ?n" for p
      using ok(1) that by (simp add: array_ok_def list_all_iff)
    have cd: "content s' d = overwrite (content s d) ?off buf" using s'(4) by simp
    have "block_of s' d b sz = buf"
      using block_of_write [OF i sz(3) _ cd] frame_eqD(3) [OF s'(3)] or_space_list_fields(3) [OF o] by simp
    moreover have "only_block (content s) (content s') d b ?bs"
      by (rule only_block_overwrite [where x = buf]) (use a sz cd in auto)
    moreover have "rs_parity_ok ?k (?n - ?k) g (nat (m * ?bs)) (content s')"
    proof (rule rs_parity_update [OF par c(1,5), where x = buf and off = ?off])
      show "?off + length buf \<le> nat (m * ?bs)" using a len [of d] c(1,2) sz(3) by linarith
      show "length (content s p) = nat (m * ?bs)" if "0 \<le> p" "p < ?k + (?n - ?k)" for p
        using len [of p] that by simp
      show "content s' j = (if j = d then overwrite (content s d) ?off buf else content s j)"
        if "0 \<le> j" "j < ?k" for j using s'(4) that by simp
      show "content s' (?k + i) = overwrite (content s (?k + i)) ?off (map (\<lambda>j. content s (?k + i) ! (?off + j) XOR
          gmul (ent ?k g i d) (content s d ! (?off + j) XOR buf ! j)) [0..<length buf])"
        if "0 \<le> i" "i < ?n - ?k" for i
      proof -
        have "?k + i \<noteq> d" "?k \<le> ?k + i \<and> ?k + i < ?n" "?k + i - ?k = i" "length buf = nat sz"
          using that c(5) sz(3) by auto
        then show ?thesis unfolding s'(4) by simp
      qed
    qed
    moreover have "alloc_ok (\<lambda>d _. d < ?k) m s'" using alloc_ok_frame [OF s'(3)] c(6) by simp
    ultimately show ?thesis using s' c by simp
  qed
qed


theorem rs_encode_parity_witness:
  "case rs_new no_tables (\<lambda>_. 0) (fresh_array 13 5 3 4 2) of None \<Rightarrow> False
   | Some C \<Rightarrow> map_option (\<lambda>(r, s). block_of s 0 0 3)
       (rs_encode C [7, 8, 9] 3 (fresh_array 13 5 3 4 2)) = Some [7, 8, 9]"
proof -
  let ?s = "fresh_array 13 5 3 4 2"
  obtain C g where C: "rs_new no_tables (\<lambda>_. 0) ?s = Some C" "rs_ok 3 2 g C"
    by (rule rs_new_ok [of ?s]) simp_all
  have "rs_parity_ok 3 2 g 8 (content ?s)" using rs_parity_fresh [of 3 5 g 2 4 13 3] by simp
  then obtain r s' where e: "rs_encode C [7, 8, 9] 3 ?s = Some (r, s')"
    "bi_disk_id r \<noteq> -1 \<longrightarrow> block_of s' (bi_disk_id r) (bi_block_no r) 3 = [7, 8, 9]"
    using rs_encode_parity [of ?s g C 2 3 "[7, 8, 9]"] C(2) array_ok_fresh [of 4 2 13 5 3] alloc_ok_fresh
    by auto
  have "r = \<lparr>bi_disk_id = 0, bi_block_no = 0\<rparr>" using e(1)
    by (auto simp: rs_encode_def round_to_block_size_def rs_pick_def rs_pick_step_def or_space_list_def
        upto.simps Let_def split: prod.splits)
  then show ?thesis using C(1) e by simp
qed

section \<open>Recovery\<close>

text \<open>The disks as the loop of \<open>recover\<close> sees them.\<close>

definition rs_rd :: "int \<Rightarrow> byte list \<Rightarrow> int \<Rightarrow> int \<Rightarrow> sys option \<Rightarrow> int \<times> byte list \<times> sys option" where
  "rs_rd disk_id buf sz offset st = (case st of None \<Rightarrow> (0, buf, None)
     | Some s \<Rightarrow> (let (retstat, buf, s) = nc_readDisk disk_id buf sz offset s in (retstat, buf, Some s)))"

definition rs_content :: "sys option \<Rightarrow> int \<Rightarrow> byte list" where
  "rs_content st = (case st of None \<Rightarrow> (\<lambda>_. []) | Some s \<Rightarrow> content s)"

definition rs_frame :: "sys option \<Rightarrow> sys option" where
  "rs_frame st = map_option frame st"

text \<open>The lost disk \<open>d\<close> has a replacement; \<open>w\<close> is what all disks held, others may be lost as well.\<close>

definition rs_rebuilding :: "rs_code \<Rightarrow> flat \<Rightarrow> (int \<Rightarrow> byte list) \<Rightarrow> int \<Rightarrow> int \<Rightarrow> int \<Rightarrow> byte list \<Rightarrow> sys option \<Rightarrow> bool" where
  "rs_rebuilding C g w m bs d v st \<longleftrightarrow> (case st of None \<Rightarrow> False
     | Some s \<Rightarrow> bs = disk_block_size s \<and> v = w d \<and> 0 \<le> d \<and> d < data_disk_num s \<and> disk_status s d = 1 \<and>
         rs_ok (data_disk_num s) (disk_total_num s - data_disk_num s) g C \<and> rs_lost m w s \<and>
         rs_parity_ok (data_disk_num s) (disk_total_num s - data_disk_num s) g (nat (m * bs)) w \<and>
         int (length (content s d)) = m * bs)"

interpretation rs: block_rebuild rs_rd rs_wr rs_content rs_frame "rs_dec C" "rs_rebuilding C g w"
  for C g w
proof
  fix n off d and st :: "sys option" and buf :: "byte list"
  assume a: "0 < n" "0 \<le> off" "off + n \<le> int (length (rs_content st d))"
  then obtain s where st: "st = Some s" by (cases st) (auto simp: rs_content_def)
  have a': "0 < n" "0 \<le> off" "off + n \<le> int (length (content s d))" using a by (simp_all add: st rs_content_def)
  show "rs_rd d buf n off st = (n, overwrite buf 0 (take (nat n) (drop (nat off) (rs_content st d))), st)"
    using nc.rd_law [OF a', of buf] by (simp add: st rs_rd_def rs_content_def)
  assume b: "nat n \<le> length buf"
  show "fst (rs_wr d buf n off st) = n"
    and "rs_content (snd (rs_wr d buf n off st)) =
      (rs_content st)(d := overwrite (rs_content st d) (nat off) (take (nat n) buf))"
    and "rs_frame (snd (rs_wr d buf n off st)) = rs_frame st"
    using nc.wr_ret [OF a' b] nc.wr_cnt [OF a' b] nc.wr_rest [OF a' b]
    by (cases "nc_writeDisk d buf n off s"; simp add: st rs_wr_def rs_content_def rs_frame_def)+
next
  fix m bs d i v and st :: "sys option" and buf :: "byte list"
  assume l: "rs_rebuilding C g w m bs d v st"
  then obtain s where st: "st = Some s" by (cases st) (auto simp: rs_rebuilding_def)
  have r: "bs = disk_block_size s" "v = w d" "0 \<le> d" "d < data_disk_num s" "disk_status s d = 1"
    "rs_ok (data_disk_num s) (disk_total_num s - data_disk_num s) g C" "rs_lost m w s"
    "rs_parity_ok (data_disk_num s) (disk_total_num s - data_disk_num s) g (nat (m * disk_block_size s)) w"
    "int (length (content s d)) = m * bs"
    using l by (auto simp: st rs_rebuilding_def)
  note g = rs_lostD [OF r(7)]
  have lw: "int (length (w d)) = m * bs" "4 dvd bs" using g(4) [of d] r(1,3,4,7) by (auto simp: rs_lost_def)
  show "0 < bs \<and> m * bs < 2147483648 \<and> int (length v) = m * bs \<and> int (length (rs_content st d)) = m * bs"
    using g(1,2) r lw by (simp add: st rs_content_def)
  assume i: "0 \<le> i" "i < m" and b: "length buf = nat bs"
  have a: "0 \<le> i * bs" "i * bs + bs \<le> m * bs" using block_addr [of bs m i] g(1,2) r(1) i by auto
  have "rs_decode C d buf bs (i * bs) s = Some (bs, int_bytes bs (take (nat bs) (drop (nat (i * bs)) (w d))), s)"
    by (rule rs_decode_ok [OF r(6-8,3,4)]) (use a b g(1) r(1,5) in auto)
  moreover have "int_bytes bs (take (nat bs) (drop (nat (i * bs)) (w d))) = take (nat bs) (drop (nat (i * bs)) (w d))"
    using a lw by (intro int_bytes_id) auto
  ultimately show "\<exists>t. rs_dec C d buf bs (i * bs) st = (bs, take (nat bs) (drop (nat (i * bs)) v), t) \<and>
      rs_content t = rs_content st \<and> rs_frame t = rs_frame st \<and> rs_rebuilding C g w m bs d v t"
    using l r(2) by (simp add: st rs_dec_def)
  define t where "t = snd (nc_writeDisk d buf bs (i * bs) s)"
  have w: "frame t = frame s" "content t = (content s)(d := overwrite (content s d) (nat (i * bs)) (take (nat bs) buf))"
    "length (content t d) = length (content s d)"
    using nc.wr_rest [of bs "i * bs" s d buf] nc.wr_cnt [of bs "i * bs" s d buf]
      nc.wr_len [of bs "i * bs" s d buf d] a g(1) r(1,9) b by (auto simp: t_def)
  have "rs_lost m w t"
    using r(5,7) w(2) by (auto simp: rs_lost_def frame_eqD(1,2,3,10) [OF w(1)] list_all_iff)
  then have "rs_rebuilding C g w m bs d v (Some t)"
    using r w(3) by (simp add: rs_rebuilding_def frame_eqD(1,2,3,10) [OF w(1)])
  then show "rs_rebuilding C g w m bs d v (snd (rs_wr d buf bs (i * bs) st))"
    by (cases "nc_writeDisk d buf bs (i * bs) s") (simp add: st rs_wr_def t_def)
qed

text \<open>
  Recovery of Reed-Solomon rebuilds a lost data disk on its replacement, also while other disks are
  lost, changes no other disk, and reports success.
\<close>

theorem rs_recover_ok:
  assumes C: "rs_ok (data_disk_num s) (disk_total_num s - data_disk_num s) g C"
    and lost: "rs_lost (disk_size s d) w s" "0 \<le> d" "d < data_disk_num s" "disk_status s d = 1"
    and par: "rs_parity_ok (data_disk_num s) (disk_total_num s - data_disk_num s) g
      (nat (disk_size s d * disk_block_size s)) w"
    and len: "int (length (content s d)) = disk_size s d * disk_block_size s"
  shows "\<exists>s'. rs_recover C d s = Some (0, s') \<and> content s' = (content s)(d := w d)"
proof -
  let ?bs = "disk_block_size s" and ?m = "disk_size s d"
  have l: "rs_rebuilding C g w ?m ?bs d (w d) (Some s)" using assms by (simp add: rs_rebuilding_def)
  have m: "0 \<le> ?m" and bs: "0 < ?bs" using lost(1) by (simp_all add: rs_lost_def)
  let ?r = "rebuild_blocks (rs_dec C) rs_wr (\<lambda>b. overwrite b 0 (zeros (nat ?bs))) d ?bs [0..?m - 1]
    (malloc (heap_junk s) (nat ?bs)) (Some s)"
  have c: "rs_content ?r = (content s)(d := w d)" and f: "rs_frame ?r = rs_frame (Some s)"
    using rs.rebuild_all [OF l m, of "\<lambda>b. overwrite b 0 (zeros (nat ?bs))" "malloc (heap_junk s) (nat ?bs)"] bs
    by (simp_all add: rs_content_def)
  obtain s' where "?r = Some s'" using f by (cases ?r) (auto simp: rs_frame_def)
  then show ?thesis using c by (simp add: rs_recover_def Let_def rs_content_def)
qed

theorem rs_recover_ok_witness:
  "case rs_new no_tables (\<lambda>_. 0) (fresh_array 13 5 3 4 2) of None \<Rightarrow> False
   | Some C \<Rightarrow> map_option (\<lambda>r. content (snd r) 2)
       (rs_recover C 2 ((fresh_array 13 5 3 4 2)\<lparr>disk_status := (\<lambda>i. if i = 2 \<or> i = 4 then 1 else 0)\<rparr>)) =
       Some (zeros 8)"
proof -
  let ?f = "fresh_array 13 5 3 4 2"
  let ?s = "?f\<lparr>disk_status := (\<lambda>i. if i = 2 \<or> i = 4 then 1 else 0)\<rparr>"
  obtain C g where C: "rs_new no_tables (\<lambda>_. 0) ?f = Some C" "rs_ok 3 2 g C"
    by (rule rs_new_ok [of ?f]) simp_all
  have c: "content ?s = content ?f" by (rule content_cong) simp_all
  have "rs_parity_ok 3 2 g 8 (content ?f)" using rs_parity_fresh [of 3 5 g 2 4 13 3] by simp
  moreover have "rs_lost 2 (content ?f) ?s"
    by (simp add: rs_lost_def c list_all_iff content_fresh upto.simps)
  ultimately show ?thesis
    using rs_recover_ok [of ?s g C 2 "content ?f"] C by (auto simp: c content_fresh)
qed


section \<open>A lost coding disk\<close>

text \<open>
  C16: Lost coding disks are not decoded: for a coding disk the row lies behind the decoding matrix, and the
  result is the combination of the first \<open>k\<close> good disks with whatever coefficients the memory there holds.
\<close>

theorem rs_coding_disk_read:
  assumes "rs_ok (data_disk_num s) (disk_total_num s - data_disk_num s) g C" "array_ok m s"
    and "rs_parity_ok (data_disk_num s) (disk_total_num s - data_disk_num s) g (nat (m * disk_block_size s)) (content s)"
    and "0 < data_disk_num s" "data_disk_num s \<le> d" "d < disk_total_num s"
    and "d \<in> set F" "set F \<subseteq> set (disk_ids s)" "int (length F) \<le> disk_total_num s - data_disk_num s"
    and "list_all (\<lambda>i. 0 \<le> int_junk C (data_disk_num s * d + i) \<and> int_junk C (data_disk_num s * d + i) < 256)
      [0..data_disk_num s - 1]"
    and "0 < sz" "0 \<le> off" "off + sz \<le> m * disk_block_size s" "length buf = nat sz"
  defines "good \<equiv> filter (\<lambda>i. i \<notin> set F) (disk_ids s)"
  shows "rs_decode C d buf sz off (fail_disks F s) = Some (sz, int_bytes sz (map (\<lambda>j. xsum (\<lambda>i.
      gmul (word_of_int (int_junk C (data_disk_num s * d + i))) (content s (good ! nat i) ! (nat off + j)))
      [0..data_disk_num s - 1]) [0..<nat sz]), fail_disks F s)"
proof -
  let ?k = "data_disk_num s" and ?n = "disk_total_num s" and ?s = "fail_disks F s"
  have a: "list_all (\<lambda>i. disk_status s i = 0) (disk_ids s)"
    "distinct (map (dev_name s) (disk_ids s))" using assms(2) by (simp_all add: array_ok_def list_all_iff)
  note f = fail_disks_fields [OF assms(8) a(2)]
  have l: "rs_lost m (content s) ?s" by (rule rs_lost_fail_disks) (use assms in auto)
  obtain dec dm where r: "jerasure_make_decoding_matrix (rs_tables C) ?k (?n - ?k) g
      (rs_erased ?s) (int_junk C) (int_junk C) = Some (0, dec, dm)"
    "(\<forall>i. 0 \<le> i \<and> i < ?k \<longrightarrow> 0 \<le> dec (?k * d + i) \<and> dec (?k * d + i) < 256) \<longrightarrow>
     rs_decode C d buf sz off ?s = Some (sz, int_bytes sz (map (\<lambda>j. xsum (\<lambda>i.
       gmul (word_of_int (dec (?k * d + i))) (content s (dm ! nat i) ! (nat off + j))) [0..?k - 1]) [0..<nat sz]), ?s)"
    using rs_decode_row [of ?s g C m "content s" d sz off buf] l assms f by auto
  have "?k * ?k \<le> ?k * d" using assms(4,5) by (intro mult_left_mono) auto
  then have dec: "dec (?k * d + i) = int_junk C (?k * d + i)" if "0 \<le> i" for i
    using jerasure_decoding_behind(1) [OF r(1), of "?k * d + i"] that by simp
  have e: "rs_erased ?s i = 0 \<longleftrightarrow> i \<notin> set F" if "i \<in> set (disk_ids s)" for i
    using a(1) that by (auto simp: rs_erased_def f(4) list_all_iff)
  have "filter (\<lambda>i. rs_erased ?s i = 0) (disk_ids s) = good"
    unfolding good_def by (rule filter_cong [OF refl]) (rule e)
  then have "dm = take (nat ?k) good"
    using jerasure_decoding_behind(2) [OF r(1) order_refl] by simp
  then have dm: "dm ! nat i = good ! nat i" if "0 \<le> i" "i < ?k" for i using that by simp
  have "xsum (\<lambda>i. gmul (word_of_int (dec (?k * d + i))) (content s (dm ! nat i) ! a)) [0..?k - 1] =
      xsum (\<lambda>i. gmul (word_of_int (int_junk C (?k * d + i))) (content s (good ! nat i) ! a)) [0..?k - 1]" for a
    by (rule xsum_cong) (use dec dm in auto)
  then show ?thesis using r(2) dec assms(10) by (auto simp: list_all_iff)
qed

theorem rs_coding_disk_read_witness:
  "case rs_new no_tables (\<lambda>_. 0) (fresh_array 13 5 3 4 2) of None \<Rightarrow> False
   | Some C \<Rightarrow> map_option (\<lambda>r. fst (snd r))
       (rs_decode C 4 [1, 1, 1, 1] 4 4 (fail_disks [4] (fresh_array 13 5 3 4 2))) = Some [0, 0, 0, 0]"
proof -
  let ?s = "fresh_array 13 5 3 4 2"
  obtain C g where C: "rs_new no_tables (\<lambda>_. 0) ?s = Some C" "rs_ok 3 2 g C"
    by (rule rs_new_ok [of ?s]) simp_all
  have j: "int_junk C = (\<lambda>_. 0)" using C(1) by (auto simp: rs_new_def split: option.splits)
  have "rs_parity_ok 3 2 g 8 (content ?s)" using rs_parity_fresh [of 3 5 g 2 4 13 3] by simp
  then show ?thesis
    using rs_coding_disk_read [of ?s g C 2 4 "[4]" 4 4 "[1, 1, 1, 1]"] C j
    by (simp add: array_ok_fresh gmul_0 int_bytes_def list_all_iff upt_rec)
qed

end
