(* ===== verification/MbrLayout.thy ===== *)
theory MbrLayout
  imports Prelude
begin

text \<open>
  Where the blocks of the MBR code lie (\<open>coding_mbr.cc\<close>). With \<open>n\<close> disks a segment is \<open>n - 1\<close> rows; every
  two disks \<open>d < e\<close> share one block, which is in row \<open>e - 1\<close> of disk \<open>d\<close> and, as a duplicate, in row \<open>d\<close>
  of disk \<open>e\<close>. The blocks are numbered disk by disk. For the blocks of a segment no \<open>int\<close> overflows; the search
  for the disk of a block, which goes on behind the segment for other numbers, has the wrap-around written out.
\<close>

section \<open>The operations\<close>

definition mbr_find_block_id :: "int \<Rightarrow> int \<Rightarrow> int \<Rightarrow> int" where
  "mbr_find_block_id disk_id block_no mbr_segment_size =
     (let block_offset = block_no smod mbr_segment_size
      in if block_offset < disk_id then -1
         else let mbr_offset = block_offset - disk_id;
                  (mbr_block_id, counter) = foldl (\<lambda>(mbr_block_id, counter) i.
                    (mbr_block_id + counter, counter - 1)) (0, mbr_segment_size) [0..disk_id - 1]
              in mbr_block_id + mbr_offset)"

definition mbr_find_dup_block_id :: "int \<Rightarrow> int \<Rightarrow> int \<Rightarrow> int" where
  "mbr_find_dup_block_id disk_id block_no mbr_segment_size =
     (let block_offset = block_no smod mbr_segment_size
      in if disk_id \<le> block_offset then -1
         else let (mbr_block_id, counter, mbr_offset) = foldl (\<lambda>(mbr_block_id, counter, mbr_offset) i.
                    (mbr_block_id + counter, counter - 1, mbr_offset - 1))
                    (0, mbr_segment_size, disk_id - 1) [0..block_offset - 1]
              in mbr_block_id + mbr_offset)"

text \<open>The loop of \<open>mbr_get_disk_id\<close>: that it ends is a theorem below.\<close>

partial_function (option) mbr_group_loop :: "int \<Rightarrow> int \<Rightarrow> int \<Rightarrow> int option" where
  "mbr_group_loop mbr_block_group counter temp =
     (if 0 < temp then
        (let counter = i32 (counter - 1); temp = i32 (temp - counter)
         in mbr_group_loop (i32 (mbr_block_group + 1)) counter temp)
      else Some mbr_block_group)"

definition mbr_get_disk_id :: "int \<Rightarrow> int \<Rightarrow> int option" where
  "mbr_get_disk_id mbr_block_id mbr_segment_size =
     mbr_group_loop 0 mbr_segment_size (i32 (i32 (mbr_block_id + 1) - mbr_segment_size))"

definition mbr_get_block_no :: "int \<Rightarrow> int \<Rightarrow> int \<Rightarrow> int" where
  "mbr_get_block_no disk_id mbr_block_id mbr_segment_size =
     foldl (\<lambda>mbr_offset j. mbr_offset - (mbr_segment_size - j)) mbr_block_id [0..disk_id - 1] + disk_id"

definition mbr_get_dup_disk_id :: "int \<Rightarrow> int \<Rightarrow> int option" where
  "mbr_get_dup_disk_id mbr_block_id mbr_segment_size =
     map_option (\<lambda>disk_id. foldl (\<lambda>mbr_offset j. mbr_offset - (mbr_segment_size - j)) mbr_block_id [0..disk_id - 1]
       + 1 + disk_id) (mbr_get_disk_id mbr_block_id mbr_segment_size)"

definition mbr_get_dup_block_no :: "int \<Rightarrow> int \<Rightarrow> int \<Rightarrow> int" where
  "mbr_get_dup_block_no disk_id mbr_block_id mbr_segment_size = disk_id"

section \<open>The loops\<close>

text \<open>The first block of disk \<open>d\<close>, with segments of \<open>g\<close> rows.\<close>

definition mbr_start :: "int \<Rightarrow> int \<Rightarrow> int" where
  "mbr_start g d = d * (2 * g - d + 1) div 2"

lemma mbr_start_0 [simp]: "mbr_start g 0 = 0"
  by (simp add: mbr_start_def)

lemma mbr_start_step: "mbr_start g (d + 1) = mbr_start g d + (g - d)"
proof -
  have "(d + 1) * (2 * g - (d + 1) + 1) = d * (2 * g - d + 1) + (g - d) * 2" by (simp add: algebra_simps)
  then show ?thesis by (simp add: mbr_start_def)
qed

lemma mbr_start_mono:
  assumes "d \<le> d'" "d' \<le> g"
  shows "mbr_start g d \<le> mbr_start g d'"
  using assms
proof (induction d' rule: int_ge_induct)
  case (step i)
  then show ?case using mbr_start_step [of g i] by simp
qed simp

lemma upto_last: "0 \<le> d \<Longrightarrow> [0..d] = [0..d - 1] @ [d::int]"
  by (simp add: upto_rec2)

lemma find_fold:
  assumes "0 \<le> d"
  shows "foldl (\<lambda>(b, c) i. (b + c, c - 1)) (0, g) [0..d - 1] = (mbr_start g d, g - d)"
  using assms
proof (induction d rule: int_ge_induct)
  case (step i)
  then show ?case by (simp add: upto_last mbr_start_step)
qed simp

lemma find_dup_fold:
  assumes "0 \<le> d"
  shows "foldl (\<lambda>(b, c, r) i. (b + c, c - 1, r - 1)) (0, g, e) [0..d - 1] = (mbr_start g d, g - d, e - d :: int)"
  using assms
proof (induction d rule: int_ge_induct)
  case (step i)
  then show ?case by (simp add: upto_last mbr_start_step)
qed simp

lemma offset_fold:
  assumes "0 \<le> d"
  shows "foldl (\<lambda>r j. r - (g - j)) b [0..d - 1] = b - mbr_start g d"
  using assms
proof (induction d rule: int_ge_induct)
  case (step i)
  then show ?case by (simp add: upto_last mbr_start_step)
qed simp

text \<open>
  Round \<open>i\<close> of the loop for block \<open>b\<close>: the counter is \<open>g - i\<close>, and what is left is \<open>b + 1\<close> less the blocks of
  the disks up to \<open>i\<close>. This also holds behind the last disk, where the counter is negative and what is left
  grows again, until it overflows.
\<close>

lemma pred_prod: "0 \<le> (c::int) * (c - 1)"
  by (cases "1 \<le> c") (auto intro: mult_nonneg_nonneg mult_nonpos_nonpos)

lemma mbr_start_low:
  assumes "g \<le> i"
  shows "(i - g) * (i - g - 1) \<le> 2 * (mbr_start g g - mbr_start g i)"
  using assms
proof (induction i rule: int_ge_induct)
  case (step i)
  have "(i + 1 - g) * (i + 1 - g - 1) = (i - g) * (i - g - 1) + 2 * (i - g)" by (simp add: algebra_simps)
  then show ?case using step mbr_start_step [of g i] by simp
qed simp

lemma group_loop_step:
  assumes "0 < b + 1 - mbr_start g (i + 1)" "0 \<le> i" "i < 2147483647" "-2147483648 \<le> g - (i + 1)" "g - (i + 1) < 2147483648"
    and "-2147483648 \<le> b + 1 - mbr_start g (i + 2)" "b + 1 - mbr_start g (i + 2) < 2147483648"
  shows "mbr_group_loop i (g - i) (b + 1 - mbr_start g (i + 1)) =
    mbr_group_loop (i + 1) (g - (i + 1)) (b + 1 - mbr_start g (i + 1 + 1))"
proof -
  have e: "g - i - 1 = g - (i + 1)" "b + 1 - mbr_start g (i + 1) - (g - (i + 1)) = b + 1 - mbr_start g (i + 1 + 1)"
    "i + 2 = i + 1 + 1"
    using mbr_start_step [of g "i + 1"] by linarith+
  have "i32 (i + 1) = i + 1" "i32 (g - (i + 1)) = g - (i + 1)"
    "i32 (b + 1 - mbr_start g (i + 1 + 1)) = b + 1 - mbr_start g (i + 1 + 1)"
    by (rule i32_id; use assms e(3) in simp)+
  then show ?thesis using assms(1) by (subst mbr_group_loop.simps) (simp only: if_True Let_def e(1,2))
qed

lemma group_loop_ends:
  assumes "0 \<le> i" "i \<le> d" "d < g" "mbr_start g d \<le> b" "b < mbr_start g (d + 1)" "g < 2147483648" "b < 2147483647"
  shows "mbr_group_loop i (g - i) (b + 1 - mbr_start g (i + 1)) = Some d"
  using assms(1,2)
proof (induction "nat (d - i)" arbitrary: i)
  case 0
  then have "i = d" by simp
  then show ?case using assms by (simp add: mbr_group_loop.simps)
next
  case (Suc k)
  then have i: "i + 1 \<le> d" by simp
  have s: "mbr_start g (i + 1) \<le> mbr_start g d" "mbr_start g 0 \<le> mbr_start g (i + 1)"
    "mbr_start g (i + 1) \<le> mbr_start g (i + 2)"
    by (rule mbr_start_mono; use i Suc.prems assms(3) in simp)+
  have s2: "mbr_start g (i + 2) = mbr_start g (i + 1) + (g - (i + 1))" using mbr_start_step [of g "i + 1"] by (simp add: add.commute)
  have "mbr_group_loop i (g - i) (b + 1 - mbr_start g (i + 1)) =
      mbr_group_loop (i + 1) (g - (i + 1)) (b + 1 - mbr_start g (i + 1 + 1))"
    by (rule group_loop_step) (use s s2 i Suc.prems assms in auto)
  also have "\<dots> = Some d" by (rule Suc.hyps) (use i Suc in auto)
  finally show ?case .
qed

text \<open>Behind the last disk the loop goes on until the number left is too large for an \<open>int\<close>.\<close>

lemma group_loop_wraps:
  assumes g: "1 \<le> g" "mbr_start g g \<le> b" "b < 2147483647"
    and i: "g - 1 \<le> i" "b + 1 - mbr_start g (i + 1) < 2147483648"
  shows "\<exists>d. mbr_group_loop i (g - i) (b + 1 - mbr_start g (i + 1)) = Some d \<and> g \<le> d"
  using i
proof (induction "nat (2147483648 - (b + 1 - mbr_start g (i + 1)) + (if i = g - 1 then 1 else 0))" arbitrary: i rule: less_induct)
  case less
  define c where "c = i + 1 - g"
  define t where "t = b + 1 - mbr_start g (i + 1)"
  have c: "0 \<le> c" "i = g + c - 1" using less.prems by (simp_all add: c_def)
  have low: "c * (c - 1) \<le> 2 * (mbr_start g g - mbr_start g (i + 1))"
    using mbr_start_low [of g "i + 1"] c(1) by (simp add: c_def)
  note cc = pred_prod [of c]
  have t: "0 < t" "t < 2147483648" using order_trans [OF cc low] g less.prems by (simp_all add: t_def)
  have "mbr_start g g - mbr_start g (i + 1) < 2147483648" using less.prems(2) g(2) by linarith
  then have "2 * (mbr_start g g - mbr_start g (i + 1)) < 4294967296" by simp
  then have "c * (c - 1) < 4294967296" using low by (rule le_less_trans [rotated])
  moreover have "65537 * 65536 \<le> c * (c - 1)" if "65537 \<le> c" using that by (intro mult_mono) auto
  ultimately have small: "c < 65537" by fastforce
  have gs: "g < 65536"
  proof (rule ccontr)
    assume "\<not> g < 65536"
    then have "65536 * 65537 \<le> g * (g + 1)" by (intro mult_mono) auto
    then have "65536 * 65537 div 2 \<le> g * (g + 1) div 2" by (rule zdiv_mono1) simp
    then show False using g(2,3) by (simp add: mbr_start_def)
  qed
  have n: "b + 1 - mbr_start g (i + 1 + 1) = t + c"
    using mbr_start_step [of g "i + 1"] c(2) by (simp add: t_def)
  have ib: "0 \<le> i" "i < 2147483647" "- 2147483648 \<le> g - (i + 1)" "g - (i + 1) < 2147483648"
    using c g(1) gs small by linarith+
  show ?case
  proof (cases "t + c < 2147483648")
    case True
    have "b + 1 - mbr_start g (i + 2) = t + c" using n by (simp add: add.commute)
    then have s: "mbr_group_loop i (g - i) (b + 1 - mbr_start g (i + 1)) =
        mbr_group_loop (i + 1) (g - (i + 1)) (b + 1 - mbr_start g (i + 1 + 1))"
      by (intro group_loop_step) (use ib t c True in \<open>simp_all add: t_def\<close>)
    show ?thesis unfolding s
    proof (rule less.hyps)
      show "nat (2147483648 - (b + 1 - mbr_start g (i + 1 + 1)) + (if i + 1 = g - 1 then 1 else 0)) <
          nat (2147483648 - (b + 1 - mbr_start g (i + 1)) + (if i = g - 1 then 1 else 0))"
        unfolding n t_def [symmetric] using t c True by auto
    qed (use less.prems n True in auto)
  next
    case False
    have "i32 (t + c) = t + c - 4294967296"
    proof -
      have "(t + c + 2147483648) mod 4294967296 = (t + c + 2147483648 - 4294967296) mod 4294967296"
        by (rule minus_mod_self2 [symmetric])
      also have "\<dots> = t + c + 2147483648 - 4294967296"
        by (rule mod_pos_pos_trivial) (use False t small in linarith)+
      finally show ?thesis by (simp add: i32_def)
    qed
    moreover have "g - i - 1 = - c" "t - (- c) = t + c" using c by simp_all
    moreover have "i32 (- c) = - c" "i32 (i + 1) = i + 1" by (rule i32_id; use c small ib in linarith)+
    ultimately have "mbr_group_loop i (g - i) t = mbr_group_loop (i + 1) (- c) (t + c - 4294967296)"
      using t by (subst mbr_group_loop.simps) (simp only: if_True Let_def)
    also have "\<dots> = Some (i + 1)" using t small by (subst mbr_group_loop.simps) simp
    finally show ?thesis using less.prems(1) by (simp add: t_def)
  qed
qed

section \<open>The layout\<close>

text \<open>The two disks of a block: the first is the last one whose blocks do not begin behind it.\<close>

definition mbr_d :: "int \<Rightarrow> int \<Rightarrow> int" where
  "mbr_d g b = int (length (filter (\<lambda>d. mbr_start g d \<le> b) [1..g - 1]))"

definition mbr_e :: "int \<Rightarrow> int \<Rightarrow> int" where
  "mbr_e g b = b - mbr_start g (mbr_d g b) + 1 + mbr_d g b"

lemma mbr_d_eq:
  assumes "0 \<le> d" "d < g" "mbr_start g d \<le> b" "b < mbr_start g (d + 1)"
  shows "mbr_d g b = d"
proof -
  have s: "[1..g - 1] = [1..d] @ [d + 1..g - 1]"
  proof (cases "d = 0")
    case False
    then show ?thesis using assms(1,2) by (intro upto_split2) auto
  qed simp
  have "filter (\<lambda>d. mbr_start g d \<le> b) [1..d] = [1..d]"
    by (rule filter_True) (use assms mbr_start_mono [of _ d g] in force)
  moreover have "filter (\<lambda>d. mbr_start g d \<le> b) [d + 1..g - 1] = []"
    by (rule filter_False) (use assms mbr_start_mono [of "d + 1" _ g] in force)
  ultimately show ?thesis using assms(1) by (simp add: mbr_d_def s)
qed

lemma get_disk_id:
  assumes "0 \<le> d" "d < g" "mbr_start g d \<le> b" "b < mbr_start g (d + 1)" "g < 2147483648" "b < 2147483647"
  shows "mbr_get_disk_id b g = Some d"
proof -
  have b: "0 \<le> b" using mbr_start_mono [of 0 d g] assms by simp
  have "i32 (b + 1) = b + 1" "i32 (b + 1 - g) = b + 1 - g" by (rule i32_id; use b assms in linarith)+
  then show ?thesis using group_loop_ends [of 0 d g b] assms mbr_start_step [of g 0] by (simp add: mbr_get_disk_id_def)
qed

lemma start_exists:
  assumes "0 \<le> k" "k \<le> g" "0 \<le> b" "b < mbr_start g k"
  shows "\<exists>d. 0 \<le> d \<and> d < k \<and> mbr_start g d \<le> b \<and> b < mbr_start g (d + 1)"
  using assms
proof (induction k rule: int_ge_induct)
  case (step i)
  show ?case
  proof (cases "b < mbr_start g i")
    case True
    then show ?thesis using step by force
  next
    case False
    then show ?thesis using step by (intro exI [of _ i]) auto
  qed
qed simp

text \<open>For less than 65536 rows the block numbers are below \<open>2 ^ 31\<close>.\<close>

lemma segment_small:
  assumes "g \<le> 65535" "0 \<le> g"
  shows "mbr_start g g \<le> 2147450880"
proof -
  have "g * (g + 1) \<le> 65535 * 65536" using assms by (intro mult_mono) auto
  then have "g * (g + 1) div 2 \<le> 65535 * 65536 div 2" by (rule zdiv_mono1) simp
  then show ?thesis by (simp add: mbr_start_def)
qed

lemma mbr_edge:
  assumes "0 \<le> b" "b < mbr_start g g" "0 \<le> g"
  shows "g \<le> 65535 \<Longrightarrow> mbr_get_disk_id b g = Some (mbr_d g b)"
    "g \<le> 65535 \<Longrightarrow> mbr_get_dup_disk_id b g = Some (mbr_e g b)"
    "0 \<le> mbr_d g b" "mbr_d g b < mbr_e g b" "mbr_e g b \<le> g"
    "b = mbr_start g (mbr_d g b) + (mbr_e g b - 1 - mbr_d g b)"
    "mbr_get_block_no (mbr_d g b) b g = mbr_e g b - 1"
proof -
  obtain d where d: "0 \<le> d" "d < g" "mbr_start g d \<le> b" "b < mbr_start g (d + 1)"
    using start_exists [OF assms(3) order_refl assms(1,2)] by blast
  have md: "mbr_d g b = d" by (rule mbr_d_eq [OF d])
  have me: "mbr_e g b = b - mbr_start g d + 1 + d" by (simp add: mbr_e_def md)
  have i: "mbr_get_disk_id b g = Some d" if "g \<le> 65535"
    by (rule get_disk_id [OF d]) (use that segment_small [OF that assms(3)] assms in linarith)+
  show "g \<le> 65535 \<Longrightarrow> mbr_get_disk_id b g = Some (mbr_d g b)" using i md by simp
  show "g \<le> 65535 \<Longrightarrow> mbr_get_dup_disk_id b g = Some (mbr_e g b)"
    using i offset_fold [OF d(1)] me by (simp add: mbr_get_dup_disk_id_def)
  show "0 \<le> mbr_d g b" "mbr_d g b < mbr_e g b" "mbr_e g b \<le> g"
    "b = mbr_start g (mbr_d g b) + (mbr_e g b - 1 - mbr_d g b)"
    using d mbr_start_step [of g d] unfolding md me by simp_all
  show "mbr_get_block_no (mbr_d g b) b g = mbr_e g b - 1"
    using offset_fold [OF d(1)] unfolding md me by (simp add: mbr_get_block_no_def)
qed

text \<open>The block of two disks.\<close>

lemma mbr_of_edge:
  assumes "0 \<le> d" "d < e" "e \<le> g"
  defines "b \<equiv> mbr_start g d + (e - 1 - d)"
  shows "0 \<le> b" "b < mbr_start g g" "mbr_d g b = d" "mbr_e g b = e"
proof -
  have b: "mbr_start g d \<le> b" "b < mbr_start g (d + 1)" using assms mbr_start_step [of g d] by auto
  show "0 \<le> b" using mbr_start_mono [of 0 d g] assms b by auto
  have "mbr_start g (d + 1) \<le> mbr_start g g" by (rule mbr_start_mono) (use assms in auto)
  then show bg: "b < mbr_start g g" using b by simp
  show d: "mbr_d g b = d" by (rule mbr_d_eq) (use assms b in auto)
  show "mbr_e g b = e" using mbr_edge(6) [OF \<open>0 \<le> b\<close> bg] assms d by simp
qed

lemma find_block:
  assumes "0 \<le> d" "0 \<le> r" "r < g" "0 \<le> t"
  shows "mbr_find_block_id d (t * g + r) g = (if r < d then -1 else mbr_start g d + (r - d))"
    "mbr_find_dup_block_id d (t * g + r) g = (if d \<le> r then -1 else mbr_start g r + (d - 1 - r))"
proof -
  have "(t * g + r) smod g = (t * g + r) mod g" using assms by simp
  then have m: "(t * g + r) smod g = r" using assms by simp
  show "mbr_find_block_id d (t * g + r) g = (if r < d then -1 else mbr_start g d + (r - d))"
    using find_fold [OF assms(1)] by (simp add: mbr_find_block_id_def Let_def m)
  show "mbr_find_dup_block_id d (t * g + r) g = (if d \<le> r then -1 else mbr_start g r + (d - 1 - r))"
    using find_dup_fold [OF assms(2)] by (simp add: mbr_find_dup_block_id_def Let_def m)
qed

lemma find_at_edge:
  assumes "0 \<le> b" "b < mbr_start g g" "0 \<le> g" "0 \<le> t"
  shows "mbr_find_block_id (mbr_d g b) (t * g + (mbr_e g b - 1)) g = b"
    "mbr_find_block_id (mbr_e g b) (t * g + mbr_d g b) g = -1"
    "mbr_find_dup_block_id (mbr_e g b) (t * g + mbr_d g b) g = b"
  using find_block [of "mbr_d g b" "mbr_e g b - 1" g t] find_block [of "mbr_e g b" "mbr_d g b" g t]
    mbr_edge(3-6) [OF assms(1-3)] assms(4) by simp_all

lemma group_loop_behind:
  assumes "0 \<le> i" "i \<le> g - 1" "1 \<le> g" "mbr_start g g \<le> b" "b < 2147483647"
  shows "\<exists>d. mbr_group_loop i (g - i) (b + 1 - mbr_start g (i + 1)) = Some d \<and> g \<le> d"
  using assms(1,2)
proof (induction "nat (g - 1 - i)" arbitrary: i)
  case 0
  then have i: "g - 1 \<le> i" "i + 1 = g" by simp_all
  have "0 \<le> mbr_start g g" using mbr_start_mono [of 0 g g] assms by simp
  then show ?case by (intro group_loop_wraps [OF assms(3-5) i(1)]) (use assms i(2) in simp)
next
  case (Suc k)
  then have i: "i + 2 \<le> g" by simp
  have s: "mbr_start g 0 \<le> mbr_start g (i + 1)" "mbr_start g (i + 1) \<le> mbr_start g g" "mbr_start g 0 \<le> mbr_start g (i + 2)"
    "mbr_start g (i + 2) \<le> mbr_start g g"
    by (rule mbr_start_mono; use i Suc.prems in simp)+
  have gs: "mbr_start g 1 \<le> mbr_start g g" "mbr_start g 1 = g"
    using mbr_start_mono [of 1 g g] mbr_start_step [of g 0] assms(3) by simp_all
  have "mbr_group_loop i (g - i) (b + 1 - mbr_start g (i + 1)) =
      mbr_group_loop (i + 1) (g - (i + 1)) (b + 1 - mbr_start g (i + 1 + 1))"
    by (rule group_loop_step) (use s gs i Suc.prems assms in auto)
  moreover have "\<exists>d. mbr_group_loop (i + 1) (g - (i + 1)) (b + 1 - mbr_start g (i + 1 + 1)) = Some d \<and> g \<le> d"
    by (rule Suc.hyps) (use i Suc in auto)
  ultimately show ?case by simp
qed

lemma segment_blocks: "mbr_start g g = g * (g + 1) div 2"
  by (simp add: mbr_start_def)



text \<open>
  C11: The numbering of blocks and the two places of a block are inverse to each other: with up to 65536 disks every
  block of a segment has two different disks, it is found again by its number at either place, and every
  place of every segment is one of the two of a block.
\<close>

theorem mbr_places:
  assumes "2 \<le> n" "n \<le> 65536" "0 \<le> t"
  shows "(0 \<le> b \<and> b < n * (n - 1) div 2 \<longrightarrow>
      (\<exists>d e. mbr_get_disk_id b (n - 1) = Some d \<and> mbr_get_dup_disk_id b (n - 1) = Some e \<and>
        0 \<le> d \<and> d < e \<and> e < n \<and>
        mbr_find_block_id d (t * (n - 1) + mbr_get_block_no d b (n - 1)) (n - 1) = b \<and>
        mbr_find_block_id e (t * (n - 1) + mbr_get_dup_block_no d b (n - 1)) (n - 1) = -1 \<and>
        mbr_find_dup_block_id e (t * (n - 1) + mbr_get_dup_block_no d b (n - 1)) (n - 1) = b)) \<and>
    (0 \<le> p \<and> p < n \<and> 0 \<le> r \<and> r < n - 1 \<longrightarrow>
      (\<exists>b. 0 \<le> b \<and> b < n * (n - 1) div 2 \<and>
        (if mbr_find_block_id p (t * (n - 1) + r) (n - 1) = -1
         then mbr_find_dup_block_id p (t * (n - 1) + r) (n - 1) = b \<and>
           mbr_get_dup_disk_id b (n - 1) = Some p \<and> mbr_get_disk_id b (n - 1) = Some r
         else mbr_find_block_id p (t * (n - 1) + r) (n - 1) = b \<and>
           mbr_get_disk_id b (n - 1) = Some p \<and> mbr_get_block_no p b (n - 1) = r)))"
proof (intro conjI impI)
  let ?g = "n - 1"
  have N: "mbr_start ?g ?g = n * (n - 1) div 2" unfolding segment_blocks by (simp add: mult.commute)
  have g: "0 \<le> ?g" using assms by simp
  {
    assume b: "0 \<le> b \<and> b < n * (n - 1) div 2"
    then have b': "0 \<le> b" "b < mbr_start ?g ?g" using N by simp_all
    show "\<exists>d e. mbr_get_disk_id b ?g = Some d \<and> mbr_get_dup_disk_id b ?g = Some e \<and>
        0 \<le> d \<and> d < e \<and> e < n \<and>
        mbr_find_block_id d (t * ?g + mbr_get_block_no d b ?g) ?g = b \<and>
        mbr_find_block_id e (t * ?g + mbr_get_dup_block_no d b ?g) ?g = -1 \<and>
        mbr_find_dup_block_id e (t * ?g + mbr_get_dup_block_no d b ?g) ?g = b"
      using mbr_edge(1-5,7) [OF b' g] find_at_edge [OF b' g assms(3)] assms(2)
      by (intro exI [of _ "mbr_d ?g b"] exI [of _ "mbr_e ?g b"]) (simp add: mbr_get_dup_block_no_def)
  next
    assume p: "0 \<le> p \<and> p < n \<and> 0 \<le> r \<and> r < n - 1"
    show "\<exists>b. 0 \<le> b \<and> b < n * (n - 1) div 2 \<and> (if mbr_find_block_id p (t * ?g + r) ?g = -1
         then mbr_find_dup_block_id p (t * ?g + r) ?g = b \<and>
           mbr_get_dup_disk_id b ?g = Some p \<and> mbr_get_disk_id b ?g = Some r
         else mbr_find_block_id p (t * ?g + r) ?g = b \<and>
           mbr_get_disk_id b ?g = Some p \<and> mbr_get_block_no p b ?g = r)"
    proof (cases "r < p")
      case True
      let ?b = "mbr_start ?g r + (p - 1 - r)"
      have e: "0 \<le> ?b" "?b < mbr_start ?g ?g" "mbr_d ?g ?b = r" "mbr_e ?g ?b = p"
        using mbr_of_edge [of r p ?g] p True by auto
      then show ?thesis using mbr_edge(1,2) [OF e(1,2) g] find_block [of p r ?g t] p True assms N
        by (intro exI [of _ ?b]) auto
    next
      case False
      let ?b = "mbr_start ?g p + (r - p)"
      have e: "0 \<le> ?b" "?b < mbr_start ?g ?g" "mbr_d ?g ?b = p" "mbr_e ?g ?b = r + 1"
        using mbr_of_edge [of p "r + 1" ?g] p False by auto
      then show ?thesis using mbr_edge(1,7) [OF e(1,2) g] find_block [of p r ?g t] p False assms N
        by (intro exI [of _ ?b]) auto
    qed
  }
qed

theorem mbr_places_witness:
  "mbr_find_block_id 1 (3 * 3 + 2) 3 = 4 \<and> (\<exists>e. mbr_get_dup_disk_id 4 3 = Some e \<and>
     mbr_find_dup_block_id e (3 * 3 + 1) 3 = 4)"
proof -
  have d: "mbr_get_disk_id 4 3 = Some 1" by (rule get_disk_id) (simp_all add: mbr_start_def)
  show ?thesis using mbr_places [of 4 3 4 1 2] d
    by (auto simp: mbr_get_dup_block_no_def mbr_get_block_no_def upto.simps)
qed

end
