(* ===== verification/DiskBlocks.thy ===== *)
theory DiskBlocks
  imports XorParity
begin

text \<open>Blocks of a disk by their number: reading one, changing one, and numbers made of a group and a row.\<close>

definition disk_blk :: "int \<Rightarrow> (int \<Rightarrow> byte list) \<Rightarrow> int \<Rightarrow> int \<Rightarrow> byte list" where
  "disk_blk bs v p b = take (nat bs) (drop (nat (b * bs)) (v p))"

text \<open>Rows of \<open>S\<close> groups of \<open>g\<close>.\<close>

lemma group_rows:
  assumes "0 \<le> t" "t < S" "0 \<le> r" "r < g"
  shows "0 \<le> t * g + r" "t * g + r < S * (g::int)"
proof -
  have "(t + 1) * g \<le> S * g" using assms by (intro mult_right_mono) auto
  then show "t * g + r < S * g" using assms by (simp add: distrib_right)
  show "0 \<le> t * g + r" using assms by simp
qed

lemma div_lt:
  assumes "0 < b" "a < c * b"
  shows "a div b < (c::int)"
proof (rule ccontr)
  assume "\<not> a div b < c"
  then have "c * b \<le> a div b * b" using assms(1) by (intro mult_right_mono) auto
  also have "\<dots> \<le> a" using assms(1) by (simp add: minus_mod_eq_div_mult [symmetric])
  finally show False using assms(2) by simp
qed

lemma group_row_eq:
  assumes "t * g + q = t' * g + q'" "0 \<le> q" "q < g" "0 \<le> q'" "q' < (g::int)"
  shows "t = t' \<and> q = q'"
proof -
  have "(t * g + q) div g = t" "(t' * g + q') div g = t'" using assms(2-5) by simp_all
  then show ?thesis using assms(1) by simp
qed

lemma blk_overwrite:
  assumes "0 < bs" "0 \<le> r" "0 \<le> r'" "r * bs + bs \<le> int (length u)" "r' * bs + bs \<le> int (length u)" "length x \<le> nat bs"
  shows "take (nat bs) (drop (nat (r' * bs)) (overwrite u (nat (r * bs)) x)) =
    (if r' = r then overwrite (take (nat bs) (drop (nat (r * bs)) u)) 0 x
     else take (nat bs) (drop (nat (r' * bs)) u))"
proof (cases "r' = r")
  case True
  have a: "nat (r * bs) + nat bs \<le> length u" "length x \<le> nat bs"
    using assms mult_nonneg_nonneg [of r bs] by linarith+
  have "take (nat bs) (drop (nat (r * bs)) (overwrite u (nat (r * bs)) x)) =
      overwrite (take (nat bs) (drop (nat (r * bs)) u)) 0 x"
    by (rule nth_equalityI) (use a in \<open>auto simp: nth_overwrite\<close>)
  then show ?thesis using True by simp
next
  case False
  have a: "nat (r * bs) + nat bs \<le> length u" "nat (r' * bs) + nat bs \<le> length u" "length x \<le> nat bs"
    using assms mult_nonneg_nonneg [of r bs] mult_nonneg_nonneg [of r' bs] by linarith+
  have "(r' + 1) * bs \<le> r * bs \<or> (r + 1) * bs \<le> r' * bs"
    using False assms(1) by (cases "r' < r") (auto intro!: mult_right_mono simp del: distrib_right)
  then have "r' * bs + bs \<le> r * bs \<or> r * bs + bs \<le> r' * bs" by (simp only: distrib_right mult_1)
  then have o: "nat (r' * bs) + nat bs \<le> nat (r * bs) \<or> nat (r * bs) + nat bs \<le> nat (r' * bs)"
    using assms(1-3) mult_nonneg_nonneg [of r bs] mult_nonneg_nonneg [of r' bs] by linarith
  have "take (nat bs) (drop (nat (r' * bs)) (overwrite u (nat (r * bs)) x)) = take (nat bs) (drop (nat (r' * bs)) u)"
    by (rule nth_equalityI) (use a o in \<open>auto simp: nth_overwrite\<close>)
  then show ?thesis using False by simp
qed

lemma zeros_blk:
  assumes "v p = zeros (nat (S * g * bs))" "0 < bs" "0 \<le> r" "r < S * g"
  shows "disk_blk bs v p r = zeros (nat bs)"
proof -
  have "(r + 1) * bs \<le> S * g * bs" using assms by (intro mult_right_mono) auto
  then have "r * bs + bs \<le> S * g * bs" by (simp add: distrib_right)
  moreover have "0 \<le> r * bs" using assms by simp
  ultimately show ?thesis using assms(1,2) by (simp add: disk_blk_def zeros_def)
qed

text \<open>Transfers of the first \<open>sz\<close> bytes of a block.\<close>

lemma blk_rd:
  assumes "0 < sz" "sz \<le> disk_block_size s" "0 \<le> r"
    and "r * disk_block_size s + disk_block_size s \<le> int (length (content s p))" "length buf = nat sz"
  shows "nc_readDisk p buf sz (r * disk_block_size s) s = (sz, take (nat sz) (disk_blk (disk_block_size s) (content s) p r), s)"
proof -
  have "0 \<le> r * disk_block_size s" using assms(1-3) by simp
  then have "nc_readDisk p buf sz (r * disk_block_size s) s =
      (sz, take (nat sz) (drop (nat (r * disk_block_size s)) (content s p)), s)"
    by (intro nc.rd_buf) (use assms in auto)
  then show ?thesis using assms(2) by (simp add: disk_blk_def min_def)
qed

lemma length_disk_blk:
  assumes "0 < bs" "0 \<le> r" "r * bs + bs \<le> int (length (v p))"
  shows "length (disk_blk bs v p r) = nat bs"
proof -
  have "0 \<le> r * bs" using assms by simp
  then have "nat (r * bs) + nat bs \<le> length (v p)" using assms by linarith
  then show ?thesis by (simp add: disk_blk_def)
qed

lemma blk_wr:
  assumes sz: "0 < sz" "sz \<le> disk_block_size s" "0 \<le> r" "nat sz \<le> length buf"
    and len: "r * disk_block_size s + disk_block_size s \<le> int (length (content s p))"
  defines "w \<equiv> snd (nc_writeDisk p buf sz (r * disk_block_size s) s)"
  shows "frame w = frame s" "\<And>i. length (content w i) = length (content s i)"
    "\<And>p' r'. 0 \<le> r' \<Longrightarrow> r' * disk_block_size s + disk_block_size s \<le> int (length (content s p')) \<Longrightarrow>
      disk_blk (disk_block_size s) (content w) p' r' = (if p' = p \<and> r' = r
        then overwrite (disk_blk (disk_block_size s) (content s) p r) 0 (take (nat sz) buf)
        else disk_blk (disk_block_size s) (content s) p' r')"
proof -
  let ?bs = "disk_block_size s"
  have a: "0 < sz" "0 \<le> r * ?bs" "r * ?bs + sz \<le> int (length (content s p))" "nat sz \<le> length buf"
    using assms by auto
  show "frame w = frame s" unfolding w_def by (rule nc.wr_rest [OF a])
  show "length (content w i) = length (content s i)" for i unfolding w_def by (rule nc.wr_len [OF a])
  have c: "content w = (content s)(p := overwrite (content s p) (nat (r * ?bs)) (take (nat sz) buf))"
    unfolding w_def by (rule nc.wr_cnt [OF a])
  fix p' r' assume r': "0 \<le> r'" "r' * ?bs + ?bs \<le> int (length (content s p'))"
  show "disk_blk ?bs (content w) p' r' = (if p' = p \<and> r' = r
        then overwrite (disk_blk ?bs (content s) p r) 0 (take (nat sz) buf) else disk_blk ?bs (content s) p' r')"
  proof (cases "p' = p")
    case True
    have "length (take (nat sz) buf) \<le> nat ?bs" "0 < ?bs" using sz by auto
    then show ?thesis using blk_overwrite [OF _ sz(3) r'(1) len, of "take (nat sz) buf"] r' True
      by (simp add: disk_blk_def c)
  next
    case False
    then show ?thesis by (simp add: disk_blk_def c)
  qed
qed

lemma nth_disk_blk:
  assumes "0 < bs" "0 \<le> r" "r * bs + bs \<le> int (length (v p))" "a < nat bs"
  shows "disk_blk bs v p r ! a = v p ! (nat (r * bs) + a)"
proof -
  have "0 \<le> r * bs" using assms(1,2) by simp
  then have "nat (r * bs) \<le> length (v p)" using assms by linarith
  then show ?thesis using assms(4) by (simp add: disk_blk_def)
qed

lemma disk_blk_ext:
  assumes "0 < bs" "int (length (v d)) = M * bs" "int (length (w d)) = M * bs"
    and "\<And>r. 0 \<le> r \<Longrightarrow> r < M \<Longrightarrow> disk_blk bs v d r = disk_blk bs w d r"
  shows "v d = w d"
proof (rule nth_equalityI)
  fix a assume a: "a < length (v d)"
  define r where "r = int a div bs"
  define j where "j = nat (int a mod bs)"
  have am: "int a < M * bs" using a assms(2) by linarith
  have r: "0 \<le> r" "r < M" using assms(1) am by (simp_all add: r_def pos_imp_zdiv_nonneg_iff div_lt)
  have j: "j < nat bs" "int j = int a mod bs" using assms(1) by (simp_all add: j_def)
  have e: "r * bs + int j = int a" unfolding j(2) r_def by simp
  have rb: "0 \<le> r * bs" using r assms(1) by simp
  then have n: "nat (r * bs) + j = a" using e by linarith
  have "(r + 1) * bs \<le> M * bs" using r assms(1) by (intro mult_right_mono) auto
  then have fit: "r * bs + bs \<le> M * bs" by (simp add: distrib_right)
  show "v d ! a = w d ! a"
    using nth_disk_blk [where v = v and p = d, OF assms(1) r(1) _ j(1)]
      nth_disk_blk [where v = w and p = d, OF assms(1) r(1) _ j(1)] fit assms(2-4) r n by simp
qed (use assms(2,3) in linarith)

lemma row_small:
  assumes "0 < bs" "0 \<le> r" "r * bs + bs < (M :: int)"
  shows "r < M"
proof -
  have "r * 1 \<le> r * bs" using assms by (intro mult_left_mono) auto
  then show ?thesis using assms by linarith
qed

end
