(* ===== verification/CodingMbr.thy ===== *)
theory CodingMbr
  imports CodingRs MbrLayout DiskBlocks
begin

text \<open>
  The MBR regenerating code (\<open>coding_mbr.cc\<close>): the blocks of a segment are a Reed-Solomon code word,
  \<open>mbr_m\<close> blocks of data and \<open>mbr_c\<close> coded blocks, and each of them lies on two disks. The parameters are
  fields of the state in the code, written by the constructor only; here they are part of the object.
\<close>

section \<open>The operations\<close>

record mbr_code =
  mbr_tables :: galois
  mbr_matrix :: "flat option"
  mbr_junk :: flat
  mbr_n :: int
  mbr_k :: int
  mbr_m :: int
  mbr_c :: int
  mbr_segment_size :: int

definition mbr_new :: "galois \<Rightarrow> flat \<Rightarrow> sys \<Rightarrow> mbr_code option" where
  "mbr_new junk_tables junk s =
     (let n = disk_total_num s; k = data_disk_num s; d = n - 1;
          m = k * d - (k * (k - 1)) sdiv 2;
          c = (n * (n - 1)) sdiv 2 - (k * (2 * n - k - 1)) sdiv 2
      in case galois_create_mult_tables junk_tables of
           None \<Rightarrow> None
         | Some T \<Rightarrow> map_option (\<lambda>G. \<lparr>mbr_tables = T, mbr_matrix = G, mbr_junk = junk, mbr_n = n, mbr_k = k,
               mbr_m = m, mbr_c = c, mbr_segment_size = (2 * (m + c)) sdiv n\<rparr>)
             (reed_sol_vandermonde_coding_matrix T junk m c))"

text \<open>The choice of a block: each disk steps over at most one block that holds no data, then the least used.\<close>

definition mbr_native :: "mbr_code \<Rightarrow> int \<Rightarrow> int \<Rightarrow> bool" where
  "mbr_native C disk_id block_no =
     (let mbr_native_block_id = mbr_find_block_id disk_id block_no (mbr_segment_size C)
      in \<not> (mbr_native_block_id = -1 \<or> mbr_m C \<le> mbr_native_block_id))"

definition mbr_mark_step :: "mbr_code \<Rightarrow> sys \<Rightarrow> int \<Rightarrow> sys" where
  "mbr_mark_step C s i =
     (if \<not> mbr_native C i (free_offset s i)
      then put_free_size i (free_size s i - 1) (put_free_offset i (free_offset s i + 1) s)
      else s)"

definition mbr_mark :: "mbr_code \<Rightarrow> sys \<Rightarrow> sys" where
  "mbr_mark C s = foldl (mbr_mark_step C) s (disk_ids s)"

definition mbr_pick_step :: "mbr_code \<Rightarrow> int \<Rightarrow> sys \<Rightarrow> int \<times> int \<times> int \<Rightarrow> int \<Rightarrow> int \<times> int \<times> int" where
  "mbr_pick_step C req s acc i = (case acc of (disk_id, block_no, fo) \<Rightarrow>
     if req \<le> free_size s i \<and> free_offset s i \<le> fo \<and> mbr_native C i (free_offset s i)
     then (i, free_offset s i, free_offset s i) else (disk_id, block_no, fo))"

definition mbr_pick :: "mbr_code \<Rightarrow> int \<Rightarrow> sys \<Rightarrow> int \<times> int" where
  "mbr_pick C req s =
     (let (disk_id, block_no, fo) = foldl (mbr_pick_step C req s) (-1, 0, free_offset s 0) (rev (disk_ids s))
      in (disk_id, block_no))"

text \<open>
  The coded blocks one by one, each at its two places; \<open>delta\<close> is the difference of new and old data.
  \<open>None\<close> is a matrix that is \<open>NULL\<close>: the searches always end.
\<close>

fun mbr_update :: "mbr_code \<Rightarrow> int \<Rightarrow> byte list \<Rightarrow> int \<Rightarrow> int \<Rightarrow> int \<Rightarrow> int list \<Rightarrow> sys \<Rightarrow> sys option" where
  "mbr_update C native delta sz req segment_id [] s = Some s"
| "mbr_update C native delta sz req segment_id (i # is) s =
     (let g = mbr_segment_size C; mbr_code_block_id = mbr_m C + i
      in case mbr_get_disk_id mbr_code_block_id g of None \<Rightarrow> None | Some code_disk_id \<Rightarrow>
         case mbr_get_dup_disk_id mbr_code_block_id g of None \<Rightarrow> None | Some dup_disk_id \<Rightarrow>
         case mbr_matrix C of None \<Rightarrow> None | Some G \<Rightarrow>
           let code_block_no = i32 (mbr_get_block_no code_disk_id mbr_code_block_id g + segment_id * g);
               dup_block_no = i32 (mbr_get_dup_block_no code_disk_id mbr_code_block_id g + segment_id * g);
               (retstat, buf_read, s) = nc_readDisk code_disk_id (zeros (nat req)) req
                 (i32 (code_block_no * disk_block_size s)) s;
               coefficient = G (i * mbr_m C + native);
               buf_temp = rs_times (mbr_tables C) coefficient delta;
               buf_read = xor_into (heap_junk s) (nat req) buf_read buf_temp;
               (retstat, s) = nc_writeDisk code_disk_id buf_read sz (i32 (code_block_no * disk_block_size s)) s;
               (retstat, s) = nc_writeDisk dup_disk_id buf_read sz (i32 (dup_block_no * disk_block_size s)) s
           in mbr_update C native delta sz req segment_id is s)"

text \<open>With one disk the segment has no rows and the remainder divides by zero.\<close>

definition mbr_encode :: "mbr_code \<Rightarrow> byte list \<Rightarrow> int \<Rightarrow> sys \<Rightarrow> (data_block_info \<times> sys) option" where
  "mbr_encode C buf sz s =
     (let g = mbr_segment_size C;
          block_size = disk_block_size s;
          size_request = round_to_block_size sz s;
          block_request = size_request sdiv block_size;
          s = mbr_mark C s;
          (disk_id, block_no, s) = or_space_list (mbr_pick C block_request s) s
      in if g = 0 then None
         else if disk_id = -1 then Some (\<lparr>bi_disk_id = disk_id, bi_block_no = block_no\<rparr>, s)
         else
           let mbr_segment_id = block_no sdiv g;
               junk = heap_junk s;
               addr = i32 (block_no * block_size);
               buf2 = malloc junk (nat size_request);
               (buf2, s) = (if 0 < mbr_c C
                 then let (retstat, buf2, s) = nc_readDisk disk_id buf2 size_request addr s
                      in (xor_into junk (nat size_request) buf2 buf, s)
                 else (buf2, s));
               s = claim disk_id block_no block_request s;
               native = mbr_find_block_id disk_id block_no g
           in case mbr_get_dup_disk_id native g of None \<Rightarrow> None
              | Some dup_disk_id \<Rightarrow>
                  let dup_block_no = i32 (mbr_get_dup_block_no disk_id native g + mbr_segment_id * g);
                      (retstat, s) = nc_writeDisk disk_id buf sz addr s;
                      (retstat, s) = nc_writeDisk dup_disk_id buf sz (i32 (dup_block_no * block_size)) s
                  in map_option (\<lambda>s. (\<lparr>bi_disk_id = disk_id, bi_block_no = block_no\<rparr>, s))
                       (mbr_update C native buf2 sz size_request mbr_segment_id [0..mbr_c C - 1] s))"

text \<open>Blocks of which both disks are lost; the place a block is read from.\<close>

definition mbr_erased :: "mbr_code \<Rightarrow> sys \<Rightarrow> flat option" where
  "mbr_erased C s =
     (let g = mbr_segment_size C
      in if list_all (\<lambda>i. mbr_get_disk_id i g \<noteq> None) [0..mbr_m C + mbr_c C - 1]
         then Some (\<lambda>i. if disk_status s (the (mbr_get_disk_id i g)) = 1 \<and>
                disk_status s (the (mbr_get_dup_disk_id i g)) = 1 then 1 else 0)
         else None)"

definition mbr_place :: "mbr_code \<Rightarrow> sys \<Rightarrow> int \<Rightarrow> (int \<times> int) option" where
  "mbr_place C s mbr_block_id =
     (let g = mbr_segment_size C
      in case mbr_get_disk_id mbr_block_id g of None \<Rightarrow> None
         | Some disk_id \<Rightarrow>
             if disk_status s disk_id = 1
             then map_option (\<lambda>e. (e, mbr_get_dup_block_no disk_id mbr_block_id g)) (mbr_get_dup_disk_id mbr_block_id g)
             else Some (disk_id, mbr_get_block_no disk_id mbr_block_id g))"

text \<open>The sum over the chosen blocks, each with its coefficient.\<close>

fun mbr_sum :: "mbr_code \<Rightarrow> int \<Rightarrow> int \<Rightarrow> (int \<times> int) list \<Rightarrow> byte list \<Rightarrow> byte list \<Rightarrow> sys \<Rightarrow>
    (int \<times> byte list \<times> sys) option" where
  "mbr_sum C sz segment_id [] temp_buf buf s = Some (sz, buf, s)"
| "mbr_sum C sz segment_id ((efficient, block) # xs) temp_buf buf s =
     (case mbr_place C s block of None \<Rightarrow> None
      | Some (disk_id, block_no) \<Rightarrow>
          let temp_block_no = i32 (block_no + segment_id * mbr_segment_size C);
              (retstat, temp_buf, s) = nc_readDisk disk_id (overwrite temp_buf 0 (zeros (nat sz))) sz
                (i32 (temp_block_no * disk_block_size s)) s
          in if retstat < 0 then Some (-1, buf, s)
             else let buf_temp = rs_times (mbr_tables C) efficient (take (nat sz) temp_buf);
                      buf = xor_ints (heap_junk s) (nat sz) buf buf_temp
                  in mbr_sum C sz segment_id xs temp_buf buf s)"

text \<open>A block from the others, when both its disks are lost.\<close>

definition mbr_decode_coded :: "mbr_code \<Rightarrow> int \<Rightarrow> int \<Rightarrow> byte list \<Rightarrow> int \<Rightarrow> sys \<Rightarrow> (int \<times> byte list \<times> sys) option" where
  "mbr_decode_coded C block segment_id buf sz s =
     (case mbr_erased C s of None \<Rightarrow> None | Some erased \<Rightarrow>
      case mbr_matrix C of None \<Rightarrow> None | Some G \<Rightarrow>
      case jerasure_make_decoding_matrix (mbr_tables C) (mbr_m C) (mbr_c C) G erased (mbr_junk C) (mbr_junk C) of
        None \<Rightarrow> None
      | Some (r, decoding_matrix, dm_ids) \<Rightarrow>
          if r < 0 then Some (-1, buf, s)
          else mbr_sum C sz segment_id
            (zip (map (\<lambda>i. decoding_matrix (mbr_m C * block + i)) [0..mbr_m C - 1]) dm_ids) (zeros (nat sz)) buf s)"

definition mbr_decode :: "mbr_code \<Rightarrow> int \<Rightarrow> byte list \<Rightarrow> int \<Rightarrow> int \<Rightarrow> sys \<Rightarrow> (int \<times> byte list \<times> sys) option" where
  "mbr_decode C disk_id buf sz offset s =
     (if disk_status s disk_id = 0 then Some (nc_readDisk disk_id buf sz offset s)
      else
        let g = mbr_segment_size C;
            buf = overwrite buf 0 (zeros (nat sz));
            block_no = offset sdiv disk_block_size s;
            segment_id = i32 (block_no sdiv g);
            native = mbr_find_block_id disk_id (i32 block_no) g;
            flag_dup = (native = -1);
            block = (if flag_dup then mbr_find_dup_block_id disk_id (i32 block_no) g else native)
        in if g = 0 then None else
           case (if flag_dup then mbr_get_disk_id block g else mbr_get_dup_disk_id block g) of
             None \<Rightarrow> None
           | Some dup_disk_id \<Rightarrow>
               let dup_block_no = i32 ((if flag_dup then mbr_get_block_no dup_disk_id block g
                                       else mbr_get_dup_block_no disk_id block g) + segment_id * g)
               in if disk_status s dup_disk_id \<noteq> 1
                  then Some (nc_readDisk dup_disk_id buf sz (i32 (dup_block_no * disk_block_size s)) s)
                  else mbr_decode_coded C block segment_id buf sz s)"

definition mbr_dec :: "mbr_code \<Rightarrow> int \<Rightarrow> byte list \<Rightarrow> int \<Rightarrow> int \<Rightarrow> sys option \<Rightarrow> int \<times> byte list \<times> sys option" where
  "mbr_dec C disk_id buf sz offset st = (case st of None \<Rightarrow> (0, buf, None)
     | Some s \<Rightarrow> (case mbr_decode C disk_id buf sz offset s of None \<Rightarrow> (0, buf, None)
         | Some (retstat, buf, s) \<Rightarrow> (retstat, buf, Some s)))"

definition mbr_recover :: "mbr_code \<Rightarrow> int \<Rightarrow> sys \<Rightarrow> (int \<times> sys) option" where
  "mbr_recover C failed_disk_id s =
     (let recoversize = disk_size s failed_disk_id;
          block_size = disk_block_size s
      in map_option (\<lambda>s. (0, s))
           (rebuild_blocks (mbr_dec C) rs_wr (\<lambda>b. overwrite b 0 (zeros (nat block_size)))
             failed_disk_id block_size [0..recoversize - 1]
             (malloc (heap_junk s) (nat block_size)) (Some s)))"

section \<open>The object\<close>

text \<open>
  The object in order, for an array of \<open>n\<close> disks of which any \<open>k\<close> suffice.
\<close>

definition mbr_ok :: "int \<Rightarrow> int \<Rightarrow> mbr_code \<Rightarrow> bool" where
  "mbr_ok n k C \<longleftrightarrow> n \<le> 65536 \<and> galois_ok (mbr_tables C) \<and> mbr_segment_size C = n - 1 \<and>
     mbr_m C = mbr_start (n - 1) k \<and> mbr_m C + mbr_c C = mbr_start (n - 1) (n - 1) \<and>
     2 * mbr_c C = (n - k) * (n - k - 1) \<and> 0 < mbr_m C \<and>
     (0 < mbr_c C \<longrightarrow> (\<exists>G. mbr_matrix C = Some G \<and> bytes_in (mbr_c C * mbr_m C) G \<and>
        mds (mbr_m C) (mbr_m C + mbr_c C) (dist_rows (mbr_m C) (ent (mbr_m C) G))))"

lemma even_pred: "2 dvd (x::int) * (x - 1)"
  by (cases "even x") auto

lemma mbr_new_ok:
  assumes "2 \<le> disk_total_num s" "disk_total_num s \<le> 23" "1 \<le> data_disk_num s" "data_disk_num s < disk_total_num s"
  obtains C where "mbr_new junk_tables junk s = Some C" "mbr_ok (disk_total_num s) (data_disk_num s) C"
proof -
  let ?n = "disk_total_num s" and ?k = "data_disk_num s"
  define m where "m = mbr_start (?n - 1) ?k"
  define c where "c = mbr_start (?n - 1) (?n - 1) - m"
  obtain x where x: "?k * (?k - 1) = 2 * x" using even_pred [of ?k] by (elim dvdE)
  obtain y where y: "?n * (?n - 1) = 2 * y" using even_pred [of ?n] by (elim dvdE)
  have e: "?k * (2 * ?n - ?k - 1) = 2 * (?k * (?n - 1) - x)" using x by (simp add: algebra_simps)
  have p: "0 \<le> ?k * (2 * ?n - ?k - 1)" "0 \<le> ?k * (?k - 1)" "0 \<le> ?n * (?n - 1)"
    using assms by (auto intro!: mult_nonneg_nonneg)
  have m1: "m = ?k * (?n - 1) - x"
  proof -
    have "?k * (2 * (?n - 1) - ?k + 1) = 2 * (?k * (?n - 1) - x)" using x by (simp add: algebra_simps)
    then show ?thesis by (simp add: m_def mbr_start_def)
  qed
  have N: "mbr_start (?n - 1) (?n - 1) = y" using y by (simp add: segment_blocks mult.commute)
  have c1: "c = y - (?k * (?n - 1) - x)" using N m1 by (simp add: c_def)
  have cm: "2 * c = (?n - ?k) * (?n - ?k - 1)"
    using x y unfolding c1 by (simp add: algebra_simps)
  then have c0: "0 \<le> c" using pred_prod [of "?n - ?k"] by linarith
  have "mbr_start (?n - 1) 1 \<le> m" unfolding m_def by (rule mbr_start_mono) (use assms in auto)
  then have m0: "0 < m" using mbr_start_step [of "?n - 1" 0] assms by simp
  have "?n * (?n - 1) \<le> 23 * 22" using assms by (intro mult_mono) auto
  then have mc: "m + c \<le> 256" using y N by (simp add: c_def)
  have sm: "?k * (?n - 1) - (?k * (?k - 1)) sdiv 2 = m" using p x m1 by simp
  have sc: "(?n * (?n - 1)) sdiv 2 - (?k * (2 * ?n - ?k - 1)) sdiv 2 = c"
    using p unfolding sdiv_nonneg [OF p(3), of 2, simplified] e y by (simp add: e c1)
  have "2 * (m + c) = ?n * (?n - 1)" using y N by (simp add: c_def)
  then have sg: "(2 * (m + c)) sdiv ?n = ?n - 1" using assms p by simp
  obtain T where T: "galois_create_mult_tables junk_tables = Some T" "galois_ok T" by (rule galois_tables_ok)
  have "\<exists>G. reed_sol_vandermonde_coding_matrix T junk m c = Some G \<and> (0 < c \<longrightarrow> (\<exists>g. G = Some g \<and>
      bytes_in (c * m) g \<and> mds m (m + c) (dist_rows m (ent m g))))"
  proof (cases "c = 0")
    case True
    then show ?thesis
      by (simp add: reed_sol_vandermonde_coding_matrix_def reed_sol_big_vandermonde_distribution_matrix_def)
  next
    case False
    obtain g where "reed_sol_vandermonde_coding_matrix T junk m c = Some (Some g)"
      "bytes_in (c * m) g" "mds m (m + c) (dist_rows m (ent m g))"
      by (rule vandermonde_coding_matrix_ok [OF T(2) m0 _ mc, of junk]) (use False c0 in auto)
    then show ?thesis by simp
  qed
  then obtain G where G: "reed_sol_vandermonde_coding_matrix T junk m c = Some G"
    "0 < c \<longrightarrow> (\<exists>g. G = Some g \<and> bytes_in (c * m) g \<and> mds m (m + c) (dist_rows m (ent m g)))" by blast
  show ?thesis
  proof
    show "mbr_new junk_tables junk s = Some \<lparr>mbr_tables = T, mbr_matrix = G, mbr_junk = junk, mbr_n = ?n, mbr_k = ?k,
               mbr_m = m, mbr_c = c, mbr_segment_size = ?n - 1\<rparr>"
      unfolding mbr_new_def Let_def sm sc sg by (simp add: T G)
    show "mbr_ok ?n ?k \<lparr>mbr_tables = T, mbr_matrix = G, mbr_junk = junk, mbr_n = ?n, mbr_k = ?k,
               mbr_m = m, mbr_c = c, mbr_segment_size = ?n - 1\<rparr>"
      using T G(2) m0 cm assms(2) by (simp add: mbr_ok_def m_def c_def)
  qed
qed

lemma mbr_made_ok:
  assumes "mbr_new junk_tables junk s = Some C" "2 \<le> disk_total_num s" "disk_total_num s \<le> 23"
    "1 \<le> data_disk_num s" "data_disk_num s < disk_total_num s"
  shows "mbr_ok (disk_total_num s) (data_disk_num s) C"
  using mbr_new_ok [OF assms(2-5), of junk_tables junk] assms(1) by auto

section \<open>Coded arrays\<close>

text \<open>
  \<open>mbr_cell\<close> and \<open>mbr_copy\<close> are the two places of a block of segment \<open>t\<close>.
\<close>

definition mbr_cell :: "int \<Rightarrow> int \<Rightarrow> (int \<Rightarrow> byte list) \<Rightarrow> int \<Rightarrow> int \<Rightarrow> byte list" where
  "mbr_cell g bs v t b = disk_blk bs v (mbr_d g b) (t * g + (mbr_e g b - 1))"

definition mbr_copy :: "int \<Rightarrow> int \<Rightarrow> (int \<Rightarrow> byte list) \<Rightarrow> int \<Rightarrow> int \<Rightarrow> byte list" where
  "mbr_copy g bs v t b = disk_blk bs v (mbr_e g b) (t * g + mbr_d g b)"

text \<open>Every segment is a code word, and duplicates are equal.\<close>

definition mbr_coded :: "mbr_code \<Rightarrow> int \<Rightarrow> int \<Rightarrow> (int \<Rightarrow> byte list) \<Rightarrow> bool" where
  "mbr_coded C S bs v \<longleftrightarrow> (let g = mbr_segment_size C in list_all (\<lambda>t.
     list_all (\<lambda>b. mbr_copy g bs v t b = mbr_cell g bs v t b) [0..mbr_m C + mbr_c C - 1] \<and>
     (case mbr_matrix C of None \<Rightarrow> True
      | Some G \<Rightarrow> rs_parity_ok (mbr_m C) (mbr_c C) G (nat bs) (mbr_cell g bs v t))) [0..S - 1])"

lemma mbr_codedD:
  assumes "mbr_coded C S bs v" "0 \<le> t" "t < S"
  shows "0 \<le> b \<Longrightarrow> b < mbr_m C + mbr_c C \<Longrightarrow>
      mbr_copy (mbr_segment_size C) bs v t b = mbr_cell (mbr_segment_size C) bs v t b"
    "mbr_matrix C = Some G \<Longrightarrow> rs_parity_ok (mbr_m C) (mbr_c C) G (nat bs) (mbr_cell (mbr_segment_size C) bs v t)"
  using assms by (auto simp: mbr_coded_def list_all_iff Let_def)

section \<open>Counting lost blocks\<close>

lemma pairs_card:
  assumes "finite L"
  shows "2 * card {(d, e). d \<in> L \<and> e \<in> L \<and> d < (e::int)} + card L = card L * card L"
proof -
  let ?P = "{(d, e). d \<in> L \<and> e \<in> L \<and> d < e}" and ?Q = "{(d, e). d \<in> L \<and> e \<in> L \<and> e < d}"
  let ?D = "(\<lambda>x. (x, x)) ` L"
  have f: "finite ?P" "finite ?Q" "finite ?D"
    using assms by (auto intro: finite_subset [of _ "L \<times> L"])
  have "?Q = prod.swap ` ?P" by auto
  then have q: "card ?Q = card ?P" by (simp add: card_image inj_on_def)
  have u: "L \<times> L = ?P \<union> (?Q \<union> ?D)" by auto
  have "card (L \<times> L) = card ?P + (card ?Q + card ?D)"
  proof -
    have "?P \<inter> (?Q \<union> ?D) = {}" "?Q \<inter> ?D = {}" by auto
    then show ?thesis unfolding u using f card_Un_disjoint [of ?P "?Q \<union> ?D"] card_Un_disjoint [of ?Q ?D] by simp
  qed
  then show ?thesis using q by (simp add: card_cartesian_product card_image inj_on_def)
qed

text \<open>Of two lost disks or more, only the blocks between them are lost: not more than there are coded blocks.\<close>

lemma lost_blocks:
  assumes "finite L" "int (card L) \<le> x" "0 \<le> g" "2 * c = x * (x - 1)"
  shows "int (card {b \<in> {0..<mbr_start g g}. mbr_d g b \<in> L \<and> mbr_e g b \<in> L}) \<le> c"
proof -
  let ?B = "{b \<in> {0..<mbr_start g g}. mbr_d g b \<in> L \<and> mbr_e g b \<in> L}"
  let ?P = "{(d, e). d \<in> L \<and> e \<in> L \<and> d < e}"
  have fP: "finite ?P" using assms(1) by (auto intro: finite_subset [of _ "L \<times> L"])
  have i: "inj_on (\<lambda>b. (mbr_d g b, mbr_e g b)) ?B"
  proof (rule inj_onI)
    fix a b assume "a \<in> ?B" "b \<in> ?B" "(mbr_d g a, mbr_e g a) = (mbr_d g b, mbr_e g b)"
    then show "a = b" using mbr_edge(6) [of a g] mbr_edge(6) [of b g] assms(3) by auto
  qed
  have "(\<lambda>b. (mbr_d g b, mbr_e g b)) ` ?B \<subseteq> ?P" using mbr_edge(4) assms(3) by auto
  then have "card ?B \<le> card ?P" using card_inj_on_le [OF i _ fP] by blast
  moreover have "2 * int (card ?P) + int (card L) = int (card L) * int (card L)"
    using arg_cong [OF pairs_card [OF assms(1)], of int] by simp
  moreover have "int (card L) * (int (card L) - 1) \<le> x * (x - 1)"
  proof (cases "card L = 0")
    case True
    then show ?thesis using pred_prod [of x] by simp
  next
    case False
    then show ?thesis using assms(2) by (intro mult_mono) auto
  qed
  moreover have "int (card L) * (int (card L) - 1) = int (card L) * int (card L) - int (card L)"
    by (simp add: right_diff_distrib)
  ultimately show ?thesis using assms(4) by linarith
qed

section \<open>Reading\<close>

text \<open>The places of the lost disks among the segments.\<close>

lemma mbr_okD:
  assumes "mbr_ok n k C"
  shows "galois_ok (mbr_tables C)" "mbr_segment_size C = n - 1" "mbr_m C = mbr_start (n - 1) k"
    "mbr_m C + mbr_c C = mbr_start (n - 1) (n - 1)" "2 * mbr_c C = (n - k) * (n - k - 1)" "0 < mbr_m C"
    "0 < mbr_c C \<Longrightarrow> \<exists>G. mbr_matrix C = Some G \<and> bytes_in (mbr_c C * mbr_m C) G \<and>
      mds (mbr_m C) (mbr_m C + mbr_c C) (dist_rows (mbr_m C) (ent (mbr_m C) G))"
    "n - 1 \<le> 65535"
  using assms unfolding mbr_ok_def by (blast, blast, blast, blast, blast, blast, blast, simp)

lemma mbr_erased_ok:
  assumes "mbr_ok n k C" "1 \<le> n" "disk_total_num s = n"
    and "int (length (filter (\<lambda>i. disk_status s i = 1) (disk_ids s))) \<le> n - k"
  obtains er where "mbr_erased C s = Some er"
    "\<And>b. 0 \<le> b \<Longrightarrow> b < mbr_m C + mbr_c C \<Longrightarrow>
       er b = 0 \<longleftrightarrow> \<not> (disk_status s (mbr_d (n - 1) b) = 1 \<and> disk_status s (mbr_e (n - 1) b) = 1)"
    "mbr_m C \<le> int (length (filter (\<lambda>b. er b = 0) [0..mbr_m C + mbr_c C - 1]))"
proof -
  let ?g = "n - 1" and ?N = "mbr_m C + mbr_c C"
  note o = mbr_okD [OF assms(1)]
  define er :: flat where "er = (\<lambda>b. if disk_status s (the (mbr_get_disk_id b ?g)) = 1 \<and>
    disk_status s (the (mbr_get_dup_disk_id b ?g)) = 1 then 1 else 0)"
  have g0: "0 \<le> ?g" using assms(2) by simp
  note ids = mbr_edge(1,2) [OF _ _ g0 o(8), folded o(4)]
  have eb: "er b = 0 \<longleftrightarrow> \<not> (disk_status s (mbr_d ?g b) = 1 \<and> disk_status s (mbr_e ?g b) = 1)"
    if "0 \<le> b" "b < ?N" for b
    using ids [OF that] by (simp add: er_def)
  have ends: "list_all (\<lambda>i. mbr_get_disk_id i ?g \<noteq> None) [0..?N - 1]"
    using ids(1) by (auto simp: list_all_iff)
  then have e: "mbr_erased C s = Some er" by (simp add: mbr_erased_def Let_def o(2) er_def)
  let ?L = "{i. 0 \<le> i \<and> i < n \<and> disk_status s i = 1}"
  have L: "set (filter (\<lambda>i. disk_status s i = 1) (disk_ids s)) = ?L" using assms(3) by auto
  then have fL: "finite ?L" by (metis finite_set)
  have "distinct (filter (\<lambda>i. disk_status s i = 1) (disk_ids s))" by simp
  then have cL: "int (card ?L) \<le> n - k" using assms(4) distinct_card L by metis
  have "set (filter (\<lambda>b. er b \<noteq> 0) [0..?N - 1]) = {b \<in> {0..<mbr_start ?g ?g}. mbr_d ?g b \<in> ?L \<and> mbr_e ?g b \<in> ?L}"
    using mbr_edge(3-5) [of _ ?g] assms(2) eb unfolding o(4) by (auto; force)
  moreover have "distinct (filter (\<lambda>b. er b \<noteq> 0) [0..?N - 1])" by simp
  ultimately have "int (length (filter (\<lambda>b. er b \<noteq> 0) [0..?N - 1])) \<le> mbr_c C"
    using lost_blocks [OF fL cL _ o(5), of ?g] assms(2) distinct_card by (metis diff_ge_0_iff_ge)
  moreover have "length (filter (\<lambda>b. er b \<noteq> 0) [0..?N - 1]) + length (filter (\<lambda>b. er b = 0) [0..?N - 1]) = nat ?N"
    using sum_length_filter_compl [of "\<lambda>b. er b \<noteq> 0" "[0..?N - 1]"] by simp
  ultimately have "mbr_m C \<le> int (length (filter (\<lambda>b. er b = 0) [0..?N - 1]))" by linarith
  then show ?thesis using that [OF e] eb by blast
qed

text \<open>The sum, for blocks \<open>X\<close> that can be read.\<close>

lemma mbr_sum_ok:
  assumes "galois_ok (mbr_tables C)" "length temp = nat sz" "length buf = nat sz" "0 < sz"
    and "\<And>e b. (e, b) \<in> set xs \<Longrightarrow> 0 \<le> e \<and> e < 256 \<and> length (X b) = nat sz \<and>
      (\<exists>p q. mbr_place C s b = Some (p, q) \<and> (\<forall>bf. length bf = nat sz \<longrightarrow>
        nc_readDisk p bf sz (i32 (i32 (q + t * mbr_segment_size C) * disk_block_size s)) s = (sz, X b, s)))"
  shows "mbr_sum C sz t xs temp buf s = Some (sz,
    map (\<lambda>j. if j < 4 * (nat sz div 4) then buf ! j XOR xsum (\<lambda>(e, b). gmul (word_of_int e) (X b ! j)) xs
       else buf ! j) [0..<nat sz], s)"
  using assms(2,3,5)
proof (induction xs arbitrary: temp buf)
  case Nil
  then show ?case by (auto intro: nth_equalityI)
next
  case (Cons x xs)
  obtain e b where x: "x = (e, b)" by fastforce
  obtain p q where p: "0 \<le> e" "e < 256" "length (X b) = nat sz" "mbr_place C s b = Some (p, q)"
    "\<And>bf. length bf = nat sz \<Longrightarrow>
      nc_readDisk p bf sz (i32 (i32 (q + t * mbr_segment_size C) * disk_block_size s)) s = (sz, X b, s)"
    using Cons.prems(3) [of e b] x by auto
  let ?b = "xor_ints (heap_junk s) (nat sz) buf (rs_times (mbr_tables C) e (X b))"
  have b: "?b ! j = (if j < 4 * (nat sz div 4) then buf ! j XOR gmul (word_of_int e) (X b ! j) else buf ! j)"
    if "j < nat sz" for j
    using that Cons.prems(2) p(3) nth_rs_times [OF assms(1) p(1,2), of j "X b"]
    by (simp add: xor_ints_def nth_xor_into)
  have "mbr_sum C sz t (x # xs) temp buf s = mbr_sum C sz t xs (X b) ?b s"
    using p(3-5) Cons.prems(1) assms(4) by (simp add: x)
  also have "\<dots> = Some (sz, map (\<lambda>j. if j < 4 * (nat sz div 4)
       then ?b ! j XOR xsum (\<lambda>(e, b). gmul (word_of_int e) (X b ! j)) xs else ?b ! j) [0..<nat sz], s)"
    using Cons.prems p(3) by (intro Cons.IH) auto
  finally show ?case using b by (simp add: x xor.assoc)
qed

text \<open>Blocks with a good disk are read from it.\<close>

lemma mbr_read:
  assumes "1 \<le> n" "disk_total_num s = n" "rs_lost (S * (n - 1)) v s" "0 \<le> t" "t < S"
    and p: "0 \<le> p" "p < n" "disk_status s p \<noteq> 1" "0 \<le> r" "r < n - 1" and sz: "0 < sz" "sz \<le> disk_block_size s"
    and bf: "length bf = nat sz"
  shows "nc_readDisk p bf sz (i32 (i32 (r + t * (n - 1)) * disk_block_size s)) s =
    (sz, take (nat sz) (disk_blk (disk_block_size s) v p (t * (n - 1) + r)), s)"
proof -
  let ?g = "n - 1" and ?bs = "disk_block_size s"
  note l = rs_lostD [OF assms(3)]
  note w = group_rows [OF assms(4,5) p(4,5)]
  note a = block_addr [OF l(1,2) w]
  have "t * ?g + r \<le> (t * ?g + r) * ?bs" using mult_left_mono [of 1 ?bs "t * ?g + r"] w(1) l(1) by simp
  then have "r + t * ?g < 2147483648" "0 \<le> r + t * ?g" using a(3) l(1,2) w(1) by linarith+
  then have i: "i32 (r + t * ?g) = t * ?g + r" using i32_id [of "r + t * ?g"] by simp
  have c: "content s p = v p" "int (length (v p)) = S * ?g * ?bs" using l(4,5) [of p] p assms(2) by simp_all
  have "nc_readDisk p bf sz ((t * ?g + r) * ?bs) s =
      (sz, take (nat sz) (drop (nat ((t * ?g + r) * ?bs)) (content s p)), s)"
    by (rule nc.rd_buf) (use a c sz bf in auto)
  then show ?thesis using sz unfolding i a(1) by (simp add: disk_blk_def c(1) min_def)
qed

lemma mbr_block_read:
  assumes C: "mbr_ok n k C" and n: "1 \<le> n" "disk_total_num s = n" and L: "rs_lost (S * (n - 1)) v s"
    and P: "mbr_coded C S (disk_block_size s) v" and t: "0 \<le> t" "t < S"
    and b: "0 \<le> b" "b < mbr_m C + mbr_c C"
    and g: "\<not> (disk_status s (mbr_d (n - 1) b) = 1 \<and> disk_status s (mbr_e (n - 1) b) = 1)"
    and sz: "0 < sz" "sz \<le> disk_block_size s"
  shows "\<exists>p q. mbr_place C s b = Some (p, q) \<and> (\<forall>bf. length bf = nat sz \<longrightarrow>
      nc_readDisk p bf sz (i32 (i32 (q + t * mbr_segment_size C) * disk_block_size s)) s =
      (sz, take (nat sz) (mbr_cell (n - 1) (disk_block_size s) v t b), s))"
proof -
  let ?g = "n - 1" and ?bs = "disk_block_size s"
  note o = mbr_okD [OF C]
  have g0: "0 \<le> ?g" using n by simp
  have bg: "b < mbr_start ?g ?g" using b(2) o(4) by simp
  note e = mbr_edge(1,2) [OF b(1) bg g0 o(8)] mbr_edge(3-7) [OF b(1) bg g0]
  note rd = mbr_read [OF n L t _ _ _ _ _ sz]
  show ?thesis
  proof (cases "disk_status s (mbr_d ?g b) = 1")
    case True
    have "mbr_place C s b = Some (mbr_e ?g b, mbr_d ?g b)"
      using e(1,2) True by (simp add: mbr_place_def Let_def o(2) mbr_get_dup_block_no_def)
    moreover have "disk_blk ?bs v (mbr_e ?g b) (t * ?g + mbr_d ?g b) = mbr_cell ?g ?bs v t b"
      using mbr_codedD(1) [OF P t b] by (simp add: o(2) mbr_copy_def)
    ultimately show ?thesis using rd [of "mbr_e ?g b" "mbr_d ?g b"] e(3-5) True g by (simp add: o(2))
  next
    case False
    have "mbr_place C s b = Some (mbr_d ?g b, mbr_e ?g b - 1)"
      using e(1,2,7) False by (simp add: mbr_place_def Let_def o(2))
    then show ?thesis using rd [of "mbr_d ?g b" "mbr_e ?g b - 1"] e(3-5) False by (simp add: o(2) mbr_cell_def)
  qed
qed

lemma length_mbr_cell:
  assumes "mbr_ok n k C" "1 \<le> n" "0 \<le> b" "b < mbr_m C + mbr_c C" "0 \<le> t" "t < S" "0 < bs"
    and "\<And>i. 0 \<le> i \<Longrightarrow> i < n \<Longrightarrow> int (length (v i)) = S * (n - 1) * bs"
  shows "length (mbr_cell (n - 1) bs v t b) = nat bs"
proof -
  have bg: "b < mbr_start (n - 1) (n - 1)" using assms(4) mbr_okD(4) [OF assms(1)] by simp
  have g0: "0 \<le> n - 1" using assms(2) by simp
  note e = mbr_edge [OF assms(3) bg g0]
  define r where "r = t * (n - 1) + (mbr_e (n - 1) b - 1)"
  have w: "0 \<le> r" "r + 1 \<le> S * (n - 1)"
    using group_rows [OF assms(5,6), of "mbr_e (n - 1) b - 1" "n - 1"] e(3-5) by (auto simp: r_def)
  have "(r + 1) * bs \<le> S * (n - 1) * bs" using w assms(7) by (intro mult_right_mono) auto
  then have "r * bs + bs \<le> int (length (v (mbr_d (n - 1) b)))"
    using assms(8) [of "mbr_d (n - 1) b"] e(3-5) by (simp only: distrib_right mult_1)
  moreover have "0 \<le> r * bs" using w assms(7) by simp
  ultimately show ?thesis unfolding mbr_cell_def disk_blk_def r_def [symmetric] by simp
qed

text \<open>A block of data of which both disks are lost is computed from the other blocks.\<close>

lemma mbr_decode_coded_ok:
  assumes C: "mbr_ok n k C" and n: "1 \<le> n" "disk_total_num s = n" "data_disk_num s = k"
    and L: "rs_lost (S * (n - 1)) v s" and P: "mbr_coded C S (disk_block_size s) v" and t: "0 \<le> t" "t < S"
    and c: "0 < mbr_c C" and b: "0 \<le> b" "b < mbr_m C"
    and sz: "0 < sz" "sz \<le> disk_block_size s" "length buf = nat sz" "buf = zeros (nat sz)"
  shows "mbr_decode_coded C b t buf sz s =
    Some (sz, int_bytes sz (take (nat sz) (mbr_cell (n - 1) (disk_block_size s) v t b)), s)"
proof -
  let ?g = "n - 1" and ?bs = "disk_block_size s" and ?m = "mbr_m C" and ?N = "mbr_m C + mbr_c C"
  let ?X = "mbr_cell ?g ?bs v t"
  note o = mbr_okD [OF C] and l = rs_lostD [OF L]
  obtain G where G: "mbr_matrix C = Some G" "bytes_in (mbr_c C * ?m) G" "mds ?m ?N (dist_rows ?m (ent ?m G))"
    using o(7) [OF c] by blast
  have f: "int (length (filter (\<lambda>i. disk_status s i = 1) (disk_ids s))) \<le> n - k"
    using L n by (simp add: rs_lost_def)
  obtain er where er: "mbr_erased C s = Some er"
    "\<And>b. 0 \<le> b \<Longrightarrow> b < ?N \<Longrightarrow> er b = 0 \<longleftrightarrow> \<not> (disk_status s (mbr_d ?g b) = 1 \<and> disk_status s (mbr_e ?g b) = 1)"
    "?m \<le> int (length (filter (\<lambda>b. er b = 0) [0..?N - 1]))"
    by (rule mbr_erased_ok [OF C n(1,2) f]) blast
  obtain dec dm where dm: "jerasure_make_decoding_matrix (mbr_tables C) ?m (mbr_c C) G er (mbr_junk C) (mbr_junk C) =
      Some (0, dec, dm)" "length dm = nat ?m"
    "\<And>i. 0 \<le> i \<Longrightarrow> i < ?m \<Longrightarrow> 0 \<le> dec (?m * b + i) \<and> dec (?m * b + i) < 256 \<and>
       0 \<le> dm ! nat i \<and> dm ! nat i < ?N \<and> er (dm ! nat i) = 0"
    "\<And>v len a. rs_parity_ok ?m (mbr_c C) G len v \<Longrightarrow> a < len \<Longrightarrow>
       xsum (\<lambda>i. gmul (word_of_int (dec (?m * b + i))) (v (dm ! nat i) ! a)) [0..?m - 1] = v b ! a"
    by (rule rs_solve [OF o(1,6) G(2,3) er(3) b, of "mbr_junk C" "mbr_junk C"]) blast
  have lX: "length (?X b) = nat ?bs" if "0 \<le> b" "b < ?N" for b
    by (rule length_mbr_cell [OF C n(1) that t l(1)]) (use l(4) n in auto)
  let ?xs = "map (\<lambda>i. (dec (?m * b + i), dm ! nat i)) [0..?m - 1]"
  have z: "zip (map (\<lambda>i. dec (?m * b + i)) [0..?m - 1]) dm = ?xs" by (rule zip_upto [OF dm(2)])
  have "mbr_sum C sz t ?xs (zeros (nat sz)) buf s = Some (sz,
    map (\<lambda>j. if j < 4 * (nat sz div 4) then buf ! j XOR
        xsum (\<lambda>(e, b). gmul (word_of_int e) (take (nat sz) (?X b) ! j)) ?xs
       else buf ! j) [0..<nat sz], s)"
  proof (rule mbr_sum_ok [OF o(1) _ sz(3,1)])
    fix ee bb assume "(ee, bb) \<in> set ?xs"
    then obtain i where i: "0 \<le> i" "i < ?m" "ee = dec (?m * b + i)" "bb = dm ! nat i" by auto
    note d = dm(3) [OF i(1,2), folded i(4)]
    show "0 \<le> ee \<and> ee < 256 \<and> length (take (nat sz) (?X bb)) = nat sz \<and>
      (\<exists>p q. mbr_place C s bb = Some (p, q) \<and> (\<forall>bf. length bf = nat sz \<longrightarrow>
        nc_readDisk p bf sz (i32 (i32 (q + t * mbr_segment_size C) * ?bs)) s = (sz, take (nat sz) (?X bb), s)))"
      using mbr_block_read [OF C n(1,2) L P t _ _ _ sz(1,2), of bb] er(2) [of bb] d i(3) lX [of bb] sz(2)
      by auto
  qed simp
  moreover have "xsum (\<lambda>(e, b). gmul (word_of_int e) (take (nat sz) (?X b) ! j)) ?xs = take (nat sz) (?X b) ! j"
    if j: "j < nat sz" for j
  proof -
    have jb: "j < nat ?bs" using j sz by linarith
    have "xsum (\<lambda>(e, b). gmul (word_of_int e) (take (nat sz) (?X b) ! j)) ?xs =
        xsum (\<lambda>i. gmul (word_of_int (dec (?m * b + i))) (?X (dm ! nat i) ! j)) [0..?m - 1]"
      using j by (simp add: comp_def)
    also have "\<dots> = ?X b ! j" by (rule dm(4) [OF mbr_codedD(2) [OF P t G(1)] jb, unfolded o(2)])
    finally show ?thesis using j by simp
  qed
  ultimately have "mbr_sum C sz t ?xs (zeros (nat sz)) buf s = Some (sz, int_bytes sz (take (nat sz) (?X b)), s)"
    using sz(4) by (simp add: int_bytes_def cong: map_cong if_cong)
  then show ?thesis using er(1) G(1) dm(1) z by (simp add: mbr_decode_coded_def)
qed

text \<open>The other disk of block \<open>r\<close> of disk \<open>d\<close>.\<close>

definition mbr_partner :: "int \<Rightarrow> int \<Rightarrow> int \<Rightarrow> int" where
  "mbr_partner g d r = (if r mod g < d then r mod g else r mod g + 1)"

lemma mbr_native_low:
  assumes "mbr_ok n k C" "0 \<le> k" "k \<le> n - 1" "0 \<le> b" "b < mbr_m C + mbr_c C" "mbr_d (n - 1) b < k"
  shows "b < mbr_m C"
proof -
  have bg: "b < mbr_start (n - 1) (n - 1)" using assms(5) mbr_okD(4) [OF assms(1)] by simp
  have g0: "0 \<le> n - 1" using assms by simp
  note e = mbr_edge [OF assms(4) bg g0]
  have "b < mbr_start (n - 1) (mbr_d (n - 1) b + 1)" using e(4-6) mbr_start_step [of "n - 1" "mbr_d (n - 1) b"] by linarith
  also have "\<dots> \<le> mbr_start (n - 1) k" by (rule mbr_start_mono) (use assms e in auto)
  finally show ?thesis using mbr_okD(3) [OF assms(1)] by simp
qed

lemma two_lost:
  assumes "rs_lost m v s" "0 \<le> d" "d < disk_total_num s" "disk_status s d = 1"
    and "0 \<le> p" "p < disk_total_num s" "disk_status s p = 1" "p \<noteq> d"
  shows "2 \<le> disk_total_num s - data_disk_num s"
proof -
  let ?f = "filter (\<lambda>i. disk_status s i = 1) (disk_ids s)"
  have "{d, p} \<subseteq> set ?f" using assms by auto
  then have "card {d, p} \<le> card (set ?f)" by (rule card_mono [OF finite_set])
  also have "\<dots> = length ?f" by (rule distinct_card) simp
  finally show ?thesis using assms(1,8) by (simp add: rs_lost_def)
qed

lemma mbr_decode_run:
  assumes C: "mbr_ok n k C" and n: "1 \<le> n" "disk_total_num s = n" "data_disk_num s = k"
    and L: "rs_lost (S * (n - 1)) v s" and P: "mbr_coded C S (disk_block_size s) v"
    and d: "0 \<le> d" "d < n" "disk_status s d = 1" "\<And>e. k \<le> e \<Longrightarrow> e < n \<Longrightarrow> disk_status s e = 1 \<Longrightarrow> e = d \<or> d < k"
    and off: "0 \<le> off" "off < S * (n - 1) * disk_block_size s"
    and sz: "0 < sz" "sz \<le> disk_block_size s" "length buf = nat sz"
  defines "r \<equiv> off div disk_block_size s"
  shows "mbr_decode C d buf sz off s = Some (sz,
    if disk_status s (mbr_partner (n - 1) d r) = 1 then int_bytes sz (take (nat sz) (disk_blk (disk_block_size s) v d r))
    else take (nat sz) (disk_blk (disk_block_size s) v d r), s)"
proof -
  let ?g = "n - 1" and ?bs = "disk_block_size s"
  note o = mbr_okD [OF C] and l = rs_lostD [OF L]
  define t where "t = r div ?g"
  define q where "q = r mod ?g"
  have k: "0 < k" "k \<le> ?g" using L n by (auto simp: rs_lost_def)
  have r0: "0 \<le> r" "r * ?bs \<le> off" "r < S * ?g"
    using off l(1) div_lt [of ?bs off "S * ?g"]
    by (simp_all add: r_def pos_imp_zdiv_nonneg_iff minus_mod_eq_div_mult [symmetric])
  have rt: "r = t * ?g + q" by (simp only: t_def q_def div_mult_mod_eq)
  have q: "0 \<le> q" "q < ?g" using k by (simp_all add: q_def)
  have t: "0 \<le> t" "t < S" using r0 k div_lt [of ?g r S] by (simp_all add: t_def pos_imp_zdiv_nonneg_iff)
  have "r * 1 \<le> r * ?bs" using r0 l(1) by (intro mult_left_mono) auto
  then have "r < 2147483648" using r0 off l(2) by simp
  then have ir: "i32 r = r" using r0 by (simp add: i32_id)
  have "t * 1 \<le> t * ?g" using t k by (intro mult_left_mono) auto
  then have "t < 2147483648" using rt q \<open>r < 2147483648\<close> by simp
  then have it: "i32 t = t" using t by (simp add: i32_id)
  have sd: "off sdiv ?bs = r" "r sdiv ?g = t" using off l(1) r0 k by (simp_all add: r_def t_def)
  have b0: "overwrite buf 0 (zeros (nat sz)) = zeros (nat sz)" using sz by (simp add: overwrite_def)
  note rd = mbr_read [OF n(1,2) L t _ _ _ _ _ sz(1,2), of _ _ "zeros (nat sz)"]
  note fb = find_block [of d q ?g t, folded rt]
  have coded: "mbr_decode_coded C b t (zeros (nat sz)) sz s =
      Some (sz, int_bytes sz (take (nat sz) (mbr_cell ?g ?bs v t b)), s)"
    if b: "0 \<le> b" "b < mbr_start ?g ?g" and p: "0 \<le> p" "p < n" "disk_status s p = 1" "p \<noteq> d"
      and e: "{mbr_d ?g b, mbr_e ?g b} = {d, p}" for b p
  proof -
    have "2 \<le> n - k" using two_lost [OF L d(1) _ d(3) p(1) _ p(3,4)] d p n by simp
    then have "2 * 1 \<le> (n - k) * (n - k - 1)" by (intro mult_mono) auto
    then have c: "0 < mbr_c C" using o(5) by simp
    have bN: "b < mbr_m C + mbr_c C" using b(2) o(4) by simp
    have "d < k \<or> p < k" using d(4) [of p] p by fastforce
    moreover have "mbr_d ?g b < mbr_e ?g b" by (rule mbr_edge(4)) (use b k in auto)
    ultimately have "mbr_d ?g b < k" using e by (auto simp: doubleton_eq_iff)
    then have "b < mbr_m C" using mbr_native_low [OF C _ k(2) b(1) bN] k(1) by simp
    then show ?thesis using mbr_decode_coded_ok [OF C n L P t c b(1) _ sz(1,2)] by simp
  qed
  show ?thesis
  proof (cases "q < d")
    case True
    define b where "b = mbr_start ?g q + (d - 1 - q)"
    have dg: "d \<le> ?g" using d by simp
    note e = mbr_of_edge [OF q(1) True dg, folded b_def]
    note e' = mbr_edge(1,2) [OF e(1,2) _ o(8)] mbr_edge(3-7) [OF e(1,2)]
    have p: "mbr_partner ?g d r = q" using True by (simp add: mbr_partner_def q_def [symmetric])
    have "mbr_copy ?g ?bs v t b = mbr_cell ?g ?bs v t b"
      using mbr_codedD(1) [OF P t, of b] e(1,2) by (simp add: o(2,4))
    then have v: "disk_blk ?bs v d r = mbr_cell ?g ?bs v t b" by (simp add: mbr_copy_def e rt)
    have u: "mbr_decode C d buf sz off s = (if disk_status s q \<noteq> 1
        then Some (nc_readDisk q (zeros (nat sz)) sz (i32 (i32 (d - 1 + t * ?g) * ?bs)) s)
        else mbr_decode_coded C b t (zeros (nat sz)) sz s)"
      using e'(1,2,7) e(3,4) k True d(3) fb d(1) q t
      by (simp add: mbr_decode_def Let_def o(2) sd ir it b0 b_def)
    show ?thesis
    proof (cases "disk_status s q = 1")
      case True
      have "{mbr_d ?g b, mbr_e ?g b} = {d, q}" using e(3,4) by auto
      then show ?thesis using coded [OF e(1,2) q(1) _ True] q \<open>q < d\<close> u p v True by auto
    next
      case False
      then show ?thesis using rd [of q "d - 1"] q dg \<open>q < d\<close> u p v by (simp add: mbr_cell_def e(3,4))
    qed
  next
    case False
    define b where "b = mbr_start ?g d + (q - d)"
    have "d < q + 1" "q + 1 \<le> ?g" "b = mbr_start ?g d + (q + 1 - 1 - d)" using False q by (simp_all add: b_def)
    note e = mbr_of_edge [OF d(1) this(1,2), folded this(3)]
    note e' = mbr_edge(1,2) [OF e(1,2) _ o(8)] mbr_edge(3-7) [OF e(1,2)]
    have p: "mbr_partner ?g d r = q + 1" using False by (simp add: mbr_partner_def q_def [symmetric])
    have cp: "mbr_copy ?g ?bs v t b = mbr_cell ?g ?bs v t b"
      using mbr_codedD(1) [OF P t, of b] e(1,2) by (simp add: o(2,4))
    have v: "disk_blk ?bs v d r = mbr_cell ?g ?bs v t b" by (simp add: mbr_cell_def e rt)
    have u: "mbr_decode C d buf sz off s = (if disk_status s (q + 1) \<noteq> 1
        then Some (nc_readDisk (q + 1) (zeros (nat sz)) sz (i32 (i32 (d + t * ?g) * ?bs)) s)
        else mbr_decode_coded C b t (zeros (nat sz)) sz s)"
      using e'(1,2,7) e k False d(3) fb d(1) q t
      by (simp add: mbr_decode_def Let_def o(2) sd ir it b0 b_def [symmetric] mbr_get_dup_block_no_def)
    show ?thesis
    proof (cases "disk_status s (q + 1) = 1")
      case True
      have "{mbr_d ?g b, mbr_e ?g b} = {d, q + 1}" using e(3,4) by auto
      then show ?thesis using coded [OF e(1,2) _ _ True] q False u p v True by auto
    next
      case False
      then show ?thesis using rd [of "q + 1" d] q \<open>\<not> q < d\<close> d u p v cp by (simp add: mbr_copy_def e(3,4))
    qed
  qed
qed

text \<open>A fresh array is coded.\<close>

lemma mbr_coded_fresh:
  assumes C: "mbr_ok n k C" "1 \<le> n" and bs: "0 < bs"
  shows "mbr_coded C S bs (content (fresh_array ty n k' bs (S * (n - 1))))"
proof -
  let ?v = "content (fresh_array ty n k' bs (S * (n - 1)))" and ?g = "n - 1"
  note o = mbr_okD [OF C(1)]
  have z: "disk_blk bs ?v p r = zeros (nat bs)" if "0 \<le> p" "p < n" "0 \<le> r" "r < S * ?g" for p r
    using zeros_blk [of ?v p S ?g bs r] that bs by (simp add: content_fresh)
  have c: "mbr_cell ?g bs ?v t b = zeros (nat bs) \<and> mbr_copy ?g bs ?v t b = zeros (nat bs)"
    if t: "0 \<le> t" "t < S" and b: "0 \<le> b" "b < mbr_m C + mbr_c C" for t b
  proof -
    have bg: "b < mbr_start ?g ?g" using b(2) o(4) by simp
    have g0: "0 \<le> ?g" using C(2) by simp
    note e = mbr_edge(1,2) [OF b(1) bg g0 o(8)] mbr_edge(3-7) [OF b(1) bg g0]
    show ?thesis unfolding mbr_cell_def mbr_copy_def
      using z [of "mbr_d ?g b" "t * ?g + (mbr_e ?g b - 1)"] z [of "mbr_e ?g b" "t * ?g + mbr_d ?g b"]
        group_rows [OF t, of "mbr_e ?g b - 1" ?g] group_rows [OF t, of "mbr_d ?g b" ?g] e(3-5) by auto
  qed
  have p: "rs_parity_ok (mbr_m C) (mbr_c C) G (nat bs) (mbr_cell ?g bs ?v t)" if t: "0 \<le> t" "t < S" for t G
    unfolding rs_parity_ok_def list_all_iff
  proof (intro ballI)
    fix i a assume h: "i \<in> set [0..mbr_c C - 1]" "a \<in> set [0..<nat bs]"
    have "xsum (\<lambda>j. gmul (ent (mbr_m C) G i j) (mbr_cell ?g bs ?v t j ! a)) [0..mbr_m C - 1] =
        xsum (\<lambda>_. 0) [0..mbr_m C - 1]"
      using h c [OF t] by (intro xsum_cong) (auto simp: gmul_0)
    then show "mbr_cell ?g bs ?v t (mbr_m C + i) ! a =
        xsum (\<lambda>j. gmul (ent (mbr_m C) G i j) (mbr_cell ?g bs ?v t j ! a)) [0..mbr_m C - 1]"
      using h c [OF t, of "mbr_m C + i"] o(6) by simp
  qed
  show ?thesis unfolding mbr_coded_def Let_def o(2) list_all_iff
    using c p by (auto split: option.split)
qed

text \<open>
  C9: The MBR code survives the loss of any \<open>n - k\<close> disks, as long as not both disks of a coded block are
  lost (two of the last \<open>n - k\<close> disks): \<open>decode\<close> of a lost disk returns the start of the block the offset lies
  in, from its duplicate when there is one, and else from the other blocks of the segment, where the last
  bytes of a size that is not a multiple of four are zero. This is what the disk held at the offset when
  the offset is that of a block.
\<close>

theorem mbr_degraded_read:
  assumes "mbr_new junk_tables junk s = Some C" "array_ok (S * (disk_total_num s - 1)) s"
    and "mbr_coded C S (disk_block_size s) (content s)"
    and "2 \<le> disk_total_num s" "disk_total_num s \<le> 23" "1 \<le> data_disk_num s" "data_disk_num s < disk_total_num s"
    and "set F \<subseteq> set (disk_ids s)" "int (length F) \<le> disk_total_num s - data_disk_num s"
    and "d \<in> set F" "list_all (\<lambda>e. e = d \<or> e < data_disk_num s \<or> d < data_disk_num s) F"
    and "0 \<le> off" "off < S * (disk_total_num s - 1) * disk_block_size s"
    and "0 < sz" "sz \<le> disk_block_size s" "length buf = nat sz"
  defines "r \<equiv> off div disk_block_size s"
  defines "held \<equiv> take (nat sz) (drop (nat (r * disk_block_size s)) (content s d))"
  shows "mbr_decode C d buf sz off (fail_disks F s) =
      Some (sz, if mbr_partner (disk_total_num s - 1) d r \<in> set F then int_bytes sz held else held, fail_disks F s) \<and>
    (disk_block_size s dvd off \<longrightarrow> held = take (nat sz) (drop (nat off) (content s d)))"
proof (intro conjI impI)
  let ?n = "disk_total_num s" and ?bs = "disk_block_size s" and ?s = "fail_disks F s"
  have C: "mbr_ok ?n (data_disk_num s) C" by (rule mbr_made_ok [OF assms(1,4-7)])
  have a: "list_all (\<lambda>i. disk_status s i = 0) (disk_ids s)"
    "distinct (map (dev_name s) (disk_ids s))" using assms(2) by (simp_all add: array_ok_def list_all_iff)
  note f = fail_disks_fields [OF assms(8) a(2)]
  have l: "rs_lost (S * (?n - 1)) (content s) ?s" by (rule rs_lost_fail_disks) (use assms in auto)
  have d: "0 \<le> d" "d < ?n" using assms(8,10) by auto
  have st: "disk_status ?s p = 1 \<longleftrightarrow> p \<in> set F" if "0 \<le> p" "p < ?n" for p
    using a(1) that by (auto simp: f(4) list_all_iff)
  have g: "0 < ?n - 1" using assms(4) by simp
  have p: "0 \<le> mbr_partner (?n - 1) d r" "mbr_partner (?n - 1) d r < ?n"
    using pos_mod_bound [OF g, of r] pos_mod_sign [OF g, of r] d unfolding mbr_partner_def by auto
  have ex: "e = d \<or> d < data_disk_num s" if "data_disk_num s \<le> e" "e < ?n" "disk_status ?s e = 1" for e
    using that st [of e] assms(6,11) by (auto simp: list_all_iff)
  have "mbr_decode C d buf sz off ?s = Some (sz,
    if disk_status ?s (mbr_partner (?n - 1) d r) = 1 then int_bytes sz (take (nat sz) (disk_blk ?bs (content s) d r))
    else take (nat sz) (disk_blk ?bs (content s) d r), ?s)"
    unfolding r_def by (rule mbr_decode_run [where S = S, OF C _ _ _ l, unfolded f(1-3)])
      (use assms(3,4,12-16) st d ex assms(10) in auto)
  moreover have "take (nat sz) (disk_blk ?bs (content s) d r) = held"
    using assms(15) by (simp add: disk_blk_def held_def min_def)
  ultimately show "mbr_decode C d buf sz off ?s =
      Some (sz, if mbr_partner (?n - 1) d r \<in> set F then int_bytes sz held else held, ?s)"
    using st [OF p] by simp
  show "held = take (nat sz) (drop (nat off) (content s d))" if "?bs dvd off"
    using that by (simp add: held_def r_def)
qed

theorem mbr_degraded_read_witness:
  "case mbr_new no_tables (\<lambda>_. 0) (fresh_array 1000 4 2 4 3) of None \<Rightarrow> False
   | Some C \<Rightarrow> map_option (\<lambda>r. fst (snd r))
       (mbr_decode C 1 [1, 1, 1, 1] 4 8 (fail_disks [1, 3] (fresh_array 1000 4 2 4 3))) = Some (zeros 4)"
proof -
  let ?s = "fresh_array 1000 4 2 4 3"
  obtain C where C: "mbr_new no_tables (\<lambda>_. 0) ?s = Some C" "mbr_ok 4 2 C"
    by (rule mbr_new_ok [of ?s]) simp_all
  have "mbr_coded C 1 4 (content ?s)" using mbr_coded_fresh [OF C(2), of 4 1 1000 2] by simp
  then show ?thesis
    using mbr_degraded_read [of no_tables "\<lambda>_. 0" ?s C 1 "[1, 3]" 1 8 4 "[1, 1, 1, 1]"] C
    by (simp add: array_ok_fresh content_fresh mbr_partner_def) (simp add: zeros_def int_bytes_id)
qed

section \<open>Recovery\<close>

definition mbr_rebuilding :: "mbr_code \<Rightarrow> (int \<Rightarrow> byte list) \<Rightarrow> int \<Rightarrow> int \<Rightarrow> int \<Rightarrow> byte list \<Rightarrow> sys option \<Rightarrow> bool" where
  "mbr_rebuilding C w m bs d v st \<longleftrightarrow> (case st of None \<Rightarrow> False
     | Some s \<Rightarrow> (let g = disk_total_num s - 1; k = data_disk_num s
         in bs = disk_block_size s \<and> v = w d \<and> 0 \<le> d \<and> d < disk_total_num s \<and> disk_status s d = 1 \<and>
         mbr_ok (disk_total_num s) k C \<and> 0 < g \<and> g dvd m \<and> rs_lost m w s \<and> mbr_coded C (m div g) bs w \<and>
         (\<forall>e. k \<le> e \<and> e < disk_total_num s \<and> disk_status s e = 1 \<longrightarrow> e = d \<or> d < k) \<and>
         int (length (content s d)) = m * bs))"

interpretation mbr: block_rebuild rs_rd rs_wr rs_content rs_frame "mbr_dec C" "mbr_rebuilding C w"
  for C w
proof
  fix m bs d i v and st :: "sys option" and buf :: "byte list"
  assume l: "mbr_rebuilding C w m bs d v st"
  then obtain s where st: "st = Some s" by (cases st) (auto simp: mbr_rebuilding_def)
  define S where "S = m div (disk_total_num s - 1)"
  have r: "bs = disk_block_size s" "v = w d" "0 \<le> d" "d < disk_total_num s" "disk_status s d = 1"
    "mbr_ok (disk_total_num s) (data_disk_num s) C" "0 < disk_total_num s - 1" "m = S * (disk_total_num s - 1)"
    "rs_lost m w s" "mbr_coded C S bs w"
    "\<And>e. data_disk_num s \<le> e \<Longrightarrow> e < disk_total_num s \<Longrightarrow> disk_status s e = 1 \<Longrightarrow> e = d \<or> d < data_disk_num s"
    "int (length (content s d)) = m * bs"
    using l by (auto simp: st mbr_rebuilding_def Let_def S_def)
  note g = rs_lostD [OF r(9)]
  have lw: "int (length (w d)) = m * bs" "4 dvd bs" using g(4) [of d] r(1,3,4,9) by (auto simp: rs_lost_def)
  show "0 < bs \<and> m * bs < 2147483648 \<and> int (length v) = m * bs \<and> int (length (rs_content st d)) = m * bs"
    using g(1,2) r(1,2,12) lw by (simp add: st rs_content_def)
  assume i: "0 \<le> i" "i < m" and b: "length buf = nat bs"
  have a: "0 \<le> i * bs" "i * bs + bs \<le> m * bs" using block_addr [of bs m i] g(1,2) r(1) i by auto
  let ?x = "disk_blk bs w d i"
  have x: "?x = take (nat bs) (drop (nat (i * bs)) (w d))" by (simp add: disk_blk_def)
  have lx: "length ?x = nat bs" unfolding x using a lw(1) g(1) r(1) by simp
  have q: "i * bs div bs = i" using g(1) r(1) by simp
  have h: "1 \<le> disk_total_num s" "rs_lost (S * (disk_total_num s - 1)) w s" "mbr_coded C S (disk_block_size s) w"
    "i * bs < S * (disk_total_num s - 1) * disk_block_size s" "0 < bs" "bs \<le> disk_block_size s"
    using r(1,7,8,9,10) a g(1) i by simp_all
  have "mbr_decode C d buf bs (i * bs) s = Some (bs,
    if disk_status s (mbr_partner (disk_total_num s - 1) d (i * bs div disk_block_size s)) = 1
    then int_bytes bs (take (nat bs) (disk_blk (disk_block_size s) w d (i * bs div disk_block_size s)))
    else take (nat bs) (disk_blk (disk_block_size s) w d (i * bs div disk_block_size s)), s)"
    by (rule mbr_decode_run [OF r(6) h(1) refl refl h(2,3) r(3-5) _ a(1) h(4-6) b]) (rule r(11))
  then have "mbr_decode C d buf bs (i * bs) s = Some (bs,
    if disk_status s (mbr_partner (disk_total_num s - 1) d i) = 1 then int_bytes bs (take (nat bs) ?x)
    else take (nat bs) ?x, s)"
    unfolding r(1) [symmetric] q .
  moreover have "int_bytes bs ?x = ?x" using lw lx by (intro int_bytes_id) auto
  ultimately show "\<exists>t. mbr_dec C d buf bs (i * bs) st = (bs, take (nat bs) (drop (nat (i * bs)) v), t) \<and>
      rs_content t = rs_content st \<and> rs_frame t = rs_frame st \<and> mbr_rebuilding C w m bs d v t"
    using l r(2) lx x by (simp add: st mbr_dec_def)
  define t where "t = snd (nc_writeDisk d buf bs (i * bs) s)"
  have w: "frame t = frame s" "content t = (content s)(d := overwrite (content s d) (nat (i * bs)) (take (nat bs) buf))"
    "length (content t d) = length (content s d)"
    using nc.wr_rest [of bs "i * bs" s d buf] nc.wr_cnt [of bs "i * bs" s d buf]
      nc.wr_len [of bs "i * bs" s d buf d] a g(1) r(1,12) b by (auto simp: t_def)
  have "rs_lost m w t"
    using r(5,9) w(2) by (auto simp: rs_lost_def frame_eqD(1,2,3,10) [OF w(1)] list_all_iff)
  then have "mbr_rebuilding C w m bs d v (Some t)"
    using l w(3) unfolding r(1) by (simp add: st mbr_rebuilding_def frame_eqD(1,2,3,10) [OF w(1)] Let_def)
  then show "mbr_rebuilding C w m bs d v (snd (rs_wr d buf bs (i * bs) st))"
    by (cases "nc_writeDisk d buf bs (i * bs) s") (simp add: st rs_wr_def t_def)
qed

text \<open>
  C12: Recovery of the MBR code rebuilds a lost disk on its replacement, data, duplicates and coded blocks,
  also while other disks are lost, as long as not both disks of a coded block are lost; it changes no other
  disk and reports success.
\<close>

theorem mbr_recover_ok:
  assumes "mbr_new junk_tables junk s = Some C"
    and "2 \<le> disk_total_num s" "disk_total_num s \<le> 23" "1 \<le> data_disk_num s" "data_disk_num s < disk_total_num s"
    and "disk_size s d = S * (disk_total_num s - 1)" "rs_lost (disk_size s d) w s"
    and "mbr_coded C S (disk_block_size s) w"
    and "0 \<le> d" "d < disk_total_num s" "disk_status s d = 1"
    and "list_all (\<lambda>e. disk_status s e = 1 \<longrightarrow> e = d \<or> e < data_disk_num s \<or> d < data_disk_num s) (disk_ids s)"
    and "int (length (content s d)) = disk_size s d * disk_block_size s"
  shows "\<exists>s'. mbr_recover C d s = Some (0, s') \<and> content s' = (content s)(d := w d)"
proof -
  let ?bs = "disk_block_size s" and ?m = "disk_size s d"
  have "mbr_ok (disk_total_num s) (data_disk_num s) C" by (rule mbr_made_ok [OF assms(1-5)])
  then have l: "mbr_rebuilding C w ?m ?bs d (w d) (Some s)"
    using assms(2,4,6-13) by (auto simp: mbr_rebuilding_def Let_def list_all_iff)
  have m: "0 \<le> ?m" and bs: "0 < ?bs" using assms(7) by (simp_all add: rs_lost_def)
  let ?r = "rebuild_blocks (mbr_dec C) rs_wr (\<lambda>b. overwrite b 0 (zeros (nat ?bs))) d ?bs [0..?m - 1]
    (malloc (heap_junk s) (nat ?bs)) (Some s)"
  have c: "rs_content ?r = (content s)(d := w d)" and f: "rs_frame ?r = rs_frame (Some s)"
    using mbr.rebuild_all [OF l m, of "\<lambda>b. overwrite b 0 (zeros (nat ?bs))" "malloc (heap_junk s) (nat ?bs)"] bs
    by (simp_all add: rs_content_def)
  obtain s' where "?r = Some s'" using f by (cases ?r) (auto simp: rs_frame_def)
  then show ?thesis using c by (simp add: mbr_recover_def Let_def rs_content_def)
qed

theorem mbr_recover_ok_witness:
  "case mbr_new no_tables (\<lambda>_. 0) (fresh_array 1000 4 2 4 3) of None \<Rightarrow> False
   | Some C \<Rightarrow> map_option (\<lambda>r. content (snd r) 1)
       (mbr_recover C 1 ((fresh_array 1000 4 2 4 3)\<lparr>disk_status := (\<lambda>i. if i = 1 \<or> i = 3 then 1 else 0)\<rparr>)) =
       Some (zeros 12)"
proof -
  let ?f = "fresh_array 1000 4 2 4 3"
  let ?s = "?f\<lparr>disk_status := (\<lambda>i. if i = 1 \<or> i = 3 then 1 else 0)\<rparr>"
  obtain C where C: "mbr_new no_tables (\<lambda>_. 0) ?f = Some C" "mbr_ok 4 2 C"
    by (rule mbr_new_ok [of ?f]) simp_all
  have C': "mbr_new no_tables (\<lambda>_. 0) ?s = Some C" using C(1) by (simp add: mbr_new_def Let_def)
  have c: "content ?s = content ?f" by (rule content_cong) simp_all
  have "mbr_coded C 1 4 (content ?f)" using mbr_coded_fresh [OF C(2), of 4 1 1000 2] by simp
  moreover have "rs_lost 3 (content ?f) ?s"
    by (simp add: rs_lost_def c list_all_iff content_fresh upto.simps)
  ultimately show ?thesis
    using mbr_recover_ok [of no_tables "\<lambda>_. 0" ?s C 1 1 "content ?f"] C C' by (auto simp: c content_fresh list_all_iff)
qed

section \<open>Writing\<close>

text \<open>The disks step over blocks that hold no data.\<close>

lemma mbr_mark_fold:
  "distinct xs \<Longrightarrow> foldl (mbr_mark_step C) s xs = s
     \<lparr>free_offset := (\<lambda>i. if i \<in> set xs \<and> \<not> mbr_native C i (free_offset s i) then free_offset s i + 1
                          else free_offset s i),
      free_size := (\<lambda>i. if i \<in> set xs \<and> \<not> mbr_native C i (free_offset s i) then free_size s i - 1
                        else free_size s i)\<rparr>"
proof (induction xs rule: rev_induct)
  case (snoc x xs)
  then show ?case
    by (auto simp: mbr_mark_step_def put_free_offset_def put_free_size_def fun_eq_iff intro!: sys.equality)
qed simp

lemma mbr_mark_eq: "mbr_mark C s = s
     \<lparr>free_offset := (\<lambda>i. if i \<in> set (disk_ids s) \<and> \<not> mbr_native C i (free_offset s i) then free_offset s i + 1
                          else free_offset s i),
      free_size := (\<lambda>i. if i \<in> set (disk_ids s) \<and> \<not> mbr_native C i (free_offset s i) then free_size s i - 1
                        else free_size s i)\<rparr>"
  unfolding mbr_mark_def by (rule mbr_mark_fold) simp

lemma mbr_mark_fields [simp]:
  "disk_total_num (mbr_mark C s) = disk_total_num s" "data_disk_num (mbr_mark C s) = data_disk_num s"
  "disk_block_size (mbr_mark C s) = disk_block_size s" "heap_junk (mbr_mark C s) = heap_junk s"
  "disk_size (mbr_mark C s) = disk_size s" "disk_status (mbr_mark C s) = disk_status s"
  "dev_name (mbr_mark C s) = dev_name s" "devices (mbr_mark C s) = devices s"
  "space_list_head (mbr_mark C s) = space_list_head s" "content (mbr_mark C s) = content s"
  unfolding mbr_mark_eq by (simp_all add: content_def fun_eq_iff)

lemma array_ok_mbr_mark [simp]: "array_ok m (mbr_mark C s) = array_ok m s"
  by (simp add: array_ok_def)

lemma alloc_ok_mbr_mark: "alloc_ok data m s \<Longrightarrow> alloc_ok data m (mbr_mark C s)"
  unfolding alloc_ok_def mbr_mark_eq by (fastforce simp: list_all_iff)

lemma mbr_pick_ok:
  assumes "mbr_pick C req s = (d, b)" "d \<noteq> -1"
  shows "0 \<le> d \<and> d < disk_total_num s \<and> req \<le> free_size s d \<and> b = free_offset s d \<and> mbr_native C d b"
proof -
  let ?P = "\<lambda>(d, b, fo :: int). d \<noteq> -1 \<longrightarrow>
    0 \<le> d \<and> d < disk_total_num s \<and> req \<le> free_size s d \<and> b = free_offset s d \<and> mbr_native C d b"
  have "?P (foldl (mbr_pick_step C req s) (-1, 0, free_offset s 0) (rev (disk_ids s)))"
    by (rule foldl_keeps [where P = ?P]) (auto simp: mbr_pick_step_def split: prod.splits)
  then show ?thesis using assms by (auto simp: mbr_pick_def split: prod.splits)
qed

text \<open>One block of a disk is changed.\<close>

lemma mbr_write:
  assumes i: "in_array m s p r sz" "nat sz \<le> length buf"
  defines "w \<equiv> snd (nc_writeDisk p buf sz (i32 (r * disk_block_size s)) s)"
  shows "array_ok m w" "frame w = frame s"
    "\<And>p' r'. 0 \<le> p' \<Longrightarrow> p' < disk_total_num s \<Longrightarrow> 0 \<le> r' \<Longrightarrow> r' < m \<Longrightarrow>
      disk_blk (disk_block_size s) (content w) p' r' = (if p' = p \<and> r' = r
        then overwrite (disk_blk (disk_block_size s) (content s) p r) 0 (take (nat sz) buf)
        else disk_blk (disk_block_size s) (content s) p' r')"
proof -
  note a = array_write [OF i, folded w_def]
  show "array_ok m w" "frame w = frame s" by (rule a(4), rule a(2))
  fix p' r' assume p: "0 \<le> p'" "p' < disk_total_num s" "0 \<le> r'" "r' < m"
  have g: "0 < disk_block_size s" "m * disk_block_size s < 2147483648" "0 \<le> r" "r < m" "0 < sz" "sz \<le> disk_block_size s"
    "int (length (content s p)) = m * disk_block_size s" "int (length (content s p')) = m * disk_block_size s"
    using i(1) p(1,2) by (auto simp: in_array_def array_ok_def list_all_iff)
  note b = block_addr [OF g(1-4)] and b' = block_addr(3) [OF g(1,2) p(3,4)]
  show "disk_blk (disk_block_size s) (content w) p' r' = (if p' = p \<and> r' = r
        then overwrite (disk_blk (disk_block_size s) (content s) p r) 0 (take (nat sz) buf)
        else disk_blk (disk_block_size s) (content s) p' r')"
    unfolding w_def b(1) using blk_wr(3) [OF g(5,6,3) i(2) _ p(3)] b(3) b' g(7,8) by simp
qed

text \<open>The places of two blocks are different.\<close>

lemma mbr_places_eq:
  assumes "0 \<le> b" "b < mbr_start g g" "0 \<le> b'" "b' < mbr_start g g" "0 \<le> g"
  shows "mbr_d g b' = mbr_d g b \<and> t' * g + (mbr_e g b' - 1) = t * g + (mbr_e g b - 1) \<longleftrightarrow> t' = t \<and> b' = b"
    "mbr_e g b' = mbr_e g b \<and> t' * g + mbr_d g b' = t * g + mbr_d g b \<longleftrightarrow> t' = t \<and> b' = b"
    "\<not> (mbr_e g b' = mbr_d g b \<and> t' * g + mbr_d g b' = t * g + (mbr_e g b - 1))"
proof -
  note e = mbr_edge(3-6) [OF assms(1,2,5)] and e' = mbr_edge(3-6) [OF assms(3,4,5)]
  show "mbr_d g b' = mbr_d g b \<and> t' * g + (mbr_e g b' - 1) = t * g + (mbr_e g b - 1) \<longleftrightarrow> t' = t \<and> b' = b"
    using group_row_eq [of t' g "mbr_e g b' - 1" t "mbr_e g b - 1"] e e' by auto
  show "mbr_e g b' = mbr_e g b \<and> t' * g + mbr_d g b' = t * g + mbr_d g b \<longleftrightarrow> t' = t \<and> b' = b"
    using group_row_eq [of t' g "mbr_d g b'" t "mbr_d g b"] e e' by auto
  show "\<not> (mbr_e g b' = mbr_d g b \<and> t' * g + mbr_d g b' = t * g + (mbr_e g b - 1))"
    using group_row_eq [of t' g "mbr_d g b'" t "mbr_e g b - 1"] e e' by auto
qed

text \<open>
  One block written at both places. \<open>mbr_set\<close>: the blocks of segment \<open>t\<close> for which there is a new value \<open>y\<close>
  have their first bytes replaced by it.
\<close>

definition mbr_set :: "int \<Rightarrow> int \<Rightarrow> int \<Rightarrow> int \<Rightarrow> (int \<Rightarrow> byte list option) \<Rightarrow> (int \<Rightarrow> byte list) \<Rightarrow> (int \<Rightarrow> byte list) \<Rightarrow> bool" where
  "mbr_set g bs S t y v w \<longleftrightarrow> (\<forall>t' b. 0 \<le> t' \<and> t' < S \<and> 0 \<le> b \<and> b < mbr_start g g \<longrightarrow>
     (case if t' = t then y b else None of
        None \<Rightarrow> mbr_cell g bs w t' b = mbr_cell g bs v t' b \<and> mbr_copy g bs w t' b = mbr_copy g bs v t' b
      | Some x \<Rightarrow> mbr_cell g bs w t' b = overwrite (mbr_cell g bs v t' b) 0 x \<and>
          mbr_copy g bs w t' b = overwrite (mbr_copy g bs v t' b) 0 x))"

lemma mbr_setD:
  assumes "mbr_set g bs S t y v w" "0 \<le> t'" "t' < S" "0 \<le> b" "b < mbr_start g g"
  shows "mbr_cell g bs w t' b = (case if t' = t then y b else None of None \<Rightarrow> mbr_cell g bs v t' b
      | Some x \<Rightarrow> overwrite (mbr_cell g bs v t' b) 0 x)"
    "mbr_copy g bs w t' b = (case if t' = t then y b else None of None \<Rightarrow> mbr_copy g bs v t' b
      | Some x \<Rightarrow> overwrite (mbr_copy g bs v t' b) 0 x)"
  using assms(1) [unfolded mbr_set_def, rule_format, of t' b] assms(2-) by (auto split: option.splits)

lemma mbr_write_both:
  assumes n: "1 \<le> n" "disk_total_num s = n" and ok: "array_ok (S * (n - 1)) s"
    and t: "0 \<le> t" "t < S" and b: "0 \<le> b" "b < mbr_start (n - 1) (n - 1)"
    and sz: "0 < sz" "sz \<le> disk_block_size s" "nat sz \<le> length buf"
  defines "w1 \<equiv> snd (nc_writeDisk (mbr_d (n - 1) b) buf sz
    (i32 ((t * (n - 1) + (mbr_e (n - 1) b - 1)) * disk_block_size s)) s)"
  defines "w2 \<equiv> snd (nc_writeDisk (mbr_e (n - 1) b) buf sz (i32 ((t * (n - 1) + mbr_d (n - 1) b) * disk_block_size s)) w1)"
  shows "array_ok (S * (n - 1)) w2" "frame w2 = frame s"
    "mbr_set (n - 1) (disk_block_size s) S t [b \<mapsto> take (nat sz) buf] (content s) (content w2)"
proof -
  let ?g = "n - 1" and ?bs = "disk_block_size s" and ?m = "S * (n - 1)" and ?x = "take (nat sz) buf"
  have g0: "0 \<le> ?g" using n by simp
  note e = mbr_edge [OF b g0]
  have r: "0 \<le> t * ?g + (mbr_e ?g b - 1)" "t * ?g + (mbr_e ?g b - 1) < ?m" "0 \<le> t * ?g + mbr_d ?g b" "t * ?g + mbr_d ?g b < ?m"
    using group_rows [OF t, of "mbr_e ?g b - 1" ?g] group_rows [OF t, of "mbr_d ?g b" ?g] e(3-5) by auto
  have i1: "in_array ?m s (mbr_d ?g b) (t * ?g + (mbr_e ?g b - 1)) sz"
    using ok r e(3-5) n sz by (auto simp: in_array_def)
  note a1 = mbr_write [OF i1 sz(3), folded w1_def]
  note f1 = frame_eqD(1,3) [OF a1(2)]
  have i2: "in_array ?m w1 (mbr_e ?g b) (t * ?g + mbr_d ?g b) sz"
    using a1(1) r e(3-5) n sz f1 by (auto simp: in_array_def)
  note a2 = mbr_write [OF i2 sz(3), unfolded f1, folded w2_def]
  show "array_ok ?m w2" "frame w2 = frame s" using a2(1,2) a1(2) by simp_all
  have u: "disk_blk ?bs (content w1) (mbr_e ?g b) (t * ?g + mbr_d ?g b) =
      disk_blk ?bs (content s) (mbr_e ?g b) (t * ?g + mbr_d ?g b)"
    using a1(3) [of "mbr_e ?g b" "t * ?g + mbr_d ?g b"] e(3-5) r n by auto
  show "mbr_set ?g ?bs S t [b \<mapsto> ?x] (content s) (content w2)"
    unfolding mbr_set_def
  proof (intro allI impI)
    fix t' b' assume h: "0 \<le> t' \<and> t' < S \<and> 0 \<le> b' \<and> b' < mbr_start ?g ?g"
    then have t': "0 \<le> t'" "t' < S" and b': "0 \<le> b'" "b' < mbr_start ?g ?g" by auto
    note e' = mbr_edge [OF b' g0]
    have r': "0 \<le> t' * ?g + (mbr_e ?g b' - 1)" "t' * ?g + (mbr_e ?g b' - 1) < ?m" "0 \<le> t' * ?g + mbr_d ?g b'" "t' * ?g + mbr_d ?g b' < ?m"
      using group_rows [OF t', of "mbr_e ?g b' - 1" ?g] group_rows [OF t', of "mbr_d ?g b'" ?g] e'(3-5) by auto
    have p': "0 \<le> mbr_d ?g b'" "mbr_d ?g b' < disk_total_num s" "0 \<le> mbr_e ?g b'" "mbr_e ?g b' < disk_total_num s"
      using e'(3-5) n by auto
    note q = mbr_places_eq [OF b b' g0]
    have n1: "\<not> (mbr_d ?g b' = mbr_e ?g b \<and> t' * ?g + (mbr_e ?g b' - 1) = t * ?g + mbr_d ?g b)"
      using mbr_places_eq(3) [OF b' b g0, of t t'] by metis
    have c: "mbr_cell ?g ?bs (content w2) t' b' =
        (if t' = t \<and> b' = b then overwrite (mbr_cell ?g ?bs (content s) t b) 0 ?x else mbr_cell ?g ?bs (content s) t' b')"
      unfolding mbr_cell_def a2(3) [OF p'(1,2) r'(1,2)] a1(3) [OF p'(1,2) r'(1,2)] q(1) using n1 by (simp only: if_False)
    have k: "mbr_copy ?g ?bs (content w2) t' b' =
        (if t' = t \<and> b' = b then overwrite (mbr_copy ?g ?bs (content s) t b) 0 ?x else mbr_copy ?g ?bs (content s) t' b')"
      unfolding mbr_copy_def a2(3) [OF p'(3,4) r'(3,4)] u a1(3) [OF p'(3,4) r'(3,4)] q(2) using q(3) [of t' t]
      by (simp only: if_False)
    show "case if t' = t then [b \<mapsto> ?x] b' else None of
        None \<Rightarrow> mbr_cell ?g ?bs (content w2) t' b' = mbr_cell ?g ?bs (content s) t' b' \<and>
          mbr_copy ?g ?bs (content w2) t' b' = mbr_copy ?g ?bs (content s) t' b'
      | Some x \<Rightarrow> mbr_cell ?g ?bs (content w2) t' b' = overwrite (mbr_cell ?g ?bs (content s) t' b') 0 x \<and>
          mbr_copy ?g ?bs (content w2) t' b' = overwrite (mbr_copy ?g ?bs (content s) t' b') 0 x"
      using c k by auto
  qed
qed

lemma mbr_set_refl: "mbr_set g bs S t (\<lambda>_. None) v v"
  by (simp add: mbr_set_def)

lemma mbr_set_trans:
  assumes "mbr_set g bs S t y u v" "mbr_set g bs S t z v w" "dom y \<inter> dom z = {}"
  shows "mbr_set g bs S t (y ++ z) u w"
  unfolding mbr_set_def
proof (intro allI impI)
  fix t' b assume h: "0 \<le> t' \<and> t' < S \<and> 0 \<le> b \<and> b < mbr_start g g"
  have d: "z b \<noteq> None \<Longrightarrow> y b = None" using assms(3) by blast
  show "case if t' = t then (y ++ z) b else None of
        None \<Rightarrow> mbr_cell g bs w t' b = mbr_cell g bs u t' b \<and> mbr_copy g bs w t' b = mbr_copy g bs u t' b
      | Some x \<Rightarrow> mbr_cell g bs w t' b = overwrite (mbr_cell g bs u t' b) 0 x \<and>
          mbr_copy g bs w t' b = overwrite (mbr_copy g bs u t' b) 0 x"
    using mbr_setD [OF assms(1), of t' b] mbr_setD [OF assms(2), of t' b] h d
    by (auto simp: map_add_def split: option.splits)
qed

text \<open>What the loop over the coded blocks leaves.\<close>

lemma mbr_row_i32:
  assumes "array_ok (S * g) s" "0 \<le> t" "t < S" "0 \<le> q" "q < g"
  shows "i32 (q + t * g) = t * g + q"
proof -
  note w = group_rows [OF assms(2-5)]
  have bs: "0 < disk_block_size s" "S * g * disk_block_size s < 2147483648" using assms(1) by (auto simp: array_ok_def)
  note a = block_addr [OF bs w]
  have "t * g + q \<le> (t * g + q) * disk_block_size s"
    using mult_left_mono [of 1 "disk_block_size s" "t * g + q"] w(1) bs(1) by simp
  then have "q + t * g < 2147483648" "0 \<le> q + t * g" using a(3) bs w(1) by linarith+
  then show ?thesis using i32_id [of "q + t * g"] by simp
qed

lemma mbr_update_ok:
  assumes C: "mbr_ok n k C" and n: "1 \<le> n" and t: "0 \<le> t" "t < S" and nb: "0 \<le> nb" "nb < mbr_m C"
    and G: "ps \<noteq> [] \<Longrightarrow> mbr_matrix C = Some G" "bytes_in (mbr_c C * mbr_m C) G"
    and s: "disk_total_num s = n" "array_ok (S * (n - 1)) s"
    and sz: "0 < sz" "sz \<le> disk_block_size s" "length delta = nat (disk_block_size s)"
    and ps: "set ps \<subseteq> {0..<mbr_c C}" "distinct ps"
  obtains s' where "mbr_update C nb delta sz (disk_block_size s) t ps s = Some s'"
    "array_ok (S * (n - 1)) s'" "frame s' = frame s"
    "mbr_set (n - 1) (disk_block_size s) S t (\<lambda>b. if b - mbr_m C \<in> set ps
       then Some (map (\<lambda>j. mbr_cell (n - 1) (disk_block_size s) (content s) t b ! j XOR
         gmul (ent (mbr_m C) G (b - mbr_m C) nb) (delta ! j)) [0..<nat sz])
       else None) (content s) (content s')"
  using G(1) s sz ps
proof (induction ps arbitrary: s thesis)
  case Nil
  then show ?case by (simp add: mbr_set_refl)
next
  case (Cons i ps)
  let ?g = "n - 1" and ?bs = "disk_block_size s" and ?m = "mbr_m C" and ?b = "mbr_m C + i"
  let ?Y = "\<lambda>v b. map (\<lambda>j. mbr_cell ?g ?bs v t b ! j XOR gmul (ent ?m G (b - ?m) nb) (delta ! j)) [0..<nat sz]"
  note P = Cons.prems(2-)
  note o = mbr_okD [OF C]
  have g0: "0 \<le> ?g" using n by simp
  have i: "0 \<le> i" "i < mbr_c C" using P(7) by auto
  have b: "0 \<le> ?b" "?b < mbr_start ?g ?g" using i o(6) o(4) [symmetric] by simp_all
  note e = mbr_edge(1,2) [OF b g0 o(8)] mbr_edge(3-7) [OF b g0]
  have GS: "mbr_matrix C = Some G" using P(1) by simp
  have c: "0 \<le> G (i * ?m + nb)" "G (i * ?m + nb) < 256"
    using bytes_inD [OF G(2) in_range [of i "mbr_c C" nb ?m]] i nb by auto
  have r1: "0 \<le> mbr_e ?g ?b - 1" "mbr_e ?g ?b - 1 < ?g" and r2: "0 \<le> mbr_d ?g ?b" "mbr_d ?g ?b < ?g" using e(3-5) by auto
  note k1 = mbr_row_i32 [OF P(3) t r1] and k2 = mbr_row_i32 [OF P(3) t r2]
  note w1 = group_rows [OF t r1]
  have bs: "0 < ?bs" using P(3) by (simp add: array_ok_def)
  have ia: "in_array (S * ?g) s (mbr_d ?g ?b) (t * ?g + (mbr_e ?g ?b - 1)) ?bs"
    using P(2,3) e(3-5) w1 bs by (auto simp: in_array_def)
  have rd: "nc_readDisk (mbr_d ?g ?b) (zeros (nat ?bs)) ?bs (i32 ((t * ?g + (mbr_e ?g ?b - 1)) * ?bs)) s =
      (?bs, mbr_cell ?g ?bs (content s) t ?b, s)"
    using array_read [OF ia, of "zeros (nat ?bs)"] by (simp add: mbr_cell_def disk_blk_def block_of_def)
  have lc: "length (mbr_cell ?g ?bs (content s) t ?b) = nat ?bs"
    using length_block_of [OF ia] by (simp add: mbr_cell_def disk_blk_def block_of_def)
  define x where "x = xor_into (heap_junk s) (nat ?bs) (mbr_cell ?g ?bs (content s) t ?b)
    (rs_times (mbr_tables C) (G (i * ?m + nb)) delta)"
  have lx: "nat sz \<le> length x" using lc P(5) by (simp add: x_def)
  have y: "take (nat sz) x = ?Y (content s) ?b"
  proof (rule nth_equalityI)
    fix j assume "j < length (take (nat sz) x)"
    then have j: "j < nat sz" "j < nat ?bs" using P(5) by auto
    have "x ! j = mbr_cell ?g ?bs (content s) t ?b ! j XOR gmul (word_of_int (G (i * ?m + nb))) (delta ! j)"
      using j lc P(6) nth_rs_times [OF o(1) c, of j delta] by (simp add: x_def nth_xor_into)
    then show "take (nat sz) x ! j = ?Y (content s) ?b ! j" using j by (simp add: ent_def)
  qed (use lx in simp)
  define s1 where "s1 = snd (nc_writeDisk (mbr_d ?g ?b) x sz (i32 ((t * ?g + (mbr_e ?g ?b - 1)) * ?bs)) s)"
  define s2 where "s2 = snd (nc_writeDisk (mbr_e ?g ?b) x sz (i32 ((t * ?g + mbr_d ?g ?b) * ?bs)) s1)"
  note w = mbr_write_both [OF n P(2,3) t b P(4,5) lx, folded s1_def, folded s2_def]
  note f = frame_eqD [OF w(2)]
  have f1: "disk_block_size s1 = ?bs"
  proof -
    have "in_array (S * ?g) s (mbr_d ?g ?b) (t * ?g + (mbr_e ?g ?b - 1)) sz" using ia P(4,5) by (simp add: in_array_def)
    from mbr_write(2) [OF this lx] show ?thesis unfolding s1_def by (rule frame_eqD(3))
  qed
  have dp: "distinct ps" "set ps \<subseteq> {0..<mbr_c C}" "i \<notin> set ps" using P(7,8) by auto
  obtain s' where s': "mbr_update C nb delta sz (disk_block_size s2) t ps s2 = Some s'"
    "array_ok (S * ?g) s'" "frame s' = frame s2"
    "mbr_set ?g (disk_block_size s2) S t (\<lambda>b. if b - ?m \<in> set ps
       then Some (map (\<lambda>j. mbr_cell ?g (disk_block_size s2) (content s2) t b ! j XOR
         gmul (ent ?m G (b - ?m) nb) (delta ! j)) [0..<nat sz])
       else None) (content s2) (content s')"
    by (rule Cons.IH [of s2]) (use GS w(1) f(1,3) P dp in auto)
  have z: "(\<lambda>b. if b - ?m \<in> set ps then Some (?Y (content s2) b) else None) =
      (\<lambda>b. if b - ?m \<in> set ps then Some (?Y (content s) b) else None)" (is "?z2 = ?z")
  proof
    fix b'
    show "?z2 b' = ?z b'"
    proof (cases "b' - ?m \<in> set ps")
      case True
      then have "0 \<le> b' - ?m" "b' - ?m < mbr_c C" "b' \<noteq> ?b" using dp by auto
      then have "mbr_cell ?g ?bs (content s2) t b' = mbr_cell ?g ?bs (content s) t b'"
        using mbr_setD(1) [OF w(3) t, of b'] o(4,6) by simp
      then show ?thesis by simp
    qed simp
  qed
  have "mbr_set ?g ?bs S t ([?b \<mapsto> ?Y (content s) ?b] ++ ?z) (content s) (content s')"
  proof (rule mbr_set_trans)
    show "mbr_set ?g ?bs S t [?b \<mapsto> ?Y (content s) ?b] (content s) (content s2)" using w(3) unfolding y .
    show "mbr_set ?g ?bs S t ?z (content s2) (content s')" using s'(4) unfolding f(3) z .
    show "dom [?b \<mapsto> ?Y (content s) ?b] \<inter> dom ?z = {}" using dp(3) by (auto split: if_splits)
  qed
  also have "[?b \<mapsto> ?Y (content s) ?b] ++ ?z = (\<lambda>b. if b - ?m \<in> set (i # ps) then Some (?Y (content s) b) else None)"
    using dp(3) by (auto simp: map_add_def fun_eq_iff)
  finally have set: "mbr_set ?g ?bs S t (\<lambda>b. if b - ?m \<in> set (i # ps) then Some (?Y (content s) b) else None)
    (content s) (content s')" .
  have "mbr_update C nb delta sz ?bs t (i # ps) s = Some s'"
    using s'(1) f(3) rd e(1,2,7) GS k1 k2 f1
    by (cases "nc_writeDisk (mbr_d ?g ?b) x sz (i32 ((t * ?g + (mbr_e ?g ?b - 1)) * ?bs)) s";
        cases "nc_writeDisk (mbr_e ?g ?b) x sz (i32 ((t * ?g + mbr_d ?g ?b) * ?bs)) s1")
      (simp add: Let_def o(2) s1_def s2_def x_def mbr_get_dup_block_no_def)
  then show ?case using Cons.prems(1) s'(2,3) w(2) set by simp
qed

text \<open>New data in one block, and the products of the difference in the coded blocks, keep the code.\<close>

lemma mbr_set_coded:
  assumes C: "mbr_ok n k C" and n: "1 \<le> n" and P: "mbr_coded C S bs v" and t: "0 \<le> t" "t < S"
    and nb: "0 \<le> nb" "nb < mbr_m C" and x: "length x \<le> nat bs" and bs: "0 < bs"
    and len: "\<And>i. 0 \<le> i \<Longrightarrow> i < n \<Longrightarrow> int (length (v i)) = S * (n - 1) * bs"
    and G: "0 < mbr_c C \<Longrightarrow> mbr_matrix C = Some G"
    and W: "mbr_set (n - 1) bs S t ([nb \<mapsto> x] ++ (\<lambda>b. if b - mbr_m C \<in> {0..<mbr_c C}
       then Some (map (\<lambda>j. mbr_cell (n - 1) bs v t b ! j XOR
         gmul (ent (mbr_m C) G (b - mbr_m C) nb) (mbr_cell (n - 1) bs v t nb ! j XOR x ! j)) [0..<length x])
       else None)) v w"
  shows "mbr_coded C S bs w"
proof -
  let ?g = "n - 1" and ?m = "mbr_m C" and ?c = "mbr_c C"
  note o = mbr_okD [OF C]
  have c0: "0 \<le> ?c" using o(5) pred_prod [of "n - k"] by simp
  let ?y = "\<lambda>b. map (\<lambda>j. mbr_cell ?g bs v t b ! j XOR
         gmul (ent ?m G (b - ?m) nb) (mbr_cell ?g bs v t nb ! j XOR x ! j)) [0..<length x]"
  have new: "mbr_cell ?g bs w t' b = (if t' = t \<and> b = nb then overwrite (mbr_cell ?g bs v t b) 0 x
      else if t' = t \<and> ?m \<le> b then overwrite (mbr_cell ?g bs v t b) 0 (?y b) else mbr_cell ?g bs v t' b)"
    "mbr_copy ?g bs w t' b = (if t' = t \<and> b = nb then overwrite (mbr_copy ?g bs v t b) 0 x
      else if t' = t \<and> ?m \<le> b then overwrite (mbr_copy ?g bs v t b) 0 (?y b) else mbr_copy ?g bs v t' b)"
    if t': "0 \<le> t'" "t' < S" and b: "0 \<le> b" "b < ?m + ?c" for t' b
    using mbr_setD [OF W t' b(1) b(2)[unfolded o(4)]] nb b by (auto simp: map_add_def split: if_splits)
  have cp: "mbr_copy ?g bs v t' b = mbr_cell ?g bs v t' b"
    if "0 \<le> t'" "t' < S" "0 \<le> b" "b < ?m + ?c" for t' b
    using mbr_codedD(1) [OF P that] by (simp add: o(2))
  have par: "rs_parity_ok ?m ?c G' (nat bs) (mbr_cell ?g bs w t')"
    if t': "0 \<le> t'" "t' < S" and G': "mbr_matrix C = Some G'" for t' G'
  proof (cases "?c = 0")
    case True
    then show ?thesis by (simp add: rs_parity_ok_def)
  next
    case c: False
    have old: "rs_parity_ok ?m ?c G (nat bs) (mbr_cell ?g bs v t')" and GG: "G' = G"
      using mbr_codedD(2) [OF P t'] G G' c c0 by (simp_all add: o(2))
    show ?thesis
    proof (cases "t' = t")
      case False
      then show ?thesis using old rs_parity_cong [of ?m ?c "mbr_cell ?g bs w t'" "mbr_cell ?g bs v t'" G "nat bs"]
          new(1) [OF t'] o(6) c0 GG by simp
    next
      case True
      show ?thesis unfolding True GG
      proof (rule rs_parity_update [OF old [unfolded True] nb, where x = x and off = 0])
        show "length (mbr_cell ?g bs v t i) = nat bs" if "0 \<le> i" "i < ?m + ?c" for i
          by (rule length_mbr_cell [OF C n that t bs len])
        show "mbr_cell ?g bs w t j = (if j = nb then overwrite (mbr_cell ?g bs v t nb) 0 x else mbr_cell ?g bs v t j)"
          if "0 \<le> j" "j < ?m" for j using new(1) [OF t, of j] that c0 by simp
        show "mbr_cell ?g bs w t (?m + i) = overwrite (mbr_cell ?g bs v t (?m + i)) 0
          (map (\<lambda>j. mbr_cell ?g bs v t (?m + i) ! (0 + j) XOR gmul (ent ?m G i nb) (mbr_cell ?g bs v t nb ! (0 + j) XOR x ! j))
            [0..<length x])" if "0 \<le> i" "i < ?c" for i
          using new(1) [OF t, of "?m + i"] that nb o(6) by simp
      qed (use x in simp)
    qed
  qed
  have "mbr_copy ?g bs w t' b = mbr_cell ?g bs w t' b"
    if "0 \<le> t'" "t' < S" "0 \<le> b" "b < ?m + ?c" for t' b
    using new [OF that] cp [OF that] by (cases "t' = t") auto
  then show ?thesis unfolding mbr_coded_def Let_def o(2) list_all_iff
    using par by (auto split: option.split)
qed

text \<open>A block of data and its number.\<close>

lemma mbr_native_ok:
  assumes C: "mbr_ok n k C" and n: "2 \<le> n" and d: "0 \<le> d" "0 \<le> r" "r < S * (n - 1)" "mbr_native C d r"
  defines "b \<equiv> mbr_find_block_id d r (n - 1)"
  shows "0 \<le> b" "b < mbr_m C" "mbr_d (n - 1) b = d" "r = r div (n - 1) * (n - 1) + (mbr_e (n - 1) b - 1)"
    "0 \<le> r div (n - 1)" "r div (n - 1) < S"
proof -
  let ?g = "n - 1"
  note o = mbr_okD [OF C]
  have g: "0 < ?g" using n by simp
  show t: "0 \<le> r div ?g" "r div ?g < S" using d(2,3) g div_lt [of ?g r S] by (simp_all add: pos_imp_zdiv_nonneg_iff)
  have q: "0 \<le> r mod ?g" "r mod ?g < ?g" using g by simp_all
  have r: "r div ?g * ?g + r mod ?g = r" by (rule div_mult_mod_eq)
  have nd: "b \<noteq> -1" "b < mbr_m C" using d(4) by (simp_all add: mbr_native_def b_def o(2) Let_def)
  then have b: "d \<le> r mod ?g" "b = mbr_start ?g d + (r mod ?g + 1 - 1 - d)"
    using find_block(1) [OF d(1) q t(1), unfolded r] unfolding b_def by (auto split: if_splits)
  have "d < r mod ?g + 1" "r mod ?g + 1 \<le> ?g" using b(1) q by auto
  note e = mbr_of_edge [OF d(1) this, folded b(2)]
  show "0 \<le> b" "b < mbr_m C" "mbr_d ?g b = d" using e nd by simp_all
  show "r = r div ?g * ?g + (mbr_e ?g b - 1)" using e(4) r by simp
qed

text \<open>What \<open>encode\<close> leaves when block \<open>r\<close> of disk \<open>d\<close> was chosen.\<close>

lemma mbr_encode_run:
  assumes C: "mbr_ok n k C" and n: "2 \<le> n" "disk_total_num s = n" and ok: "array_ok (S * (n - 1)) s"
    and o: "or_space_list (mbr_pick C 1 (mbr_mark C s)) (mbr_mark C s) = (d, r, s1)" "d \<noteq> -1"
    and d: "0 \<le> d" "d < n" "0 \<le> r" "r < S * (n - 1)" "mbr_native C d r"
    and sz: "0 < sz" "sz \<le> disk_block_size s" "length buf = nat sz"
    and G: "0 < mbr_c C \<Longrightarrow> mbr_matrix C = Some G" "bytes_in (mbr_c C * mbr_m C) G"
  defines "b \<equiv> mbr_find_block_id d r (n - 1)" and "t \<equiv> r div (n - 1)"
  obtains s' where "mbr_encode C buf sz s = Some (\<lparr>bi_disk_id = d, bi_block_no = r\<rparr>, s')"
    "array_ok (S * (n - 1)) s'" "frame s' = frame (claim d r 1 s1)"
    "mbr_set (n - 1) (disk_block_size s) S t ([b \<mapsto> buf] ++ (\<lambda>b'. if b' - mbr_m C \<in> {0..<mbr_c C}
       then Some (map (\<lambda>j. mbr_cell (n - 1) (disk_block_size s) (content s) t b' ! j XOR gmul (ent (mbr_m C) G (b' - mbr_m C) b)
         (mbr_cell (n - 1) (disk_block_size s) (content s) t b ! j XOR buf ! j)) [0..<length buf])
       else None)) (content s) (content s')"
proof -
  let ?g = "n - 1" and ?bs = "disk_block_size s" and ?m = "mbr_m C" and ?c = "mbr_c C" and ?junk = "heap_junk s"
  note k = mbr_okD [OF C]
  note b = mbr_native_ok [OF C n(1) d(1,3-5), folded b_def t_def]
  have c0: "0 \<le> ?c" using k(5) pred_prod [of "n - k"] by simp
  have bN: "b < mbr_start ?g ?g" using b(2) k(4) c0 by simp
  have n1: "1 \<le> n" and g0: "0 \<le> ?g" using n by simp_all
  note e = mbr_edge(1,2) [OF b(1) bN g0 k(8), unfolded b(3)] mbr_edge(3-7) [OF b(1) bN g0, unfolded b(3)]
  have req: "round_to_block_size sz s = ?bs" "?bs sdiv ?bs = 1" "0 < ?bs"
    using ok sz round_one_block [of s sz] by (auto simp: array_ok_def)
  note f = or_space_list_fields [OF o(1), simplified]
  have ok1: "array_ok (S * ?g) s1" using ok array_ok_space [OF o(1)] by simp
  let ?sc = "claim d r 1 s1"
  have i1: "in_array (S * ?g) s1 d r ?bs" using ok1 d n f req by (simp add: in_array_def)
  define cell where "cell = mbr_cell ?g ?bs (content s) t b"
  have cl: "block_of s1 d r ?bs = cell" using b(4) f(3,11) by (simp add: cell_def mbr_cell_def disk_blk_def block_of_def b(3))
  have lc: "length cell = nat ?bs" using length_block_of [OF i1] cl by simp
  define delta where "delta = (if 0 < ?c then xor_into ?junk (nat ?bs) cell buf else malloc ?junk (nat ?bs))"
  have ld: "length delta = nat ?bs" using lc by (simp add: delta_def)
  have rd: "(if 0 < ?c then let (retstat, buf2, s) = nc_readDisk d (malloc ?junk (nat ?bs)) ?bs (i32 (r * ?bs)) s1
      in (xor_into ?junk (nat ?bs) buf2 buf, s) else (malloc ?junk (nat ?bs), s1)) = (delta, s1)"
    using array_read [OF i1, of "malloc ?junk (nat ?bs)"] cl f(3) by (simp add: delta_def)
  define sa where "sa = snd (nc_writeDisk d buf sz (i32 (r * ?bs)) ?sc)"
  define sb where "sb = snd (nc_writeDisk (mbr_e ?g b) buf sz (i32 ((t * ?g + d) * ?bs)) sa)"
  have fc: "disk_total_num ?sc = n" "disk_block_size ?sc = ?bs" "content ?sc = content s" using f n by simp_all
  have okc: "array_ok (S * ?g) ?sc" using ok1 by simp
  have lb: "nat sz \<le> length buf" using sz by simp
  note w = mbr_write_both [OF n1 fc(1) okc b(5,6,1) bN sz(1,2)[folded fc(2)] lb, unfolded fc(2,3) b(3),
      folded b(4), folded sa_def, folded sb_def]
  note fb = frame_eqD [OF w(2), unfolded fc(1,2)]
  have szb: "sz \<le> disk_block_size sb" "length delta = nat (disk_block_size sb)" using sz ld fb by simp_all
  have ps: "set [0..?c - 1] \<subseteq> {0..<?c}" "distinct [0..?c - 1]" by auto
  have GG: "[0..?c - 1] \<noteq> [] \<Longrightarrow> mbr_matrix C = Some G" using G(1) by simp
  obtain s' where s': "mbr_update C b delta sz (disk_block_size sb) t [0..?c - 1] sb = Some s'"
    "array_ok (S * ?g) s'" "frame s' = frame sb"
    "mbr_set ?g (disk_block_size sb) S t (\<lambda>b'. if b' - ?m \<in> set [0..?c - 1]
       then Some (map (\<lambda>j. mbr_cell ?g (disk_block_size sb) (content sb) t b' ! j XOR
         gmul (ent ?m G (b' - ?m) b) (delta ! j)) [0..<nat sz]) else None) (content sb) (content s')"
    by (rule mbr_update_ok [OF C n1 b(5,6,1,2) GG G(2) fb(1) w(1) sz(1) szb ps]) blast
  have y: "(\<lambda>b'. if b' - ?m \<in> set [0..?c - 1] then Some (map (\<lambda>j. mbr_cell ?g ?bs (content sb) t b' ! j XOR
         gmul (ent ?m G (b' - ?m) b) (delta ! j)) [0..<nat sz]) else None) =
      (\<lambda>b'. if b' - ?m \<in> {0..<?c} then Some (map (\<lambda>j. mbr_cell ?g ?bs (content s) t b' ! j XOR
         gmul (ent ?m G (b' - ?m) b) (cell ! j XOR buf ! j)) [0..<length buf]) else None)" (is "?z2 = ?z")
  proof
    fix b'
    show "?z2 b' = ?z b'"
    proof (cases "b' - ?m \<in> {0..<?c}")
      case True
      then have "mbr_cell ?g ?bs (content sb) t b' = mbr_cell ?g ?bs (content s) t b'"
        using mbr_setD(1) [OF w(3) b(5,6), of b'] k(4,6) b(2) by simp
      moreover have "delta ! j = cell ! j XOR buf ! j" if "j < length buf" for j
      proof -
        have "j < nat ?bs" using that sz by linarith
        then show ?thesis using that True lc sz by (simp add: delta_def nth_xor_into)
      qed
      ultimately show ?thesis using True sz(3) by simp
    next
      case False
      then show ?thesis by auto
    qed
  qed
  have set: "mbr_set ?g ?bs S t ([b \<mapsto> buf] ++ ?z) (content s) (content s')"
  proof (rule mbr_set_trans)
    show "mbr_set ?g ?bs S t [b \<mapsto> buf] (content s) (content sb)" using w(3) sz(3) by simp
    show "mbr_set ?g ?bs S t ?z (content sb) (content s')" using s'(4) unfolding fb(3) y .
    show "dom [b \<mapsto> buf] \<inter> dom ?z = {}" using b(2) by (auto split: if_splits)
  qed
  have enc: "mbr_encode C buf sz s = Some (\<lparr>bi_disk_id = d, bi_block_no = r\<rparr>, s')"
  proof -
    have sd: "r sdiv ?g = t" using d(3) g0 by (simp add: t_def)
    have kd: "i32 (d + t * ?g) = t * ?g + d" by (rule mbr_row_i32 [OF ok b(5,6) d(1)]) (use e(4,5) in linarith)
    show ?thesis
      using n o(2) req s'(1) fb(3) e(2) rd f(8)
      by (cases "nc_writeDisk d buf sz (i32 (r * ?bs)) ?sc";
          cases "nc_writeDisk (mbr_e ?g b) buf sz (i32 ((t * ?g + d) * ?bs)) sa")
        (simp add: mbr_encode_def k(2) o(1) Let_def sd kd sa_def sb_def b_def [symmetric] mbr_get_dup_block_no_def)
  qed
  have "frame s' = frame ?sc" using s'(3) w(2) by simp
  then show ?thesis by (rule that [OF enc s'(2) _ set [unfolded cell_def]])
qed

text \<open>
  C10: The MBR code keeps its segments: \<open>encode\<close> ends, stores the data in a block of data, every segment is a
  code word again, the duplicates are equal, and no other block of data changes.
\<close>

theorem mbr_encode_coded:
  assumes "mbr_new junk_tables junk s = Some C"
    and n: "2 \<le> disk_total_num s" "disk_total_num s \<le> 23" "1 \<le> data_disk_num s" "data_disk_num s < disk_total_num s"
    and ok: "array_ok (S * (disk_total_num s - 1)) s" "alloc_ok (mbr_native C) (S * (disk_total_num s - 1)) s"
    and coded: "mbr_coded C S (disk_block_size s) (content s)"
    and sz: "0 < sz" "sz \<le> disk_block_size s" "length buf = nat sz"
  shows "\<exists>r s'. mbr_encode C buf sz s = Some (r, s') \<and> (bi_disk_id r \<noteq> -1 \<longrightarrow>
    array_ok (S * (disk_total_num s - 1)) s' \<and> alloc_ok (mbr_native C) (S * (disk_total_num s - 1)) s' \<and>
    mbr_coded C S (disk_block_size s) (content s') \<and>
    mbr_native C (bi_disk_id r) (bi_block_no r) \<and> block_of s' (bi_disk_id r) (bi_block_no r) sz = buf \<and>
    (\<forall>p b. 0 \<le> p \<and> p < disk_total_num s \<and> 0 \<le> b \<and> b < S * (disk_total_num s - 1) \<and> mbr_native C p b \<and>
       (p, b) \<noteq> (bi_disk_id r, bi_block_no r) \<longrightarrow>
       block_of s' p b (disk_block_size s) = block_of s p b (disk_block_size s)))"
proof -
  let ?n = "disk_total_num s" and ?bs = "disk_block_size s" and ?g = "disk_total_num s - 1"
  have C: "mbr_ok ?n (data_disk_num s) C" by (rule mbr_made_ok [OF assms(1) n])
  note k = mbr_okD [OF C]
  have c0: "0 \<le> mbr_c C" using k(5) pred_prod [of "?n - data_disk_num s"] by simp
  have req: "round_to_block_size sz s = ?bs" "?bs sdiv ?bs = 1" "0 < ?bs"
    using ok sz round_one_block [of s sz] by (auto simp: array_ok_def)
  obtain d0 b0 where p: "mbr_pick C 1 (mbr_mark C s) = (d0, b0)" by fastforce
  obtain d r s1 where o: "or_space_list (d0, b0) (mbr_mark C s) = (d, r, s1)" by (metis prod_cases3)
  show ?thesis
  proof (cases "d = -1")
    case True
    then show ?thesis using req p o n(1) by (simp add: mbr_encode_def k(2) Let_def)
  next
    case dne: False
    have d0: "d0 \<noteq> -1 \<Longrightarrow> 0 \<le> d0 \<and> d0 < disk_total_num (mbr_mark C s) \<and> 1 \<le> free_size (mbr_mark C s) d0 \<and>
        b0 = free_offset (mbr_mark C s) d0 \<and> mbr_native C d0 b0"
      using mbr_pick_ok [OF p] by blast
    note c = alloc_ok_claim [OF alloc_ok_mbr_mark [OF ok(2)] o dne d0, simplified]
    have o': "or_space_list (mbr_pick C 1 (mbr_mark C s)) (mbr_mark C s) = (d, r, s1)" using o p by simp
    define G where "G = the (mbr_matrix C)"
    have G: "0 < mbr_c C \<Longrightarrow> mbr_matrix C = Some G" and Gb: "bytes_in (mbr_c C * mbr_m C) G"
      using k(7) c0 by (cases "mbr_c C = 0"; force simp: G_def bytes_in_def)+
    define b where "b = mbr_find_block_id d r ?g"
    define t where "t = r div ?g"
    note b = mbr_native_ok [OF C n(1) c(1,3-5), folded b_def t_def]
    obtain s' where s': "mbr_encode C buf sz s = Some (\<lparr>bi_disk_id = d, bi_block_no = r\<rparr>, s')"
      "array_ok (S * ?g) s'" "frame s' = frame (claim d r 1 s1)"
      "mbr_set ?g ?bs S t ([b \<mapsto> buf] ++ (\<lambda>b'. if b' - mbr_m C \<in> {0..<mbr_c C}
         then Some (map (\<lambda>j. mbr_cell ?g ?bs (content s) t b' ! j XOR gmul (ent (mbr_m C) G (b' - mbr_m C) b)
           (mbr_cell ?g ?bs (content s) t b ! j XOR buf ! j)) [0..<length buf])
         else None)) (content s) (content s')"
      unfolding b_def t_def by (rule mbr_encode_run [OF C n(1) refl ok(1) o' dne c(1-5) sz G Gb]) auto
    have len: "int (length (content s i)) = S * ?g * ?bs" if "0 \<le> i" "i < ?n" for i
      using ok(1) that by (simp add: array_ok_def list_all_iff)
    have bN: "b < mbr_m C + mbr_c C" using b(2) c0 by simp
    have n1: "1 \<le> ?n" using n(1) by simp
    have "length buf \<le> nat ?bs" using sz by simp
    note coded' = mbr_set_coded [OF C n1 coded b(5,6,1,2) this req(3) len G s'(4)]
    have blk: "block_of s' p q ?bs = mbr_cell ?g ?bs (content s') (q div ?g) (mbr_find_block_id p q ?g) \<and>
        block_of s p q ?bs = mbr_cell ?g ?bs (content s) (q div ?g) (mbr_find_block_id p q ?g)"
      if "0 \<le> p" "0 \<le> q" "q < S * ?g" "mbr_native C p q" for p q
      using mbr_native_ok(3,4) [OF C n(1) that] frame_eqD(3) [OF s'(3)] or_space_list_fields(3) [OF o]
      by (simp add: mbr_cell_def disk_blk_def block_of_def)
    have new: "mbr_cell ?g ?bs (content s') t b = overwrite (mbr_cell ?g ?bs (content s) t b) 0 buf"
      using mbr_setD(1) [OF s'(4) b(5,6,1)] bN b(2) by (simp add: k(4) map_add_def)
    have lc: "length (mbr_cell ?g ?bs (content s) t b) = nat ?bs"
      by (rule length_mbr_cell [OF C n1 b(1) bN b(5,6) req(3) len])
    have "block_of s' d r ?bs = overwrite (mbr_cell ?g ?bs (content s) t b) 0 buf"
      using blk [OF c(1,3-5)] new by (simp add: b_def t_def)
    moreover have "block_of s' d r sz = take (nat sz) (block_of s' d r ?bs)"
      using sz by (simp add: block_of_def min_def)
    ultimately have st: "block_of s' d r sz = buf" using lc sz by (simp add: overwrite_def)
    have rest: "block_of s' p q ?bs = block_of s p q ?bs"
      if h: "0 \<le> p" "p < ?n" "0 \<le> q" "q < S * ?g" "mbr_native C p q" "(p, q) \<noteq> (d, r)" for p q
    proof -
      define b' where "b' = mbr_find_block_id p q ?g"
      note x = mbr_native_ok [OF C n(1) h(1,3-5), folded b'_def]
      have "\<not> (q div ?g = t \<and> b' = b)" using x(3,4) b(3,4) h(6) by auto
      then have "mbr_cell ?g ?bs (content s') (q div ?g) b' = mbr_cell ?g ?bs (content s) (q div ?g) b'"
        using mbr_setD(1) [OF s'(4) x(5,6,1)] x(2) c0 by (auto simp: k(4) [symmetric] map_add_def)
      then show ?thesis using blk [OF h(1,3-5)] by (simp add: b'_def)
    qed
    have "alloc_ok (mbr_native C) (S * ?g) s'" using alloc_ok_frame [OF s'(3)] c(6) by simp
    then show ?thesis using s'(1,2) coded' c(5) st rest
      by (intro exI [of _ "\<lparr>bi_disk_id = d, bi_block_no = r\<rparr>"] exI [of _ s']) auto
  qed
qed

theorem mbr_encode_coded_witness:
  "case mbr_new no_tables (\<lambda>_. 0) (fresh_array 1000 4 2 4 3) of None \<Rightarrow> False
   | Some C \<Rightarrow> map_option (\<lambda>(r, s). block_of s 0 0 3)
       (mbr_encode C [7, 8, 9] 3 (fresh_array 1000 4 2 4 3)) = Some [7, 8, 9]"
proof -
  let ?s = "fresh_array 1000 4 2 4 3"
  obtain C where C: "mbr_new no_tables (\<lambda>_. 0) ?s = Some C" "mbr_ok 4 2 C"
    by (rule mbr_new_ok [of ?s]) simp_all
  have "mbr_coded C 1 4 (content ?s)" using mbr_coded_fresh [OF C(2), of 4 1 1000 2] by simp
  then obtain r s' where e: "mbr_encode C [7, 8, 9] 3 ?s = Some (r, s')"
    "bi_disk_id r \<noteq> -1 \<longrightarrow> block_of s' (bi_disk_id r) (bi_block_no r) 3 = [7, 8, 9]"
    using mbr_encode_coded [of no_tables "\<lambda>_. 0" ?s C 1 3 "[7, 8, 9]"] C(1)
      array_ok_fresh [of 4 3 1000 4 2] alloc_ok_fresh by auto
  have "mbr_m C = 5" using mbr_okD(3) [OF C(2)] by (simp add: mbr_start_def)
  then have "r = \<lparr>bi_disk_id = 0, bi_block_no = 0\<rparr>" using e(1) mbr_okD(2) [OF C(2)]
    by (auto simp: mbr_encode_def mbr_mark_def mbr_mark_step_def mbr_native_def mbr_find_block_id_def
        round_to_block_size_def mbr_pick_def mbr_pick_step_def or_space_list_def put_free_size_def put_free_offset_def
        upto.simps Let_def split: prod.splits option.splits)
  then show ?thesis using C(1) e by simp
qed

end
