(* ===== verification/CodingSrcRs.thy ===== *)
theory CodingSrcRs
  imports CodingRs DiskBlocks Config
begin

text \<open>
  Simple regenerating codes on top of Reed-Solomon (\<open>coding_src_rs.cc\<close>). Behind every \<open>src_f\<close> blocks of a
  disk lies a check block, the sum of \<open>src_f\<close> blocks of neighbouring disks, so that a lost block can be read
  from \<open>src_f\<close> others. The file system does not see the check blocks: block \<open>b\<close> of a disk is the block
  \<open>b + b / src_f\<close> on the device.
\<close>

section \<open>The operations\<close>

record src_rs =
  src_code :: rs_code
  src_f :: int

definition src_rs_new :: "galois \<Rightarrow> flat \<Rightarrow> xml_node option \<Rightarrow> sys \<Rightarrow> src_rs option" where
  "src_rs_new junk_tables junk e s =
     map_option (\<lambda>C. let f = getConfigInt ''FileSystem>Disk>Src>SrcF'' e
       in \<lparr>src_code = C, src_f = (if f < 0 then 0 else f)\<rparr>) (rs_new junk_tables junk s)"

definition src_addr :: "int \<Rightarrow> int \<Rightarrow> int \<Rightarrow> int" where
  "src_addr f block_size block_no = i32 (i32 (block_no + block_no sdiv f) * block_size)"

definition src_code_addr :: "int \<Rightarrow> int \<Rightarrow> int \<Rightarrow> int" where
  "src_code_addr f block_size block_no =
     (let src_code_block_no = i32 ((f + 1) * (block_no sdiv f + 1) - 1) in i32 (src_code_block_no * block_size))"

definition src_code_disk :: "int \<Rightarrow> int \<Rightarrow> int \<Rightarrow> int \<Rightarrow> int" where
  "src_code_disk f n disk_id block_no = (disk_id - f + block_no smod f + n) smod n"

text \<open>The coding disks one by one, each with the check block its block belongs to.\<close>

fun src_rs_parity :: "src_rs \<Rightarrow> int \<Rightarrow> byte list \<Rightarrow> int \<Rightarrow> int \<Rightarrow> int \<Rightarrow> int list \<Rightarrow> byte list \<Rightarrow> byte list \<Rightarrow> sys \<Rightarrow>
    sys option" where
  "src_rs_parity C d delta sz req block_no [] buf_write buf_src_code s = Some s"
| "src_rs_parity C d delta sz req block_no (i # is) buf_write buf_src_code s =
     (case generator_matrix (src_code C) of None \<Rightarrow> None
      | Some g \<Rightarrow>
          let k = data_disk_num s; n = disk_total_num s; bs = disk_block_size s; f = src_f C;
              data_disk_coeff = g (i * k + d);
              buf_temp = rs_times (rs_tables (src_code C)) data_disk_coeff delta;
              parity_disk_id = k + i;
              (retstat, buf_write, s) = nc_readDisk parity_disk_id buf_write req (src_addr f bs block_no) s;
              src_code_disk_id = src_code_disk f n parity_disk_id block_no;
              (retstat, buf_src_code, s) = nc_readDisk src_code_disk_id buf_src_code sz (src_code_addr f bs block_no) s;
              buf_src_code = xor_ints (heap_junk s) (nat sz) buf_src_code buf_temp;
              buf_write = xor_ints (heap_junk s) (nat sz) buf_write buf_temp;
              (retstat, s) = nc_writeDisk src_code_disk_id buf_src_code sz (src_code_addr f bs block_no) s;
              (retstat, s) = nc_writeDisk parity_disk_id buf_write sz (src_addr f bs block_no) s
          in src_rs_parity C d delta sz req block_no is buf_write buf_src_code s)"

text \<open>The choice of a block is that of Reed-Solomon, the same text; \<open>None\<close> is a division by zero.\<close>

definition src_rs_encode :: "src_rs \<Rightarrow> byte list \<Rightarrow> int \<Rightarrow> sys \<Rightarrow> (data_block_info \<times> sys) option" where
  "src_rs_encode C buf sz s =
     (let n = disk_total_num s; k = data_disk_num s; f = src_f C;
          fault_tolerance = n - k;
          block_size = disk_block_size s;
          size_request = round_to_block_size sz s;
          block_request = size_request sdiv block_size
      in case rs_pick block_request s of
           None \<Rightarrow> None
         | Some db \<Rightarrow>
             let (disk_id, block_no, s) = or_space_list db s
             in if disk_id = -1 then Some (\<lparr>bi_disk_id = disk_id, bi_block_no = block_no\<rparr>, s)
                else if f = 0 then None
                else
                  let junk = heap_junk s;
                      buf_read = malloc junk (nat size_request);
                      buf_write = zeros (nat size_request);
                      s = claim disk_id block_no block_request s;
                      (retstat, buf_read, s) = nc_readDisk disk_id buf_read size_request (src_addr f block_size block_no) s;
                      src_code_disk_id = src_code_disk f n disk_id block_no;
                      buf_src_code = zeros (nat sz);
                      (retstat, buf_src_code, s) =
                        nc_readDisk src_code_disk_id buf_src_code sz (src_code_addr f block_size block_no) s;
                      buf_src_code = xor_ints junk (nat sz) (xor_ints junk (nat sz) buf_src_code buf_read) buf;
                      buf_read = xor_ints junk (nat sz) buf_read buf;
                      (retstat, s) = nc_writeDisk src_code_disk_id buf_src_code sz (src_code_addr f block_size block_no) s;
                      (retstat, s) = nc_writeDisk disk_id buf sz (src_addr f block_size block_no) s
                  in map_option (\<lambda>s. (\<lparr>bi_disk_id = disk_id, bi_block_no = block_no\<rparr>, s))
                       (src_rs_parity C disk_id buf_read sz size_request block_no
                          [0..fault_tolerance - 1] buf_write buf_src_code s))"

text \<open>The blocks that have the same check block as a given one, and the check block, going round.\<close>

definition src_next :: "int \<Rightarrow> int \<Rightarrow> int \<times> int \<Rightarrow> int \<times> int" where
  "src_next f n place =
     (case place of (src_disk_to_read, src_block_to_read) \<Rightarrow>
        let src_block_to_read = src_block_to_read + 1;
            src_disk_to_read = (src_disk_to_read - 1 + n) smod n
        in if src_block_to_read smod (f + 1) = 0
           then ((src_disk_to_read + f + 1) smod n, src_block_to_read - (f + 1))
           else (src_disk_to_read, src_block_to_read))"

fun src_places :: "int \<Rightarrow> int \<Rightarrow> nat \<Rightarrow> int \<times> int \<Rightarrow> (int \<times> int) list" where
  "src_places f n 0 place = []"
| "src_places f n (Suc i) place = (let place = src_next f n place in place # src_places f n i place)"

text \<open>The sum of these blocks; \<open>False\<close> when one cannot be read.\<close>

fun src_sum :: "int \<Rightarrow> (int \<times> int) list \<Rightarrow> byte list \<Rightarrow> byte list \<Rightarrow> sys \<Rightarrow> bool \<times> byte list \<times> sys" where
  "src_sum sz [] buf_read buf_code s = (True, buf_code, s)"
| "src_sum sz ((disk, block) # places) buf_read buf_code s =
     (if disk_status s disk \<noteq> 0 then (False, buf_code, s)
      else let (retstat, buf_read, s) = nc_readDisk disk buf_read sz (block * disk_block_size s) s
           in if retstat < sz then (False, buf_code, s)
              else src_sum sz places buf_read (xor_ints (heap_junk s) (nat sz) buf_code buf_read) s)"

definition src_rs_decode :: "src_rs \<Rightarrow> int \<Rightarrow> byte list \<Rightarrow> int \<Rightarrow> int \<Rightarrow> sys \<Rightarrow> (int \<times> byte list \<times> sys) option" where
  "src_rs_decode C disk_id buf sz offset s =
     (let f = src_f C; bs = disk_block_size s; src_offset = offset sdiv bs sdiv f * bs
      in if f = 0 then None
         else if disk_status s disk_id = 0 then Some (nc_readDisk disk_id buf sz (offset + src_offset) s)
         else
           let n = disk_total_num s; k = data_disk_num s;
               block_no = i32 (offset sdiv bs);
               blockoffset = i32 (offset - i32 (block_no * bs));
               places = src_places f n (nat f) (disk_id, i32 (block_no + block_no sdiv f));
               (available, buf_code, s) =
                 (if list_all (\<lambda>(disk, block). disk_status s disk = 0) places
                  then src_sum sz places (zeros (nat sz)) (zeros (nat sz)) s else (False, zeros (nat sz), s))
           in if available then Some (sz, overwrite buf 0 (take (nat sz) buf_code), s)
              else
                let temp_buf = zeros (nat sz); buf = overwrite buf 0 (zeros (nat sz))
                in case generator_matrix (src_code C) of
                     None \<Rightarrow> None
                   | Some g \<Rightarrow>
                       (case jerasure_make_decoding_matrix (rs_tables (src_code C)) k (n - k) g (rs_erased s)
                            (int_junk (src_code C)) (int_junk (src_code C)) of
                          None \<Rightarrow> None
                        | Some (r, decoding_matrix, dm_ids) \<Rightarrow>
                            if r < 0 then Some (-1, buf, s)
                            else
                              let diskblocklocation = i32 (i32 (block_no * bs) + blockoffset);
                                  row = map (\<lambda>i. decoding_matrix (k * disk_id + i)) [0..k - 1];
                                  (buf, s) = rs_sum (rs_tables (src_code C)) sz (diskblocklocation + src_offset)
                                    (zip row dm_ids) temp_buf buf s
                              in Some (sz, buf, s)))"

text \<open>
  \<open>recover_conventional\<close>, which \<open>recover\<close> calls: behind the last block of a group its check block, going
  back over the blocks of the group, then the block itself.
\<close>

fun src_back :: "int \<Rightarrow> nat \<Rightarrow> int \<times> int \<Rightarrow> (int \<times> int) list" where
  "src_back n 0 place = []"
| "src_back n (Suc j) place =
     (let place = ((fst place + 1) smod n, snd place - 1) in place # src_back n j place)"

fun src_xor_blocks :: "int \<Rightarrow> (int \<times> int) list \<Rightarrow> byte list \<Rightarrow> byte list \<Rightarrow> sys \<Rightarrow> byte list \<times> byte list \<times> sys" where
  "src_xor_blocks bs [] buf_code buf s = (buf_code, buf, s)"
| "src_xor_blocks bs ((disk, block) # places) buf_code buf s =
     (let (retstat, buf_code, s) = nc_readDisk disk buf_code bs (i32 (block * bs)) s
      in src_xor_blocks bs places buf_code (xor_ints (heap_junk s) (nat bs) buf buf_code) s)"

fun src_rs_rebuild :: "src_rs \<Rightarrow> int \<Rightarrow> int \<Rightarrow> int list \<Rightarrow> byte list \<Rightarrow> byte list \<Rightarrow> sys \<Rightarrow> sys option" where
  "src_rs_rebuild C failed_disk_id bs [] buf buf_code s = Some s"
| "src_rs_rebuild C failed_disk_id bs (i # is) buf buf_code s =
     (let f = src_f C;
          buf = overwrite buf 0 (zeros (nat bs))
      in if f = 0 then None
         else
           let (buf_code, buf, s) =
                 (if (i + 1) smod f = 0
                  then let check = i + (i + 1) sdiv f;
                           (buf_code, buf, s) = src_xor_blocks bs (src_back (disk_total_num s) (nat f) (failed_disk_id, check))
                             buf_code buf s;
                           (retstat, s) = nc_writeDisk failed_disk_id buf bs (i32 (check * bs)) s
                       in (buf_code, buf, s)
                  else (buf_code, buf, s));
               offset = i32 (i * bs);
               src_offset = offset sdiv disk_block_size s sdiv f * disk_block_size s
           in case src_rs_decode C failed_disk_id buf bs offset s of
                None \<Rightarrow> None
              | Some (retstat, buf, s) \<Rightarrow>
                  let (retstat, s) = nc_writeDisk failed_disk_id buf bs (offset + src_offset) s
                  in src_rs_rebuild C failed_disk_id bs is buf buf_code s)"

definition src_rs_recover :: "src_rs \<Rightarrow> int \<Rightarrow> sys \<Rightarrow> (int \<times> sys) option" where
  "src_rs_recover C failed_disk_id s =
     (let recoversize = disk_size s failed_disk_id;
          block_size = disk_block_size s;
          buf = malloc (heap_junk s) (nat block_size)
      in map_option (\<lambda>s. (0, s)) (src_rs_rebuild C failed_disk_id block_size [0..recoversize - 1] buf buf s))"

section \<open>Check blocks\<close>

text \<open>
  Block \<open>b\<close> of disk \<open>d\<close> as the file system sees it, the check block of disk \<open>c\<close> in group \<open>t\<close>, and the disk of
  the block in row \<open>q\<close> that it covers.
\<close>

definition src_data :: "int \<Rightarrow> int \<Rightarrow> (int \<Rightarrow> byte list) \<Rightarrow> int \<Rightarrow> int \<Rightarrow> byte list" where
  "src_data f bs v b d = disk_blk bs v d (b + b div f)"

definition src_check :: "int \<Rightarrow> int \<Rightarrow> (int \<Rightarrow> byte list) \<Rightarrow> int \<Rightarrow> int \<Rightarrow> byte list" where
  "src_check f bs v t c = disk_blk bs v c (t * (f + 1) + f)"

definition src_disk :: "int \<Rightarrow> int \<Rightarrow> int \<Rightarrow> int \<Rightarrow> int" where
  "src_disk f n c q = (c + f - q) mod n"

definition src_checks_ok :: "int \<Rightarrow> int \<Rightarrow> int \<Rightarrow> int \<Rightarrow> (int \<Rightarrow> byte list) \<Rightarrow> bool" where
  "src_checks_ok f n S bs v \<longleftrightarrow> list_all (\<lambda>t. list_all (\<lambda>c. list_all (\<lambda>a.
     src_check f bs v t c ! a = xsum (\<lambda>q. src_data f bs v (t * f + q) (src_disk f n c q) ! a) [0..f - 1])
     [0..<nat bs]) [0..n - 1]) [0..S - 1]"

lemma src_checks_okD:
  "src_checks_ok f n S bs v \<Longrightarrow> 0 \<le> t \<Longrightarrow> t < S \<Longrightarrow> 0 \<le> c \<Longrightarrow> c < n \<Longrightarrow> a < nat bs \<Longrightarrow>
   src_check f bs v t c ! a = xsum (\<lambda>q. src_data f bs v (t * f + q) (src_disk f n c q) ! a) [0..f - 1]"
  by (simp add: src_checks_ok_def list_all_iff)

text \<open>A block of the file system is row \<open>b mod f\<close> of group \<open>b div f\<close> on the device.\<close>

lemma src_row: "b + b div f = b div f * (f + 1) + b mod (f :: int)"
  using div_mult_mod_eq [of b f] by (simp add: distrib_left)

lemma src_row_group: "0 \<le> q \<Longrightarrow> q < f \<Longrightarrow> (t * f + q) div f = t \<and> (t * f + q) mod f = (q :: int)"
  by simp

lemma src_rows_range:
  assumes "0 < f" "0 \<le> b" "b < S * (f :: int)"
  shows "0 \<le> b div f" "b div f < S" "0 \<le> b mod f" "b mod f < f"
    "0 \<le> b + b div f" "b + b div f < S * (f + 1)"
    "0 \<le> b div f * (f + 1) + f" "b div f * (f + 1) + f < S * (f + 1)"
proof -
  show t: "0 \<le> b div f" "b div f < S" using assms div_lt [of f b S] by (simp_all add: pos_imp_zdiv_nonneg_iff)
  show q: "0 \<le> b mod f" "b mod f < f" using assms by simp_all
  show "0 \<le> b + b div f" "b + b div f < S * (f + 1)"
    using group_rows [OF t, of "b mod f" "f + 1"] q unfolding src_row by auto
  show "0 \<le> b div f * (f + 1) + f" "b div f * (f + 1) + f < S * (f + 1)"
    using group_rows [OF t, of f "f + 1"] assms by auto
qed

lemma src_row_eq:
  assumes "0 < f" "0 \<le> b" "0 \<le> b'"
  shows "b' + b' div f = b + b div f \<longleftrightarrow> b' = (b :: int)"
proof
  assume "b' + b' div f = b + b div f"
  then have "b' div f * (f + 1) + b' mod f = b div f * (f + 1) + b mod f" by (simp only: src_row)
  then have "b' div f = b div f \<and> b' mod f = b mod f"
    by (rule group_row_eq) (use assms in \<open>auto simp: less_imp_le intro: order.strict_trans [OF pos_mod_bound]\<close>)
  then show "b' = b" using div_mult_mod_eq [of b f] div_mult_mod_eq [of b' f] by metis
qed simp

lemma src_row_check:
  assumes "0 < f" "0 \<le> b"
  shows "b + b div f \<noteq> t * (f + 1) + (f :: int)"
proof
  assume "b + b div f = t * (f + 1) + f"
  then have "b div f * (f + 1) + b mod f = t * (f + 1) + f" by (simp only: src_row)
  then have "b div f = t \<and> b mod f = f"
    by (rule group_row_eq) (use assms in \<open>auto simp: less_imp_le intro: order.strict_trans [OF pos_mod_bound]\<close>)
  then show False using pos_mod_bound [OF assms(1), of b] by simp
qed

text \<open>The check block of a block and the blocks of a check block.\<close>

lemma src_disk_inverse:
  assumes "0 \<le> c" "c < n" "0 \<le> x" "x < n" "0 \<le> q" "0 \<le> f"
  shows "src_disk f n c q = x \<longleftrightarrow> c = (x - f + q + n) mod n"
proof -
  have "src_disk f n c q = x \<longleftrightarrow> (c + f - q) mod n = x mod n" using assms by (simp add: src_disk_def)
  also have "\<dots> \<longleftrightarrow> n dvd (c + f - q) - x" by (rule mod_eq_dvd_iff)
  also have "\<dots> \<longleftrightarrow> n dvd c - (x - f + q + n)"
  proof -
    have "(c + f - q) - x = (c - (x - f + q + n)) + n" by simp
    then show ?thesis by (metis dvd_add_triv_right_iff)
  qed
  also have "\<dots> \<longleftrightarrow> c mod n = (x - f + q + n) mod n" by (rule mod_eq_dvd_iff [symmetric])
  also have "\<dots> \<longleftrightarrow> c = (x - f + q + n) mod n" using assms by simp
  finally show ?thesis .
qed

text \<open>A difference added to the first bytes of a block.\<close>

definition add_into :: "byte list \<Rightarrow> byte list \<Rightarrow> byte list" where
  "add_into \<delta> x = map (\<lambda>j. if j < length \<delta> then x ! j XOR \<delta> ! j else x ! j) [0..<length x]"

lemma length_add_into [simp]: "length (add_into \<delta> x) = length x"
  by (simp add: add_into_def)

lemma nth_add_into: "a < length x \<Longrightarrow> add_into \<delta> x ! a = x ! a XOR (if a < length \<delta> then \<delta> ! a else 0)"
  by (simp add: add_into_def)

lemma overwrite_add_into:
  assumes "length \<delta> = n" "n \<le> length x" "n \<le> length y" "\<And>j. j < n \<Longrightarrow> y ! j = x ! j XOR \<delta> ! j"
  shows "overwrite x 0 (take n y) = add_into \<delta> x"
  by (rule nth_equalityI) (use assms in \<open>auto simp: nth_overwrite nth_add_into\<close>)

text \<open>The same difference added to a block and to its check block keeps the check blocks right.\<close>

lemma src_step:
  assumes f: "0 < f" and x: "0 \<le> x" "x < n" and b: "0 \<le> b" "b < S * f" and P: "src_checks_ok f n S bs v"
    and len: "\<And>p r. 0 \<le> p \<Longrightarrow> p < n \<Longrightarrow> 0 \<le> r \<Longrightarrow> r < S * (f + 1) \<Longrightarrow> length (disk_blk bs v p r) = nat bs"
    and W: "\<And>p r. 0 \<le> p \<Longrightarrow> p < n \<Longrightarrow> 0 \<le> r \<Longrightarrow> r < S * (f + 1) \<Longrightarrow> disk_blk bs w p r =
      (if p = x \<and> r = b + b div f \<or> p = (x - f + b mod f + n) mod n \<and> r = b div f * (f + 1) + f
       then add_into \<delta> (disk_blk bs v p r) else disk_blk bs v p r)"
  shows "src_checks_ok f n S bs w"
    "\<And>p b'. 0 \<le> p \<Longrightarrow> p < n \<Longrightarrow> 0 \<le> b' \<Longrightarrow> b' < S * f \<Longrightarrow> src_data f bs w b' p =
      (if p = x \<and> b' = b then add_into \<delta> (src_data f bs v b' p) else src_data f bs v b' p)"
proof -
  let ?t = "b div f" and ?q = "b mod f"
  let ?c = "(x - f + ?q + n) mod n"
  note rb = src_rows_range [OF f b]
  have n: "0 < n" using x by simp
  show data: "src_data f bs w b' p = (if p = x \<and> b' = b then add_into \<delta> (src_data f bs v b' p) else src_data f bs v b' p)"
    if h: "0 \<le> p" "p < n" "0 \<le> b'" "b' < S * f" for p b'
    using W [OF h(1,2) src_rows_range(5,6) [OF f h(3,4)]] src_row_eq [OF f b(1) h(3)] src_row_check [OF f h(3)]
    by (simp add: src_data_def)
  have check: "src_check f bs w t c = (if c = ?c \<and> t = ?t then add_into \<delta> (src_check f bs v t c) else src_check f bs v t c)"
    if h: "0 \<le> c" "c < n" "0 \<le> t" "t < S" for c t
  proof -
    have r: "0 \<le> t * (f + 1) + f" "t * (f + 1) + f < S * (f + 1)"
      using group_rows [OF h(3,4), of f "f + 1"] f by auto
    have "t * (f + 1) + f = ?t * (f + 1) + f \<longleftrightarrow> t = ?t" using f by simp
    moreover have "t * (f + 1) + f \<noteq> b + ?t" using src_row_check [OF f b(1), of t] by metis
    ultimately show ?thesis using W [OF h(1,2) r] by (simp add: src_check_def)
  qed
  show "src_checks_ok f n S bs w"
    unfolding src_checks_ok_def list_all_iff
  proof (intro ballI)
    fix t c a assume "t \<in> set [0..S - 1]" "c \<in> set [0..n - 1]" "a \<in> set [0..<nat bs]"
    then have t: "0 \<le> t" "t < S" and c: "0 \<le> c" "c < n" and a: "a < nat bs" by auto
    let ?d = "if a < length \<delta> then \<delta> ! a else 0"
    have lc: "length (src_check f bs v t c) = nat bs"
      using len [OF c, of "t * (f + 1) + f"] group_rows [OF t, of f "f + 1"] f by (simp add: src_check_def)
    have s: "src_data f bs w (t * f + q) (src_disk f n c q) ! a = src_data f bs v (t * f + q) (src_disk f n c q) ! a XOR
        (if q = ?q then if t = ?t \<and> c = ?c then ?d else 0 else 0)" if q: "0 \<le> q" "q < f" for q
    proof -
      have d: "0 \<le> src_disk f n c q" "src_disk f n c q < n" using n by (simp_all add: src_disk_def)
      note tq = group_rows [OF t q]
      have "length (src_data f bs v (t * f + q) (src_disk f n c q)) = nat bs"
        using len [OF d] src_rows_range(5,6) [OF f tq] by (simp add: src_data_def)
      moreover have "t * f + q = b \<longleftrightarrow> t = ?t \<and> q = ?q"
        using src_row_group [OF q, of t] div_mult_mod_eq [of b f] by auto
      moreover have "src_disk f n c q = x \<longleftrightarrow> c = (x - f + q + n) mod n"
        by (rule src_disk_inverse) (use c x q f in auto)
      ultimately show ?thesis using data [OF d tq] a by (auto simp: nth_add_into)
    qed
    have "xsum (\<lambda>q. src_data f bs w (t * f + q) (src_disk f n c q) ! a) [0..f - 1] =
        xsum (\<lambda>q. src_data f bs v (t * f + q) (src_disk f n c q) ! a XOR
          (if q = ?q then if t = ?t \<and> c = ?c then ?d else 0 else 0)) [0..f - 1]"
      using s by (intro xsum_cong [OF refl]) auto
    also have "\<dots> = src_check f bs v t c ! a XOR (if t = ?t \<and> c = ?c then ?d else 0)"
      using rb f by (simp add: xsum_xor xsum_single src_checks_okD [OF P t c a] del: if_split)
    also have "\<dots> = src_check f bs w t c ! a" using check [OF c t] a lc by (auto simp: nth_add_into)
    finally show "src_check f bs w t c ! a = xsum (\<lambda>q. src_data f bs w (t * f + q) (src_disk f n c q) ! a) [0..f - 1]"
      by simp
  qed
qed

section \<open>Arrays\<close>

text \<open>\<open>S\<close> groups on every disk, all disks good; the file system is told of the \<open>S * f\<close> blocks without the check blocks.\<close>

definition src_array :: "int \<Rightarrow> int \<Rightarrow> sys \<Rightarrow> bool" where
  "src_array S f s \<longleftrightarrow> 0 < disk_block_size s \<and> 4 dvd disk_block_size s \<and> 0 \<le> S \<and>
     S * (f + 1) * disk_block_size s < 2147483648 \<and> distinct (map (dev_name s) (disk_ids s)) \<and>
     list_all (\<lambda>i. disk_size s i = S * f \<and> disk_status s i = 0 \<and>
       int (length (content s i)) = S * (f + 1) * disk_block_size s) (disk_ids s)"

lemma src_arrayD:
  assumes "src_array S f s"
  shows "0 < disk_block_size s" "4 dvd disk_block_size s" "S * (f + 1) * disk_block_size s < 2147483648"
    "\<And>i. 0 \<le> i \<Longrightarrow> i < disk_total_num s \<Longrightarrow> int (length (content s i)) = S * (f + 1) * disk_block_size s"
    "\<And>i. 0 \<le> i \<Longrightarrow> i < disk_total_num s \<Longrightarrow> disk_status s i = 0"
  using assms by (simp_all add: src_array_def list_all_iff)

lemma src_array_cong:
  assumes "frame s = frame t" "\<And>i. length (content s i) = length (content t i)"
  shows "src_array S f s = src_array S f t"
  by (simp add: src_array_def assms frame_eqD [OF assms(1)])

text \<open>Addresses do not overflow.\<close>

lemma i32_row:
  assumes "0 < bs" "M * bs < 2147483648" "0 \<le> r" "r < (M :: int)"
  shows "i32 r = r" "i32 (r * bs) = r * bs" "r * bs + bs \<le> M * bs"
proof -
  note a = block_addr [OF assms]
  have "r * 1 \<le> r * bs" using assms by (intro mult_left_mono) auto
  then have "r < 2147483648" using a(3) assms by linarith
  then show "i32 r = r" using assms(3) by (simp add: i32_id)
  show "i32 (r * bs) = r * bs" "r * bs + bs \<le> M * bs" by (rule a(1), rule a(3))
qed

lemma src_addrs:
  assumes "0 < bs" "S * (f + 1) * bs < 2147483648" "0 < f" "0 \<le> b" "b < S * f"
  shows "src_addr f bs b = (b + b div f) * bs" "src_code_addr f bs b = (b div f * (f + 1) + f) * bs"
proof -
  note r = src_rows_range [OF assms(3-5)]
  have sd: "b sdiv f = b div f" using assms by simp
  have e: "(f + 1) * (b div f + 1) - 1 = b div f * (f + 1) + f" by (simp add: algebra_simps)
  show "src_addr f bs b = (b + b div f) * bs"
    unfolding src_addr_def sd using i32_row [OF assms(1,2) r(5,6)] by simp
  show "src_code_addr f bs b = (b div f * (f + 1) + f) * bs"
    unfolding src_code_addr_def sd e Let_def using i32_row [OF assms(1,2) r(7,8)] by simp
qed

lemma src_code_disk_mod:
  assumes "0 \<le> x" "0 < f" "f \<le> n" "0 \<le> b"
  shows "src_code_disk f n x b = (x - f + b mod f + n) mod n"
proof -
  have b: "b smod f = b mod f" "0 \<le> b mod f" using assms by simp_all
  have "(x - f + b mod f + n) smod n = (x - f + b mod f + n) mod n"
    by (rule smod_nonneg) (use assms b in linarith)+
  then show ?thesis by (simp only: src_code_disk_def b)
qed

lemma src_reads:
  assumes A: "src_array S f s" and f: "0 < f" "f \<le> disk_total_num s" and b: "0 \<le> b" "b < S * f"
    and x: "0 \<le> x" "x < disk_total_num s" and sz: "0 < sz" "sz \<le> disk_block_size s" "length buf = nat sz"
  shows "nc_readDisk x buf sz (src_addr f (disk_block_size s) b) s =
      (sz, take (nat sz) (src_data f (disk_block_size s) (content s) b x), s)"
    "nc_readDisk x buf sz (src_code_addr f (disk_block_size s) b) s =
      (sz, take (nat sz) (src_check f (disk_block_size s) (content s) (b div f) x), s)"
    "length (src_data f (disk_block_size s) (content s) b x) = nat (disk_block_size s)"
    "length (src_check f (disk_block_size s) (content s) (b div f) x) = nat (disk_block_size s)"
proof -
  note a = src_arrayD [OF A] and r = src_rows_range [OF f(1) b]
  note ad = src_addrs [OF a(1,3) f(1) b]
  have l: "(b + b div f) * disk_block_size s + disk_block_size s \<le> int (length (content s x))"
    "(b div f * (f + 1) + f) * disk_block_size s + disk_block_size s \<le> int (length (content s x))"
    using i32_row(3) [OF a(1,3) r(5,6)] i32_row(3) [OF a(1,3) r(7,8)] a(4) [OF x] by simp_all
  show "nc_readDisk x buf sz (src_addr f (disk_block_size s) b) s =
      (sz, take (nat sz) (src_data f (disk_block_size s) (content s) b x), s)"
    unfolding ad src_data_def by (rule blk_rd [OF sz(1,2) r(5) l(1) sz(3)])
  show "nc_readDisk x buf sz (src_code_addr f (disk_block_size s) b) s =
      (sz, take (nat sz) (src_check f (disk_block_size s) (content s) (b div f) x), s)"
    unfolding ad src_check_def by (rule blk_rd [OF sz(1,2) r(7) l(2) sz(3)])
  show "length (src_data f (disk_block_size s) (content s) b x) = nat (disk_block_size s)"
    unfolding src_data_def by (rule length_disk_blk [where v = "content s" and p = x, OF a(1) r(5) l(1)])
  show "length (src_check f (disk_block_size s) (content s) (b div f) x) = nat (disk_block_size s)"
    unfolding src_check_def by (rule length_disk_blk [where v = "content s" and p = x, OF a(1) r(7) l(2)])
qed

text \<open>A check block and a block written with the same difference.\<close>

lemma src_write_pair:
  assumes A: "src_array S f s" and f: "0 < f" "f \<le> disk_total_num s" and b: "0 \<le> b" "b < S * f"
    and x: "0 \<le> x" "x < disk_total_num s" and sz: "0 < sz" "sz \<le> disk_block_size s" and \<delta>: "length \<delta> = nat sz"
  defines "c \<equiv> src_code_disk f (disk_total_num s) x b"
  assumes z: "nat sz \<le> length z" "\<And>j. j < nat sz \<Longrightarrow> z ! j =
      src_check f (disk_block_size s) (content s) (b div f) c ! j XOR \<delta> ! j"
    and y: "nat sz \<le> length y" "\<And>j. j < nat sz \<Longrightarrow> y ! j = src_data f (disk_block_size s) (content s) b x ! j XOR \<delta> ! j"
    and P: "src_checks_ok f (disk_total_num s) S (disk_block_size s) (content s)"
  defines "w1 \<equiv> snd (nc_writeDisk c z sz (src_code_addr f (disk_block_size s) b) s)"
  defines "w2 \<equiv> snd (nc_writeDisk x y sz (src_addr f (disk_block_size s) b) w1)"
  shows "src_array S f w2" "frame w2 = frame s" "frame w1 = frame s"
    "src_checks_ok f (disk_total_num s) S (disk_block_size s) (content w2)"
    "\<And>p b'. 0 \<le> p \<Longrightarrow> p < disk_total_num s \<Longrightarrow> 0 \<le> b' \<Longrightarrow> b' < S * f \<Longrightarrow>
      src_data f (disk_block_size s) (content w2) b' p = (if p = x \<and> b' = b
        then add_into \<delta> (src_data f (disk_block_size s) (content s) b' p)
        else src_data f (disk_block_size s) (content s) b' p)"
proof -
  let ?bs = "disk_block_size s" and ?n = "disk_total_num s" and ?M = "S * (f + 1)"
  note a = src_arrayD [OF A] and r = src_rows_range [OF f(1) b]
  note ad = src_addrs [OF a(1,3) f(1) b]
  have cm: "c = (x - f + b mod f + ?n) mod ?n" unfolding c_def by (rule src_code_disk_mod [OF x(1) f b(1)])
  have c: "0 \<le> c" "c < ?n" using x unfolding cm by simp_all
  have l: "q * ?bs + ?bs \<le> int (length (content s p))" if "0 \<le> p" "p < ?n" "0 \<le> q" "q < ?M" for p q
    using i32_row(3) [OF a(1,3) that(3,4)] a(4) [OF that(1,2)] by simp
  note w1 = blk_wr [OF sz r(7) z(1) l [OF c r(7,8)], folded ad, folded w1_def]
  note f1 = frame_eqD [OF w1(1)]
  have l1: "q * disk_block_size w1 + disk_block_size w1 \<le> int (length (content w1 p))"
    if "0 \<le> p" "p < ?n" "0 \<le> q" "q < ?M" for p q
    using l [OF that] w1(2) f1(3) by simp
  have sz1: "sz \<le> disk_block_size w1" using sz f1(3) by simp
  note w2 = blk_wr [OF sz(1) sz1 r(5) y(1) l1 [OF x r(5,6)], unfolded f1(3), folded ad, folded w2_def]
  show fr: "frame w2 = frame s" "frame w1 = frame s" using w1(1) w2(1) by simp_all
  show "src_array S f w2" using A src_array_cong [OF fr(1)] w1(2) w2(2) by simp
  have ne: "b div f * (f + 1) + f \<noteq> b + b div f" using src_row_check [OF f(1) b(1), of "b div f"] by metis
  have W: "disk_blk ?bs (content w2) p q =
      (if p = x \<and> q = b + b div f \<or> p = (x - f + b mod f + ?n) mod ?n \<and> q = b div f * (f + 1) + f
       then add_into \<delta> (disk_blk ?bs (content s) p q) else disk_blk ?bs (content s) p q)"
    if h: "0 \<le> p" "p < ?n" "0 \<le> q" "q < ?M" for p q
  proof -
    have ld: "length (disk_blk ?bs (content s) p q) = nat ?bs" if "0 \<le> p" "p < ?n" "0 \<le> q" "q < ?M" for p q
      by (rule length_disk_blk [where v = "content s" and p = p, OF a(1) that(3) l [OF that]])
    have n1: "nat sz \<le> nat ?bs" using sz by simp
    have cc: "overwrite (disk_blk ?bs (content s) c (b div f * (f + 1) + f)) 0 (take (nat sz) z) =
        add_into \<delta> (disk_blk ?bs (content s) c (b div f * (f + 1) + f))"
      by (rule overwrite_add_into [OF \<delta> _ z(1)]) (use n1 ld [OF c r(7,8)] z(2) in \<open>auto simp: src_check_def\<close>)
    have dd: "overwrite (disk_blk ?bs (content s) x (b + b div f)) 0 (take (nat sz) y) =
        add_into \<delta> (disk_blk ?bs (content s) x (b + b div f))"
      by (rule overwrite_add_into [OF \<delta> _ y(1)]) (use n1 ld [OF x r(5,6)] y(2) in \<open>auto simp: src_data_def\<close>)
    have lw: "q * ?bs + ?bs \<le> int (length (content w1 p))" using l1 [OF h] f1(3) by simp
    have u: "disk_blk ?bs (content w1) x (b + b div f) = disk_blk ?bs (content s) x (b + b div f)"
      using w1(3) [OF r(5) l [OF x r(5,6)]] ne by auto
    show ?thesis
      unfolding w2(3) [OF h(3) lw] u w1(3) [OF h(3) l [OF h]] cm [symmetric] using cc dd ne by auto
  qed
  have ld: "length (disk_blk ?bs (content s) p q) = nat ?bs" if "0 \<le> p" "p < ?n" "0 \<le> q" "q < ?M" for p q
    by (rule length_disk_blk [where v = "content s" and p = p, OF a(1) that(3) l [OF that]])
  note st = src_step [where v = "content s" and w = "content w2" and \<delta> = \<delta>, OF f(1) x b P ld W]
  show "src_checks_ok f ?n S ?bs (content w2)" by (rule st(1))
  show "\<And>p b'. 0 \<le> p \<Longrightarrow> p < ?n \<Longrightarrow> 0 \<le> b' \<Longrightarrow> b' < S * f \<Longrightarrow>
      src_data f ?bs (content w2) b' p = (if p = x \<and> b' = b
        then add_into \<delta> (src_data f ?bs (content s) b' p) else src_data f ?bs (content s) b' p)"
    by (rule st(2))
qed

section \<open>Writing\<close>

lemma xor_ints_all:
  assumes "4 dvd sz" "0 \<le> (sz :: int)"
  shows "xor_ints junk (nat sz) dst src = xor_into junk (nat sz) dst src"
proof -
  have "4 dvd nat sz" by (rule dvd_4_nat [OF assms(1)])
  then show ?thesis by (simp add: xor_ints_def)
qed

text \<open>What the loop over the coding disks leaves.\<close>

lemma src_parity_loop:
  assumes T: "galois_ok (rs_tables (src_code C))" and G: "generator_matrix (src_code C) = Some g"
    and f: "0 < src_f C" and b: "0 \<le> b" "b < S * src_f C" and sz: "0 < sz" "4 dvd sz" and k: "0 \<le> k"
    and s: "src_array S (src_f C) s" "data_disk_num s = k" "disk_total_num s = n" "src_f C \<le> n" "disk_block_size s = bs"
    and P: "src_checks_ok (src_f C) n S bs (content s)"
    and ps: "\<And>i. i \<in> set ps \<Longrightarrow> 0 \<le> i \<and> k + i < n \<and> 0 \<le> g (i * k + d) \<and> g (i * k + d) < 256" "distinct ps"
    and l: "sz \<le> bs" "length delta = nat bs" "length bw = nat bs" "length bc = nat sz"
  obtains s' where "src_rs_parity C d delta sz bs b ps bw bc s = Some s'" "src_array S (src_f C) s'" "frame s' = frame s"
    "src_checks_ok (src_f C) n S bs (content s')"
    "\<And>p b'. 0 \<le> p \<Longrightarrow> p < n \<Longrightarrow> 0 \<le> b' \<Longrightarrow> b' < S * src_f C \<Longrightarrow> src_data (src_f C) bs (content s') b' p =
      (if p - k \<in> set ps \<and> b' = b
       then add_into (map (\<lambda>j. gmul (word_of_int (g ((p - k) * k + d))) (delta ! j)) [0..<nat sz]) (src_data (src_f C) bs (content s) b' p)
       else src_data (src_f C) bs (content s) b' p)"
  using s P ps l
proof (induction ps arbitrary: s bw bc thesis)
  case Nil
  then show ?case by simp
next
  case (Cons i ps)
  note H = Cons.prems(2-)
  let ?f = "src_f C" and ?x = "k + i"
  let ?t = "rs_times (rs_tables (src_code C)) (g (i * k + d)) delta"
  let ?\<delta> = "\<lambda>i. map (\<lambda>j. gmul (word_of_int (g (i * k + d))) (delta ! j)) [0..<nat sz]"
  have i: "0 \<le> i" "k + i < n" "0 \<le> g (i * k + d)" "g (i * k + d) < 256" using H(7) [of i] by auto
  have x: "0 \<le> ?x" "?x < disk_total_num s" using i k H(3) by simp_all
  define c where "c = src_code_disk ?f (disk_total_num s) ?x b"
  have cm: "c = (?x - ?f + b mod ?f + n) mod n"
    unfolding c_def H(3) by (rule src_code_disk_mod [OF x(1) f H(4) b(1)])
  have c: "0 \<le> c" "c < disk_total_num s" using x H(3) unfolding cm by simp_all
  have fn: "?f \<le> disk_total_num s" using H(3,4) by simp
  have bs: "0 < disk_block_size s" using src_arrayD(1) [OF H(1)] .
  have szs: "sz \<le> disk_block_size s" and lbw: "length bw = nat (disk_block_size s)" using H(5,9,11) by simp_all
  note r1 = src_reads(1,3) [OF H(1) f fn b x bs order_refl lbw, unfolded H(5)]
  note r2 = src_reads(2,4) [OF H(1) f fn b c sz(1) szs H(12), unfolded H(5)]
  let ?D = "src_data ?f bs (content s) b ?x" and ?K = "src_check ?f bs (content s) (b div ?f) c"
  define z where "z = xor_ints (heap_junk s) (nat sz) (take (nat sz) ?K) ?t"
  define y where "y = xor_ints (heap_junk s) (nat sz) (take (nat bs) ?D) ?t"
  have jl: "j < nat sz \<Longrightarrow> j < nat bs" for j using H(9) by linarith
  have lz: "length z = nat sz" "length y = nat bs" using r1(2) r2(2) H(9) by (simp_all add: z_def y_def xor_ints_all [OF sz(2)] sz(1) less_imp_le)
  have tt: "?t ! j = gmul (word_of_int (g (i * k + d))) (delta ! j)" if "j < nat sz" for j
    using nth_rs_times [OF T i(3,4), of j delta] jl [OF that] H(10) by simp
  have zj: "z ! j = ?K ! j XOR ?\<delta> i ! j" if "j < nat sz" for j
    using that jl [OF that] r2(2) H(10) tt [OF that] sz(1)
    by (simp add: z_def xor_ints_all [OF sz(2)] nth_xor_into)
  have yj: "y ! j = ?D ! j XOR ?\<delta> i ! j" if "j < nat sz" for j
    using that jl [OF that] r1(2) H(10) tt [OF that] sz(1)
    by (simp add: y_def xor_ints_all [OF sz(2)] nth_xor_into)
  define s1 where "s1 = snd (nc_writeDisk c z sz (src_code_addr ?f bs b) s)"
  define s2 where "s2 = snd (nc_writeDisk ?x y sz (src_addr ?f bs b) s1)"
  have ly: "nat sz \<le> length y" using lz H(9) by simp
  note w = src_write_pair [where \<delta> = "?\<delta> i" and z = z and y = y, OF H(1) f fn b x sz(1) szs, folded c_def, unfolded H(5),
      folded s1_def, folded s2_def, unfolded H(3)]
  have w': "src_array S ?f s2" "frame s2 = frame s" "frame s1 = frame s" "src_checks_ok ?f n S bs (content s2)"
    "\<And>p b'. 0 \<le> p \<Longrightarrow> p < n \<Longrightarrow> 0 \<le> b' \<Longrightarrow> b' < S * ?f \<Longrightarrow> src_data ?f bs (content s2) b' p =
      (if p = ?x \<and> b' = b then add_into (?\<delta> i) (src_data ?f bs (content s) b' p) else src_data ?f bs (content s) b' p)"
    using w zj yj lz ly H(6) by auto
  note fr = frame_eqD [OF w'(2)] and fr1 = frame_eqD [OF w'(3)]
  have dp: "distinct ps" "i \<notin> set ps" using H(8) by auto
  have pm: "j \<in> set ps \<Longrightarrow> 0 \<le> j \<and> k + j < n \<and> 0 \<le> g (j * k + d) \<and> g (j * k + d) < 256" for j using H(7) [of j] by simp
  have e2: "data_disk_num s2 = k" "disk_total_num s2 = n" "disk_block_size s2 = bs" using fr H(2,3,5) by simp_all
  obtain s' where s': "src_rs_parity C d delta sz bs b ps y z s2 = Some s'" "src_array S ?f s'" "frame s' = frame s2"
    "src_checks_ok ?f n S bs (content s')"
    "\<And>p b'. 0 \<le> p \<Longrightarrow> p < n \<Longrightarrow> 0 \<le> b' \<Longrightarrow> b' < S * ?f \<Longrightarrow> src_data ?f bs (content s') b' p =
      (if p - k \<in> set ps \<and> b' = b then add_into (?\<delta> (p - k)) (src_data ?f bs (content s2) b' p)
       else src_data ?f bs (content s2) b' p)"
    by (rule Cons.IH [OF _ w'(1) e2(1,2) H(4) e2(3) w'(4) pm dp(1) H(9,10) lz(2,1)]) blast+
  show ?case
  proof (rule Cons.prems(1))
    show "src_rs_parity C d delta sz bs b (i # ps) bw bc s = Some s'"
      using s'(1) G r1(1) r2(1) H(2,3,5) fr1
      by (cases "nc_writeDisk c z sz (src_code_addr ?f bs b) s"; cases "nc_writeDisk ?x y sz (src_addr ?f bs b) s1")
        (simp add: Let_def c_def [symmetric, unfolded H(3)] z_def [symmetric] y_def [symmetric] s1_def s2_def)
    show "src_array S ?f s'" "frame s' = frame s" "src_checks_ok ?f n S bs (content s')" using s' w' by simp_all
    fix p b' assume p: "0 \<le> p" "p < n" "0 \<le> b'" "b' < S * ?f"
    show "src_data ?f bs (content s') b' p =
      (if p - k \<in> set (i # ps) \<and> b' = b then add_into (?\<delta> (p - k)) (src_data ?f bs (content s) b' p)
       else src_data ?f bs (content s) b' p)"
      using s'(5) [OF p] w'(5) [OF p] dp(2) by auto
  qed
qed

text \<open>The code: the check blocks, and the combinations of Reed-Solomon in every row the file system sees.\<close>

definition src_coded :: "int \<Rightarrow> int \<Rightarrow> flat \<Rightarrow> int \<Rightarrow> int \<Rightarrow> int \<Rightarrow> (int \<Rightarrow> byte list) \<Rightarrow> bool" where
  "src_coded k n g f S bs v \<longleftrightarrow> src_checks_ok f n S bs v \<and>
     list_all (\<lambda>b. rs_parity_ok k (n - k) g (nat bs) (src_data f bs v b)) [0..S * f - 1]"

lemma src_codedD:
  assumes "src_coded k n g f S bs v"
  shows "src_checks_ok f n S bs v" "\<And>b. 0 \<le> b \<Longrightarrow> b < S * f \<Longrightarrow> rs_parity_ok k (n - k) g (nat bs) (src_data f bs v b)"
  using assms by (simp_all add: src_coded_def list_all_iff)

lemma src_made_ok:
  assumes "src_rs_new junk_tables junk e s = Some C" "generator_matrix (src_code C) = Some g"
    and "0 < data_disk_num s" "data_disk_num s < disk_total_num s" "disk_total_num s \<le> 256"
  shows "rs_ok (data_disk_num s) (disk_total_num s - data_disk_num s) g (src_code C)"
proof -
  obtain R where R: "rs_new junk_tables junk s = Some R" "src_code C = R"
    using assms(1) by (auto simp: src_rs_new_def Let_def)
  show ?thesis using rs_made_ok [OF R(1) _ assms(3-5)] assms(2) R(2) by simp
qed

text \<open>What \<open>encode\<close> leaves when block \<open>b\<close> of disk \<open>d\<close> was chosen.\<close>

lemma src_rs_encode_run:
  assumes C: "rs_ok (data_disk_num s) (disk_total_num s - data_disk_num s) g (src_code C)"
    and f: "0 < src_f C" "src_f C \<le> disk_total_num s"
    and p: "rs_pick 1 s = Some db" and o: "or_space_list db s = (d, b, s1)" "d \<noteq> -1"
    and A: "src_array S (src_f C) s" and P: "src_checks_ok (src_f C) (disk_total_num s) S (disk_block_size s) (content s)"
    and d: "0 \<le> d" "d < data_disk_num s" "data_disk_num s \<le> disk_total_num s"
    and b: "0 \<le> b" "b < S * src_f C" and sz: "0 < sz" "sz \<le> disk_block_size s" "4 dvd sz" "length buf = nat sz"
  obtains s' where "src_rs_encode C buf sz s = Some (\<lparr>bi_disk_id = d, bi_block_no = b\<rparr>, s')"
    "src_array S (src_f C) s'" "frame s' = frame (claim d b 1 s1)"
    "src_checks_ok (src_f C) (disk_total_num s) S (disk_block_size s) (content s')"
    "\<And>p b'. 0 \<le> p \<Longrightarrow> p < disk_total_num s \<Longrightarrow> 0 \<le> b' \<Longrightarrow> b' < S * src_f C \<Longrightarrow>
      src_data (src_f C) (disk_block_size s) (content s') b' p =
        (let v = src_data (src_f C) (disk_block_size s) (content s)
         in if b' \<noteq> b then v b' p
            else if p = d then overwrite (v b d) 0 buf
            else if data_disk_num s \<le> p then overwrite (v b p) 0
              (map (\<lambda>j. v b p ! j XOR gmul (ent (data_disk_num s) g (p - data_disk_num s) d) (v b d ! j XOR buf ! j)) [0..<nat sz])
            else v b p)"
proof -
  let ?k = "data_disk_num s" and ?n = "disk_total_num s" and ?bs = "disk_block_size s" and ?junk = "heap_junk s"
  let ?f = "src_f C" and ?v = "src_data (src_f C) (disk_block_size s) (content s)"
  have T: "galois_ok (rs_tables (src_code C))" "generator_matrix (src_code C) = Some g" "bytes_in ((?n - ?k) * ?k) g"
    using C by (auto simp: rs_ok_def)
  have req: "round_to_block_size sz s = ?bs" "?bs sdiv ?bs = 1" "0 < ?bs"
    using src_arrayD(1) [OF A] sz round_one_block [of s sz] by auto
  note fo = or_space_list_fields [OF o(1)]
  let ?c = "claim d b 1 s1"
  have fc: "disk_total_num ?c = ?n" "disk_block_size ?c = ?bs" "data_disk_num ?c = ?k" "heap_junk ?c = ?junk"
    "content ?c = content s" using fo by simp_all
  have Ac: "src_array S ?f ?c" using A fo by (simp add: src_array_def)
  have x: "0 \<le> d" "d < disk_total_num ?c" using d fc by simp_all
  have fn: "?f \<le> disk_total_num ?c" using f fc by simp
  define c where "c = src_code_disk ?f ?n d b"
  have cm: "c = (d - ?f + b mod ?f + ?n) mod ?n" unfolding c_def by (rule src_code_disk_mod [OF d(1) f b(1)])
  have c: "0 \<le> c" "c < disk_total_num ?c" using x fc unfolding cm by simp_all
  have szc: "sz \<le> disk_block_size ?c" "0 < disk_block_size ?c" using sz req fc by simp_all
  have lm: "length (malloc ?junk (nat ?bs)) = nat (disk_block_size ?c)" "length (zeros (nat sz)) = nat sz" using fc by simp_all
  note r1 = src_reads(1,3) [OF Ac f(1) fn b x szc(2) order_refl lm(1), unfolded fc]
  note r2 = src_reads(2,4) [OF Ac f(1) fn b c sz(1) szc(1) lm(2), unfolded fc]
  let ?D = "?v b d" and ?K = "src_check ?f ?bs (content s) (b div ?f) c"
  have tD: "take (nat ?bs) ?D = ?D" using r1(2) by simp
  define z where "z = xor_ints ?junk (nat sz) (xor_ints ?junk (nat sz) (take (nat sz) ?K) ?D) buf"
  define delta where "delta = xor_ints ?junk (nat sz) ?D buf"
  define \<delta> where "\<delta> = map (\<lambda>j. ?D ! j XOR buf ! j) [0..<nat sz]"
  have jl: "j < nat sz \<Longrightarrow> j < nat ?bs" for j using sz(2) by linarith
  have sz0: "0 \<le> sz" using sz by simp
  note xi = xor_ints_all [OF sz(3) sz0]
  have lz: "length z = nat sz" "length delta = nat ?bs" using r1(2) r2(2) sz(1,2) by (simp_all add: z_def delta_def xi)
  have zj: "z ! j = ?K ! j XOR \<delta> ! j" if "j < nat sz" for j
    using that jl [OF that] r1(2) r2(2) sz by (simp add: z_def \<delta>_def xi nth_xor_into xor.assoc)
  have dj: "delta ! j = ?D ! j XOR buf ! j" if "j < nat sz" for j
    using that jl [OF that] r1(2) sz by (simp add: delta_def xi nth_xor_into)
  have bj: "buf ! j = ?D ! j XOR \<delta> ! j" if "j < nat sz" for j
    using that by (simp add: \<delta>_def xor.assoc [symmetric])
  define s2 where "s2 = snd (nc_writeDisk c z sz (src_code_addr ?f ?bs b) ?c)"
  define s3 where "s3 = snd (nc_writeDisk d buf sz (src_addr ?f ?bs b) s2)"
  have l\<delta>: "length \<delta> = nat sz" "nat sz \<le> length z" "nat sz \<le> length buf" using lz sz by (simp_all add: \<delta>_def)
  note w = src_write_pair [where \<delta> = \<delta> and z = z and y = buf, OF Ac f(1) fn b x sz(1) szc(1) l\<delta>(1),
      unfolded fc, folded c_def, folded s2_def, folded s3_def]
  have w': "src_array S ?f s3" "frame s3 = frame ?c" "frame s2 = frame ?c" "src_checks_ok ?f ?n S ?bs (content s3)"
    "\<And>p b'. 0 \<le> p \<Longrightarrow> p < ?n \<Longrightarrow> 0 \<le> b' \<Longrightarrow> b' < S * ?f \<Longrightarrow> src_data ?f ?bs (content s3) b' p =
      (if p = d \<and> b' = b then add_into \<delta> (?v b' p) else ?v b' p)"
    using w zj bj l\<delta> P by auto
  note fr = frame_eqD [OF w'(2), unfolded fc] and fr2 = frame_eqD [OF w'(3), unfolded fc]
  have gr: "0 \<le> i \<and> ?k + i < ?n \<and> 0 \<le> g (i * ?k + d) \<and> g (i * ?k + d) < 256" if "i \<in> set [0..?n - ?k - 1]" for i
    using that bytes_inD [OF T(3) in_range [of i "?n - ?k" d ?k]] d by auto
  have k0: "0 \<le> ?k" using d by simp
  have lb: "length (zeros (nat ?bs)) = nat ?bs" by simp
  obtain s' where s': "src_rs_parity C d delta sz ?bs b [0..?n - ?k - 1] (zeros (nat ?bs)) z s3 = Some s'"
    "src_array S ?f s'" "frame s' = frame s3" "src_checks_ok ?f ?n S ?bs (content s')"
    "\<And>p b'. 0 \<le> p \<Longrightarrow> p < ?n \<Longrightarrow> 0 \<le> b' \<Longrightarrow> b' < S * ?f \<Longrightarrow> src_data ?f ?bs (content s') b' p =
      (if p - ?k \<in> set [0..?n - ?k - 1] \<and> b' = b
       then add_into (map (\<lambda>j. gmul (word_of_int (g ((p - ?k) * ?k + d))) (delta ! j)) [0..<nat sz]) (src_data ?f ?bs (content s3) b' p)
       else src_data ?f ?bs (content s3) b' p)"
    by (rule src_parity_loop [OF T(1,2) f(1) b sz(1,3) k0 w'(1) fr(2) fr(1) f(2) fr(3) w'(4) _ distinct_upto sz(2) lz(2) lb lz(1)])
      (rule gr, assumption, blast)
  show ?thesis
  proof (rule that)
    show "src_rs_encode C buf sz s = Some (\<lparr>bi_disk_id = d, bi_block_no = b\<rparr>, s')"
      using req p o f s'(1) r1(1) r2(1) fo fr2 tD
      by (cases "nc_writeDisk c z sz (src_code_addr ?f ?bs b) ?c"; cases "nc_writeDisk d buf sz (src_addr ?f ?bs b) s2")
        (simp add: src_rs_encode_def Let_def c_def [symmetric] z_def [symmetric] delta_def [symmetric] s2_def s3_def)
    show "src_array S ?f s'" "frame s' = frame ?c" "src_checks_ok ?f ?n S ?bs (content s')" using s' w'(2) by simp_all
    fix p b' assume h: "0 \<le> p" "p < ?n" "0 \<le> b'" "b' < S * ?f"
    have lv: "length (?v b p) = nat ?bs"
      using src_reads(3) [OF A f b h(1,2) req(3) order_refl, of "zeros (nat ?bs)"] by simp
    have dd: "add_into \<delta> ?D = overwrite ?D 0 buf"
      using overwrite_add_into [OF l\<delta>(1) _ l\<delta>(3), of ?D] bj r1(2) sz by simp
    have pp: "add_into (map (\<lambda>j. gmul (word_of_int (g ((p - ?k) * ?k + d))) (delta ! j)) [0..<nat sz]) (?v b p) =
        overwrite (?v b p) 0 (map (\<lambda>j. ?v b p ! j XOR gmul (ent ?k g (p - ?k) d) (?D ! j XOR buf ! j)) [0..<nat sz])"
      (is "add_into ?e _ = overwrite _ 0 ?y")
    proof -
      have "overwrite (?v b p) 0 (take (nat sz) ?y) = add_into ?e (?v b p)"
        by (rule overwrite_add_into) (use lv sz dj in \<open>auto simp: ent_def\<close>)
      then show ?thesis by simp
    qed
    show "src_data ?f ?bs (content s') b' p = (let v = ?v in if b' \<noteq> b then v b' p
            else if p = d then overwrite (v b d) 0 buf
            else if ?k \<le> p then overwrite (v b p) 0
              (map (\<lambda>j. v b p ! j XOR gmul (ent ?k g (p - ?k) d) (v b d ! j XOR buf ! j)) [0..<nat sz])
            else v b p)"
      using s'(5) [OF h] w'(5) [OF h] dd pp d h by (auto simp: Let_def)
  qed
qed

text \<open>
  C34: The encoder keeps the code: for two data disks or more, sizes that are multiples of four and
  \<open>src_f\<close> between 1 and the number of disks it ends, stores the data in a block of a data disk, all check
  blocks and all combinations hold again, and no other block of a data disk changes.
\<close>

theorem src_rs_encode_coded:
  assumes C: "src_rs_new junk_tables junk e s = Some C" "generator_matrix (src_code C) = Some g"
    and k: "2 \<le> data_disk_num s" "data_disk_num s < disk_total_num s" "disk_total_num s \<le> 256"
    and f: "0 < src_f C" "src_f C \<le> disk_total_num s"
    and ok: "src_array S (src_f C) s" "alloc_ok (\<lambda>d _. d < data_disk_num s) (S * src_f C) s"
    and P: "src_coded (data_disk_num s) (disk_total_num s) g (src_f C) S (disk_block_size s) (content s)"
    and sz: "0 < sz" "sz \<le> disk_block_size s" "4 dvd sz" "length buf = nat sz"
  shows "\<exists>r s'. src_rs_encode C buf sz s = Some (r, s') \<and> (bi_disk_id r \<noteq> -1 \<longrightarrow>
    src_array S (src_f C) s' \<and> alloc_ok (\<lambda>d _. d < data_disk_num s) (S * src_f C) s' \<and>
    src_coded (data_disk_num s) (disk_total_num s) g (src_f C) S (disk_block_size s) (content s') \<and>
    take (nat sz) (src_data (src_f C) (disk_block_size s) (content s') (bi_block_no r) (bi_disk_id r)) = buf \<and>
    0 \<le> bi_disk_id r \<and> bi_disk_id r < data_disk_num s \<and>
    (\<forall>p b. 0 \<le> p \<longrightarrow> p < data_disk_num s \<longrightarrow> 0 \<le> b \<longrightarrow> b < S * src_f C \<longrightarrow> (p, b) \<noteq> (bi_disk_id r, bi_block_no r) \<longrightarrow>
      src_data (src_f C) (disk_block_size s) (content s') b p = src_data (src_f C) (disk_block_size s) (content s) b p))"
proof -
  let ?k = "data_disk_num s" and ?n = "disk_total_num s" and ?bs = "disk_block_size s" and ?f = "src_f C"
  let ?v = "src_data ?f ?bs (content s)"
  have rs: "rs_ok ?k (?n - ?k) g (src_code C)" by (rule src_made_ok [OF C]) (use k in auto)
  have req: "round_to_block_size sz s = ?bs" "?bs sdiv ?bs = 1" "0 < ?bs"
    using src_arrayD(1) [OF ok(1)] sz round_one_block [of s sz] by auto
  obtain d0 b0 where p: "rs_pick 1 s = Some (d0, b0)"
    "d0 \<noteq> -1 \<Longrightarrow> 0 \<le> d0 \<and> d0 < ?k \<and> 1 \<le> free_size s d0 \<and> b0 = free_offset s d0"
    by (rule rs_pick_ok [OF k(1), of 1]) auto
  obtain d b s1 where o: "or_space_list (d0, b0) s = (d, b, s1)" by (metis prod_cases3)
  show ?thesis
  proof (cases "d = -1")
    case True
    then show ?thesis using req p o by (simp add: src_rs_encode_def Let_def)
  next
    case dne: False
    have d0: "d0 \<noteq> -1 \<Longrightarrow> 0 \<le> d0 \<and> d0 < ?n \<and> 1 \<le> free_size s d0 \<and> b0 = free_offset s d0 \<and> d0 < ?k"
      using p(2) k(2) by auto
    have c: "0 \<le> d" "d < ?n" "0 \<le> b" "b < S * ?f" "d < ?k" "alloc_ok (\<lambda>d _. d < ?k) (S * ?f) (claim d b 1 s1)"
      by (rule alloc_ok_claim [OF ok(2) o dne d0]; assumption)+
    have kn: "?k \<le> ?n" using k by simp
    obtain s' where s': "src_rs_encode C buf sz s = Some (\<lparr>bi_disk_id = d, bi_block_no = b\<rparr>, s')"
      "src_array S ?f s'" "frame s' = frame (claim d b 1 s1)" "src_checks_ok ?f ?n S ?bs (content s')"
      and dat: "\<And>p b'. 0 \<le> p \<Longrightarrow> p < ?n \<Longrightarrow> 0 \<le> b' \<Longrightarrow> b' < S * ?f \<Longrightarrow> src_data ?f ?bs (content s') b' p =
        (let v = ?v in if b' \<noteq> b then v b' p
            else if p = d then overwrite (v b d) 0 buf
            else if ?k \<le> p then overwrite (v b p) 0
              (map (\<lambda>j. v b p ! j XOR gmul (ent ?k g (p - ?k) d) (v b d ! j XOR buf ! j)) [0..<nat sz])
            else v b p)"
      by (rule src_rs_encode_run [OF rs f p(1) o dne ok(1) src_codedD(1) [OF P] c(1,5) kn c(3,4) sz]) (rule that, assumption, assumption, assumption, assumption, simp)
    have len: "length (?v b p) = nat ?bs" if "0 \<le> p" "p < ?n" for p
      using src_reads(3) [OF ok(1) f c(3,4) that req(3) order_refl, of "zeros (nat ?bs)"] by simp
    have lb: "length buf \<le> nat ?bs" using sz by simp
    have "rs_parity_ok ?k (?n - ?k) g (nat ?bs) (src_data ?f ?bs (content s') b')" if b': "0 \<le> b'" "b' < S * ?f" for b'
    proof (cases "b' = b")
      case True
      show ?thesis unfolding True
      proof (rule rs_parity_update [OF src_codedD(2) [OF P c(3,4)] c(1,5), where x = buf and off = 0])
        show "src_data ?f ?bs (content s') b j = (if j = d then overwrite (?v b d) 0 buf else ?v b j)"
          if "0 \<le> j" "j < ?k" for j using dat [of j b] that kn c(3,4) by (simp add: Let_def)
        show "src_data ?f ?bs (content s') b (?k + i) = overwrite (?v b (?k + i)) 0 (map (\<lambda>j. ?v b (?k + i) ! (0 + j) XOR
            gmul (ent ?k g i d) (?v b d ! (0 + j) XOR buf ! j)) [0..<length buf])" if "0 \<le> i" "i < ?n - ?k" for i
          using dat [of "?k + i" b] that k c(3-5) sz(4) by (auto simp: Let_def)
      qed (use lb len in auto)
    next
      case False
      have k0: "0 \<le> ?k" "0 \<le> ?n - ?k" using k by simp_all
      have "src_data ?f ?bs (content s') b' p = ?v b' p" if "0 \<le> p" "p < ?k + (?n - ?k)" for p
        using dat [of p b'] that b' False by simp
      from rs_parity_cong [of ?k "?n - ?k" "src_data ?f ?bs (content s') b'" "?v b'", OF this k0]
      show ?thesis using src_codedD(2) [OF P b'] by blast
    qed
    then have "src_coded ?k ?n g ?f S ?bs (content s')" using s'(4) by (simp add: src_coded_def list_all_iff)
    moreover have "alloc_ok (\<lambda>d _. d < ?k) (S * ?f) s'" using alloc_ok_frame [OF s'(3)] c(6) by simp
    moreover have "src_data ?f ?bs (content s') b d = overwrite (?v b d) 0 buf" using dat [of d b] c by simp
    then have "take (nat sz) (src_data ?f ?bs (content s') b d) = buf"
      using sz len [of d] c lb by (simp add: overwrite_def)
    moreover have "src_data ?f ?bs (content s') b' p = ?v b' p"
      if "0 \<le> p" "p < ?k" "0 \<le> b'" "b' < S * ?f" "(p, b') \<noteq> (d, b)" for p b'
      using dat [of p b'] that kn by (auto simp: Let_def)
    ultimately show ?thesis using s' c(1,5) by auto
  qed
qed

text \<open>A fresh array; the configuration gives \<open>src_f = 2\<close>.\<close>

definition fresh_src :: "int \<Rightarrow> int \<Rightarrow> int \<Rightarrow> int \<Rightarrow> int \<Rightarrow> sys" where
  "fresh_src n k b f S = (fresh_array 130 n k b (S * (f + 1)))\<lparr>disk_size := (\<lambda>_. S * f), free_size := (\<lambda>_. S * f)\<rparr>"

definition src_config :: "xml_node option" where
  "src_config = Some (Elem ''R'' [Elem ''FileSystem'' [Elem ''Disk'' [Elem ''Src'' [Elem ''SrcF'' [Txt ''2'']]]]])"

lemma content_fresh_src: "0 \<le> i \<Longrightarrow> i < n \<Longrightarrow> content (fresh_src n k b f S) i = zeros (nat (S * (f + 1) * b))"
  using content_cong [of "fresh_src n k b f S" "fresh_array 130 n k b (S * (f + 1))"]
  by (simp add: content_fresh fresh_src_def)

lemma src_blk_fresh:
  assumes "0 < b" "0 \<le> r" "r < S * (f + 1)" "0 \<le> i" "i < n"
  shows "disk_blk b (content (fresh_src n k b f S)) i r = zeros (nat b)"
  by (rule zeros_blk [where v = "content (fresh_src n k b f S)" and p = i, OF content_fresh_src [OF assms(4,5)] assms(1-3)])

lemma src_array_fresh:
  assumes "0 < b" "4 dvd b" "0 \<le> S" "S * (f + 1) * b < 2147483648" "0 \<le> f"
  shows "src_array S f (fresh_src n k b f S)"
proof -
  have "0 \<le> S * (f + 1) * b" using assms by simp
  then have l: "int (length (content (fresh_src n k b f S) i)) = S * (f + 1) * b" if "0 \<le> i" "i < n" for i
    using that by (simp add: content_fresh_src)
  have "disk_total_num (fresh_src n k b f S) = n" "disk_block_size (fresh_src n k b f S) = b"
    "dev_name (fresh_src n k b f S) = path_no" "disk_size (fresh_src n k b f S) = (\<lambda>_. S * f)"
    "disk_status (fresh_src n k b f S) = (\<lambda>_. 0)" by (simp_all add: fresh_src_def)
  then show ?thesis using assms l distinct_path_no [of n] by (simp add: src_array_def list_all_iff)
qed

lemma src_coded_fresh:
  assumes "0 < b" "0 < f" "0 < k" "k \<le> n"
  shows "src_coded k n g f S b (content (fresh_src n k b f S))"
proof -
  let ?v = "content (fresh_src n k b f S)"
  have d: "src_data f b ?v q p ! a = 0" if "0 \<le> q" "q < S * f" "0 \<le> p" "p < n" "a < nat b" for p q a
    using src_blk_fresh [OF assms(1) src_rows_range(5,6) [OF assms(2) that(1,2)] that(3,4)] that(5)
    by (simp add: src_data_def)
  have c: "src_check f b ?v t p ! a = 0" if "0 \<le> t" "t < S" "0 \<le> p" "p < n" "a < nat b" for p t a
    using src_blk_fresh [OF assms(1) group_rows [of t S f "f + 1"] that(3,4)] that assms(2)
    by (simp add: src_check_def)
  have "src_checks_ok f n S b ?v"
    unfolding src_checks_ok_def list_all_iff
  proof (intro ballI)
    fix t p a assume "t \<in> set [0..S - 1]" "p \<in> set [0..n - 1]" "a \<in> set [0..<nat b]"
    then have h: "0 \<le> t" "t < S" "0 \<le> p" "p < n" "a < nat b" by auto
    have "xsum (\<lambda>q. src_data f b ?v (t * f + q) (src_disk f n p q) ! a) [0..f - 1] = xsum (\<lambda>_. 0) [0..f - 1]"
    proof (rule xsum_cong [OF refl])
      fix q assume "q \<in> set [0..f - 1]"
      then have q: "0 \<le> q" "q < f" by auto
      show "src_data f b ?v (t * f + q) (src_disk f n p q) ! a = 0"
        by (rule d) (use group_rows [OF h(1,2) q] h in \<open>auto simp: src_disk_def\<close>)
    qed
    then show "src_check f b ?v t p ! a = xsum (\<lambda>q. src_data f b ?v (t * f + q) (src_disk f n p q) ! a) [0..f - 1]"
      using c h by simp
  qed
  moreover have "rs_parity_ok k (n - k) g (nat b) (src_data f b ?v q)" if q: "0 \<le> q" "q < S * f" for q
    unfolding rs_parity_ok_def list_all_iff
  proof (intro ballI)
    fix i a assume h: "i \<in> set [0..n - k - 1]" "a \<in> set [0..<nat b]"
    have "xsum (\<lambda>j. gmul (ent k g i j) (src_data f b ?v q j ! a)) [0..k - 1] = xsum (\<lambda>_. 0) [0..k - 1]"
      using h assms by (intro xsum_cong) (auto simp: d q gmul_0)
    then show "src_data f b ?v q (k + i) ! a = xsum (\<lambda>j. gmul (ent k g i j) (src_data f b ?v q j ! a)) [0..k - 1]"
      using h assms d [OF q, of "k + i" a] by simp
  qed
  ultimately show ?thesis by (simp add: src_coded_def list_all_iff)
qed

lemma fresh_src_fields [simp]:
  "disk_total_num (fresh_src n k b f S) = n" "data_disk_num (fresh_src n k b f S) = k"
  "disk_block_size (fresh_src n k b f S) = b" "free_offset (fresh_src n k b f S) = (\<lambda>_. 0)"
  "free_size (fresh_src n k b f S) = (\<lambda>_. S * f)" "space_list_head (fresh_src n k b f S) = []"
  "dev_name (fresh_src n k b f S) = path_no"
  by (simp_all add: fresh_src_def)

lemma src_new_fresh:
  assumes "2 \<le> k" "k < n" "n \<le> 256"
  obtains C g where "src_rs_new no_tables (\<lambda>_. 0) src_config (fresh_src n k b f S) = Some C"
    "generator_matrix (src_code C) = Some g" "src_f C = 2"
proof -
  obtain R g where R: "rs_new no_tables (\<lambda>_. 0) (fresh_src n k b f S) = Some R" "rs_ok k (n - k) g R"
    by (rule rs_new_ok [of "fresh_src n k b f S"]) (use assms in auto)
  have "atoi ''2'' = 2" by code_simp
  then have "getConfigInt ''FileSystem>Disk>Src>SrcF'' src_config = 2"
    by (simp add: src_config_def getConfigInt_def getConfigString_def advanceToElement_def FirstChild_def GetText_def)
  then show ?thesis using that R by (simp add: src_rs_new_def Let_def rs_ok_def)
qed

theorem src_rs_encode_coded_witness:
  "case src_rs_new no_tables (\<lambda>_. 0) src_config (fresh_src 5 3 4 2 2) of None \<Rightarrow> False
   | Some C \<Rightarrow> map_option (\<lambda>(r, s). take 4 (src_data 2 4 (content s) 0 0)) (src_rs_encode C [6, 7, 8, 9] 4 (fresh_src 5 3 4 2 2)) =
       Some [6, 7, 8, 9]"
proof -
  let ?s = "fresh_src 5 3 4 2 2"
  obtain C g where C: "src_rs_new no_tables (\<lambda>_. 0) src_config ?s = Some C"
    "generator_matrix (src_code C) = Some g" "src_f C = 2"
    by (rule src_new_fresh [of 3 5 4 2 2]) simp_all
  have a: "alloc_ok (\<lambda>d _. d < 3) 4 ?s" by (simp add: alloc_ok_def list_all_iff)
  obtain r s' where e: "src_rs_encode C [6, 7, 8, 9] 4 ?s = Some (r, s')"
    "bi_disk_id r \<noteq> -1 \<longrightarrow> take 4 (src_data 2 4 (content s') (bi_block_no r) (bi_disk_id r)) = [6, 7, 8, 9]"
    using src_rs_encode_coded [of no_tables "\<lambda>_. 0" src_config ?s C g 2 4 "[6, 7, 8, 9]"] C a
      src_array_fresh [of 4 2 2 5 3] src_coded_fresh [of 4 2 3 5 g 2]
    by auto
  have "r = \<lparr>bi_disk_id = 0, bi_block_no = 0\<rparr>" using e(1) C(3)
    by (auto simp: src_rs_encode_def round_to_block_size_def rs_pick_def rs_pick_step_def or_space_list_def
        upto.simps Let_def split: prod.splits)
  then show ?thesis using C(1) e by simp
qed

end
