(* ===== verification/SrcRsRead.thy ===== *)
theory SrcRsRead
  imports CodingSrcRs
begin

text \<open>
  Reading and recovery of the simple regenerating code (\<open>coding_src_rs.cc\<close>): from the other blocks of a group
  and its check block when they are there, else as in Reed-Solomon.
\<close>

section \<open>Reading\<close>

text \<open>Row \<open>q\<close> of the blocks around a check block; row \<open>f\<close> is the check block itself.\<close>

definition src_place :: "int \<Rightarrow> int \<Rightarrow> int \<Rightarrow> int \<Rightarrow> int \<Rightarrow> int \<times> int" where
  "src_place f n t e q = ((e - q) mod n, t * (f + 1) + q)"

lemma src_next_place:
  assumes "0 < f" "0 < n" "0 \<le> t" "0 \<le> q" "q \<le> f"
  shows "src_next f n (src_place f n t e q) = src_place f n t e ((q + 1) mod (f + 1))"
proof -
  have m: "0 \<le> (e - q) mod n" using assms by simp
  have s1: "((e - q) mod n - 1 + n) smod n = (e - q - 1) mod n"
  proof -
    have "((e - q) mod n - 1 + n) smod n = ((e - q) mod n - 1 + n) mod n"
      by (rule smod_nonneg) (use m assms in linarith)+
    also have "\<dots> = (e - q - 1) mod n" by (simp add: mod_diff_left_eq)
    finally show ?thesis .
  qed
  have b: "0 \<le> t * (f + 1) + q + 1" using assms by simp
  have s2: "(t * (f + 1) + q + 1) smod (f + 1) = (q + 1) mod (f + 1)"
  proof -
    have "(t * (f + 1) + q + 1) smod (f + 1) = (t * (f + 1) + q + 1) mod (f + 1)"
      by (rule smod_nonneg) (use b assms in linarith)+
    also have "\<dots> = (q + 1 + t * (f + 1)) mod (f + 1)" by (rule arg_cong [of _ _ "\<lambda>x. x mod (f + 1)"]) linarith
    finally show ?thesis by (simp only: mod_mult_self1)
  qed
  show ?thesis
  proof (cases "q = f")
    case True
    have "((e - q - 1) mod n + f + 1) smod n = ((e - q - 1) mod n + f + 1) mod n"
      by (rule smod_nonneg) (use assms pos_mod_sign [of n "e - q - 1"] in linarith)+
    also have "\<dots> = ((e - q - 1) mod n + (f + 1)) mod n" by (simp only: add.assoc)
    also have "\<dots> = (e - q - 1 + (f + 1)) mod n" by (rule mod_add_left_eq)
    also have "\<dots> = e mod n" using True by simp
    finally show ?thesis using True s1 s2 by (simp add: src_next_def src_place_def Let_def)
  next
    case False
    then have q: "(q + 1) mod (f + 1) = q + 1" using assms by simp
    moreover have "q + 1 \<noteq> 0" using assms by simp
    moreover have "(e - q - 1) mod n = (e - (q + 1)) mod n" by (rule arg_cong [of _ _ "\<lambda>x. x mod n"]) linarith
    ultimately show ?thesis using s1 s2 by (simp add: src_next_def src_place_def Let_def)
  qed
qed

lemma src_places_eq:
  assumes "0 < f" "0 < n" "0 \<le> t" "0 \<le> q" "q \<le> f"
  shows "src_places f n m (src_place f n t e q) =
    map (\<lambda>j. src_place f n t e ((q + 1 + int j) mod (f + 1))) [0..<m]"
  using assms(4,5)
proof (induction m arbitrary: q)
  case (Suc m)
  let ?q = "(q + 1) mod (f + 1)"
  have q: "0 \<le> ?q" "?q \<le> f"
    using assms(1) pos_mod_bound [of "f + 1" "q + 1"] pos_mod_sign [of "f + 1" "q + 1"] by linarith+
  have "(?q + 1 + int j) mod (f + 1) = (q + 1 + int (Suc j)) mod (f + 1)" for j
  proof -
    have "(?q + 1 + int j) mod (f + 1) = (?q + (1 + int j)) mod (f + 1)" by (simp only: add.assoc)
    also have "\<dots> = (q + 1 + (1 + int j)) mod (f + 1)" by (rule mod_add_left_eq)
    finally show ?thesis by simp
  qed
  then have "map (\<lambda>j. src_place f n t e ((?q + 1 + int j) mod (f + 1))) [0..<m] =
      map (\<lambda>j. src_place f n t e ((q + 1 + int j) mod (f + 1))) (map Suc [0..<m])" by simp
  moreover have "src_next f n (src_place f n t e q) = src_place f n t e ?q"
    by (rule src_next_place [OF assms(1-3) Suc.prems])
  ultimately show ?case using Suc.IH [OF q] by (simp add: map_Suc_upt upt_conv_Cons del: upt_Suc map_map)
qed simp

lemma src_cycle:
  assumes "0 \<le> q" "q \<le> f"
  shows "map (\<lambda>j. (q + 1 + int j) mod (f + 1)) [0..<nat f] = [q + 1..f] @ [0..q - 1]"
proof (rule nth_equalityI)
  fix j assume "j < length (map (\<lambda>j. (q + 1 + int j) mod (f + 1)) [0..<nat f])"
  then have j: "j < nat f" by simp
  show "map (\<lambda>j. (q + 1 + int j) mod (f + 1)) [0..<nat f] ! j = ([q + 1..f] @ [0..q - 1]) ! j"
  proof (cases "j < nat (f - q)")
    case True
    then have "q + 1 + int j \<le> f" using assms by linarith
    then show ?thesis using j assms True by (simp add: nth_append)
  next
    case False
    then have i: "f + 1 \<le> q + 1 + int j" "int (j - nat (f - q)) = int j - (f - q)" "int j - (f - q) < q"
      using assms j by linarith+
    have "(q + 1 + int j) mod (f + 1) = (q + 1 + int j - (f + 1)) mod (f + 1)"
      by (rule minus_mod_self2 [symmetric])
    also have "\<dots> = q + 1 + int j - (f + 1)" by (rule mod_pos_pos_trivial) (use i assms j in linarith)+
    finally have "(q + 1 + int j) mod (f + 1) = int j - (f - q)" by simp
    then show ?thesis using j assms False i by (simp add: nth_append)
  qed
qed (use assms in simp)

lemma src_places_all:
  assumes "0 < f" "0 < n" "0 \<le> t" "0 \<le> q" "q \<le> f"
  shows "src_places f n (nat f) (src_place f n t e q) = map (src_place f n t e) ([q + 1..f] @ [0..q - 1])"
proof -
  have "map (src_place f n t e) ([q + 1..f] @ [0..q - 1]) =
      map (src_place f n t e) (map (\<lambda>j. (q + 1 + int j) mod (f + 1)) [0..<nat f])"
    by (simp only: src_cycle [OF assms(4,5)])
  then show ?thesis using src_places_eq [OF assms, of "nat f" e] by simp
qed

lemma xsum_others:
  assumes "0 \<le> q" "q < f" "h f = xsum h [0..f - 1]"
  shows "xsum h ([q + 1..f] @ [0..q - 1]) = (h q :: byte)"
proof -
  have "[0..f - 1] = [0..q - 1] @ q # [q + 1..f - 1]" by (rule upto_split3) (use assms in auto)
  moreover have "[q + 1..f] = [q + 1..f - 1] @ [f]" by (rule upto_rec2) (use assms in auto)
  ultimately show ?thesis using assms(3) by (simp add: ac_simps)
qed

lemma src_sum_ok:
  assumes "0 < sz" "0 < disk_block_size s" "length br = nat sz" "length bc = nat sz"
    and "\<And>p q. (p, q) \<in> set places \<Longrightarrow> disk_status s p = 0 \<and> 0 \<le> q \<and>
      q * disk_block_size s + sz \<le> int (length (content s p))"
  shows "src_sum sz places br bc s = (True, map (\<lambda>j. if j < 4 * (nat sz div 4)
       then bc ! j XOR xsum (\<lambda>(p, q). content s p ! (nat (q * disk_block_size s) + j)) places else bc ! j) [0..<nat sz], s)"
  using assms(3-)
proof (induction places arbitrary: br bc)
  case Nil
  then show ?case by (auto intro: nth_equalityI)
next
  case (Cons x places)
  obtain p q where x: "x = (p, q)" by fastforce
  let ?a = "q * disk_block_size s"
  let ?t = "take (nat sz) (drop (nat ?a) (content s p))"
  have h: "disk_status s p = 0" "0 \<le> q" "?a + sz \<le> int (length (content s p))" using Cons.prems(3) [of p q] x by auto
  have a: "0 \<le> ?a" using h(2) assms(2) by simp
  have r: "nc_readDisk p br sz ?a s = (sz, ?t, s)" by (rule nc.rd_buf) (use a h assms(1) Cons.prems in auto)
  have t: "length ?t = nat sz" by (rule nc.length_rd_buf) (use a h assms(1) in auto)
  have lo: "nat ?a \<le> length (content s p)" using h(3) a assms(1) by linarith
  let ?b = "xor_ints (heap_junk s) (nat sz) bc ?t"
  have b: "?b ! j = (if j < 4 * (nat sz div 4) then bc ! j XOR content s p ! (nat ?a + j) else bc ! j)"
    if "j < nat sz" for j
    using that Cons.prems(2) t lo by (simp add: xor_ints_def nth_xor_into)
  have "src_sum sz places ?t ?b s = (True, map (\<lambda>j. if j < 4 * (nat sz div 4)
       then ?b ! j XOR xsum (\<lambda>(p, q). content s p ! (nat (q * disk_block_size s) + j)) places else ?b ! j) [0..<nat sz], s)"
    by (rule Cons.IH [OF t]) (use Cons.prems in auto)
  moreover have "src_sum sz (x # places) br bc s = src_sum sz places ?t ?b s" using r h(1) by (simp add: x)
  ultimately show ?case using b by (simp add: x xor.assoc)
qed

text \<open>The blocks around a check block sum to the one that is left out.\<close>

lemma src_group_sum:
  assumes P: "src_checks_ok f n S bs v" and f: "0 < f" and b: "0 \<le> b" "b < S * f" and d: "0 \<le> d" "d < n"
    and bs: "0 < bs" "a < nat bs" and len: "\<And>p. 0 \<le> p \<Longrightarrow> p < n \<Longrightarrow> int (length (v p)) = S * (f + 1) * bs"
  shows "xsum (\<lambda>(p, q). v p ! (nat (q * bs) + a)) (src_places f n (nat f) (d, b + b div f)) = src_data f bs v b d ! a"
proof -
  let ?t = "b div f" and ?q = "b mod f"
  let ?e = "d + ?q"
  let ?c = "(?e - f) mod n"
  note r = src_rows_range [OF f b]
  have n: "0 < n" using d by simp
  have c: "0 \<le> ?c" "?c < n" using n by simp_all
  have pl: "(d, b + ?t) = src_place f n ?t ?e ?q" using d src_row [of b f] by (simp add: src_place_def)
  have row: "disk_blk bs v p (?t * (f + 1) + q) ! a = v p ! (nat ((?t * (f + 1) + q) * bs) + a)"
    if "0 \<le> q" "q \<le> f" "0 \<le> p" "p < n" for p q
  proof -
    have q: "q < f + 1" using that by simp
    note w = group_rows [OF r(1,2) that(1) q]
    have "(?t * (f + 1) + q + 1) * bs \<le> S * (f + 1) * bs" using w(2) bs by (intro mult_right_mono) auto
    then have "(?t * (f + 1) + q) * bs + bs \<le> int (length (v p))" using len [OF that(3,4)] by (simp only: distrib_right mult_1)
    from nth_disk_blk [where v = v and p = p, OF bs(1) w(1) this bs(2)] show ?thesis .
  qed
  define h where "h q = (case src_place f n ?t ?e q of (p, x) \<Rightarrow> v p ! (nat (x * bs) + a))" for q
  have hd: "h q = src_data f bs v (?t * f + q) (src_disk f n ?c q) ! a" if q: "0 \<le> q" "q < f" for q
  proof -
    have "(?c + f - q) mod n = (?c + (f - q)) mod n" by (rule arg_cong [of _ _ "\<lambda>x. x mod n"]) linarith
    also have "\<dots> = (?e - f + (f - q)) mod n" by (rule mod_add_left_eq)
    also have "\<dots> = (?e - q) mod n" by (rule arg_cong [of _ _ "\<lambda>x. x mod n"]) linarith
    finally have p: "src_disk f n ?c q = (?e - q) mod n" by (simp add: src_disk_def)
    have x: "?t * f + q + (?t * f + q) div f = ?t * (f + 1) + q" using src_row [of "?t * f + q" f] q by simp
    have ql: "q \<le> f" "0 \<le> (?e - q) mod n" "(?e - q) mod n < n" using q n by simp_all
    show ?thesis unfolding src_data_def p x row [OF q(1) ql] by (simp add: h_def src_place_def)
  qed
  have "src_check f bs v ?t ?c ! a = xsum (\<lambda>q. src_data f bs v (?t * f + q) (src_disk f n ?c q) ! a) [0..f - 1]"
    by (rule src_checks_okD [OF P r(1,2) c bs(2)])
  also have "\<dots> = xsum h [0..f - 1]" by (rule xsum_cong) (use hd in auto)
  finally have "src_check f bs v ?t ?c ! a = xsum h [0..f - 1]" .
  moreover have "src_check f bs v ?t ?c ! a = h f"
    using row [of f ?c] c f by (simp add: src_check_def h_def src_place_def)
  ultimately have "xsum h ([?q + 1..f] @ [0..?q - 1]) = h ?q" by (intro xsum_others) (use r in simp_all)
  moreover have "xsum (\<lambda>(p, q). v p ! (nat (q * bs) + a)) (src_places f n (nat f) (d, b + ?t)) =
      xsum h ([?q + 1..f] @ [0..?q - 1])"
    unfolding pl src_places_all [OF f n r(1,3) less_imp_le [OF r(4)]] xsum_map h_def ..
  moreover have "h ?q = src_data f bs v b d ! a"
    using row [of ?q d] r d unfolding src_data_def src_row [of b f] by (simp add: h_def src_place_def)
  ultimately show ?thesis by simp
qed

text \<open>The disks with the other blocks of a group are good.\<close>

definition src_group_good :: "int \<Rightarrow> int \<Rightarrow> int list \<Rightarrow> int \<Rightarrow> int \<Rightarrow> bool" where
  "src_group_good f n F d b \<longleftrightarrow> list_all (\<lambda>q. q = b mod f \<or> (d + b mod f - q) mod n \<notin> set F) [0..f]"

lemma src_places_good:
  assumes "0 < f" "0 \<le> b" "b < S * f" "0 \<le> d" "d < n"
  shows "list_all (\<lambda>(p, q). p \<notin> set F) (src_places f n (nat f) (d, b + b div f)) = src_group_good f n F d b"
    "list_all (\<lambda>(p, q). 0 \<le> p \<and> p < n \<and> 0 \<le> q \<and> q < S * (f + 1)) (src_places f n (nat f) (d, b + b div f))"
proof -
  let ?t = "b div f" and ?q = "b mod f"
  note r = src_rows_range [OF assms(1-3)]
  have n: "0 < n" using assms by simp
  have pl: "(d, b + ?t) = src_place f n ?t (d + ?q) ?q" using assms src_row [of b f] by (simp add: src_place_def)
  have P: "src_places f n (nat f) (d, b + ?t) = map (src_place f n ?t (d + ?q)) ([?q + 1..f] @ [0..?q - 1])"
    unfolding pl by (rule src_places_all [OF assms(1) n r(1,3) less_imp_le [OF r(4)]])
  have m: "set ([?q + 1..f] @ [0..?q - 1]) = {0..f} - {?q}" using r by auto
  show "list_all (\<lambda>(p, q). p \<notin> set F) (src_places f n (nat f) (d, b + ?t)) = src_group_good f n F d b"
    unfolding P list_all_iff set_map m src_group_good_def by (auto simp: src_place_def)
  show "list_all (\<lambda>(p, q). 0 \<le> p \<and> p < n \<and> 0 \<le> q \<and> q < S * (f + 1)) (src_places f n (nat f) (d, b + ?t))"
    unfolding P list_all_iff set_map m using group_rows [OF r(1,2), of _ "f + 1"] n by (auto simp: src_place_def)
qed

lemma good_count:
  assumes "set F \<subseteq> set (disk_ids s)" "int (length F) \<le> disk_total_num s - k" "0 \<le> disk_total_num s"
  shows "k \<le> int (length (filter (\<lambda>i. i \<notin> set F) (disk_ids s)))"
proof -
  have "length (filter (\<lambda>i. i \<in> set F) (disk_ids s)) = card (set (filter (\<lambda>i. i \<in> set F) (disk_ids s)))"
    by (rule distinct_card [symmetric]) simp
  also have "\<dots> \<le> card (set F)" by (rule card_mono) auto
  also have "\<dots> \<le> length F" by (rule card_length)
  finally have "int (length (filter (\<lambda>i. i \<in> set F) (disk_ids s))) \<le> int (length F)" by simp
  moreover have "length (filter (\<lambda>i. i \<in> set F) (disk_ids s)) + length (filter (\<lambda>i. i \<notin> set F) (disk_ids s)) =
      length (disk_ids s)" by (rule sum_length_filter_compl)
  moreover have "int (length (disk_ids s)) = disk_total_num s" using assms(3) by simp
  ultimately show ?thesis using assms(2) by linarith
qed

text \<open>The addresses \<open>decode\<close> works with, for byte \<open>p\<close> of block \<open>b\<close>.\<close>

lemma src_offset:
  assumes "0 < bs" "S * (f + 1) * bs < 2147483648" "0 < f" "0 \<le> b" "b < S * f" "0 \<le> p" "p < bs"
  shows "(b * bs + p) sdiv bs = b" "b sdiv f = b div f" "b * bs + p + b div f * bs = (b + b div f) * bs + p"
    "i32 b = b" "i32 (b + b div f) = b + b div f" "0 \<le> b * bs + p" "b * bs + p < 2147483648"
proof -
  let ?r = "b + b div f"
  note r = src_rows_range [OF assms(3-5)]
  note i = i32_row [OF assms(1,2) r(5,6)]
  have br: "b \<le> ?r" "b * bs \<le> ?r * bs" using r(1) assms(1) by (simp_all add: mult_right_mono)
  have big: "?r * bs + bs < 2147483648" using i(3) assms(2) by linarith
  have rr: "?r < 2147483648" by (rule row_small [OF assms(1) r(5) big])
  have "0 \<le> b * bs" using assms by simp
  then show o: "0 \<le> b * bs + p" using assms by simp
  then show "(b * bs + p) sdiv bs = b" using assms by simp
  show "b sdiv f = b div f" using assms by simp
  show "b * bs + p + b div f * bs = ?r * bs + p" by (simp add: distrib_right)
  show "i32 b = b" "i32 ?r = ?r" by (rule i32_id; use assms br rr r(5) in linarith)+
  show "b * bs + p < 2147483648" using br(2) big assms(7) by linarith
qed

text \<open>When the other blocks of the group can be read, \<open>decode\<close> returns their sum.\<close>

lemma src_decode_group:
  assumes f: "0 < src_f C" and bs: "0 < disk_block_size s" "S * (src_f C + 1) * disk_block_size s < 2147483648"
    and b: "0 \<le> b" "b < S * src_f C" and d: "0 \<le> d" "d < disk_total_num s" "disk_status s d \<noteq> 0"
    and P: "src_checks_ok (src_f C) (disk_total_num s) S (disk_block_size s) v"
    and len: "\<And>p. 0 \<le> p \<Longrightarrow> p < disk_total_num s \<Longrightarrow> int (length (v p)) = S * (src_f C + 1) * disk_block_size s"
    and good: "\<And>x q. (x, q) \<in> set (src_places (src_f C) (disk_total_num s) (nat (src_f C)) (d, b + b div src_f C)) \<Longrightarrow>
      disk_status s x = 0 \<and> content s x = v x"
    and sz: "0 < sz" "0 \<le> p" "p + sz \<le> disk_block_size s" "length buf = nat sz"
  shows "src_rs_decode C d buf sz (b * disk_block_size s + p) s =
    Some (sz, int_bytes sz (take (nat sz) (src_data (src_f C) (disk_block_size s) v b d)), s)"
proof -
  let ?n = "disk_total_num s" and ?bs = "disk_block_size s" and ?f = "src_f C"
  let ?places = "src_places ?f ?n (nat ?f) (d, b + b div ?f)" and ?blk = "src_data ?f ?bs v b d"
  have sb: "p < ?bs" "sz \<le> ?bs" using sz by linarith+
  note o = src_offset [OF bs f b sz(2) sb(1)]
  have st: "list_all (\<lambda>(x, q). disk_status s x = 0) ?places" using good by (auto simp: list_all_iff)
  have "src_sum sz ?places (zeros (nat sz)) (zeros (nat sz)) s = (True, map (\<lambda>j. if j < 4 * (nat sz div 4)
     then zeros (nat sz) ! j XOR xsum (\<lambda>(x, q). content s x ! (nat (q * ?bs) + j)) ?places
     else zeros (nat sz) ! j) [0..<nat sz], s)"
  proof (rule src_sum_ok [OF sz(1) bs(1)])
    fix x q assume m: "(x, q) \<in> set ?places"
    have h: "0 \<le> x" "x < ?n" "0 \<le> q" "q < S * (?f + 1)"
      using src_places_good(2) [OF f b d(1,2)] m by (auto simp: list_all_iff)
    have "q * ?bs + ?bs \<le> int (length (v x))" using i32_row(3) [OF bs h(3,4)] len [OF h(1,2)] by simp
    then show "disk_status s x = 0 \<and> 0 \<le> q \<and> q * ?bs + sz \<le> int (length (content s x))"
      using good [OF m] h sb by simp
  qed simp_all
  also have "\<dots> = (True, int_bytes sz (take (nat sz) ?blk), s)"
  proof -
    have "xsum (\<lambda>(x, q). content s x ! (nat (q * ?bs) + j)) ?places = ?blk ! j" if j: "j < nat sz" for j
    proof -
      have "xsum (\<lambda>(x, q). content s x ! (nat (q * ?bs) + j)) ?places =
          xsum (\<lambda>(x, q). v x ! (nat (q * ?bs) + j)) ?places"
        by (rule xsum_cong) (use good in auto)
      also have "\<dots> = ?blk ! j"
        by (rule src_group_sum [OF P f b d(1,2) bs(1) _ len]) (use j sb in linarith)+
      finally show ?thesis .
    qed
    then show ?thesis by (simp add: int_bytes_def cong: map_cong if_cong)
  qed
  finally have "src_sum sz ?places (zeros (nat sz)) (zeros (nat sz)) s = (True, int_bytes sz (take (nat sz) ?blk), s)" .
  moreover have "overwrite buf 0 (take (nat sz) (int_bytes sz (take (nat sz) ?blk))) = int_bytes sz (take (nat sz) ?blk)"
    using sz by (simp add: overwrite_def int_bytes_def)
  ultimately show ?thesis using f d(3) st by (simp add: src_rs_decode_def Let_def o)
qed

text \<open>
  C29: Reading with lost disks: \<open>decode\<close> of a range within a block of a data disk returns the bytes held, whichever disks
  are lost, up to the number of coding disks, with two exceptions for a lost disk: when the other blocks of
  the group can be read, it returns the bytes at the start of the block, whatever the offset in the block; and
  the last bytes of a size that is not a multiple of four are zero.
\<close>

theorem src_rs_degraded_read:
  assumes C: "src_rs_new junk_tables junk e s = Some C" "generator_matrix (src_code C) = Some g"
    and k: "0 < data_disk_num s" "data_disk_num s < disk_total_num s" "disk_total_num s \<le> 256"
    and f: "0 < src_f C" and A: "src_array S (src_f C) s"
    and P: "src_coded (data_disk_num s) (disk_total_num s) g (src_f C) S (disk_block_size s) (content s)"
    and F: "set F \<subseteq> set (disk_ids s)" "int (length F) \<le> disk_total_num s - data_disk_num s"
    and d: "0 \<le> d" "d < data_disk_num s" and b: "0 \<le> b" "b < S * src_f C"
    and sz: "0 < sz" "0 \<le> p" "p + sz \<le> disk_block_size s" "length buf = nat sz"
  defines "blk \<equiv> src_data (src_f C) (disk_block_size s) (content s) b d"
  shows "src_rs_decode C d buf sz (b * disk_block_size s + p) (fail_disks F s) = Some (sz,
    if d \<notin> set F then take (nat sz) (drop (nat p) blk)
    else int_bytes sz (if src_group_good (src_f C) (disk_total_num s) F d b then take (nat sz) blk
                       else take (nat sz) (drop (nat p) blk)), fail_disks F s)"
proof -
  let ?k = "data_disk_num s" and ?n = "disk_total_num s" and ?bs = "disk_block_size s" and ?f = "src_f C"
  let ?t = "fail_disks F s" and ?r = "b + b div src_f C" and ?off = "b * disk_block_size s + p"
  let ?places = "src_places ?f ?n (nat ?f) (d, ?r)" and ?v = "src_data ?f ?bs (content s) b"
  note a = src_arrayD [OF A] and r = src_rows_range [OF f b]
  have dn: "d < ?n" using d k by simp
  have rs: "rs_ok ?k (?n - ?k) g (src_code C)" by (rule src_made_ok [OF C k])
  have nd: "distinct (map (dev_name s) (disk_ids s))" using A by (simp add: src_array_def)
  note fl = fail_disks_fields [OF F(1) nd]
  have sb: "p < ?bs" "sz \<le> ?bs" "nat p + nat sz \<le> nat ?bs" using sz by linarith+
  have mm: "nat sz \<le> nat ?bs - nat p" using sb(3) by linarith
  have st: "disk_status ?t i = 0 \<longleftrightarrow> i \<notin> set F" if "0 \<le> i" "i < ?n" for i using a(5) [OF that] by (simp add: fl(4))
  note o = src_offset [OF a(1,3) f b sz(2) sb(1)]
  have rb: "0 \<le> ?r * ?bs" using r a(1) by simp
  have i: "?r * ?bs + ?bs \<le> S * (?f + 1) * ?bs" by (rule i32_row(3) [OF a(1,3) r(5,6)])
  have len: "?r * ?bs + ?bs \<le> int (length (content s q))" if "0 \<le> q" "q < ?n" for q
    using i a(4) [OF that] by simp
  have nth: "content s q ! (nat (?r * ?bs + p) + j) = ?v q ! (nat p + j)" if "0 \<le> q" "q < ?n" "j < nat sz" for q j
  proof -
    have jb: "nat p + j < nat ?bs" using that sb by linarith
    have e: "nat (?r * ?bs) + (nat p + j) = nat (?r * ?bs + p) + j" using rb sz by linarith
    show ?thesis unfolding src_data_def e [symmetric]
      by (rule nth_disk_blk [where v = "content s" and p = q, OF a(1) r(5) len [OF that(1,2)] jb, symmetric])
  qed
  have lv: "length (?v q) = nat ?bs" if "0 \<le> q" "q < ?n" for q
    unfolding src_data_def by (rule length_disk_blk [where v = "content s" and p = q, OF a(1) r(5) len [OF that]])
  show ?thesis
  proof (cases "d \<in> set F")
    case False
    have "nc_readDisk d buf sz (?r * ?bs + p) ?t = (sz, take (nat sz) (drop (nat (?r * ?bs + p)) (content ?t d)), ?t)"
      by (rule nc.rd_buf) (use sz rb sb len [OF d(1) dn] fl(5) [OF False] in auto)
    moreover have "take (nat sz) (drop (nat (?r * ?bs + p)) (content s d)) = take (nat sz) (drop (nat p) blk)"
    proof -
      have x: "nat (?r * ?bs + p) \<le> length (content s d)" "nat sz \<le> length (content s d) - nat (?r * ?bs + p)"
        using len [OF d(1) dn] sz rb by linarith+
      show ?thesis
        by (rule nth_equalityI)
          (use x mm sb(3) nth [OF d(1) dn] lv [OF d(1) dn] in \<open>simp_all add: blk_def min_absorb2\<close>)
    qed
    ultimately show ?thesis
      using False f st [OF d(1) dn] fl(2,5) by (simp add: src_rs_decode_def Let_def o)
  next
    case lost: True
    let ?g = "src_group_good ?f ?n F d b"
    have dt: "disk_status ?t d = 1" using lost by (simp add: fl(4))
    have pr: "0 \<le> x \<and> x < ?n \<and> 0 \<le> q \<and> q < S * (?f + 1)" if "(x, q) \<in> set ?places" for x q
      using src_places_good(2) [OF f b d(1) dn] that by (auto simp: list_all_iff)
    have "list_all (\<lambda>(x, q). disk_status ?t x = 0) ?places = list_all (\<lambda>(x, q). x \<notin> set F) ?places"
    proof (rule list_all_cong [OF refl])
      fix y assume y: "y \<in> set ?places"
      obtain x q where "y = (x, q)" by fastforce
      then show "(case y of (x, q) \<Rightarrow> disk_status ?t x = 0) = (case y of (x, q) \<Rightarrow> x \<notin> set F)"
        using y pr [of x q] st [of x] by simp
    qed
    then have good: "list_all (\<lambda>(x, q). disk_status ?t x = 0) ?places = ?g"
      using src_places_good(1) [OF f b d(1) dn] by simp
    show ?thesis
    proof (cases ?g)
      case True
      have gp: "x \<notin> set F" if "(x, q) \<in> set ?places" for x q
        using that True src_places_good(1) [OF f b d(1) dn, of F] by (auto simp: list_all_iff)
      have "src_rs_decode C d buf sz ?off ?t = Some (sz, int_bytes sz (take (nat sz) (?v d)), ?t)"
      proof (rule src_decode_group [where s = ?t and v = "content s", unfolded fl(1,2),
            OF f a(1,3) b d(1) dn _ src_codedD(1) [OF P] a(4) _ sz])
        show "disk_status ?t d \<noteq> 0" using dt by simp
        show "disk_status ?t x = 0 \<and> content ?t x = content s x" if "(x, q) \<in> set ?places" for x q
          using pr [OF that] gp [OF that] st [of x] fl(5) by simp
      qed
      then show ?thesis using lost True by (simp add: blk_def)
    next
      case False
      have T: "galois_ok (rs_tables (src_code C))" "bytes_in ((?n - ?k) * ?k) g"
        "mds ?k (?k + (?n - ?k)) (dist_rows ?k (ent ?k g))" using rs by (auto simp: rs_ok_def)
      have er: "rs_erased ?t i = 0 \<longleftrightarrow> i \<notin> set F" if "0 \<le> i" "i < ?n" for i
        using a(5) [OF that] by (simp add: rs_erased_def fl(4))
      have "filter (\<lambda>i. rs_erased ?t i = 0) [0..?k + (?n - ?k) - 1] = filter (\<lambda>i. i \<notin> set F) (disk_ids s)"
        using er by (intro filter_cong) auto
      then have cnt: "?k \<le> int (length (filter (\<lambda>i. rs_erased ?t i = 0) [0..?k + (?n - ?k) - 1]))"
        using good_count [OF F] k by simp
      obtain dec dm where dm: "jerasure_make_decoding_matrix (rs_tables (src_code C)) ?k (?n - ?k) g (rs_erased ?t)
          (int_junk (src_code C)) (int_junk (src_code C)) = Some (0, dec, dm)" "length dm = nat ?k"
        "\<And>i. 0 \<le> i \<Longrightarrow> i < ?k \<Longrightarrow> 0 \<le> dec (?k * d + i) \<and> dec (?k * d + i) < 256 \<and>
           0 \<le> dm ! nat i \<and> dm ! nat i < ?k + (?n - ?k) \<and> rs_erased ?t (dm ! nat i) = 0"
        "\<And>v len a. rs_parity_ok ?k (?n - ?k) g len v \<Longrightarrow> a < len \<Longrightarrow>
           xsum (\<lambda>i. gmul (word_of_int (dec (?k * d + i))) (v (dm ! nat i) ! a)) [0..?k - 1] = v d ! a"
        by (rule rs_solve [OF T(1) k(1) T(2,3) cnt d]) blast
      let ?xs = "map (\<lambda>i. (dec (?k * d + i), dm ! nat i)) [0..?k - 1]"
      have z: "zip (map (\<lambda>i. dec (?k * d + i)) [0..?k - 1]) dm = ?xs" by (rule zip_upto [OF dm(2)])
      have dr: "0 \<le> dm ! nat i" "dm ! nat i < ?n" "dm ! nat i \<notin> set F" if "0 \<le> i" "i < ?k" for i
        using dm(3) [OF that] er [of "dm ! nat i"] by auto
      have l0: "0 \<le> ?r * ?bs + p" using rb sz by simp
      have "rs_sum (rs_tables (src_code C)) sz (?r * ?bs + p) ?xs (zeros (nat sz)) (zeros (nat sz)) ?t =
        (map (\<lambda>j. if j < 4 * (nat sz div 4)
          then zeros (nat sz) ! j XOR xsum (\<lambda>(e, dev). gmul (word_of_int e) (content ?t dev ! (nat (?r * ?bs + p) + j))) ?xs
          else zeros (nat sz) ! j) [0..<nat sz], ?t)"
      proof (rule rs_sum_ok [OF T(1) sz(1) l0])
        fix e dev assume "(e, dev) \<in> set ?xs"
        then obtain i where i: "0 \<le> i" "i < ?k" "e = dec (?k * d + i)" "dev = dm ! nat i" by auto
        show "0 \<le> e \<and> e < 256 \<and> ?r * ?bs + p + sz \<le> int (length (content ?t dev))"
          using dm(3) [OF i(1,2)] dr [OF i(1,2)] len [of dev] fl(5) [of dev] i(3,4) sz(3) by simp
      qed simp_all
      also have "\<dots> = (int_bytes sz (take (nat sz) (drop (nat p) blk)), ?t)"
      proof -
        have "xsum (\<lambda>(e, dev). gmul (word_of_int e) (content ?t dev ! (nat (?r * ?bs + p) + j))) ?xs =
            take (nat sz) (drop (nat p) blk) ! j" if j: "j < nat sz" for j
        proof -
          have jb: "nat p + j < nat ?bs" using j sb by linarith
          have "xsum (\<lambda>(e, dev). gmul (word_of_int e) (content ?t dev ! (nat (?r * ?bs + p) + j))) ?xs =
              xsum (\<lambda>i. gmul (word_of_int (dec (?k * d + i))) (?v (dm ! nat i) ! (nat p + j))) [0..?k - 1]"
            unfolding xsum_map
          proof (rule xsum_cong [OF refl])
            fix i assume "i \<in> set [0..?k - 1]"
            then have i: "0 \<le> i" "i < ?k" by auto
            show "(case (dec (?k * d + i), dm ! nat i) of (e, dev) \<Rightarrow>
                gmul (word_of_int e) (content ?t dev ! (nat (?r * ?bs + p) + j))) =
              gmul (word_of_int (dec (?k * d + i))) (?v (dm ! nat i) ! (nat p + j))"
              using fl(5) [OF dr(3) [OF i]] nth [OF dr(1,2) [OF i] j] by simp
          qed
          also have "\<dots> = ?v d ! (nat p + j)" by (rule dm(4) [OF src_codedD(2) [OF P b] jb])
          also have "\<dots> = take (nat sz) (drop (nat p) blk) ! j"
            using j jb lv [OF d(1) dn] by (simp add: blk_def)
          finally show ?thesis .
        qed
        then show ?thesis by (simp add: int_bytes_def cong: map_cong if_cong)
      qed
      finally have sum: "rs_sum (rs_tables (src_code C)) sz (?r * ?bs + p) ?xs (zeros (nat sz)) (zeros (nat sz)) ?t =
        (int_bytes sz (take (nat sz) (drop (nat p) blk)), ?t)" .
      have b0: "overwrite buf 0 (zeros (nat sz)) = zeros (nat sz)" using sz by (simp add: overwrite_def)
      note loc = rs_location [OF a(1) o(6,7), unfolded o]
      show ?thesis
        using lost False f dt C(2) dm(1) good fl(1-3) sum
        by (simp add: src_rs_decode_def Let_def b0 z loc o)
    qed
  qed
qed

theorem src_rs_degraded_read_witness:
  "case src_rs_new no_tables (\<lambda>_. 0) src_config (fresh_src 5 3 4 2 2) of None \<Rightarrow> False
   | Some C \<Rightarrow> map_option (\<lambda>r. fst (snd r)) (src_rs_decode C 0 [1, 1, 1, 1] 4 4 (fail_disks [0, 3] (fresh_src 5 3 4 2 2))) =
       Some (zeros 4)"
proof -
  let ?s = "fresh_src 5 3 4 2 2"
  obtain C g where C: "src_rs_new no_tables (\<lambda>_. 0) src_config ?s = Some C"
    "generator_matrix (src_code C) = Some g" "src_f C = 2"
    by (rule src_new_fresh [of 3 5 4 2 2]) simp_all
  have z: "src_data 2 4 (content ?s) 1 0 = zeros 4"
    using src_blk_fresh [of 4 1 2 2 0 5 3] by (simp add: src_data_def)
  have "int_bytes 4 (zeros 4) = zeros 4" by (rule int_bytes_id) simp_all
  then show ?thesis
    using src_rs_degraded_read [of no_tables "\<lambda>_. 0" src_config ?s C g 2 "[0, 3]" 0 1 4 0 "[1, 1, 1, 1]"] C z
      src_array_fresh [of 4 2 2 5 3] src_coded_fresh [of 4 2 3 5 g 2]
    by simp
qed

section \<open>Recovery\<close>

text \<open>Disk \<open>d\<close> is lost and replaced; \<open>w\<close> is what the disks held.\<close>

definition src_replaced :: "int \<Rightarrow> int \<Rightarrow> int \<Rightarrow> int \<Rightarrow> int \<Rightarrow> (int \<Rightarrow> byte list) \<Rightarrow> sys \<Rightarrow> bool" where
  "src_replaced f n S bs d w s \<longleftrightarrow> 0 < bs \<and> 4 dvd bs \<and> 0 \<le> S \<and> S * (f + 1) * bs < 2147483648 \<and>
     disk_total_num s = n \<and> disk_block_size s = bs \<and> disk_status s d \<noteq> 0 \<and>
     int (length (content s d)) = S * (f + 1) * bs \<and>
     list_all (\<lambda>p. int (length (w p)) = S * (f + 1) * bs \<and> (p \<noteq> d \<longrightarrow> disk_status s p = 0 \<and> content s p = w p)) [0..n - 1]"

lemma src_replacedD:
  assumes "src_replaced f n S bs d w s"
  shows "0 < bs" "4 dvd bs" "S * (f + 1) * bs < 2147483648" "disk_total_num s = n" "disk_block_size s = bs"
    "disk_status s d \<noteq> 0" "int (length (content s d)) = S * (f + 1) * bs" "0 \<le> S"
    "\<And>p. 0 \<le> p \<Longrightarrow> p < n \<Longrightarrow> int (length (w p)) = S * (f + 1) * bs"
    "\<And>p. 0 \<le> p \<Longrightarrow> p < n \<Longrightarrow> p \<noteq> d \<Longrightarrow> disk_status s p = 0 \<and> content s p = w p"
  using assms by (auto simp: src_replaced_def list_all_iff)

lemma nth_src_back: "0 < n \<Longrightarrow> 0 \<le> d \<Longrightarrow> src_back n m (d, x) = map (\<lambda>j. ((d + 1 + int j) mod n, x - 1 - int j)) [0..<m]"
proof (induction m arbitrary: d x)
  case (Suc m)
  have "((d + 1) mod n + 1 + int j) mod n = (d + 1 + int (Suc j)) mod n" for j
  proof -
    have "((d + 1) mod n + (1 + int j)) mod n = (d + 1 + (1 + int j)) mod n" by (rule mod_add_left_eq)
    then show ?thesis by (simp add: add.assoc)
  qed
  moreover have "(d + 1) smod n = (d + 1) mod n" using Suc.prems by (intro smod_nonneg) auto
  ultimately show ?case
    using Suc.prems Suc.IH [of "(d + 1) mod n" "x - 1"]
    by (simp add: Let_def upt_conv_Cons map_Suc_upt [symmetric] comp_def algebra_simps del: upt_Suc)
qed simp

lemma src_back_rows:
  assumes "0 < n" "0 \<le> d" "0 < f"
  shows "src_back n (nat f) (d, t * (f + 1) + f) = map (\<lambda>q. (src_disk f n d q, t * (f + 1) + q)) (rev [0..f - 1])"
proof (rule nth_equalityI)
  fix j assume "j < length (src_back n (nat f) (d, t * (f + 1) + f))"
  then have j: "j < nat f" by (simp add: nth_src_back assms)
  have i: "nat f - Suc j < nat f" "int (nat f - Suc j) = f - 1 - int j" using j by linarith+
  have "rev [0..f - 1] ! j = f - 1 - int j" using j i assms by (simp add: rev_nth)
  moreover have "d + 1 + int j = d + f - (f - 1 - int j)" by simp
  ultimately show "src_back n (nat f) (d, t * (f + 1) + f) ! j =
      map (\<lambda>q. (src_disk f n d q, t * (f + 1) + q)) (rev [0..f - 1]) ! j"
    using j assms by (simp add: nth_src_back src_disk_def add.assoc)
qed (use assms in \<open>simp add: nth_src_back\<close>)

text \<open>The sum of the blocks of a group.\<close>

lemma src_xor_blocks_ok:
  assumes bs: "0 < bs" "4 dvd bs" "M * bs < 2147483648"
    and h: "\<And>p q. (p, q) \<in> set places \<Longrightarrow> 0 \<le> q \<and> q < M \<and> int (length (content s p)) = M * bs"
    and l: "disk_block_size s = bs" "length bc = nat bs" "length buf = nat bs"
  shows "\<exists>bc'. length bc' = nat bs \<and> src_xor_blocks bs places bc buf s =
    (bc', map (\<lambda>j. buf ! j XOR xsum (\<lambda>(p, q). disk_blk bs (content s) p q ! j) places) [0..<nat bs], s)"
  using h l
proof (induction places arbitrary: bc buf)
  case Nil
  then show ?case by (auto intro: nth_equalityI)
next
  case (Cons x places)
  obtain p q where x: "x = (p, q)" by fastforce
  have q: "0 \<le> q" "q < M" "int (length (content s p)) = M * bs" using Cons.prems(1) [of p q] x by auto
  note i = i32_row [OF bs(1,3) q(1,2)]
  let ?t = "disk_blk bs (content s) p q"
  have fit: "q * disk_block_size s + disk_block_size s \<le> int (length (content s p))" using i(3) q(3) Cons.prems(2) by simp
  have lt: "length ?t = nat bs"
    by (rule length_disk_blk [where v = "content s" and p = p]) (use bs q fit Cons.prems(2) in simp_all)
  have "nc_readDisk p bc bs (q * disk_block_size s) s = (bs, take (nat bs) (disk_blk (disk_block_size s) (content s) p q), s)"
    by (rule blk_rd [OF bs(1) _ q(1) fit]) (use Cons.prems in simp_all)
  then have r: "nc_readDisk p bc bs (q * bs) s = (bs, ?t, s)" using Cons.prems(2) lt by simp
  have x4: "xor_ints (heap_junk s) (nat bs) buf ?t = xor_into (heap_junk s) (nat bs) buf ?t"
    by (rule xor_ints_all) (use bs in auto)
  let ?b = "xor_into (heap_junk s) (nat bs) buf ?t"
  have b: "?b ! j = buf ! j XOR ?t ! j" if "j < nat bs" for j
    using that Cons.prems lt by (simp add: nth_xor_into)
  have lb: "length ?b = nat bs" using Cons.prems by simp
  have "\<exists>bc'. length bc' = nat bs \<and> src_xor_blocks bs places ?t ?b s =
    (bc', map (\<lambda>j. ?b ! j XOR xsum (\<lambda>(p, q). disk_blk bs (content s) p q ! j) places) [0..<nat bs], s)"
    by (rule Cons.IH [OF _ Cons.prems(2) lt lb]) (use Cons.prems(1) in auto)
  then obtain bc' where bc': "length bc' = nat bs" "src_xor_blocks bs places ?t ?b s =
    (bc', map (\<lambda>j. ?b ! j XOR xsum (\<lambda>(p, q). disk_blk bs (content s) p q ! j) places) [0..<nat bs], s)"
    by (elim exE conjE) (rule that)
  have "src_xor_blocks bs (x # places) bc buf s = src_xor_blocks bs places ?t ?b s" by (simp add: x i(2) r x4)
  also have "\<dots> = (bc', map (\<lambda>j. buf ! j XOR xsum (\<lambda>(p, q). disk_blk bs (content s) p q ! j) (x # places)) [0..<nat bs], s)"
    unfolding bc'(2) using b by (simp add: x xor.assoc)
  finally show ?case using bc'(1) by blast
qed

text \<open>Writing a block of the new disk.\<close>

lemma src_put:
  assumes R: "src_replaced f n S bs d w s" and d: "0 \<le> d" "d < n" and r: "0 \<le> r" "r < S * (f + 1)" and x: "length x = nat bs"
  defines "s' \<equiv> snd (nc_writeDisk d x bs (r * bs) s)"
  shows "src_replaced f n S bs d w s'" "frame s' = frame s" "\<And>p. p \<noteq> d \<Longrightarrow> content s' p = content s p"
    "\<And>r'. 0 \<le> r' \<Longrightarrow> r' < S * (f + 1) \<Longrightarrow> disk_blk bs (content s') d r' = (if r' = r then x else disk_blk bs (content s) d r')"
proof -
  note h = src_replacedD [OF R]
  have fit: "q * disk_block_size s + disk_block_size s \<le> int (length (content s d))" if "0 \<le> q" "q < S * (f + 1)" for q
    using i32_row(3) [OF h(1,3) that] h(5,7) by simp
  have sb: "bs \<le> disk_block_size s" "nat bs \<le> length x" using h(5) x by simp_all
  note w = blk_wr [OF h(1) sb(1) r(1) sb(2) fit [OF r], unfolded h(5), folded s'_def]
  have rb: "0 \<le> r * bs" using r h(1) by simp
  have rf: "r * bs + bs \<le> int (length (content s d))" using fit [OF r] h(5) by simp
  show f: "frame s' = frame s" by (rule w(1))
  show c: "content s' p = content s p" if "p \<noteq> d" for p
    using nc.wr_cnt [OF h(1) rb rf sb(2)] that unfolding s'_def by simp
  have lx: "overwrite (disk_blk bs (content s) d r) 0 (take (nat bs) x) = x"
  proof -
    have "length (disk_blk bs (content s) d r) = nat bs"
      by (rule length_disk_blk [where v = "content s" and p = d, OF h(1) r(1) rf])
    then show ?thesis using x by (simp add: overwrite_def)
  qed
  show "disk_blk bs (content s') d r' = (if r' = r then x else disk_blk bs (content s) d r')"
    if "0 \<le> r'" "r' < S * (f + 1)" for r'
    using w(3) [OF that(1), of d] fit [OF that] h(5) lx by simp
  show "src_replaced f n S bs d w s'"
    using R w(2) [of d] c unfolding src_replaced_def by (auto simp: frame_eqD [OF f] list_all_iff)
qed

lemma mod_other:
  assumes "0 \<le> d" "d < n" "e \<noteq> 0" "- n < e" "e < (n :: int)"
  shows "(d + e) mod n \<noteq> d"
proof
  assume "(d + e) mod n = d"
  then have "(d + e) mod n = d mod n" using assms by simp
  then have "n dvd e" using mod_eq_dvd_iff [of "d + e" n d] by simp
  then show False using zdvd_not_zless [of e n] zdvd_not_zless [of "- e" n] assms by (cases "0 < e") auto
qed

text \<open>One round of the loop: the block, and behind the last one of a group the check block.\<close>

lemma src_rebuild_round:
  assumes R: "src_replaced f n S bs d w s" and f: "src_f C = f" "0 < f" "f < n" and d: "0 \<le> d" "d < n"
    and P: "src_checks_ok f n S bs w" and i: "0 \<le> i" "i < S * f" and l: "length buf = nat bs" "length bc = nat bs"
  obtains s' buf' bc' where "\<And>js. src_rs_rebuild C d bs (i # js) buf bc s = src_rs_rebuild C d bs js buf' bc' s'"
    "length buf' = nat bs" "length bc' = nat bs" "src_replaced f n S bs d w s'" "frame s' = frame s"
    "\<And>p. p \<noteq> d \<Longrightarrow> content s' p = content s p"
    "\<And>r. 0 \<le> r \<Longrightarrow> r < S * (f + 1) \<Longrightarrow> disk_blk bs (content s') d r =
      (if r = i + i div f \<or> i mod f = f - 1 \<and> r = i div f * (f + 1) + f then disk_blk bs w d r else disk_blk bs (content s) d r)"
proof -
  let ?t = "i div f" and ?q = "i mod f" and ?M = "S * (f + 1)"
  let ?chk = "?t * (f + 1) + f" and ?last = "(i + 1) smod f = 0"
  note h = src_replacedD [OF R] and r = src_rows_range [OF f(2) i]
  have n: "0 < n" using d by simp
  have it: "i = ?t * f + ?q" by simp
  have last: "?last \<longleftrightarrow> ?q = f - 1"
  proof -
    have "(i + 1) smod f = (i + 1) mod f" by (rule smod_nonneg) (use i f in auto)
    also have "\<dots> = (?q + 1) mod f" by (rule mod_add_left_eq [symmetric])
    also have "\<dots> = (if ?q = f - 1 then 0 else ?q + 1)" using r by (simp add: mod_pos_pos_trivial)
    finally show ?thesis using r(3) by (simp split: if_splits)
  qed
  have chk: "i + (i + 1) sdiv f = ?chk" if "?q = f - 1"
  proof -
    have e: "i + 1 = (?t + 1) * f" using it that by (simp add: distrib_right)
    have "(i + 1) sdiv f = (i + 1) div f" using i f by simp
    also have "\<dots> = ?t + 1" unfolding e using f by simp
    finally show ?thesis using it that by (simp add: distrib_left)
  qed
  note a1 = i32_row [OF h(1,3) r(7,8)]
  have z0: "overwrite buf 0 (zeros (nat bs)) = zeros (nat bs)" using l by (simp add: overwrite_def)
  obtain bc1 b1 s1 where s1: "(if ?last
      then let check = i + (i + 1) sdiv f;
               (buf_code, buf, s) = src_xor_blocks bs (src_back n (nat f) (d, check)) bc (zeros (nat bs)) s;
               (retstat, s) = nc_writeDisk d buf bs (i32 (check * bs)) s
           in (buf_code, buf, s)
      else (bc, zeros (nat bs), s)) = (bc1, b1, s1)"
    and o1: "length bc1 = nat bs" "length b1 = nat bs" "src_replaced f n S bs d w s1" "frame s1 = frame s"
      "\<And>p. p \<noteq> d \<Longrightarrow> content s1 p = content s p"
      "\<And>r. 0 \<le> r \<Longrightarrow> r < ?M \<Longrightarrow> disk_blk bs (content s1) d r =
        (if ?q = f - 1 \<and> r = ?chk then disk_blk bs w d r else disk_blk bs (content s) d r)"
  proof (cases "?q = f - 1")
    case False
    show ?thesis by (rule that [of bc "zeros (nat bs)" s]) (use False last R l in auto)
  next
    case True
    let ?pl = "map (\<lambda>q. (src_disk f n d q, ?t * (f + 1) + q)) (rev [0..f - 1])"
    have pl: "src_back n (nat f) (d, ?chk) = ?pl" by (rule src_back_rows [OF n d(1) f(2)])
    have dq: "0 \<le> src_disk f n d q" "src_disk f n d q < n" "src_disk f n d q \<noteq> d" if "0 \<le> q" "q < f" for q
      using mod_other [OF d, of "f - q"] that f n by (simp_all add: src_disk_def add_diff_eq)
    have cnt: "0 \<le> q \<and> q < ?M \<and> int (length (content s p)) = ?M * bs" if m: "(p, q) \<in> set ?pl" for p q
    proof -
      obtain q' where q': "0 \<le> q'" "q' < f" "p = src_disk f n d q'" "q = ?t * (f + 1) + q'"
        using m by fastforce
      have "q' < f + 1" using q' by simp
      from group_rows [OF r(1,2) q'(1) this] show ?thesis
        using h(9,10) [of p] dq [OF q'(1,2)] q'(3,4) by simp
    qed
    obtain bc1 where b1: "length bc1 = nat bs" "src_xor_blocks bs ?pl bc (zeros (nat bs)) s =
        (bc1, map (\<lambda>j. zeros (nat bs) ! j XOR xsum (\<lambda>(p, q). disk_blk bs (content s) p q ! j) ?pl) [0..<nat bs], s)"
      using src_xor_blocks_ok [where buf = "zeros (nat bs)" and places = ?pl, OF h(1-3) cnt h(5) l(2)] by auto
    have fit: "?chk * bs + bs \<le> int (length (w d))" using a1(3) h(9) [OF d] by simp
    have lc: "length (disk_blk bs w d ?chk) = nat bs"
      by (rule length_disk_blk [where v = w and p = d, OF h(1) r(7) fit])
    have x: "map (\<lambda>j. zeros (nat bs) ! j XOR xsum (\<lambda>(p, q). disk_blk bs (content s) p q ! j) ?pl) [0..<nat bs] =
        disk_blk bs w d ?chk" (is "?x = _")
    proof (rule nth_equalityI)
      fix j assume "j < length ?x"
      then have j: "j < nat bs" by simp
      have "xsum (\<lambda>(p, q). disk_blk bs (content s) p q ! j) ?pl =
          xsum (\<lambda>q. disk_blk bs (content s) (src_disk f n d q) (?t * (f + 1) + q) ! j) [0..f - 1]"
        by (simp only: xsum_map xsum_rev case_prod_conv)
      also have "\<dots> = xsum (\<lambda>q. src_data f bs w (?t * f + q) (src_disk f n d q) ! j) [0..f - 1]"
      proof (rule xsum_cong [OF refl])
        fix q assume "q \<in> set [0..f - 1]"
        then have q: "0 \<le> q" "q < f" by auto
        have "?t * f + q + (?t * f + q) div f = ?t * (f + 1) + q" using src_row [of "?t * f + q" f] q by simp
        moreover have "content s (src_disk f n d q) = w (src_disk f n d q)" using h(10) dq [OF q] by simp
        ultimately show "disk_blk bs (content s) (src_disk f n d q) (?t * (f + 1) + q) ! j =
            src_data f bs w (?t * f + q) (src_disk f n d q) ! j" by (simp only: src_data_def disk_blk_def)
      qed
      also have "\<dots> = disk_blk bs w d ?chk ! j"
        using src_checks_okD [OF P r(1,2) d j] by (simp add: src_check_def)
      finally show "?x ! j = disk_blk bs w d ?chk ! j" using j by simp
    qed (use lc in simp)
    define s1 where "s1 = snd (nc_writeDisk d (disk_blk bs w d ?chk) bs (?chk * bs) s)"
    note p = src_put [OF R d r(7,8) lc, folded s1_def]
    show ?thesis
    proof (rule that [of bc1 "disk_blk bs w d ?chk" s1])
      show "(if ?last then let check = i + (i + 1) sdiv f;
               (buf_code, buf, s) = src_xor_blocks bs (src_back n (nat f) (d, check)) bc (zeros (nat bs)) s;
               (retstat, s) = nc_writeDisk d buf bs (i32 (check * bs)) s
           in (buf_code, buf, s)
         else (bc, zeros (nat bs), s)) = (bc1, disk_blk bs w d ?chk, s1)"
        using True last chk [OF True] b1(2) x a1(2)
        by (cases "nc_writeDisk d (disk_blk bs w d ?chk) bs (?chk * bs) s") (simp add: Let_def pl s1_def)
    qed (use p b1(1) lc True in auto)
  qed
  note h1 = src_replacedD [OF o1(3)]
  note a2 = i32_row [OF h(1,3) r(5,6)]
  have bs0: "0 < disk_block_size s1" "S * (src_f C + 1) * disk_block_size s1 < 2147483648" using h1 f by simp_all
  let ?D = "src_data f bs w i d"
  have fit: "(i + ?t) * bs + bs \<le> int (length (w d))" using a2(3) h(9) [OF d] by simp
  have lD: "length ?D = nat bs"
    unfolding src_data_def by (rule length_disk_blk [where v = w and p = d, OF h(1) r(5) fit])
  have good: "src_group_good f n [d] d i"
  proof -
    have "(d + ?q - q) mod n \<noteq> d" if "0 \<le> q" "q \<le> f" "q \<noteq> ?q" for q
      using mod_other [OF d, of "?q - q"] that r(3,4) f by (simp add: add_diff_eq)
    then show ?thesis by (auto simp: src_group_good_def list_all_iff)
  qed
  have dec: "src_rs_decode C d b1 bs (i * bs) s1 = Some (bs, ?D, s1)"
  proof -
    have "src_rs_decode C d b1 bs (i * disk_block_size s1 + 0) s1 =
        Some (bs, int_bytes bs (take (nat bs) (src_data (src_f C) (disk_block_size s1) w i d)), s1)"
    proof (rule src_decode_group [where S = S])
      fix x q assume m: "(x, q) \<in> set (src_places (src_f C) (disk_total_num s1) (nat (src_f C)) (d, i + i div src_f C))"
      have "x \<noteq> d" "0 \<le> x" "x < n"
        using src_places_good(1) [OF f(2) i d, of "[d]"] src_places_good(2) [OF f(2) i d] good m unfolding f(1) h1(4) by (auto simp: list_all_iff)
      then show "disk_status s1 x = 0 \<and> content s1 x = w x" by (intro h1(10))
    qed (use f d i h1 P o1(2) bs0 in auto)
    moreover have "int_bytes bs ?D = ?D" by (rule int_bytes_id [OF h(2) lD])
    ultimately show ?thesis using lD h1(5) f(1) by simp
  qed
  define s2 where "s2 = snd (nc_writeDisk d ?D bs ((i + ?t) * bs) s1)"
  note p = src_put [OF o1(3) d r(5,6) lD, folded s2_def]
  have ib: "0 \<le> i * bs" "i * bs < 2147483648"
    using src_offset(6,7) [OF h(1,3) f(2) i order_refl h(1)] by simp_all
  have run: "src_rs_rebuild C d bs (i # js) buf bc s = src_rs_rebuild C d bs js ?D bc1 s2" for js
  proof -
    have io: "i32 (i * bs) = i * bs" by (rule i32_id) (use ib in linarith)+
    have so: "i * bs + i * bs sdiv bs sdiv f * bs = (i + ?t) * bs"
      using src_offset(1,2,3) [OF h(1,3) f(2) i order_refl h(1)] by simp
    have f0: "f \<noteq> 0" using f by simp
    obtain ret where wr: "nc_writeDisk d ?D bs ((i + ?t) * bs) s1 = (ret, s2)"
      by (cases "nc_writeDisk d ?D bs ((i + ?t) * bs) s1") (simp add: s2_def)
    show ?thesis
      by (simp only: src_rs_rebuild.simps(2) Let_def f(1) f0 if_False z0 h(4) s1 [unfolded Let_def] prod.case io h(5) h1(5)
          so dec option.case wr)
  qed
  show ?thesis
  proof (rule that [OF run lD o1(1) p(1)])
    show "frame s2 = frame s" using p(2) o1(4) by simp
    show "\<And>p. p \<noteq> d \<Longrightarrow> content s2 p = content s p" using p(3) o1(5) by simp
    show "disk_blk bs (content s2) d r = (if r = i + ?t \<or> ?q = f - 1 \<and> r = ?chk then disk_blk bs w d r else disk_blk bs (content s) d r)"
      if "0 \<le> r" "r < ?M" for r
      using p(4) [OF that] o1(6) [OF that] by (auto simp: src_data_def)
  qed
qed

lemma div_succ:
  assumes "0 < (f :: int)"
  shows "(i + 1) div f = (if i mod f = f - 1 then i div f + 1 else i div f)"
proof -
  have q: "0 \<le> i mod f" "i mod f < f" using assms by simp_all
  have "(i + 1) div f = (i div f * f + (i mod f + 1)) div f"
    by (rule arg_cong [of _ _ "\<lambda>x. x div f"]) (use div_mult_mod_eq [of i f] in linarith)
  also have "\<dots> = i div f + (i mod f + 1) div f" by (rule div_mult_self3) (use assms in simp)
  also have "(i mod f + 1) div f = (if i mod f = f - 1 then 1 else 0)"
    using q by (auto simp: div_pos_pos_trivial)
  finally show ?thesis by simp
qed

lemma src_rebuild_all:
  assumes f: "src_f C = f" "0 < f" "f < n" and d: "0 \<le> d" "d < n" and P: "src_checks_ok f n S bs w"
    and R: "src_replaced f n S bs d w s" and i: "0 \<le> i" "i \<le> S * f" and l: "length buf = nat bs" "length bc = nat bs"
  shows "\<exists>s'. src_rs_rebuild C d bs [i..S * f - 1] buf bc s = Some s' \<and> src_replaced f n S bs d w s' \<and>
    (\<forall>p. p \<noteq> d \<longrightarrow> content s' p = content s p) \<and>
    (\<forall>r. 0 \<le> r \<and> r < S * (f + 1) \<longrightarrow>
      disk_blk bs (content s') d r = (if i + i div f \<le> r then disk_blk bs w d r else disk_blk bs (content s) d r))"
  using R i l
proof (induction "nat (S * f - i)" arbitrary: i s buf bc)
  case 0
  then have "i = S * f" by simp
  moreover have "S * f + S * f div f = S * (f + 1)" using f by (simp add: distrib_left)
  ultimately show ?case using 0 by auto
next
  case (Suc m)
  have lt: "i < S * f" using Suc.hyps(2) by linarith
  obtain s1 b1 c1 where r: "\<And>js. src_rs_rebuild C d bs (i # js) buf bc s = src_rs_rebuild C d bs js b1 c1 s1"
    "length b1 = nat bs" "length c1 = nat bs" "src_replaced f n S bs d w s1" "frame s1 = frame s"
    "\<And>p. p \<noteq> d \<Longrightarrow> content s1 p = content s p"
    "\<And>r. 0 \<le> r \<Longrightarrow> r < S * (f + 1) \<Longrightarrow> disk_blk bs (content s1) d r =
      (if r = i + i div f \<or> i mod f = f - 1 \<and> r = i div f * (f + 1) + f then disk_blk bs w d r else disk_blk bs (content s) d r)"
    by (rule src_rebuild_round [OF Suc.prems(1) f d P Suc.prems(2) lt Suc.prems(4,5)]) blast
  have m: "m = nat (S * f - (i + 1))" "0 \<le> i + 1" "i + 1 \<le> S * f" using Suc.hyps(2) Suc.prems(2) lt by linarith+
  from Suc.hyps(1) [OF m(1) r(4) m(2,3) r(2,3)]
  obtain s' where s': "src_rs_rebuild C d bs [i + 1..S * f - 1] b1 c1 s1 = Some s'" "src_replaced f n S bs d w s'"
    "\<forall>p. p \<noteq> d \<longrightarrow> content s' p = content s1 p"
    "\<forall>r. 0 \<le> r \<and> r < S * (f + 1) \<longrightarrow> disk_blk bs (content s') d r =
      (if i + 1 + (i + 1) div f \<le> r then disk_blk bs w d r else disk_blk bs (content s1) d r)"
    by (elim exE conjE) (rule that)
  have u: "[i..S * f - 1] = i # [i + 1..S * f - 1]" using lt by (simp add: upto_rec1)
  have c: "i div f * (f + 1) + f = i + i div f + 1" if "i mod f = f - 1"
    using div_mult_mod_eq [of i f] that by (simp add: distrib_left)
  have "disk_blk bs (content s') d r = (if i + i div f \<le> r then disk_blk bs w d r else disk_blk bs (content s) d r)"
    if "0 \<le> r" "r < S * (f + 1)" for r
  proof (cases "i mod f = f - 1")
    case True
    then have e: "i + 1 + (i + 1) div f = i + i div f + 2" using div_succ [OF f(2), of i] by simp
    show ?thesis using s'(4) [rule_format, of r] r(7) [OF that] that True unfolding e c [OF True] by auto
  next
    case False
    then have e: "i + 1 + (i + 1) div f = i + i div f + 1" using div_succ [OF f(2), of i] by simp
    show ?thesis using s'(4) [rule_format, of r] r(7) [OF that] that False unfolding e by auto
  qed
  then show ?case using s'(1-3) r(1,6) u by auto
qed

text \<open>
  One lost disk, a data disk or a coding disk, is rebuilt from the check blocks alone, its own check blocks
  included, when \<open>src_f\<close> is less than the number of disks; no other disk changes.
\<close>

theorem src_rs_recover_ok:
  assumes f: "0 < src_f C" "src_f C < n" and d: "0 \<le> d" "d < n"
    and P: "src_checks_ok (src_f C) n S bs w" and R: "src_replaced (src_f C) n S bs d w s"
    and m: "disk_size s d = S * src_f C"
  shows "\<exists>s'. src_rs_recover C d s = Some (0, s') \<and> content s' = (content s)(d := w d)"
proof -
  note h = src_replacedD [OF R]
  let ?b = "malloc (heap_junk s) (nat bs)"
  have l: "length ?b = nat bs" by simp
  have "0 \<le> S * src_f C" using h(8) f by simp
  from src_rebuild_all [OF refl f d P R order_refl this l l]
  obtain s' where s': "src_rs_rebuild C d bs [0..S * src_f C - 1] ?b ?b s = Some s'"
    "src_replaced (src_f C) n S bs d w s'" "\<forall>p. p \<noteq> d \<longrightarrow> content s' p = content s p"
    "\<forall>r. 0 \<le> r \<and> r < S * (src_f C + 1) \<longrightarrow> disk_blk bs (content s') d r =
      (if 0 + 0 div src_f C \<le> r then disk_blk bs w d r else disk_blk bs (content s) d r)"
    by (elim exE conjE) (rule that)
  have "content s' d = w d"
    by (rule disk_blk_ext [where v = "content s'" and w = w and d = d, OF h(1) src_replacedD(7) [OF s'(2)] h(9) [OF d]]) (use s'(4) in simp)
  then have "content s' = (content s)(d := w d)" using s'(3) by auto
  then show ?thesis using s'(1) m h(5) by (simp add: src_rs_recover_def Let_def)
qed

theorem src_rs_recover_ok_witness:
  "case src_rs_new no_tables (\<lambda>_. 0) src_config (fresh_src 5 3 4 2 2) of None \<Rightarrow> False
   | Some C \<Rightarrow> map_option (\<lambda>r. content (snd r) 4)
       (src_rs_recover C 4 ((fresh_src 5 3 4 2 2)\<lparr>disk_status := (\<lambda>i. if i = 4 then 1 else 0)\<rparr>)) = Some (zeros 24)"
proof -
  let ?f = "fresh_src 5 3 4 2 2"
  let ?s = "?f\<lparr>disk_status := (\<lambda>i. if i = 4 then 1 else 0)\<rparr>"
  obtain C g where C: "src_rs_new no_tables (\<lambda>_. 0) src_config ?f = Some C"
    "generator_matrix (src_code C) = Some g" "src_f C = 2"
    by (rule src_new_fresh [of 3 5 4 2 2]) simp_all
  have c: "content ?s = content ?f" by (rule content_cong) simp_all
  have "src_replaced 2 5 2 4 4 (content ?f) ?s"
    by (simp add: src_replaced_def c list_all_iff content_fresh_src)
  moreover have "src_checks_ok 2 5 2 4 (content ?f)" using src_coded_fresh [of 4 2 3 5 g 2] by (simp add: src_coded_def)
  moreover have "disk_size ?s 4 = 4" by (simp add: fresh_src_def)
  ultimately show ?thesis
    using src_rs_recover_ok [of C 5 4 2 4 "content ?f" ?s] C by (auto simp: content_fresh_src)
qed

end
