(* ===== verification/Spec2Isabelle.thy ===== *)
theory Spec2Isabelle
  imports FileProps Config Metadata CodingMbr SrcRsRead
begin

text \<open>
  NCFS: a file system on top of an array of disks, with a choice of array codes (\<open>src/src\<close>). A request of
  the kernel arrives at a handler of \<open>filesystem/ncfs.cc\<close>; the handler cuts it into blocks and hands
  each block to the coding layer (\<open>coding/coding_*.cc\<close>, one class per code), which chooses a disk and a
  block, keeps the parity blocks right, and reads and writes the disks through the cache layer
  (\<open>cache/no_cache.cc\<close>) and the storage layer (\<open>storage/blockstorage.cc\<close>). The state all of
  them share is \<open>struct ncfs_state\<close> (\<open>filesystem/filesystem_common.hh\<close>).

  Theories and code:

  \<^item> \<open>Prelude\<close>: C integers (\<open>i32\<close> is the value of an \<open>int\<close> after wrap-around, \<open>sdiv\<close> and \<open>smod\<close> are
    the division of C), bytes as 8-bit words, buffers as lists with \<open>overwrite\<close>, \<open>peek\<close> and \<open>malloc\<close>
    (what lies behind a buffer or was never written is a parameter \<open>junk\<close>), sums over exclusive or.
  \<^item> \<open>NcfsState\<close>: the records of \<open>filesystem_common.hh\<close>; arrays with one entry per disk are functions on
    the disk number, the linked list of deleted blocks is a list. The devices and uninitialised memory
    are extra fields (\<open>sys\<close>).
  \<^item> \<open>FsUtils\<close>: \<open>filesystem_utils.cc\<close>: rounding, health of the disks and operation mode, deleted blocks.
  \<^item> \<open>Storage\<close>, \<open>NoCache\<close>: \<open>DiskRead\<close>, \<open>DiskWrite\<close>, \<open>readDisk\<close>, \<open>writeDisk\<close>; a device that does not answer is
    marked as failed. The interface \<open>disk_store\<close> states what reading returns after writing.
  \<^item> \<open>Alloc\<close>: the loops that choose a block, the same text in every coding class.
  \<^item> \<open>CodingBasic\<close>: JBOD, RAID 0, RAID 1. \<open>XorParity\<close>, \<open>Rebuild\<close>, \<open>CodingRaid45\<close>: RAID 4 and RAID 5.
  \<^item> \<open>ElemHash\<close>, \<open>StripeCode\<close>: what \<open>coding_evenodd.cc\<close>, \<open>coding_rdp.cc\<close> and \<open>coding_mdr1.cc\<close> have in
    common, with the interface \<open>stripe_code\<close>; \<open>Evenodd\<close>, \<open>Rdp\<close>, \<open>MdrMatrix\<close> and \<open>Mdr1\<close>: the classes.
  \<^item> \<open>Gf256\<close>, \<open>Raid6\<close>, \<open>Raid6Read\<close>, \<open>Raid6Write\<close>: the tables of the field and the two RAID 6 classes.
  \<^item> \<open>Galois\<close>, \<open>GfMatrix\<close>, \<open>Jerasure\<close>, \<open>ReedSol\<close>: what the coding classes call of \<open>jerasure/galois.c\<close>,
    \<open>jerasure.c\<close> and \<open>reed_sol.c\<close>, with words of 8 bits: tables, inversion of matrices, the Vandermonde
    matrix; matrices are flat arrays as in the code. \<open>CodingRs\<close>: the class \<open>Coding4RS\<close>.
  \<^item> \<open>DiskBlocks\<close>: blocks of a disk by number. \<open>MbrLayout\<close>, \<open>CodingMbr\<close>: the class \<open>Coding4Mbr\<close>; its blocks are
    the pairs of disks. \<open>CodingSrcRs\<close>, \<open>SrcRsRead\<close>: the class \<open>Coding4SrcRS\<close>, Reed-Solomon with check blocks.
  \<^item> \<open>CodingLayer\<close>: \<open>initializeCodingLayer\<close> and the virtual calls.
  \<^item> \<open>Config\<close>: \<open>config.cc\<close> over the document tree, \<open>readSystemConfig\<close>.
  \<^item> \<open>Metadata\<close>: \<open>ncfs_destroy\<close>, \<open>get_raid_metadata\<close>, and \<open>main\<close> up to \<open>fuse_main\<close>.
  \<^item> \<open>FileLayer\<close>: the handlers that touch file data and the file half of \<open>NoCache\<close>; \<open>None\<close> is a process
    that has ended or a loop that does not end.
  \<^item> \<open>BlockCode\<close>, \<open>FileRead\<close>, \<open>FileWrite\<close>, \<open>FileProps\<close>: the contract between file system and coding layer
    (\<open>block_reader\<close>, \<open>block_code\<close>), its interpretations for RAID 0 and RAID 5, and what follows for files.

  What the lemmas show:

  \<^item> Files: a write at a block boundary refines the abstract write, ends, succeeds exactly when the free
    blocks can take the data, and leaves other files alone; on RAID 5 the file can be read after any one
    disk is lost; deleting a file gives back exactly its blocks; unmounting and mounting restores the
    tables. What a read reports, and what large blocks do, is stated as the code behaves.
  \<^item> Codes: for each class, \<open>encode\<close> stores the data and keeps the parity invariant, \<open>decode\<close> of a lost disk
    returns what the disk held, \<open>recover\<close> rebuilds a replaced disk. Where the code does not do this, the
    theorem says exactly when it does (\<open>..._iff\<close>).
  \<^item> Reed-Solomon: the generator matrix has the property that any \<open>k\<close> devices determine the data, inversion
    succeeds exactly for the regular matrices, so that a data disk can be read while any disks are lost, up
    to the number of coding disks. The MBR code does the same for blocks of which both disks are lost.
    The check blocks of \<open>Coding4SrcRS\<close> alone rebuild any one disk.
  \<^item> Tables: operation mode and health, deleted blocks and their counter, the lists of related blocks of
    EVENODD, RDP and MDR.

  Bounds. A disk has less than 2 GiB (addresses are 32-bit in the code). The theorems on files take
  blocks of 4 to 4096 bytes and files of less than 1 GiB; the table of addresses then fits its 32-bit
  offsets. The theorems on MDR take up to four data disks, where the tables can be evaluated; those on
  EVENODD and RDP any number. The numbering of MBR blocks is for up to 65536 disks, where the numbers are
  \<open>int\<close>s; the library makes matrices for up to 23. The theorems on writing with \<open>Coding4SrcRS\<close> take sizes that are
  multiples of four and \<open>src_f\<close> between 1 and the number of disks. Arrays of a file with deleted blocks are outside
  \<open>block_code\<close>: reusing a block sets back the offset of its disk.

  Not modelled: the write-back cache and its threads (\<open>ncfs_init\<close> always constructs \<open>NoCache\<close>), the
  recovery programs of \<open>utility\<close>, timing and
  printing, reports to the graphical front end, sockets, the XML parser, and the handlers that only pass a
  call to the host. The multi-threaded recovery calls of the modelled classes return 0 and do nothing.
\<close>

end
